(* ===== verification/Prelude.thy ===== *)
theory Prelude
  imports
    Main
    "HOL-Library.Word"
    "HOL-Library.Sublist"
    "HOL-Library.List_Lexorder"
    "HOL-Library.Char_ord"
begin

text \<open>
  What every component shares: the result type, Rust's checked and saturating
  arithmetic on machine words, and Rust's string operations.

  A Rust \<open>str\<close> is the list of its UTF-8 bytes, one \<open>char\<close> per byte. The order on
  such lists (HOL-Library's lexicographic order over \<open>char\<close>) is the order Rust derives
  for \<open>String\<close>. Splitting on an ASCII delimiter works on bytes as it does on code points,
  because no byte of a multi-byte code point is ASCII. Whitespace and control characters
  that are not ASCII are recognised by their UTF-8 encodings.
\<close>

section \<open>Collections of hints\<close>

named_theorems text_simps \<open>equations about the string operations\<close>
named_theorems arith_laws \<open>checked and saturating word arithmetic read as natural numbers\<close>
named_theorems map_laws \<open>the laws of the ordered map\<close>

section \<open>Results\<close>

type_synonym ('e, 'a) result = "'e + 'a"

definition bind_r :: "('e, 'a) result \<Rightarrow> ('a \<Rightarrow> ('e, 'b) result) \<Rightarrow> ('e, 'b) result" where
  "bind_r r f = (case r of Inl e \<Rightarrow> Inl e | Inr a \<Rightarrow> f a)"

lemma bind_r_simps [simp]:
  "bind_r (Inl e) f = Inl e"
  "bind_r (Inr a) f = f a"
  by (simp_all add: bind_r_def)

lemma bind_r_Inr_iff: "bind_r r f = Inr b \<longleftrightarrow> (\<exists>a. r = Inr a \<and> f a = Inr b)"
  by (cases r) auto

definition is_ok :: "('e, 'a) result \<Rightarrow> bool" where
  "is_ok r = (case r of Inl _ \<Rightarrow> False | Inr _ \<Rightarrow> True)"

lemma is_ok_simps [simp]: "is_ok (Inr a)" "\<not> is_ok (Inl e)"
  by (simp_all add: is_ok_def)

lemma is_ok_iff: "is_ok r \<longleftrightarrow> (\<exists>a. r = Inr a)"
  by (cases r) auto

section \<open>Machine words\<close>

type_synonym u8 = "8 word"
type_synonym u32 = "32 word"
type_synonym u64 = "64 word"

definition checked_add :: "'a::len word \<Rightarrow> 'a word \<Rightarrow> 'a word option" where
  "checked_add a b = (if unat a + unat b < 2 ^ LENGTH('a) then Some (a + b) else None)"

definition checked_sub :: "'a::len word \<Rightarrow> 'a word \<Rightarrow> 'a word option" where
  "checked_sub a b = (if b \<le> a then Some (a - b) else None)"

definition checked_mul :: "'a::len word \<Rightarrow> 'a word \<Rightarrow> 'a word option" where
  "checked_mul a b = (if unat a * unat b < 2 ^ LENGTH('a) then Some (a * b) else None)"

definition saturating_add :: "'a::len word \<Rightarrow> 'a word \<Rightarrow> 'a word" where
  "saturating_add a b = (if unat a + unat b < 2 ^ LENGTH('a) then a + b else - 1)"

definition saturating_sub :: "'a::len word \<Rightarrow> 'a word \<Rightarrow> 'a word" where
  "saturating_sub a b = (if b \<le> a then a - b else 0)"

definition saturating_mul :: "'a::len word \<Rightarrow> 'a word \<Rightarrow> 'a word" where
  "saturating_mul a b = (if unat a * unat b < 2 ^ LENGTH('a) then a * b else - 1)"

lemma unat_add_no_wrap:
  fixes a b :: "'a::len word"
  assumes "unat a + unat b < 2 ^ LENGTH('a)"
  shows "unat (a + b) = unat a + unat b"
  using assms by (simp add: unat_word_ariths)

lemma unat_mult_no_wrap:
  fixes a b :: "'a::len word"
  assumes "unat a * unat b < 2 ^ LENGTH('a)"
  shows "unat (a * b) = unat a * unat b"
  using assms by (simp add: unat_word_ariths)

text \<open>A sum that wraps is below its terms; the executable forms compare instead of counting.\<close>

lemma checked_add_code [code]: "checked_add a b = (if a \<le> a + b then Some (a + b) else None)"
  by (simp add: checked_add_def no_olen_add_nat)

lemma saturating_add_code [code]: "saturating_add a b = (if a \<le> a + b then a + b else - 1)"
  by (simp add: saturating_add_def no_olen_add_nat)

lemma checked_add_Some_iff:
  fixes a b c :: "'a::len word"
  shows "checked_add a b = Some c \<longleftrightarrow> unat c = unat a + unat b"
proof
  assume "checked_add a b = Some c"
  then show "unat c = unat a + unat b"
    by (auto simp: checked_add_def unat_add_no_wrap split: if_splits)
next
  assume sum: "unat c = unat a + unat b"
  then have room: "unat a + unat b < 2 ^ LENGTH('a)"
    using unsigned_less [where w = c and 'a = nat] by simp
  then have "unat (a + b) = unat c"
    using sum by (simp add: unat_add_no_wrap)
  then have "a + b = c"
    by (simp only: word_unat_eq_iff)
  with room show "checked_add a b = Some c"
    by (simp add: checked_add_def)
qed

lemma checked_add_None_iff:
  fixes a b :: "'a::len word"
  shows "checked_add a b = None \<longleftrightarrow> 2 ^ LENGTH('a) \<le> unat a + unat b"
  by (auto simp: checked_add_def)

lemma unat_saturating_add [arith_laws]:
  fixes a b :: "'a::len word"
  shows "unat (saturating_add a b) = min (unat a + unat b) (2 ^ LENGTH('a) - 1)"
proof (cases "unat a + unat b < 2 ^ LENGTH('a)")
  case True
  then have "unat a + unat b \<le> 2 ^ LENGTH('a) - 1" by arith
  with True show ?thesis
    by (simp add: saturating_add_def unat_add_no_wrap min_absorb1)
next
  case False
  then show ?thesis
    by (simp add: saturating_add_def unsigned_minus_1_eq_mask mask_eq_exp_minus_1)
qed

lemma unat_saturating_sub [arith_laws]:
  fixes a b :: "'a::len word"
  shows "unat (saturating_sub a b) = unat a - unat b"
  by (simp add: saturating_sub_def unat_sub word_le_nat_alt)

lemma unat_saturating_mul [arith_laws]:
  fixes a b :: "'a::len word"
  shows "unat (saturating_mul a b) = min (unat a * unat b) (2 ^ LENGTH('a) - 1)"
proof (cases "unat a * unat b < 2 ^ LENGTH('a)")
  case True
  then have "unat a * unat b \<le> 2 ^ LENGTH('a) - 1" by arith
  with True show ?thesis
    by (simp add: saturating_mul_def unat_mult_no_wrap min_absorb1)
next
  case False
  then show ?thesis
    by (simp add: saturating_mul_def unsigned_minus_1_eq_mask mask_eq_exp_minus_1)
qed


lemma unat_less_64 [simp]: "unat (w :: u64) < 18446744073709551616"
  using unsigned_less [where w = w and 'a = nat] by simp

lemma unat_less_32 [simp]: "unat (w :: u32) < 4294967296"
  using unsigned_less [where w = w and 'a = nat] by simp

lemma unat_ucast_up [arith_laws]:
  "LENGTH('a::len) \<le> LENGTH('b::len) \<Longrightarrow> unat (ucast (w :: 'a word) :: 'b word) = unat w"
  by (simp add: unsigned_ucast_eq take_bit_nat_eq_self order_less_le_trans [OF unsigned_less])

section \<open>Strings\<close>

subsection \<open>Prefixes and suffixes\<close>

definition strip_prefix :: "'a list \<Rightarrow> 'a list \<Rightarrow> 'a list option" where
  "strip_prefix p s = (if take (length p) s = p then Some (drop (length p) s) else None)"

definition strip_suffix :: "'a list \<Rightarrow> 'a list \<Rightarrow> 'a list option" where
  "strip_suffix q s = map_option rev (strip_prefix (rev q) (rev s))"

definition starts_with :: "'a list \<Rightarrow> 'a list \<Rightarrow> bool" where
  "starts_with p s \<longleftrightarrow> take (length p) s = p"

definition ends_with :: "'a list \<Rightarrow> 'a list \<Rightarrow> bool" where
  "ends_with q s \<longleftrightarrow> starts_with (rev q) (rev s)"

lemma starts_with_iff: "starts_with p s \<longleftrightarrow> (\<exists>r. s = p @ r)"
  by (metis append_eq_conv_conj append_take_drop_id starts_with_def)

lemma strip_prefix_Some_iff: "strip_prefix p s = Some r \<longleftrightarrow> s = p @ r"
  by (auto simp: strip_prefix_def) (metis append_take_drop_id)

lemma strip_prefix_append [simp]: "strip_prefix p (p @ r) = Some r"
  by (simp add: strip_prefix_Some_iff)

lemma strip_prefix_None_iff: "strip_prefix p s = None \<longleftrightarrow> \<not> starts_with p s"
  by (simp add: strip_prefix_def starts_with_def)

lemma strip_suffix_Some_iff: "strip_suffix q s = Some r \<longleftrightarrow> s = r @ q"
proof -
  have "strip_suffix q s = Some r \<longleftrightarrow> strip_prefix (rev q) (rev s) = Some (rev r)"
    by (auto simp: strip_suffix_def)
  also have "\<dots> \<longleftrightarrow> rev s = rev q @ rev r"
    by (rule strip_prefix_Some_iff)
  also have "\<dots> \<longleftrightarrow> s = r @ q"
    by (metis rev_append rev_rev_ident)
  finally show ?thesis .
qed

lemma ends_with_iff: "ends_with q s \<longleftrightarrow> (\<exists>r. s = r @ q)"
  by (metis ends_with_def rev_append rev_rev_ident starts_with_iff)

subsection \<open>Splitting on one byte\<close>

text \<open>Rust's \<open>str::split(c)\<close>: always at least one piece.\<close>

fun split_on :: "'a \<Rightarrow> 'a list \<Rightarrow> 'a list list" where
  "split_on c [] = [[]]"
| "split_on c (x # xs) =
     (if x = c then [] # split_on c xs
      else (case split_on c xs of [] \<Rightarrow> [[x]] | piece # rest \<Rightarrow> (x # piece) # rest))"

fun join_with :: "'a list \<Rightarrow> 'a list list \<Rightarrow> 'a list" where
  "join_with sep [] = []"
| "join_with sep [x] = x"
| "join_with sep (x # y # rest) = x @ sep @ join_with sep (y # rest)"

text \<open>Rust's \<open>split_once(c)\<close> and \<open>rsplit_once(c)\<close>.\<close>

definition split_once :: "'a \<Rightarrow> 'a list \<Rightarrow> ('a list \<times> 'a list) option" where
  "split_once c s =
     (if c \<in> set s then Some (takeWhile (\<lambda>x. x \<noteq> c) s, tl (dropWhile (\<lambda>x. x \<noteq> c) s)) else None)"

definition rsplit_once :: "'a \<Rightarrow> 'a list \<Rightarrow> ('a list \<times> 'a list) option" where
  "rsplit_once c s = map_option (\<lambda>(tail, head). (rev head, rev tail)) (split_once c (rev s))"

lemma split_on_not_Nil [simp]: "split_on c s \<noteq> []"
  by (induction s) (auto split: list.splits)

lemma split_on_no_sep: "c \<notin> set s \<Longrightarrow> split_on c s = [s]"
  by (induction s) auto

lemma split_on_append_sep:
  "c \<notin> set s \<Longrightarrow> split_on c (s @ c # t) = s # split_on c t"
  by (induction s) auto

lemma split_on_sep: "split_on c (s @ c # t) = split_on c s @ split_on c t"
proof (induction s)
  case Nil
  then show ?case by simp
next
  case (Cons x s)
  then show ?case
    by (cases "split_on c s") (auto split: list.splits)
qed

lemma join_split [text_simps]: "join_with [c] (split_on c s) = s"
proof (induction s)
  case Nil
  then show ?case by simp
next
  case (Cons x xs)
  obtain p ps where "split_on c xs = p # ps"
    by (meson neq_Nil_conv split_on_not_Nil)
  with Cons show ?case
    by (cases ps) auto
qed

lemma split_join [text_simps]:
  "segs \<noteq> [] \<Longrightarrow> \<forall>seg \<in> set segs. c \<notin> set seg \<Longrightarrow> split_on c (join_with [c] segs) = segs"
  by (induction "[c]" segs rule: join_with.induct)
    (auto simp: split_on_no_sep split_on_append_sep)

lemma split_on_pieces: "seg \<in> set (split_on c s) \<Longrightarrow> c \<notin> set seg"
proof (induction s arbitrary: seg)
  case Nil
  then show ?case by simp
next
  case (Cons x xs)
  obtain p ps where "split_on c xs = p # ps"
    by (meson neq_Nil_conv split_on_not_Nil)
  with Cons show ?case
    by (auto split: if_splits)
qed

lemma join_with_append:
  "xs \<noteq> [] \<Longrightarrow> ys \<noteq> [] \<Longrightarrow> join_with sep (xs @ ys) = join_with sep xs @ sep @ join_with sep ys"
proof (induction sep xs rule: join_with.induct)
  case (2 sep x)
  then show ?case by (cases ys) auto
qed auto

lemma split_once_Some_iff:
  "split_once c s = Some (a, b) \<longleftrightarrow> s = a @ c # b \<and> c \<notin> set a"
proof
  assume once: "split_once c s = Some (a, b)"
  then have mem: "c \<in> set s" and a: "a = takeWhile (\<lambda>x. x \<noteq> c) s"
    and b: "b = tl (dropWhile (\<lambda>x. x \<noteq> c) s)"
    by (auto simp: split_once_def split: if_splits)
  from mem have "dropWhile (\<lambda>x. x \<noteq> c) s \<noteq> []"
    by (simp add: dropWhile_eq_Nil_conv)
  then have "dropWhile (\<lambda>x. x \<noteq> c) s = c # b"
    using b hd_dropWhile [of "\<lambda>x. x \<noteq> c" s] by (cases "dropWhile (\<lambda>x. x \<noteq> c) s") auto
  then have "s = a @ c # b"
    using a by (metis takeWhile_dropWhile_id)
  moreover have "c \<notin> set a"
    using a by (auto dest: set_takeWhileD)
  ultimately show "s = a @ c # b \<and> c \<notin> set a" ..
next
  assume "s = a @ c # b \<and> c \<notin> set a"
  then have s: "s = a @ c # b" and a: "\<forall>x \<in> set a. x \<noteq> c" by auto
  then show "split_once c s = Some (a, b)"
    by (simp add: split_once_def takeWhile_append2 dropWhile_append2)
qed

lemma split_once_None_iff: "split_once c s = None \<longleftrightarrow> c \<notin> set s"
  by (simp add: split_once_def)

lemma rsplit_once_Some_iff:
  "rsplit_once c s = Some (a, b) \<longleftrightarrow> s = a @ c # b \<and> c \<notin> set b"
proof -
  have "rsplit_once c s = Some (a, b) \<longleftrightarrow> split_once c (rev s) = Some (rev b, rev a)"
    by (auto simp: rsplit_once_def)
  also have "\<dots> \<longleftrightarrow> rev s = rev b @ c # rev a \<and> c \<notin> set b"
    by (simp add: split_once_Some_iff)
  also have "rev s = rev b @ c # rev a \<longleftrightarrow> s = a @ c # b"
    by (metis append.assoc append_Cons append_Nil rev.simps(2) rev_append rev_rev_ident)
  finally show ?thesis .
qed

lemma rsplit_once_None_iff: "rsplit_once c s = None \<longleftrightarrow> c \<notin> set s"
  by (simp add: rsplit_once_def split_once_None_iff)


subsection \<open>Whitespace and control characters\<close>

text \<open>
  The UTF-8 encodings of Unicode's \<open>White_Space\<close> characters, which \<open>str::trim\<close> removes:
  U+0009 to U+000D, U+0020, U+0085, U+00A0, U+1680, U+2000 to U+200A, U+2028, U+2029,
  U+202F, U+205F and U+3000.
\<close>

definition whitespace :: "string list" where
  "whitespace =
     [[CHR 0x09], [CHR 0x0A], [CHR 0x0B], [CHR 0x0C], [CHR 0x0D], [CHR 0x20],
      [CHR 0xC2, CHR 0x85], [CHR 0xC2, CHR 0xA0], [CHR 0xE1, CHR 0x9A, CHR 0x80]] @
     map (\<lambda>n. [CHR 0xE2, CHR 0x80, char_of n]) ([128..<139] @ [168, 169, 175 :: nat]) @
     [[CHR 0xE2, CHR 0x81, CHR 0x9F], [CHR 0xE3, CHR 0x80, CHR 0x80]]"

text \<open>Removes members of \<open>ws\<close> from the front for as long as one is there.\<close>

function strip_many :: "string list \<Rightarrow> string \<Rightarrow> string" where
  "strip_many ws s =
     (case find (\<lambda>w. w \<noteq> [] \<and> starts_with w s) ws of
        None \<Rightarrow> s
      | Some w \<Rightarrow> strip_many ws (drop (length w) s))"
  by pat_completeness auto
termination
  by (relation "measure (\<lambda>(ws, s). length s)")
    (auto simp: find_Some_iff starts_with_iff)

declare strip_many.simps [simp del]

definition trim_start :: "string \<Rightarrow> string" where
  "trim_start s = strip_many whitespace s"

definition trim_end :: "string \<Rightarrow> string" where
  "trim_end s = rev (strip_many (map rev whitespace) (rev s))"

definition trim :: "string \<Rightarrow> string" where
  "trim s = trim_end (trim_start s)"

definition no_strip :: "string list \<Rightarrow> string \<Rightarrow> bool" where
  "no_strip ws s \<longleftrightarrow> (\<forall>w \<in> set ws. w = [] \<or> \<not> starts_with w s)"

lemma strip_many_id_iff: "find (\<lambda>w. w \<noteq> [] \<and> starts_with w s) ws = None \<longleftrightarrow> no_strip ws s"
  by (auto simp: find_None_iff no_strip_def)

lemma strip_many_id [text_simps]: "no_strip ws s \<Longrightarrow> strip_many ws s = s"
  by (subst strip_many.simps) (simp add: strip_many_id_iff [symmetric])

lemma strip_many_no_strip: "no_strip ws (strip_many ws s)"
proof (induction ws s rule: strip_many.induct)
  case (1 ws s)
  show ?case
  proof (cases "find (\<lambda>w. w \<noteq> [] \<and> starts_with w s) ws")
    case None
    then show ?thesis
      by (simp add: strip_many.simps [of ws s] strip_many_id_iff [symmetric])
  next
    case (Some w)
    with 1 show ?thesis
      by (simp add: strip_many.simps [of ws s])
  qed
qed

lemma strip_many_suffix: "\<exists>p. s = p @ strip_many ws s"
proof (induction ws s rule: strip_many.induct)
  case (1 ws s)
  show ?case
  proof (cases "find (\<lambda>w. w \<noteq> [] \<and> starts_with w s) ws")
    case None
    then show ?thesis by (simp add: strip_many.simps [of ws s])
  next
    case (Some w)
    then obtain p where "drop (length w) s = p @ strip_many ws (drop (length w) s)"
      using 1 by blast
    then have "s = (take (length w) s @ p) @ strip_many ws (drop (length w) s)"
      by (metis append.assoc append_take_drop_id)
    with Some show ?thesis
      by (metis (no_types, lifting) option.simps(5) strip_many.simps)
  qed
qed

lemma no_strip_prefix: "no_strip ws (s @ t) \<Longrightarrow> no_strip ws s"
  by (auto simp: no_strip_def starts_with_iff)

lemma trim_end_prefix: "\<exists>q. s = trim_end s @ q"
proof -
  obtain p where "rev s = p @ strip_many (map rev whitespace) (rev s)"
    using strip_many_suffix by blast
  then have "s = trim_end s @ rev p"
    unfolding trim_end_def by (metis rev_append rev_rev_ident)
  then show ?thesis ..
qed

lemma trim_idem [text_simps]: "trim (trim s) = trim s"
proof -
  obtain q where "trim_start s = trim s @ q"
    using trim_end_prefix unfolding trim_def by blast
  then have "no_strip whitespace (trim s)"
    using strip_many_no_strip [of whitespace s] no_strip_prefix
    by (metis trim_start_def)
  then have start: "trim_start (trim s) = trim s"
    by (simp add: trim_start_def strip_many_id)
  have "no_strip (map rev whitespace) (rev (trim s))"
    by (simp add: trim_def trim_end_def strip_many_no_strip)
  then have "trim_end (trim s) = trim s"
    by (simp add: trim_end_def strip_many_id)
  with start show ?thesis
    by (simp add: trim_def)
qed

text \<open>
  A byte that is ASCII and not whitespace: text that begins and ends with one is not
  touched by \<open>trim\<close>.
\<close>

definition solid :: "char \<Rightarrow> bool" where
  "solid c \<longleftrightarrow> (of_char c :: nat) > 32 \<and> (of_char c :: nat) < 128"

lemma whitespace_ends: "list_all (\<lambda>w. w \<noteq> [] \<and> \<not> solid (hd w) \<and> \<not> solid (last w)) whitespace"
  by code_simp

lemma whitespace_head: "w \<in> set whitespace \<Longrightarrow> w \<noteq> [] \<and> \<not> solid (hd w) \<and> \<not> solid (last w)"
  using whitespace_ends by (simp add: list_all_iff)

lemma no_strip_solid: "solid c \<Longrightarrow> no_strip whitespace (c # s)"
  using whitespace_head by (fastforce simp: no_strip_def starts_with_iff Cons_eq_append_conv)

lemma no_strip_solid_rev: "solid c \<Longrightarrow> no_strip (map rev whitespace) (c # s)"
proof -
  assume c: "solid c"
  have False if v: "v \<in> set whitespace" and eq: "c # s = rev v @ r" for v r
  proof -
    from eq whitespace_head [OF v] have "c = last v"
      by (metis Nil_is_rev_conv hd_append2 hd_rev list.sel(1))
    then show False using c whitespace_head [OF v] by simp
  qed
  then show ?thesis
    by (auto simp: no_strip_def starts_with_iff)
qed

lemma trim_solid [text_simps]:
  assumes "s \<noteq> []" "solid (hd s)" "solid (last s)"
  shows "trim s = s"
proof -
  have "trim_start s = s"
    using assms by (cases s) (auto simp: trim_start_def strip_many_id no_strip_solid)
  moreover have "trim_end s = s"
    using assms
    by (cases s rule: rev_cases)
      (auto simp: trim_end_def strip_many_id no_strip_solid_rev)
  ultimately show ?thesis by (simp add: trim_def)
qed

lemma strip_many_Nil [simp]: "strip_many ws [] = []"
  by (rule strip_many_id) (auto simp: no_strip_def starts_with_def)

lemma trim_Nil [simp]: "trim [] = []"
  by (simp add: trim_def trim_start_def trim_end_def)

text \<open>
  \<open>char::is_control\<close>: U+0000 to U+001F, U+007F, and U+0080 to U+009F, whose encodings
  are the byte C2 and a byte from 80 to 9F.
\<close>

fun has_control :: "string \<Rightarrow> bool" where
  "has_control [] = False"
| "has_control (c # cs) =
     ((of_char c :: nat) < 32 \<or> (of_char c :: nat) = 127 \<or>
      (c = CHR 0xC2 \<and>
       (case cs of [] \<Rightarrow> False | d # _ \<Rightarrow> 128 \<le> (of_char d :: nat) \<and> (of_char d :: nat) \<le> 159)) \<or>
      has_control cs)"

text \<open>\<open>chars().count()\<close>: the bytes that do not continue a code point.\<close>

definition char_count :: "string \<Rightarrow> nat" where
  "char_count s = length (filter (\<lambda>c. \<not> (128 \<le> (of_char c :: nat) \<and> (of_char c :: nat) < 192)) s)"


subsection \<open>ASCII case\<close>

definition ascii_lower :: "char \<Rightarrow> char" where
  "ascii_lower c =
     (if 65 \<le> (of_char c :: nat) \<and> (of_char c :: nat) \<le> 90 then char_of ((of_char c :: nat) + 32) else c)"

definition to_ascii_lowercase :: "string \<Rightarrow> string" where
  "to_ascii_lowercase s = map ascii_lower s"

definition eq_ignore_ascii_case :: "string \<Rightarrow> string \<Rightarrow> bool" where
  "eq_ignore_ascii_case s t \<longleftrightarrow> to_ascii_lowercase s = to_ascii_lowercase t"

subsection \<open>Decimal numbers\<close>

definition is_digit :: "char \<Rightarrow> bool" where
  "is_digit c \<longleftrightarrow> 48 \<le> (of_char c :: nat) \<and> (of_char c :: nat) \<le> 57"

definition digit_char :: "nat \<Rightarrow> char" where
  "digit_char d = char_of (48 + d)"

definition digit_val :: "char \<Rightarrow> nat" where
  "digit_val c = of_char c - 48"

text \<open>The decimal spelling \<open>Display\<close> gives an unsigned integer.\<close>

fun dec_of :: "nat \<Rightarrow> string" where
  "dec_of n = (if n < 10 then [digit_char n] else dec_of (n div 10) @ [digit_char (n mod 10)])"

declare dec_of.simps [simp del]

definition dec_val :: "string \<Rightarrow> nat" where
  "dec_val s = foldl (\<lambda>n c. 10 * n + digit_val c) 0 s"

text \<open>
  Rust's \<open>from_str\<close> for an unsigned type with greatest value \<open>bound\<close>: one \<open>+\<close> may
  lead, then one or more digits whose value does not exceed \<open>bound\<close>.
\<close>

definition parse_unsigned :: "nat \<Rightarrow> string \<Rightarrow> nat option" where
  "parse_unsigned bound s =
     (let digits = (case strip_prefix ''+'' s of None \<Rightarrow> s | Some rest \<Rightarrow> rest)
      in if digits = [] \<or> \<not> list_all is_digit digits then None
         else if dec_val digits \<le> bound then Some (dec_val digits) else None)"

definition u32_max :: nat where "u32_max = 4294967295"
definition u64_max :: nat where "u64_max = 18446744073709551615"

lemma digit_char_digit: "d < 10 \<Longrightarrow> is_digit (digit_char d)"
  by (simp add: is_digit_def digit_char_def)

lemma digit_val_char: "d < 10 \<Longrightarrow> digit_val (digit_char d) = d"
  by (simp add: digit_val_def digit_char_def)

lemma digit_char_val: "is_digit c \<Longrightarrow> digit_char (digit_val c) = c"
  by (simp add: digit_val_def digit_char_def is_digit_def)

lemma digit_val_less: "is_digit c \<Longrightarrow> digit_val c < 10"
  by (auto simp: digit_val_def is_digit_def)

lemma digit_val_0: "is_digit c \<Longrightarrow> digit_val c = 0 \<Longrightarrow> c = CHR ''0''"
proof -
  assume "is_digit c" "digit_val c = 0"
  then have "c = char_of (48 :: nat)"
    using digit_char_val [of c] by (simp add: digit_char_def)
  also have "\<dots> = CHR ''0''" by code_simp
  finally show ?thesis .
qed

lemma digit_solid: "is_digit c \<Longrightarrow> solid c"
  by (simp add: is_digit_def solid_def)

lemma dec_of_digits: "list_all is_digit (dec_of n)"
  by (induction n rule: dec_of.induct) (subst dec_of.simps, simp add: digit_char_digit)

lemma dec_of_not_Nil [simp]: "dec_of n \<noteq> []"
  by (subst dec_of.simps) simp

lemma dec_val_snoc: "dec_val (s @ [c]) = 10 * dec_val s + digit_val c"
  by (simp add: dec_val_def)

lemma dec_val_of [text_simps]: "dec_val (dec_of n) = n"
proof (induction n rule: dec_of.induct)
  case (1 n)
  show ?case
  proof (cases "n < 10")
    case True
    then show ?thesis by (simp add: dec_of.simps [of n] dec_val_def digit_val_char)
  next
    case False
    with 1 show ?thesis by (simp add: dec_of.simps [of n] dec_val_snoc digit_val_char)
  qed
qed

lemma dec_of_head: "0 < n \<Longrightarrow> hd (dec_of n) \<noteq> CHR ''0''"
proof (induction n rule: dec_of.induct)
  case (1 n)
  show ?case
  proof (cases "n < 10")
    case True
    then have "digit_val (hd (dec_of n)) = n"
      by (simp add: dec_of.simps [of n] digit_val_char)
    with 1 show ?thesis by (auto simp: digit_val_def)
  next
    case False
    with 1 show ?thesis by (simp add: dec_of.simps [of n] hd_append)
  qed
qed

lemma dec_val_pos: "s \<noteq> [] \<Longrightarrow> list_all is_digit s \<Longrightarrow> hd s \<noteq> CHR ''0'' \<Longrightarrow> 0 < dec_val s"
proof (induction s rule: rev_induct)
  case Nil
  then show ?case by simp
next
  case (snoc c s)
  show ?case
  proof (cases "s = []")
    case True
    with snoc.prems have "c \<noteq> CHR ''0''" "is_digit c" by auto
    then have "digit_val c \<noteq> 0"
      using digit_val_0 by blast
    with True show ?thesis by (simp add: dec_val_def)
  next
    case False
    with snoc show ?thesis by (simp add: dec_val_snoc)
  qed
qed

lemma dec_of_val [text_simps]:
  "s \<noteq> [] \<Longrightarrow> list_all is_digit s \<Longrightarrow> hd s \<noteq> CHR ''0'' \<or> s = ''0'' \<Longrightarrow> dec_of (dec_val s) = s"
proof (induction s rule: rev_induct)
  case Nil
  then show ?case by simp
next
  case (snoc c s)
  then have c: "is_digit c" by simp
  show ?case
  proof (cases "s = []")
    case True
    with c show ?thesis
      by (simp add: dec_val_def dec_of.simps digit_val_less digit_char_val)
  next
    case False
    with snoc.prems have head: "hd s \<noteq> CHR ''0''" by (auto simp: hd_append append_eq_Cons_conv)
    have "0 < dec_val s"
      using False snoc.prems head by (intro dec_val_pos) auto
    then have big: "\<not> dec_val (s @ [c]) < 10" by (simp add: dec_val_snoc)
    have "dec_val (s @ [c]) div 10 = dec_val s" "dec_val (s @ [c]) mod 10 = digit_val c"
      using digit_val_less [OF c] by (simp_all add: dec_val_snoc)
    with big have "dec_of (dec_val (s @ [c])) = dec_of (dec_val s) @ [digit_char (digit_val c)]"
      by (subst dec_of.simps) simp
    with snoc.IH False snoc.prems head c show ?thesis
      by (simp add: digit_char_val)
  qed
qed

lemma digit_not_plus: "is_digit c \<Longrightarrow> c \<noteq> CHR ''+''"
  by (auto simp: is_digit_def)

lemma strip_plus_digits: "list_all is_digit s \<Longrightarrow> strip_prefix ''+'' s = None"
  by (cases s) (auto simp: strip_prefix_def digit_not_plus)

lemma parse_unsigned_digits:
  "s \<noteq> [] \<Longrightarrow> list_all is_digit s \<Longrightarrow>
   parse_unsigned bound s = (if dec_val s \<le> bound then Some (dec_val s) else None)"
  by (simp add: parse_unsigned_def strip_plus_digits)

lemma parse_unsigned_dec_of [text_simps]: "n \<le> bound \<Longrightarrow> parse_unsigned bound (dec_of n) = Some n"
  by (simp add: parse_unsigned_digits dec_of_digits dec_val_of)

section \<open>What stands on a list\<close>

text \<open>An entry stands: it is on the list, and nothing after it overrides it.\<close>

definition stands :: "'a \<Rightarrow> ('a \<Rightarrow> bool) \<Rightarrow> 'a list \<Rightarrow> bool" where
  "stands a overrides fs \<longleftrightarrow> (\<exists>before after. fs = before @ a # after \<and> (\<forall>f \<in> set after. \<not> overrides f))"

lemma stands_Nil [simp]: "\<not> stands a q []"
  by (simp add: stands_def)

lemma stands_snoc [simp]: "stands a q (fs @ [f]) \<longleftrightarrow> f = a \<or> \<not> q f \<and> stands a q fs"
proof
  assume "stands a q (fs @ [f])"
  then obtain xs ys where eq: "fs @ [f] = xs @ a # ys" and ys: "\<forall>f \<in> set ys. \<not> q f" by (auto simp: stands_def)
  show "f = a \<or> \<not> q f \<and> stands a q fs"
  proof (cases ys rule: rev_cases)
    case Nil
    then show ?thesis using eq by simp
  next
    case (snoc zs z)
    then have "fs = xs @ a # zs" "z = f" using eq by simp_all
    then show ?thesis using ys snoc by (auto simp: stands_def)
  qed
next
  assume "f = a \<or> \<not> q f \<and> stands a q fs"
  then consider "f = a" | xs ys where "\<not> q f" "fs = xs @ a # ys" "\<forall>f \<in> set ys. \<not> q f"
    by (auto simp: stands_def)
  then show "stands a q (fs @ [f])"
  proof cases
    case 1
    then show ?thesis unfolding stands_def by (intro exI [of _ fs] exI [of _ "[]"]) simp
  next
    case 2
    then show ?thesis unfolding stands_def by (intro exI [of _ xs] exI [of _ "ys @ [f]"]) auto
  qed
qed

end
