(* ===== verification/Codes.thy ===== *)
theory Codes
  imports Prelude
begin

text \<open>
  The closed vocabularies every component speaks: the 64 event kinds with their window
  class (\<open>kernel::event\<close>), the 35 error codes with their wire spelling and carrier
  event, and the one error shape \<open>AxError\<close> (\<open>kernel::error\<close>).
\<close>

section \<open>Event kinds\<close>

datatype (plugins only: code size) event_kind =
    CityInitialized
  | BuildingCreated
  | RunStarted
  | RunForked
  | PromptAssembled
  | ModelCalled
  | ModelReturned
  | ToolCalled
  | ToolResult
  | ResultOffloaded
  | GateChecked
  | GateDenied
  | CheckpointCommitted
  | HandoffWritten
  | SteerReceived
  | CancelReceived
  | WatchdogFired
  | BudgetLimit
  | RunFrozen
  | LogTruncated
  | SignalEnqueued
  | SignalConsumed
  | DraftHeld
  | DraftResolved
  | GoalRegistered
  | GoalConflict
  | ArbitrationVerdict
  | RepairStarted
  | RepairReused
  | WorktreeOpened
  | PrOpened
  | PrMerged
  | PrRejected
  | RoadmapClaimed
  | RoadmapFinished
  | RoadmapReleased
  | RoadmapSplit
  | RoadmapBlocked
  | PursuitChanged
  | ApprovalRequested
  | ApprovalResolved
  | PolicyCreated
  | PolicyRevoked
  | TaintPromoted
  | CrossBuildingTransfer
  | TakeoverStarted
  | RollbackApplied
  | CityHalted
  | BackpressureShed
  | DigestInvalidated
  | EndpointAttached
  | EndpointProbed
  | EndpointLost
  | ModelSelected
  | ProviderDegraded
  | LoginStarted
  | EvalRun
  | AssetArchived
  | CredentialLent
  | SecretCaptured
  | SecretEgressBlocked
  | FileDiscarded
  | DiscardRestored
  | AutonomyChanged

definition all_kinds :: "event_kind list" where
  "all_kinds =
     [CityInitialized, BuildingCreated, RunStarted, RunForked, PromptAssembled, ModelCalled,
      ModelReturned, ToolCalled, ToolResult, ResultOffloaded, GateChecked, GateDenied,
      CheckpointCommitted, HandoffWritten, SteerReceived, CancelReceived, WatchdogFired,
      BudgetLimit, RunFrozen, LogTruncated, SignalEnqueued, SignalConsumed, DraftHeld,
      DraftResolved, GoalRegistered, GoalConflict, ArbitrationVerdict, RepairStarted,
      RepairReused, WorktreeOpened, PrOpened, PrMerged, PrRejected, RoadmapClaimed,
      RoadmapFinished, RoadmapReleased, RoadmapSplit, RoadmapBlocked, PursuitChanged,
      ApprovalRequested, ApprovalResolved, PolicyCreated, PolicyRevoked, TaintPromoted,
      CrossBuildingTransfer, TakeoverStarted, RollbackApplied, CityHalted, BackpressureShed,
      DigestInvalidated, EndpointAttached, EndpointProbed, EndpointLost, ModelSelected,
      ProviderDegraded, LoginStarted, EvalRun, AssetArchived, CredentialLent, SecretCaptured,
      SecretEgressBlocked, FileDiscarded, DiscardRestored, AutonomyChanged]"

datatype window = InWindow | RecordOnly

primrec window_class :: "event_kind \<Rightarrow> window" where
  "window_class PromptAssembled = InWindow"
| "window_class ModelCalled = InWindow"
| "window_class ModelReturned = InWindow"
| "window_class ToolCalled = InWindow"
| "window_class ToolResult = InWindow"
| "window_class ResultOffloaded = InWindow"
| "window_class SteerReceived = InWindow"
| "window_class SignalConsumed = InWindow"
| "window_class CityInitialized = RecordOnly"
| "window_class BuildingCreated = RecordOnly"
| "window_class RunStarted = RecordOnly"
| "window_class RunForked = RecordOnly"
| "window_class GateChecked = RecordOnly"
| "window_class GateDenied = RecordOnly"
| "window_class CheckpointCommitted = RecordOnly"
| "window_class HandoffWritten = RecordOnly"
| "window_class CancelReceived = RecordOnly"
| "window_class WatchdogFired = RecordOnly"
| "window_class BudgetLimit = RecordOnly"
| "window_class RunFrozen = RecordOnly"
| "window_class LogTruncated = RecordOnly"
| "window_class SignalEnqueued = RecordOnly"
| "window_class DraftHeld = RecordOnly"
| "window_class DraftResolved = RecordOnly"
| "window_class GoalRegistered = RecordOnly"
| "window_class GoalConflict = RecordOnly"
| "window_class ArbitrationVerdict = RecordOnly"
| "window_class RepairStarted = RecordOnly"
| "window_class RepairReused = RecordOnly"
| "window_class WorktreeOpened = RecordOnly"
| "window_class PrOpened = RecordOnly"
| "window_class PrMerged = RecordOnly"
| "window_class PrRejected = RecordOnly"
| "window_class RoadmapClaimed = RecordOnly"
| "window_class RoadmapFinished = RecordOnly"
| "window_class RoadmapReleased = RecordOnly"
| "window_class RoadmapSplit = RecordOnly"
| "window_class RoadmapBlocked = RecordOnly"
| "window_class PursuitChanged = RecordOnly"
| "window_class ApprovalRequested = RecordOnly"
| "window_class ApprovalResolved = RecordOnly"
| "window_class PolicyCreated = RecordOnly"
| "window_class PolicyRevoked = RecordOnly"
| "window_class TaintPromoted = RecordOnly"
| "window_class CrossBuildingTransfer = RecordOnly"
| "window_class TakeoverStarted = RecordOnly"
| "window_class RollbackApplied = RecordOnly"
| "window_class CityHalted = RecordOnly"
| "window_class BackpressureShed = RecordOnly"
| "window_class DigestInvalidated = RecordOnly"
| "window_class EndpointAttached = RecordOnly"
| "window_class EndpointProbed = RecordOnly"
| "window_class EndpointLost = RecordOnly"
| "window_class ModelSelected = RecordOnly"
| "window_class ProviderDegraded = RecordOnly"
| "window_class LoginStarted = RecordOnly"
| "window_class EvalRun = RecordOnly"
| "window_class AssetArchived = RecordOnly"
| "window_class CredentialLent = RecordOnly"
| "window_class SecretCaptured = RecordOnly"
| "window_class SecretEgressBlocked = RecordOnly"
| "window_class FileDiscarded = RecordOnly"
| "window_class DiscardRestored = RecordOnly"
| "window_class AutonomyChanged = RecordOnly"

section \<open>Error codes\<close>

datatype (plugins only: code size) ax_code =
    PathNotFound
  | ToolUnknown
  | ToolUnavailable
  | InvalidArgs
  | OutsideWriteDomain
  | VersionConflict
  | GateDenied
  | BudgetExhausted
  | Timeout
  | Provider
  | EvidenceMissing
  | LoopSuspected
  | LocatorInvalid
  | SandboxDenied
  | DraftStale
  | GoalConflict
  | TaintedAction
  | RepairBusy
  | DelegationDepth
  | ApprovalPending
  | ApprovalDenied
  | CrossBuildingDenied
  | DigestSuspect
  | CredentialMissing
  | ConfigInvalid
  | CasCorrupt
  | StorageFatal
  | WorktreeBusy
  | BrowserUnavailable
  | EndpointDialectUnsupported
  | WireMismatch
  | LogVersionUnsupported
  | SecretEgress
  | DiscardIrreversible
  | ToolOutcomeUnknown

definition all_codes :: "ax_code list" where
  "all_codes =
     [PathNotFound, ToolUnknown, ToolUnavailable, InvalidArgs, OutsideWriteDomain,
      VersionConflict, GateDenied, BudgetExhausted, Timeout, Provider, EvidenceMissing,
      LoopSuspected, LocatorInvalid, SandboxDenied, DraftStale, GoalConflict, TaintedAction,
      RepairBusy, DelegationDepth, ApprovalPending, ApprovalDenied, CrossBuildingDenied,
      DigestSuspect, CredentialMissing, ConfigInvalid, CasCorrupt, StorageFatal, WorktreeBusy,
      BrowserUnavailable, EndpointDialectUnsupported, WireMismatch, LogVersionUnsupported,
      SecretEgress, DiscardIrreversible, ToolOutcomeUnknown]"

primrec as_str :: "ax_code \<Rightarrow> string" where
  "as_str PathNotFound = ''E_PATH_NOT_FOUND''"
| "as_str ToolUnknown = ''E_TOOL_UNKNOWN''"
| "as_str ToolUnavailable = ''E_TOOL_UNAVAILABLE''"
| "as_str InvalidArgs = ''E_INVALID_ARGS''"
| "as_str OutsideWriteDomain = ''E_OUTSIDE_WRITE_DOMAIN''"
| "as_str VersionConflict = ''E_VERSION_CONFLICT''"
| "as_str GateDenied = ''E_GATE_DENIED''"
| "as_str BudgetExhausted = ''E_BUDGET_EXHAUSTED''"
| "as_str Timeout = ''E_TIMEOUT''"
| "as_str Provider = ''E_PROVIDER''"
| "as_str EvidenceMissing = ''E_EVIDENCE_MISSING''"
| "as_str LoopSuspected = ''E_LOOP_SUSPECTED''"
| "as_str LocatorInvalid = ''E_LOCATOR_INVALID''"
| "as_str SandboxDenied = ''E_SANDBOX_DENIED''"
| "as_str DraftStale = ''E_DRAFT_STALE''"
| "as_str GoalConflict = ''E_GOAL_CONFLICT''"
| "as_str TaintedAction = ''E_TAINTED_ACTION''"
| "as_str RepairBusy = ''E_REPAIR_BUSY''"
| "as_str DelegationDepth = ''E_DELEGATION_DEPTH''"
| "as_str ApprovalPending = ''E_APPROVAL_PENDING''"
| "as_str ApprovalDenied = ''E_APPROVAL_DENIED''"
| "as_str CrossBuildingDenied = ''E_CROSS_BUILDING_DENIED''"
| "as_str DigestSuspect = ''E_DIGEST_SUSPECT''"
| "as_str CredentialMissing = ''E_CREDENTIAL_MISSING''"
| "as_str ConfigInvalid = ''E_CONFIG_INVALID''"
| "as_str CasCorrupt = ''E_CAS_CORRUPT''"
| "as_str StorageFatal = ''E_STORAGE_FATAL''"
| "as_str WorktreeBusy = ''E_WORKTREE_BUSY''"
| "as_str BrowserUnavailable = ''E_BROWSER_UNAVAILABLE''"
| "as_str EndpointDialectUnsupported = ''E_ENDPOINT_DIALECT_UNSUPPORTED''"
| "as_str WireMismatch = ''E_WIRE_MISMATCH''"
| "as_str LogVersionUnsupported = ''E_LOG_VERSION_UNSUPPORTED''"
| "as_str SecretEgress = ''E_SECRET_EGRESS''"
| "as_str DiscardIrreversible = ''E_DISCARD_IRREVERSIBLE''"
| "as_str ToolOutcomeUnknown = ''E_TOOL_OUTCOME_UNKNOWN''"

text \<open>Wire spelling back to code: the first code of \<open>all_codes\<close> that is spelled so.\<close>

definition parse_code :: "string \<Rightarrow> ax_code option" where
  "parse_code raw = find (\<lambda>code. as_str code = raw) all_codes"

text \<open>Where a code surfaces in history: its carrier event, or the loadtime class.\<close>

datatype carrier = CarrierEvent event_kind | Loadtime

primrec carrier_of :: "ax_code \<Rightarrow> carrier" where
  "carrier_of GateDenied = CarrierEvent event_kind.GateDenied"
| "carrier_of OutsideWriteDomain = CarrierEvent event_kind.GateDenied"
| "carrier_of TaintedAction = CarrierEvent event_kind.GateDenied"
| "carrier_of CrossBuildingDenied = CarrierEvent event_kind.GateDenied"
| "carrier_of DiscardIrreversible = CarrierEvent event_kind.GateDenied"
| "carrier_of SecretEgress = CarrierEvent event_kind.GateDenied"
| "carrier_of DelegationDepth = CarrierEvent event_kind.GateDenied"
| "carrier_of ApprovalPending = CarrierEvent event_kind.ApprovalRequested"
| "carrier_of ApprovalDenied = CarrierEvent event_kind.ApprovalResolved"
| "carrier_of BudgetExhausted = CarrierEvent event_kind.BudgetLimit"
| "carrier_of LoopSuspected = CarrierEvent event_kind.WatchdogFired"
| "carrier_of Provider = CarrierEvent event_kind.ProviderDegraded"
| "carrier_of EndpointDialectUnsupported = CarrierEvent event_kind.EndpointLost"
| "carrier_of ConfigInvalid = Loadtime"
| "carrier_of CasCorrupt = Loadtime"
| "carrier_of StorageFatal = Loadtime"
| "carrier_of WireMismatch = Loadtime"
| "carrier_of LogVersionUnsupported = Loadtime"
| "carrier_of PathNotFound = CarrierEvent event_kind.ToolResult"
| "carrier_of ToolUnknown = CarrierEvent event_kind.ToolResult"
| "carrier_of ToolUnavailable = CarrierEvent event_kind.ToolResult"
| "carrier_of InvalidArgs = CarrierEvent event_kind.ToolResult"
| "carrier_of VersionConflict = CarrierEvent event_kind.ToolResult"
| "carrier_of Timeout = CarrierEvent event_kind.ToolResult"
| "carrier_of EvidenceMissing = CarrierEvent event_kind.ToolResult"
| "carrier_of LocatorInvalid = CarrierEvent event_kind.ToolResult"
| "carrier_of SandboxDenied = CarrierEvent event_kind.ToolResult"
| "carrier_of DraftStale = CarrierEvent event_kind.ToolResult"
| "carrier_of GoalConflict = CarrierEvent event_kind.ToolResult"
| "carrier_of RepairBusy = CarrierEvent event_kind.ToolResult"
| "carrier_of DigestSuspect = CarrierEvent event_kind.ToolResult"
| "carrier_of CredentialMissing = CarrierEvent event_kind.ToolResult"
| "carrier_of WorktreeBusy = CarrierEvent event_kind.ToolResult"
| "carrier_of BrowserUnavailable = CarrierEvent event_kind.ToolResult"
| "carrier_of ToolOutcomeUnknown = CarrierEvent event_kind.ToolResult"

section \<open>Identities\<close>

text \<open>A run's id is a UUID, ordered by its bytes; records of the city itself carry the nil id.\<close>

type_synonym run_id = "128 word"

section \<open>The error shape\<close>

record gate_refusal =
  rule :: string
  violation :: string
  alternative :: string

record ax_error =
  code :: ax_code
  action :: string
  subject :: string
  nearby :: "string list"
  recovery :: string
  retriable :: bool
  gate :: "gate_refusal option"

definition failure :: "ax_code \<Rightarrow> string \<Rightarrow> string \<Rightarrow> ax_error" where
  "failure c act subj =
     \<lparr>code = c, action = act, subject = subj, nearby = [], recovery = [], retriable = False,
      gate = None\<rparr>"

definition refusal :: "ax_code \<Rightarrow> string \<Rightarrow> string \<Rightarrow> gate_refusal \<Rightarrow> ax_error" where
  "refusal c act subj g = (failure c act subj)\<lparr>gate := Some g\<rparr>"

text \<open>\<open>AxError\<close>'s \<open>Display\<close>.\<close>

definition show_error :: "ax_error \<Rightarrow> string" where
  "show_error e = as_str (code e) @ '': cannot '' @ action e @ '' on '' @ subject e"

definition gate_refusal_new :: "string \<Rightarrow> string \<Rightarrow> string \<Rightarrow> gate_refusal" where
  "gate_refusal_new r v a = \<lparr>rule = r, violation = v, alternative = a\<rparr>"

definition with_nearby :: "string list \<Rightarrow> ax_error \<Rightarrow> ax_error" where
  "with_nearby names e = e\<lparr>nearby := names\<rparr>"

definition with_recovery :: "string \<Rightarrow> ax_error \<Rightarrow> ax_error" where
  "with_recovery text e = e\<lparr>recovery := text\<rparr>"

definition mark_retriable :: "ax_error \<Rightarrow> ax_error" where
  "mark_retriable e = e\<lparr>retriable := True\<rparr>"

lemma error_selectors [simp]:
  "code (failure c a s) = c"
  "subject (failure c a s) = s"
  "gate (failure c a s) = None"
  "retriable (failure c a s) = False"
  "code (refusal c a s g) = c"
  "gate (refusal c a s g) = Some g"
  "retriable (refusal c a s g) = False"
  "code (with_recovery t e) = code e"
  "subject (with_recovery t e) = subject e"
  "gate (with_recovery t e) = gate e"
  "retriable (with_recovery t e) = retriable e"
  "code (with_nearby ns e) = code e"
  "subject (with_nearby ns e) = subject e"
  "gate (with_nearby ns e) = gate e"
  "retriable (with_nearby ns e) = retriable e"
  by (simp_all add: failure_def refusal_def with_recovery_def with_nearby_def)

section \<open>The vocabularies are closed\<close>

lemma all_kinds_complete: "k \<in> set all_kinds"
  by (cases k) (simp_all add: all_kinds_def)

lemma all_kinds_distinct: "distinct all_kinds"
  by (simp add: all_kinds_def)

lemma all_codes_complete: "c \<in> set all_codes"
  by (cases c) (simp_all add: all_codes_def)

lemma all_codes_distinct: "distinct all_codes"
  by (simp add: all_codes_def)

lemma spellings_distinct: "distinct (map as_str all_codes)"
  by (simp add: all_codes_def)

lemma as_str_inj: "as_str c = as_str d \<Longrightarrow> c = d"
  using spellings_distinct all_codes_complete
  by (metis distinct_map inj_onD)


lemma parse_code_iff: "parse_code raw = Some c \<longleftrightarrow> raw = as_str c"
proof
  assume "parse_code raw = Some c"
  then show "raw = as_str c" by (auto simp: parse_code_def find_Some_iff)
next
  assume raw: "raw = as_str c"
  then have "parse_code raw \<noteq> None" using all_codes_complete [of c] by (auto simp: parse_code_def find_None_iff)
  then obtain d where d: "parse_code raw = Some d" by blast
  then have "raw = as_str d" by (auto simp: parse_code_def find_Some_iff)
  then show "parse_code raw = Some c" using d raw as_str_inj by simp
qed

end
