(* ===== verification/Codecs.thy ===== *)
theory Codecs
  imports Codes
begin

text \<open>
  The contract every parsed identifier of the program states: what its one constructor
  accepts, its \<open>Display\<close> writes in a form the constructor reads back. \<open>codec\<close> is the
  round trip, \<open>strict_codec\<close> adds that a value has exactly one spelling, and
  \<open>trimming_codec\<close> that spellings differ in surrounding whitespace only.
\<close>

locale codec =
  fixes parse :: "string \<Rightarrow> ('e, 'a) result"
    and spell :: "'a \<Rightarrow> string"
    and valid :: "'a \<Rightarrow> bool"
  assumes parse_spell: "valid x \<Longrightarrow> parse (spell x) = Inr x"
    and parse_valid: "parse raw = Inr x \<Longrightarrow> valid x"
begin

lemma valid_iff_parsed: "valid x \<longleftrightarrow> (\<exists>raw. parse raw = Inr x)"
  using parse_spell parse_valid by blast

lemma spell_inj: "valid x \<Longrightarrow> valid y \<Longrightarrow> spell x = spell y \<Longrightarrow> x = y"
  by (metis parse_spell sum.inject(2))

lemma reparse: "parse raw = Inr x \<Longrightarrow> parse (spell x) = Inr x"
  by (simp add: parse_spell parse_valid)

end

locale strict_codec = codec +
  assumes parse_exact: "parse raw = Inr x \<Longrightarrow> spell x = raw"
begin

lemma parse_iff: "parse raw = Inr x \<longleftrightarrow> valid x \<and> spell x = raw"
  using parse_spell parse_valid parse_exact by blast

lemma one_spelling: "parse raw = Inr x \<Longrightarrow> parse raw' = Inr x \<Longrightarrow> raw = raw'"
  using parse_exact by blast

end

locale trimming_codec = codec +
  assumes parse_trimmed: "parse raw = Inr x \<Longrightarrow> spell x = trim raw"
begin

lemma same_spelling: "parse raw = Inr x \<Longrightarrow> parse raw' = Inr x \<Longrightarrow> trim raw = trim raw'"
  using parse_trimmed by metis

lemma spell_trimmed: "valid x \<Longrightarrow> trim (spell x) = spell x"
  using parse_spell parse_trimmed by metis

end

end
