(* ===== verification/Node_Ids.thy ===== *)
theory Node_Ids
  imports Codecs
begin

text \<open>
  A plan node's address (\<open>crates/kernel/src/node_id.rs\<close>): dotted numbers counted from one,
  at most ten deep. \<open>pieces\<close> is the list of its segments; a node's parent is the prefix,
  so \<open>node_parent\<close>, \<open>is_ancestor_of\<close> and \<open>ancestors\<close> are facts about prefixes of \<open>pieces\<close>.
\<close>

section \<open>The type and its constructor\<close>

datatype node_id = NodeId (node_str: string)

definition node_depth_max :: nat where
  "node_depth_max = 10"

definition index_refusal :: "string \<Rightarrow> ax_error" where
  "index_refusal why =
     with_recovery ''write the index as dotted numbers from one, such as `2.3.1`''
       (failure InvalidArgs ''read a plan index'' why)"

definition segment_problem :: "string \<Rightarrow> string option" where
  "segment_problem seg =
     (if seg = [] \<or> \<not> list_all is_digit seg then Some (''`'' @ seg @ ''` is not a number'')
      else if starts_with ''0'' seg then Some (''`'' @ seg @ ''` has a leading zero'')
      else if parse_unsigned u32_max seg = None
        then Some (''`'' @ seg @ ''` does not fit a plan index'')
      else None)"

fun first_problem :: "string list \<Rightarrow> string option" where
  "first_problem [] = None"
| "first_problem (seg # rest) =
     (case segment_problem seg of Some why \<Rightarrow> Some why | None \<Rightarrow> first_problem rest)"

definition node_parse :: "string \<Rightarrow> (ax_error, node_id) result" where
  "node_parse raw =
     (let text = trim raw; segments = split_on CHR ''.'' text in
      if text = [] then Inl (index_refusal ''the cell is empty'')
      else if node_depth_max < length segments
        then Inl (index_refusal
               (dec_of (length segments) @ '' levels deep, the plan holds '' @ dec_of node_depth_max))
      else (case first_problem segments of
              Some why \<Rightarrow> Inl (index_refusal why)
            | None \<Rightarrow> Inr (NodeId (join_with ''.'' segments))))"

section \<open>Walking the tree\<close>

definition node_parent :: "node_id \<Rightarrow> node_id option" where
  "node_parent i = map_option (\<lambda>(head, _). NodeId head) (rsplit_once CHR ''.'' (node_str i))"

definition ordinal :: "node_id \<Rightarrow> u32" where
  "ordinal i =
     (let tail = (case rsplit_once CHR ''.'' (node_str i) of None \<Rightarrow> node_str i | Some (_, t) \<Rightarrow> t)
      in case parse_unsigned u32_max tail of None \<Rightarrow> 0 | Some n \<Rightarrow> of_nat n)"

definition depth :: "node_id \<Rightarrow> nat" where
  "depth i = length (split_on CHR ''.'' (node_str i))"

definition is_ancestor_of :: "node_id \<Rightarrow> node_id \<Rightarrow> bool" where
  "is_ancestor_of a b \<longleftrightarrow>
     length (node_str a) < length (node_str b) \<and>
     starts_with (node_str a) (node_str b) \<and>
     node_str b ! length (node_str a) = CHR ''.''"

function climb :: "node_id option \<Rightarrow> node_id list" where
  "climb None = []"
| "climb (Some held) = held # climb (node_parent held)"
  by pat_completeness auto
termination
  by (relation "measure (\<lambda>w. case w of None \<Rightarrow> 0 | Some i \<Rightarrow> Suc (length (node_str i)))")
    (auto simp: node_parent_def rsplit_once_Some_iff split: option.splits)

definition ancestors :: "node_id \<Rightarrow> node_id list" where
  "ancestors i = rev (climb (node_parent i))"

definition child :: "node_id \<Rightarrow> u32 \<Rightarrow> (ax_error, node_id) result" where
  "child i n = node_parse (node_str i @ ''.'' @ dec_of (unat n))"

text \<open>The order the code derives is the order of the spelling.\<close>

instantiation node_id :: linorder
begin

definition less_eq_node_id :: "node_id \<Rightarrow> node_id \<Rightarrow> bool" where
  "less_eq_node_id a b \<longleftrightarrow> node_str a \<le> node_str b"

definition less_node_id :: "node_id \<Rightarrow> node_id \<Rightarrow> bool" where
  "less_node_id a b \<longleftrightarrow> node_str a < node_str b"

instance
  by standard (auto simp: less_eq_node_id_def less_node_id_def node_id.expand)

end

section \<open>Well-formed ids\<close>

definition piece_ok :: "string \<Rightarrow> bool" where
  "piece_ok seg \<longleftrightarrow> seg \<noteq> [] \<and> list_all is_digit seg \<and> hd seg \<noteq> CHR ''0'' \<and> dec_val seg \<le> u32_max"

definition pieces :: "node_id \<Rightarrow> string list" where
  "pieces i = split_on CHR ''.'' (node_str i)"

definition node_ok :: "node_id \<Rightarrow> bool" where
  "node_ok i \<longleftrightarrow> list_all piece_ok (pieces i) \<and> length (pieces i) \<le> node_depth_max"

lemma segment_problem_None: "segment_problem seg = None \<longleftrightarrow> piece_ok seg"
  by (cases seg)
    (auto simp: segment_problem_def piece_ok_def parse_unsigned_digits starts_with_def)

lemma first_problem_None: "first_problem segs = None \<longleftrightarrow> list_all piece_ok segs"
  by (induction segs) (auto simp: segment_problem_None [symmetric] split: option.splits)

lemma pieces_not_Nil [simp]: "pieces i \<noteq> []"
  by (simp add: pieces_def)

lemma node_str_pieces: "node_str i = join_with ''.'' (pieces i)"
  by (simp add: pieces_def join_split)

lemma pieces_inj: "pieces i = pieces j \<Longrightarrow> i = j"
  by (metis node_id.expand node_str_pieces)

lemma piece_no_dot: "piece_ok seg \<Longrightarrow> CHR ''.'' \<notin> set seg"
  by (auto simp: piece_ok_def list_all_iff is_digit_def)

lemma pieces_NodeId:
  "segs \<noteq> [] \<Longrightarrow> list_all piece_ok segs \<Longrightarrow> pieces (NodeId (join_with ''.'' segs)) = segs"
  by (simp add: pieces_def split_join list_all_iff piece_no_dot)

lemma join_ends:
  "segs \<noteq> [] \<Longrightarrow> \<forall>s \<in> set segs. s \<noteq> [] \<Longrightarrow>
   join_with sep segs \<noteq> [] \<and> hd (join_with sep segs) = hd (hd segs) \<and>
   last (join_with sep segs) = last (last segs)"
  by (induction sep segs rule: join_with.induct) auto

lemma node_str_solid:
  assumes "node_ok i"
  shows "node_str i \<noteq> [] \<and> solid (hd (node_str i)) \<and> solid (last (node_str i))"
proof -
  have "list_all piece_ok (pieces i)" using assms by (simp add: node_ok_def)
  then have ok: "piece_ok (hd (pieces i))" "piece_ok (last (pieces i))"
    and ne: "\<forall>s \<in> set (pieces i). s \<noteq> []"
    by (auto simp: list_all_iff piece_ok_def)
  then show ?thesis
    using join_ends [of "pieces i" "''.''"] node_str_pieces [of i]
    by (auto simp: piece_ok_def list_all_iff intro!: digit_solid)
qed

lemma node_parse_ok_iff: "node_parse raw = Inr i \<longleftrightarrow> node_ok i \<and> node_str i = trim raw"
proof
  assume "node_parse raw = Inr i"
  then have i: "i = NodeId (join_with ''.'' (split_on CHR ''.'' (trim raw)))"
    and ok: "list_all piece_ok (split_on CHR ''.'' (trim raw))"
    and len: "length (split_on CHR ''.'' (trim raw)) \<le> node_depth_max"
    by (auto simp: node_parse_def Let_def first_problem_None split: if_splits option.splits)
  then show "node_ok i \<and> node_str i = trim raw"
    by (simp add: node_ok_def pieces_def join_split)
next
  assume i: "node_ok i \<and> node_str i = trim raw"
  then have "trim raw \<noteq> []" using node_str_solid by metis
  moreover have "pieces i = split_on CHR ''.'' (trim raw)"
    using i by (simp add: pieces_def)
  then have "first_problem (split_on CHR ''.'' (trim raw)) = None"
    "length (split_on CHR ''.'' (trim raw)) \<le> node_depth_max"
    using i by (auto simp: first_problem_None node_ok_def)
  moreover have "NodeId (trim raw) = i"
    using i by (metis node_id.collapse)
  ultimately show "node_parse raw = Inr i"
    by (simp add: node_parse_def Let_def join_split)
qed

interpretation node: trimming_codec node_parse node_str node_ok
  by unfold_locales (auto simp: node_parse_ok_iff node_str_solid trim_solid)


section \<open>Parents, ancestors and children as prefixes\<close>

lemma rsplit_once_pieces:
  "rsplit_once CHR ''.'' (node_str i) =
     (if length (pieces i) = 1 then None
      else Some (join_with ''.'' (butlast (pieces i)), last (pieces i)))"
proof (cases "length (pieces i) = 1")
  case True
  then obtain s where "pieces i = [s]" by (auto simp: length_Suc_conv)
  then have str: "node_str i = s"
    using node_str_pieces [of i] by simp
  have "CHR ''.'' \<notin> set s"
    using split_on_pieces [of s "CHR ''.''" "node_str i"] \<open>pieces i = [s]\<close>
    by (metis list.set_intros(1) pieces_def)
  with True str show ?thesis by (simp add: rsplit_once_None_iff)
next
  case False
  then have ne: "butlast (pieces i) \<noteq> []"
    by (cases "pieces i" rule: rev_cases) auto
  have "node_str i = join_with ''.'' (butlast (pieces i) @ [last (pieces i)])"
    using node_str_pieces [of i] by simp
  also have "\<dots> = join_with ''.'' (butlast (pieces i)) @ CHR ''.'' # last (pieces i)"
    using join_with_append [OF ne, of "[last (pieces i)]" "''.''"] by simp
  finally have eq: "node_str i = join_with ''.'' (butlast (pieces i)) @ CHR ''.'' # last (pieces i)" .
  moreover have "CHR ''.'' \<notin> set (last (pieces i))"
    by (rule split_on_pieces [of _ _ "node_str i"]) (simp add: pieces_def)
  ultimately show ?thesis using False by (simp add: rsplit_once_Some_iff)
qed

lemma parent_pieces:
  assumes "node_ok i" "node_parent i = Some p"
  shows "node_ok p" "pieces p = butlast (pieces i)" "1 < length (pieces i)"
proof -
  have len: "length (pieces i) \<noteq> 1" and p: "p = NodeId (join_with ''.'' (butlast (pieces i)))"
    using assms(2) by (auto simp: node_parent_def rsplit_once_pieces split: if_splits)
  moreover have "length (pieces i) \<noteq> 0" by simp
  ultimately show more: "1 < length (pieces i)" by linarith
  have ok: "list_all piece_ok (butlast (pieces i))"
    using assms(1) by (auto simp: node_ok_def list_all_iff dest: in_set_butlastD)
  have "butlast (pieces i) \<noteq> []" using more by (cases "pieces i" rule: rev_cases) auto
  with ok p show pieces: "pieces p = butlast (pieces i)" by (simp add: pieces_NodeId)
  with ok assms(1) show "node_ok p" by (auto simp: node_ok_def)
qed

lemma parent_None_iff: "node_parent i = None \<longleftrightarrow> length (pieces i) = 1"
  by (simp add: node_parent_def rsplit_once_pieces)

lemma parent_Some_iff:
  assumes "node_ok i" "node_ok p"
  shows "node_parent i = Some p \<longleftrightarrow> (\<exists>s. pieces i = pieces p @ [s])"
proof
  assume "node_parent i = Some p"
  then show "\<exists>s. pieces i = pieces p @ [s]"
    using assms parent_pieces [of i p] by (metis append_butlast_last_id pieces_not_Nil)
next
  assume "\<exists>s. pieces i = pieces p @ [s]"
  then obtain s where s: "pieces i = pieces p @ [s]" by blast
  then have "length (pieces i) \<noteq> 1" by simp
  then obtain q where q: "node_parent i = Some q" using parent_None_iff by blast
  with s assms parent_pieces(2) have "pieces q = pieces p" by simp
  with q show "node_parent i = Some p" using pieces_inj by blast
qed

lemma depth_pieces: "depth i = length (pieces i)"
  by (simp add: depth_def pieces_def)

text \<open>A byte-wise prefix that ends before a dot is a prefix of whole segments.\<close>

lemma ancestor_iff_prefix: "is_ancestor_of a b \<longleftrightarrow> strict_prefix (pieces a) (pieces b)"
proof
  assume anc: "is_ancestor_of a b"
  then obtain r where r: "node_str b = node_str a @ r" "r \<noteq> []"
    by (auto simp: is_ancestor_of_def starts_with_iff)
  moreover have "hd r = CHR ''.''" using anc r by (simp add: is_ancestor_of_def hd_conv_nth nth_append)
  ultimately obtain t where "node_str b = node_str a @ CHR ''.'' # t" by (cases r) auto
  then show "strict_prefix (pieces a) (pieces b)"
    by (simp add: pieces_def split_on_sep strict_prefix_def)
next
  assume "strict_prefix (pieces a) (pieces b)"
  then obtain x xs where b: "pieces b = pieces a @ x # xs"
    by (rule strict_prefixE')
  have "node_str b = node_str a @ CHR ''.'' # join_with ''.'' (x # xs)"
    using b by (simp add: node_str_pieces join_with_append)
  then show "is_ancestor_of a b"
    by (simp add: is_ancestor_of_def starts_with_iff)
qed

lemma parent_length: "node_parent i = Some p \<Longrightarrow> length (pieces p) < length (pieces i)"
  by (auto simp: node_parent_def rsplit_once_Some_iff pieces_def split_on_sep)

lemma ancestor_trans: "is_ancestor_of a b \<Longrightarrow> is_ancestor_of b c \<Longrightarrow> is_ancestor_of a c"
  by (simp add: ancestor_iff_prefix)

lemma ancestor_irrefl: "\<not> is_ancestor_of a a"
  by (simp add: is_ancestor_of_def)

lemma parent_is_ancestor: "node_parent i = Some p \<Longrightarrow> is_ancestor_of p i"
  by (auto simp: node_parent_def rsplit_once_Some_iff ancestor_iff_prefix pieces_def
      split_on_sep strict_prefix_def)

lemma parent_ancestor_step:
  assumes "node_parent i = Some p"
  shows "is_ancestor_of a i \<longleftrightarrow> a = p \<or> is_ancestor_of a p"
proof -
  obtain s where s: "pieces i = pieces p @ [s]"
  proof -
    obtain h t where ht: "node_str i = h @ CHR ''.'' # t" "CHR ''.'' \<notin> set t" "p = NodeId h"
      using assms by (auto simp: node_parent_def rsplit_once_Some_iff)
    then have "pieces i = pieces p @ [t]"
      by (simp add: pieces_def split_on_sep split_on_no_sep)
    then show thesis by (rule that)
  qed
  then show ?thesis
    by (auto simp: ancestor_iff_prefix strict_prefix_def dest: pieces_inj)
qed

lemma set_climb: "set (climb (node_parent i)) = {a. is_ancestor_of a i}"
proof (induction "length (pieces i)" arbitrary: i rule: less_induct)
  case less
  show ?case
  proof (cases "node_parent i")
    case None
    then have "length (pieces i) = 1" by (simp add: parent_None_iff)
    then have "\<not> is_ancestor_of a i" for a
      by (auto simp: ancestor_iff_prefix length_Suc_conv strict_prefix_def prefix_Cons)
    with None show ?thesis by simp
  next
    case (Some p)
    then show ?thesis
      using less [OF parent_length [OF Some]] parent_ancestor_step [OF Some] by auto
  qed
qed

lemma set_ancestors: "set (ancestors i) = {a. is_ancestor_of a i}"
  by (simp add: ancestors_def set_climb)

lemma ancestor_ok: "node_ok i \<Longrightarrow> is_ancestor_of a i \<Longrightarrow> node_ok a"
  by (auto simp: ancestor_iff_prefix node_ok_def strict_prefix_def prefix_def)

text \<open>The ancestors come root first, one level at a time.\<close>

lemma ancestors_levels: "map depth (ancestors i) = [1..<length (pieces i)]"
proof (induction "length (pieces i)" arbitrary: i rule: less_induct)
  case less
  show ?case
  proof (cases "node_parent i")
    case None
    then have "length (pieces i) = 1" by (simp add: parent_None_iff)
    with None show ?thesis by (simp add: ancestors_def)
  next
    case (Some p)
    then have "pieces i \<noteq> []" "Suc (length (pieces p)) = length (pieces i)"
      by (auto simp: node_parent_def rsplit_once_Some_iff pieces_def split_on_sep
          split_on_no_sep)
    then show ?thesis
      using less [OF parent_length [OF Some]] Some
      by (simp add: ancestors_def depth_pieces upt_conv_Cons)
        (metis Suc_leI length_greater_0_conv pieces_not_Nil upt_Suc_append)
  qed
qed

lemma child_ok:
  assumes "node_ok i" "n \<noteq> 0" "length (pieces i) < node_depth_max"
  shows "\<exists>c. child i n = Inr c \<and> node_ok c \<and> node_parent c = Some i \<and> ordinal c = n"
proof -
  let ?d = "dec_of (unat n)"
  have pos: "0 < unat n" using assms(2) by (simp add: unat_gt_0)
  have "unat n < 4294967296" by simp
  then have bound: "unat n \<le> u32_max" unfolding u32_max_def by linarith
  have d: "piece_ok ?d"
    using pos bound by (simp add: piece_ok_def dec_of_digits dec_of_head dec_val_of)
  let ?c = "NodeId (join_with ''.'' (pieces i @ [?d]))"
  have str: "node_str i @ ''.'' @ ?d = node_str ?c"
    using node_str_pieces [of i] by (simp add: join_with_append)
  have "list_all piece_ok (pieces i @ [?d])"
    using assms(1) d by (simp add: node_ok_def)
  then have pc: "pieces ?c = pieces i @ [?d]" by (intro pieces_NodeId) simp_all
  then have ok: "node_ok ?c" using assms d by (simp add: node_ok_def)
  then have "child i n = Inr ?c"
    using str by (metis child_def node.parse_spell)
  moreover have "node_parent ?c = Some i"
    using parent_Some_iff [OF ok assms(1)] pc by blast
  moreover have "ordinal ?c = n"
    using pc bound rsplit_once_pieces [of ?c]
    by (simp add: ordinal_def parse_unsigned_dec_of)
  ultimately show ?thesis using ok by blast
qed

lemma child_refused:
  assumes "node_ok i" "n = 0 \<or> length (pieces i) = node_depth_max"
  shows "\<exists>e. child i n = Inl e \<and> code e = InvalidArgs"
proof -
  have "child i n \<noteq> Inr c" for c
  proof
    assume "child i n = Inr c"
    then have ok: "node_ok c" and str: "node_str c = trim (node_str i @ ''.'' @ dec_of (unat n))"
      by (auto simp: child_def node_parse_ok_iff)
    have "solid (last (dec_of (unat n)))"
      using dec_of_digits [of "unat n"] by (auto simp: list_all_iff intro: digit_solid)
    then have "trim (node_str i @ ''.'' @ dec_of (unat n)) = node_str i @ ''.'' @ dec_of (unat n)"
      using node_str_solid [OF assms(1)] by (intro trim_solid) auto
    with str have "node_str c = node_str i @ CHR ''.'' # dec_of (unat n)" by simp
    then have "pieces c = pieces i @ split_on CHR ''.'' (dec_of (unat n))"
      by (simp add: pieces_def split_on_sep)
    moreover have "CHR ''.'' \<notin> set (dec_of (unat n))"
      using dec_of_digits [of "unat n"] by (auto simp: list_all_iff is_digit_def)
    ultimately have c: "pieces c = pieces i @ [dec_of (unat n)]"
      by (simp add: split_on_no_sep)
    show False
    proof (cases "n = 0")
      case True
      then have "dec_of (unat n) = ''0''" by (simp add: dec_of.simps digit_char_def) code_simp
      with ok c show False by (simp add: node_ok_def piece_ok_def)
    next
      case False
      with assms ok c show False by (simp add: node_ok_def)
    qed
  qed
  moreover have "node_parse raw = Inl e \<Longrightarrow> code e = InvalidArgs" for raw e
    by (auto simp: node_parse_def Let_def index_refusal_def split: if_splits option.splits)
  ultimately show ?thesis
    by (cases "child i n") (auto simp: child_def)
qed

text \<open>A child index has its parent and its ordinal back; the ancestors of an index are the indexes that are strict prefixes of its numbers, one of each depth from the root down.\<close>

lemma plan_index_children:
  assumes "node_ok i"
  shows "(n \<noteq> 0 \<longrightarrow> depth i < node_depth_max \<longrightarrow>
      (\<exists>c. child i n = Inr c \<and> node_ok c \<and> node_parent c = Some i \<and> ordinal c = n)) \<and>
    (n = 0 \<or> depth i = node_depth_max \<longrightarrow> (\<exists>e. child i n = Inl e \<and> code e = InvalidArgs)) \<and>
    (set (ancestors i) = {a. is_ancestor_of a i}) \<and>
    (map depth (ancestors i) = [1..<depth i])"
  using child_ok [OF assms] child_refused [OF assms] set_ancestors ancestors_levels
  by (simp_all add: depth_pieces)

end
