(* ===== verification/Addresses.thy ===== *)
theory Addresses
  imports Codecs
begin

text \<open>
  Canonical relative paths (\<open>crates/kernel/src/address.rs\<close>). An address is accepted
  exactly as written or not at all; \<open>is_within\<close> is the prefix relation on its segments
  and is what every write domain, goal and repair zone is judged by. Those clients rely on
  the locale \<open>territory\<close>.
\<close>

section \<open>The contract of a territory\<close>

locale territory =
  fixes within :: "'a \<Rightarrow> 'a \<Rightarrow> bool"
  assumes within_refl: "within a a"
    and within_trans: "within a b \<Longrightarrow> within b c \<Longrightarrow> within a c"
    and within_comparable: "within a b \<Longrightarrow> within a c \<Longrightarrow> within b c \<or> within c b"
begin

text \<open>Two territories share a place exactly when one contains the other.\<close>

lemma meet_iff: "(\<exists>a. within a b \<and> within a c) \<longleftrightarrow> within b c \<or> within c b"
  using within_refl within_comparable by blast

lemma apart: "\<not> within b c \<Longrightarrow> \<not> within c b \<Longrightarrow> within a b \<Longrightarrow> \<not> within a c"
  using within_comparable by blast

lemma covered: "within a b \<Longrightarrow> \<exists>p \<in> P. within b p \<Longrightarrow> \<exists>p \<in> P. within a p"
  using within_trans by blast

end

section \<open>Addresses\<close>

datatype address = Address (addr_str: string)

instantiation address :: linorder
begin

definition less_eq_address :: "address \<Rightarrow> address \<Rightarrow> bool" where
  "less_eq_address a b \<longleftrightarrow> addr_str a \<le> addr_str b"

definition less_address :: "address \<Rightarrow> address \<Rightarrow> bool" where
  "less_address a b \<longleftrightarrow> addr_str a < addr_str b"

instance
  by standard (auto simp: less_eq_address_def less_address_def address.expand)

end

definition reserved_prefix :: string where
  "reserved_prefix = ''.sprawling''"

definition backslash :: char where
  "backslash = CHR 0x5C"

definition address_reject :: "string \<Rightarrow> string \<Rightarrow> ax_error" where
  "address_reject raw why =
     with_recovery
       (why @ ''; use a canonical relative path: `/`-separated segments without `.`/`..`, backslash, `:`, or control characters'')
       (failure InvalidArgs ''parse address'' raw)"

fun segment_refusal :: "string list \<Rightarrow> string option" where
  "segment_refusal [] = None"
| "segment_refusal (seg # rest) =
     (if seg = [] then Some ''address contains an empty segment''
      else if seg = ''.'' \<or> seg = ''..'' then Some ''address contains a `.` or `..` segment''
      else segment_refusal rest)"

definition address_parse :: "string \<Rightarrow> (ax_error, address) result" where
  "address_parse raw =
     (if raw = [] then Inl (address_reject raw ''address is empty'')
      else if starts_with ''/'' raw then Inl (address_reject raw ''address is absolute'')
      else if backslash \<in> set raw then Inl (address_reject raw ''address contains a backslash'')
      else if CHR '':'' \<in> set raw then Inl (address_reject raw ''address contains `:`'')
      else if has_control raw then Inl (address_reject raw ''address contains a control character'')
      else (case segment_refusal (split_on CHR ''/'' raw) of
              Some why \<Rightarrow> Inl (address_reject raw why)
            | None \<Rightarrow> Inr (Address raw)))"

definition is_within :: "address \<Rightarrow> address \<Rightarrow> bool" where
  "is_within a p =
     (case strip_prefix (addr_str p) (addr_str a) of
        None \<Rightarrow> False
      | Some rest \<Rightarrow> rest = [] \<or> starts_with ''/'' rest)"

definition is_reserved :: "address \<Rightarrow> bool" where
  "is_reserved a \<longleftrightarrow> list_ex (\<lambda>seg. seg = reserved_prefix) (split_on CHR ''/'' (addr_str a))"

section \<open>Session names\<close>

datatype session_name = SessionName (session_str: string)

definition session_name_max :: nat where
  "session_name_max = 64"

definition session_reject :: "string \<Rightarrow> string \<Rightarrow> ax_error" where
  "session_reject raw why =
     with_recovery
       (why @ ''; give one word or phrase this session can be found by - it becomes a folder beside the others in that building'')
       (failure InvalidArgs ''name a session'' raw)"

definition session_parse :: "string \<Rightarrow> (ax_error, session_name) result" where
  "session_parse raw =
     (let trimmed = trim raw in
      if trimmed = [] then Inl (session_reject raw ''a session with no name has no folder to work in'')
      else if session_name_max < char_count trimmed
        then Inl (session_reject raw ''that is longer than a name and shorter than a task'')
      else if trimmed = ''.'' \<or> trimmed = ''..''
        then Inl (session_reject raw ''that names a directory rather than a session'')
      else if trimmed = reserved_prefix
        then Inl (session_reject raw ''that name belongs to the city itself'')
      else if CHR ''/'' \<in> set trimmed \<or> \<not> is_ok (address_parse trimmed)
        then Inl (session_reject raw
               (''a session name is one segment: no `/`, `'' @ [backslash] @ ''`, `:` or control characters''))
      else Inr (SessionName trimmed))"

section \<open>What an address is\<close>

definition segs :: "address \<Rightarrow> string list" where
  "segs a = split_on CHR ''/'' (addr_str a)"

definition seg_ok :: "string \<Rightarrow> bool" where
  "seg_ok seg \<longleftrightarrow> seg \<noteq> [] \<and> seg \<noteq> ''.'' \<and> seg \<noteq> ''..''"

definition address_ok :: "address \<Rightarrow> bool" where
  "address_ok a \<longleftrightarrow>
     backslash \<notin> set (addr_str a) \<and> CHR '':'' \<notin> set (addr_str a) \<and>
     \<not> has_control (addr_str a) \<and> list_all seg_ok (segs a)"

lemma segment_refusal_None: "segment_refusal ss = None \<longleftrightarrow> list_all seg_ok ss"
  by (induction ss) (auto simp: seg_ok_def)

lemma first_seg_not_Nil:
  "list_all seg_ok (split_on CHR ''/'' raw) \<Longrightarrow> raw \<noteq> [] \<and> \<not> starts_with ''/'' raw"
  by (cases raw) (auto simp: seg_ok_def starts_with_def)

lemma address_parse_steps:
  "address_parse raw = Inr a \<longleftrightarrow>
   raw \<noteq> [] \<and> \<not> starts_with ''/'' raw \<and> backslash \<notin> set raw \<and> CHR '':'' \<notin> set raw \<and>
   \<not> has_control raw \<and> segment_refusal (split_on CHR ''/'' raw) = None \<and> Address raw = a"
  unfolding address_parse_def by (cases "segment_refusal (split_on CHR ''/'' raw)") simp_all

lemma address_parse_iff: "address_parse raw = Inr a \<longleftrightarrow> address_ok a \<and> addr_str a = raw"
proof (cases a)
  case (Address s)
  show ?thesis
    unfolding address_parse_steps segment_refusal_None Address address_ok_def segs_def address.sel
      address.inject
    using first_seg_not_Nil [of s] by blast
qed

interpretation address: strict_codec address_parse addr_str address_ok
  by unfold_locales (simp_all add: address_parse_iff)

lemma address_parse_error: "address_parse raw = Inl e \<Longrightarrow> code e = InvalidArgs \<and> subject e = raw"
  by (auto simp: address_parse_def address_reject_def split: if_splits option.splits)

lemma segs_inj: "segs a = segs b \<Longrightarrow> a = b"
  by (metis address.expand join_split segs_def)

lemma within_iff_prefix: "is_within a p \<longleftrightarrow> prefix (segs p) (segs a)"
proof
  assume "is_within a p"
  then obtain r where r: "addr_str a = addr_str p @ r" "r = [] \<or> starts_with ''/'' r"
    by (auto simp: is_within_def strip_prefix_Some_iff split: option.splits)
  show "prefix (segs p) (segs a)"
  proof (cases r)
    case Nil
    with r show ?thesis by (simp add: segs_def)
  next
    case (Cons c t)
    with r have "c = CHR ''/''" by (simp add: starts_with_def)
    with Cons r show ?thesis by (simp add: segs_def split_on_sep)
  qed
next
  assume "prefix (segs p) (segs a)"
  then obtain ss where a: "segs a = segs p @ ss" by (auto simp: prefix_def)
  have str: "addr_str x = join_with ''/'' (segs x)" for x by (simp add: segs_def join_split)
  show "is_within a p"
  proof (cases ss)
    case Nil
    with a have "a = p" by (simp add: segs_inj)
    then show ?thesis by (simp add: is_within_def strip_prefix_def)
  next
    case (Cons s rest)
    have ne: "segs p \<noteq> []" by (simp add: segs_def)
    have "addr_str a = join_with ''/'' (segs p @ ss)"
      using str [of a] a by (simp only:)
    also have "\<dots> = join_with ''/'' (segs p) @ ''/'' @ join_with ''/'' ss"
      using Cons ne by (intro join_with_append) simp_all
    finally have "addr_str a = addr_str p @ CHR ''/'' # join_with ''/'' ss"
      using str [of p] by simp
    then show ?thesis by (simp add: is_within_def starts_with_def)
  qed
qed

interpretation ground: territory is_within
  by unfold_locales (auto simp: within_iff_prefix dest: prefix_same_cases)

lemma within_antisym: "is_within a b \<Longrightarrow> is_within b a \<Longrightarrow> a = b"
  by (auto simp: within_iff_prefix intro: segs_inj dest: prefix_order.antisym)

lemma reserved_iff: "is_reserved a \<longleftrightarrow> reserved_prefix \<in> set (segs a)"
  by (auto simp: is_reserved_def segs_def list_ex_iff)

text \<open>The reserved subtree is closed downward, at whatever depth it begins.\<close>

lemma reserved_within: "is_reserved p \<Longrightarrow> is_within a p \<Longrightarrow> is_reserved a"
  by (auto simp: reserved_iff within_iff_prefix prefix_def)

lemma session_parse_iff:
  "session_parse raw = Inr n \<longleftrightarrow>
   session_str n = trim raw \<and> address_ok (Address (session_str n)) \<and>
   CHR ''/'' \<notin> set (session_str n) \<and> session_str n \<noteq> reserved_prefix \<and>
   char_count (session_str n) \<le> session_name_max"
proof -
  have one: "address_ok (Address s) \<Longrightarrow> s \<noteq> [] \<and> s \<noteq> ''.'' \<and> s \<noteq> ''..''" for s
    by (auto simp: address_ok_def segs_def seg_ok_def)
  have ok: "is_ok (address_parse s) \<longleftrightarrow> address_ok (Address s)" for s
    by (auto simp: is_ok_iff address_parse_iff intro: exI [of _ "Address s"])
  show ?thesis
    using one [of "trim raw"]
    by (cases n) (auto simp: session_parse_def Let_def ok)
qed

definition session_ok :: "session_name \<Rightarrow> bool" where
  "session_ok n \<longleftrightarrow>
     address_ok (Address (session_str n)) \<and> CHR ''/'' \<notin> set (session_str n) \<and>
     session_str n \<noteq> reserved_prefix \<and> char_count (session_str n) \<le> session_name_max \<and>
     trim (session_str n) = session_str n"

interpretation session: trimming_codec session_parse session_str session_ok
  by unfold_locales (auto simp: session_parse_iff session_ok_def trim_idem)

text \<open>A session name is one segment, so the directory it names is never in the reserved subtree.\<close>

lemma session_one_segment:
  assumes "session_ok n"
  shows "segs (Address (session_str n)) = [session_str n]"
    and "\<not> is_reserved (Address (session_str n))"
  using assms by (auto simp: session_ok_def segs_def split_on_no_sep reserved_iff)

text \<open>One address lies within another exactly when the other's segments are a prefix of its own; the relation is a partial order, and two territories share an address exactly when one contains the other.\<close>

lemma within_is_segment_prefix:
  shows "(is_within a p \<longleftrightarrow> prefix (segs p) (segs a)) \<and>
    ((\<exists>x. is_within x a \<and> is_within x b) \<longleftrightarrow> is_within a b \<or> is_within b a) \<and>
    (is_reserved a \<longleftrightarrow> reserved_prefix \<in> set (segs a))"
  using within_iff_prefix ground.meet_iff reserved_iff by blast

end
