(* ===== verification/Locators.thy ===== *)
theory Locators
  imports Addresses
begin

text \<open>
  Content hashes, git object ids and the two-scheme reference grammar
  (\<open>crates/kernel/src/locator.rs\<close>). The parser is fail-closed and echoes: whatever it
  accepts is exactly what \<open>Display\<close> writes. The BLAKE3 function itself is not under
  \<open>src/\<close>; a digest is its 32 bytes.
\<close>

section \<open>Hexadecimal\<close>

definition nibble :: "char \<Rightarrow> nat option" where
  "nibble c =
     (let b = (of_char c :: nat) in
      if 48 \<le> b \<and> b \<le> 57 then Some (b - 48)
      else if 97 \<le> b \<and> b \<le> 102 then Some (b - 97 + 10)
      else None)"

definition pair_byte :: "nat \<Rightarrow> nat \<Rightarrow> u8" where
  "pair_byte h l = of_nat (h * 16 + l)"

fun hex_pairs :: "string \<Rightarrow> u8 list option" where
  "hex_pairs [] = Some []"
| "hex_pairs [_] = None"
| "hex_pairs (hi # lo # rest) =
     (case (nibble hi, nibble lo) of
        (Some h, Some l) \<Rightarrow> map_option (\<lambda>bs. pair_byte h l # bs) (hex_pairs rest)
      | _ \<Rightarrow> None)"

definition decode_hex_fixed :: "nat \<Rightarrow> string \<Rightarrow> u8 list option" where
  "decode_hex_fixed n raw =
     (if length raw \<noteq> n * 2 then None
      else (case hex_pairs raw of
              None \<Rightarrow> None
            | Some out \<Rightarrow> if length out = n then Some out else None))"

definition hex_digit :: "nat \<Rightarrow> char" where
  "hex_digit n = (if n < 10 then char_of (48 + n) else char_of (87 + n))"

fun write_hex :: "u8 list \<Rightarrow> string" where
  "write_hex [] = []"
| "write_hex (b # bs) = hex_digit (unat b div 16) # hex_digit (unat b mod 16) # write_hex bs"

datatype b3_hash = B3Hash (hash_bytes: "u8 list")

datatype git_oid = GitOid (oid_bytes: "u8 list")

definition b3_parse_hex :: "string \<Rightarrow> b3_hash option" where
  "b3_parse_hex raw = map_option B3Hash (decode_hex_fixed 32 raw)"

definition b3_str :: "b3_hash \<Rightarrow> string" where
  "b3_str h = write_hex (hash_bytes h)"

definition oid_parse :: "string \<Rightarrow> git_oid option" where
  "oid_parse raw = map_option GitOid (decode_hex_fixed 20 raw)"

definition oid_str :: "git_oid \<Rightarrow> string" where
  "oid_str g = write_hex (oid_bytes g)"

section \<open>Ranges\<close>

datatype range = Lines u64 u64 | Bytes u64 u64

definition range_error :: "string \<Rightarrow> u64 \<Rightarrow> u64 \<Rightarrow> ax_error" where
  "range_error unit lo hi =
     with_recovery ''require from <= to; line ranges start at 1, byte ranges at 0''
       (failure InvalidArgs ''construct range''
         (unit @ '' '' @ dec_of (unat lo) @ ''-'' @ dec_of (unat hi)))"

definition range_lines :: "u64 \<Rightarrow> u64 \<Rightarrow> (ax_error, range) result" where
  "range_lines lo hi = (if lo = 0 \<or> hi < lo then Inl (range_error ''lines'' lo hi) else Inr (Lines lo hi))"

definition range_bytes :: "u64 \<Rightarrow> u64 \<Rightarrow> (ax_error, range) result" where
  "range_bytes lo hi = (if hi < lo then Inl (range_error ''bytes'' lo hi) else Inr (Bytes lo hi))"

fun range_str :: "range \<Rightarrow> string" where
  "range_str (Lines lo hi) = ''L'' @ dec_of (unat lo) @ ''-'' @ dec_of (unat hi)"
| "range_str (Bytes lo hi) = ''B'' @ dec_of (unat lo) @ ''-'' @ dec_of (unat hi)"

section \<open>Locators\<close>

datatype locator =
    Cas b3_hash "range option"
  | File address git_oid "range option"

definition invalid :: "string \<Rightarrow> string \<Rightarrow> ax_error" where
  "invalid raw why = with_recovery why (failure LocatorInvalid ''parse locator'' raw)"

definition parse_canonical_u64 :: "string \<Rightarrow> string \<Rightarrow> (ax_error, u64) result" where
  "parse_canonical_u64 raw digits =
     (if digits = [] \<or> \<not> list_all is_digit digits
      then Inl (invalid raw ''range bound must be decimal digits'')
      else if 1 < length digits \<and> starts_with ''0'' digits
      then Inl (invalid raw ''range bound must not carry leading zeros'')
      else (case parse_unsigned u64_max digits of
              None \<Rightarrow> Inl (invalid raw ''range bound exceeds u64'')
            | Some n \<Rightarrow> Inr (of_nat n)))"

text \<open>\<open>chars().next()\<close> and the rest: one code point is a byte and its continuation bytes.\<close>

definition continues :: "char \<Rightarrow> bool" where
  "continues c \<longleftrightarrow> 128 \<le> (of_char c :: nat) \<and> (of_char c :: nat) < 192"

fun next_char :: "string \<Rightarrow> (string \<times> string) option" where
  "next_char [] = None"
| "next_char (c # s) = Some (c # takeWhile continues s, dropWhile continues s)"

definition parse_range :: "string \<Rightarrow> string \<Rightarrow> (ax_error, range) result" where
  "parse_range raw fragment =
     (case next_char fragment of
        None \<Rightarrow> Inl (invalid raw ''empty range fragment'')
      | Some (unit, body) \<Rightarrow>
          (case split_once CHR ''-'' body of
             None \<Rightarrow> Inl (invalid raw ''range needs `<from>-<to>`'')
           | Some (from_raw, to_raw) \<Rightarrow>
               bind_r (parse_canonical_u64 raw from_raw) (\<lambda>lo.
               bind_r (parse_canonical_u64 raw to_raw) (\<lambda>hi.
                 let out_of_order = invalid raw ''range bounds are out of order or out of base'' in
                 if unit = ''L'' then
                   (case range_lines lo hi of Inl _ \<Rightarrow> Inl out_of_order | Inr r \<Rightarrow> Inr r)
                 else if unit = ''B'' then
                   (case range_bytes lo hi of Inl _ \<Rightarrow> Inl out_of_order | Inr r \<Rightarrow> Inr r)
                 else Inl (invalid raw ''range unit must be `L` (lines) or `B` (bytes)'')))))"

definition split_range :: "string \<Rightarrow> string \<Rightarrow> (ax_error, string \<times> range option) result" where
  "split_range raw rest =
     (case split_once CHR ''#'' rest of
        None \<Rightarrow> Inr (rest, None)
      | Some (body, fragment) \<Rightarrow> bind_r (parse_range raw fragment) (\<lambda>r. Inr (body, Some r)))"

definition write_range :: "range option \<Rightarrow> string" where
  "write_range r = (case r of None \<Rightarrow> [] | Some r \<Rightarrow> ''#'' @ range_str r)"

fun locator_str :: "locator \<Rightarrow> string" where
  "locator_str (Cas h r) = ''cas:b3-'' @ b3_str h @ write_range r"
| "locator_str (File a oid r) = ''file:'' @ addr_str a @ ''@'' @ oid_str oid @ write_range r"

definition parse_inner :: "string \<Rightarrow> (ax_error, locator) result" where
  "parse_inner raw =
     (case strip_prefix ''cas:'' raw of
        Some rest \<Rightarrow>
          bind_r (split_range raw rest) (\<lambda>(body, r).
            case strip_prefix ''b3-'' body of
              None \<Rightarrow> Inl (invalid raw ''unknown or missing algorithm tag; the only tag is `b3-`'')
            | Some hex \<Rightarrow>
                (case b3_parse_hex hex of
                   None \<Rightarrow> Inl (invalid raw ''hash must be exactly 64 lowercase hex digits'')
                 | Some h \<Rightarrow> Inr (Cas h r)))
      | None \<Rightarrow>
     (case strip_prefix ''file:'' raw of
        Some rest \<Rightarrow>
          bind_r (split_range raw rest) (\<lambda>(body, r).
            case rsplit_once CHR ''@'' body of
              None \<Rightarrow> Inl (invalid raw ''file locator needs `<address>@<git-oid>`'')
            | Some (addr_raw, oid_raw) \<Rightarrow>
                (case address_parse addr_raw of
                   Inl _ \<Rightarrow> Inl (invalid raw ''address part violates the address grammar'')
                 | Inr a \<Rightarrow>
                     (case oid_parse oid_raw of
                        None \<Rightarrow> Inl (invalid raw ''git oid must be exactly 40 lowercase hex digits'')
                      | Some oid \<Rightarrow> Inr (File a oid r))))
      | None \<Rightarrow>
          if starts_with ''secret:'' raw
          then Inl (invalid raw ''SecretRef never enters the locator grammar (separate parser by design)'')
          else Inl (invalid raw ''unknown scheme; only `cas:` and `file:` exist'')))"

definition locator_parse :: "string \<Rightarrow> (ax_error, locator) result" where
  "locator_parse raw =
     bind_r (parse_inner raw) (\<lambda>parsed.
       let echo = locator_str parsed in
       if echo \<noteq> raw then Inl (invalid raw (''non-canonical spelling; use `'' @ echo @ ''`''))
       else Inr parsed)"

section \<open>Hexadecimal round trips\<close>

lemma nibble_Some_iff: "nibble c = Some n \<longleftrightarrow> n < 16 \<and> c = hex_digit n"
proof
  assume "nibble c = Some n"
  then show "n < 16 \<and> c = hex_digit n"
    by (auto simp: nibble_def hex_digit_def Let_def split: if_splits)
next
  assume n: "n < 16 \<and> c = hex_digit n"
  then have "(of_char c :: nat) = (if n < 10 then 48 + n else 87 + n)"
    by (auto simp: hex_digit_def)
  with n show "nibble c = Some n" by (auto simp: nibble_def Let_def)
qed

lemma nibble_pair: "h < 16 \<Longrightarrow> l < 16 \<Longrightarrow> unat (pair_byte h l) = h * 16 + l"
  unfolding pair_byte_def by (subst unat_of_nat) simp

lemma pair_byte_unat: "pair_byte (unat b div 16) (unat b mod 16) = b"
  unfolding pair_byte_def by (simp add: div_mult_mod_eq del: of_nat_add of_nat_mult)

lemma hex_pairs_iff: "hex_pairs s = Some bs \<longleftrightarrow> write_hex bs = s"
proof
  show "hex_pairs s = Some bs \<Longrightarrow> write_hex bs = s"
  proof (induction s arbitrary: bs rule: hex_pairs.induct)
    case (3 hi lo rest)
    then show ?case
      by (auto simp: nibble_Some_iff nibble_pair split: option.splits)
  qed auto
next
  have "hex_pairs (write_hex bs) = Some bs"
  proof (induction bs)
    case Nil
    then show ?case by simp
  next
    case (Cons b bs)
    have "unat b < 2 ^ LENGTH(8)" by (rule unsigned_less)
    then have b: "unat b div 16 < 16" "unat b mod 16 < 16" by auto
    then have "nibble (hex_digit (unat b div 16)) = Some (unat b div 16)"
      "nibble (hex_digit (unat b mod 16)) = Some (unat b mod 16)"
      by (simp_all only: nibble_Some_iff simp_thms)
    then show ?case using Cons by (simp add: pair_byte_unat)
  qed
  then show "write_hex bs = s \<Longrightarrow> hex_pairs s = Some bs" by blast
qed

lemma hex_pairs_None: "hex_pairs s = None \<Longrightarrow> write_hex bs \<noteq> s"
  by (simp add: hex_pairs_iff [symmetric])

lemma write_hex_inj: "write_hex bs = write_hex cs \<Longrightarrow> bs = cs"
  by (metis hex_pairs_iff option.inject)

lemma length_write_hex: "length (write_hex bs) = length bs * 2"
  by (induction bs) auto

lemma decode_hex_iff: "decode_hex_fixed n raw = Some bs \<longleftrightarrow> length bs = n \<and> write_hex bs = raw"
proof (cases "hex_pairs raw")
  case None
  with hex_pairs_None show ?thesis by (simp add: decode_hex_fixed_def)
next
  case (Some cs)
  then have raw: "raw = write_hex cs" by (simp add: hex_pairs_iff)
  then have "length raw = length cs * 2" by (simp add: length_write_hex)
  with Some have "decode_hex_fixed n raw = (if length cs = n then Some cs else None)"
    by (simp add: decode_hex_fixed_def)
  then show ?thesis using raw write_hex_inj by auto
qed

lemma write_hex_chars: "c \<in> set (write_hex bs) \<Longrightarrow> nibble c \<noteq> None"
proof (induction bs)
  case Nil
  then show ?case by simp
next
  case (Cons b bs)
  have "unat b < 2 ^ LENGTH(8)" by (rule unsigned_less)
  then have "unat b div 16 < 16" "unat b mod 16 < 16" by auto
  with Cons nibble_Some_iff show ?case by (auto; metis option.distinct(1))
qed

lemma nibble_punct: "nibble CHR ''#'' = None" "nibble CHR ''@'' = None" "nibble CHR ''-'' = None"
  by (simp_all add: nibble_def)

lemma hex_no_hash: "CHR ''#'' \<notin> set (write_hex bs)" "CHR ''@'' \<notin> set (write_hex bs)"
  using write_hex_chars nibble_punct by metis+

lemma b3_parse_iff: "b3_parse_hex raw = Some h \<longleftrightarrow> length (hash_bytes h) = 32 \<and> b3_str h = raw"
  by (cases h) (auto simp: b3_parse_hex_def b3_str_def decode_hex_iff)

lemma oid_parse_iff: "oid_parse raw = Some g \<longleftrightarrow> length (oid_bytes g) = 20 \<and> oid_str g = raw"
  by (cases g) (auto simp: oid_parse_def oid_str_def decode_hex_iff)

section \<open>Well-formed ranges and locators\<close>

fun range_ok :: "range \<Rightarrow> bool" where
  "range_ok (Lines lo hi) \<longleftrightarrow> lo \<noteq> 0 \<and> lo \<le> hi"
| "range_ok (Bytes lo hi) \<longleftrightarrow> lo \<le> hi"

fun locator_ok :: "locator \<Rightarrow> bool" where
  "locator_ok (Cas h r) \<longleftrightarrow> length (hash_bytes h) = 32 \<and> pred_option range_ok r"
| "locator_ok (File a oid r) \<longleftrightarrow>
     address_ok a \<and> CHR ''#'' \<notin> set (addr_str a) \<and> length (oid_bytes oid) = 20 \<and> pred_option range_ok r"

lemma dec_of_one_zero: "1 < length (dec_of n) \<Longrightarrow> \<not> starts_with ''0'' (dec_of n)"
proof (cases "n = 0")
  case True
  assume "1 < length (dec_of n)"
  with True show ?thesis by (simp add: dec_of.simps)
next
  case False
  then have "hd (dec_of n) \<noteq> CHR ''0''" using dec_of_head by simp
  then show ?thesis by (cases "dec_of n") (auto simp: starts_with_def)
qed

lemma parse_canonical_dec: "parse_canonical_u64 raw (dec_of (unat w)) = Inr w"
proof -
  have "unat w \<le> u64_max" using unat_less_64 [of w] unfolding u64_max_def by linarith
  then show ?thesis
    using dec_of_one_zero [of "unat w"]
    by (simp add: parse_canonical_u64_def dec_of_digits parse_unsigned_dec_of)
qed

lemma dec_no_punct: "CHR ''-'' \<notin> set (dec_of n)" "CHR ''#'' \<notin> set (dec_of n)"
  using dec_of_digits [of n] by (auto simp: list_all_iff is_digit_def)

lemma next_ascii: "d \<noteq> [] \<Longrightarrow> list_all is_digit d \<Longrightarrow> next_char (c # d @ r) = Some ([c], d @ r)"
  by (cases d) (auto simp: continues_def is_digit_def)

lemma parse_range_str: "range_ok r \<Longrightarrow> parse_range raw (range_str r) = Inr r"
proof (cases r)
  case (Lines lo hi)
  assume ok: "range_ok r"
  have "next_char (range_str r) = Some (''L'', dec_of (unat lo) @ ''-'' @ dec_of (unat hi))"
    using next_ascii [OF dec_of_not_Nil dec_of_digits] Lines by simp
  moreover have "split_once CHR ''-'' (dec_of (unat lo) @ ''-'' @ dec_of (unat hi)) =
      Some (dec_of (unat lo), dec_of (unat hi))"
    by (simp add: split_once_Some_iff dec_no_punct)
  ultimately show ?thesis
    using ok Lines by (auto simp: parse_range_def parse_canonical_dec range_lines_def)
next
  case (Bytes lo hi)
  assume ok: "range_ok r"
  have "next_char (range_str r) = Some (''B'', dec_of (unat lo) @ ''-'' @ dec_of (unat hi))"
    using next_ascii [OF dec_of_not_Nil dec_of_digits] Bytes by simp
  moreover have "split_once CHR ''-'' (dec_of (unat lo) @ ''-'' @ dec_of (unat hi)) =
      Some (dec_of (unat lo), dec_of (unat hi))"
    by (simp add: split_once_Some_iff dec_no_punct)
  ultimately show ?thesis
    using ok Bytes by (auto simp: parse_range_def parse_canonical_dec range_bytes_def)
qed

lemma parse_range_ok: "parse_range raw f = Inr r \<Longrightarrow> range_ok r"
  by (auto simp: parse_range_def bind_r_Inr_iff range_lines_def range_bytes_def Let_def not_less
      split: option.splits sum.splits if_splits)

lemma split_range_Inr:
  assumes "split_range raw rest = Inr (body, r)"
  shows "CHR ''#'' \<notin> set body" "pred_option range_ok r"
  using assms
  by (auto simp: split_range_def bind_r_Inr_iff split_once_Some_iff split_once_None_iff
      split: option.splits prod.splits dest: parse_range_ok)

lemma split_range_write:
  assumes "CHR ''#'' \<notin> set body" "pred_option range_ok r"
  shows "split_range raw (body @ write_range r) = Inr (body, r)"
proof (cases r)
  case None
  with assms show ?thesis by (simp add: split_range_def write_range_def split_once_def)
next
  case (Some x)
  have "split_once CHR ''#'' (body @ ''#'' @ range_str x) = Some (body, range_str x)"
    using assms by (simp add: split_once_Some_iff)
  with assms Some show ?thesis
    by (simp add: split_range_def write_range_def parse_range_str)
qed

lemma parse_inner_ok:
  assumes "parse_inner raw = Inr l"
  shows "locator_ok l"
proof (cases "strip_prefix ''cas:'' raw")
  case (Some rest)
  with assms obtain body r where sr: "split_range raw rest = Inr (body, r)"
    and "(case strip_prefix ''b3-'' body of None \<Rightarrow> Inl (invalid raw ''unknown or missing algorithm tag; the only tag is `b3-`'')
          | Some hex \<Rightarrow> (case b3_parse_hex hex of
              None \<Rightarrow> Inl (invalid raw ''hash must be exactly 64 lowercase hex digits'')
            | Some h \<Rightarrow> Inr (Cas h r))) = Inr l"
    by (auto simp: parse_inner_def bind_r_Inr_iff)
  then obtain hex h where "b3_parse_hex hex = Some h" "l = Cas h r"
    by (cases "strip_prefix ''b3-'' body") (auto split: option.split_asm)
  with split_range_Inr [OF sr] show ?thesis by (simp add: b3_parse_iff)
next
  case None
  show ?thesis
  proof (cases "strip_prefix ''file:'' raw")
    case None
    with assms \<open>strip_prefix ''cas:'' raw = None\<close> show ?thesis
      by (auto simp: parse_inner_def split: if_splits)
  next
    case (Some rest)
    with assms \<open>strip_prefix ''cas:'' raw = None\<close>
    obtain body r where sr: "split_range raw rest = Inr (body, r)"
      and l: "(case rsplit_once CHR ''@'' body of
            None \<Rightarrow> Inl (invalid raw ''file locator needs `<address>@<git-oid>`'')
          | Some (addr_raw, oid_raw) \<Rightarrow>
              (case address_parse addr_raw of
                 Inl _ \<Rightarrow> Inl (invalid raw ''address part violates the address grammar'')
               | Inr a \<Rightarrow>
                   (case oid_parse oid_raw of
                      None \<Rightarrow> Inl (invalid raw ''git oid must be exactly 40 lowercase hex digits'')
                    | Some oid \<Rightarrow> Inr (File a oid r)))) = Inr l"
      by (auto simp: parse_inner_def bind_r_Inr_iff)
    from l obtain addr_raw oid_raw where at: "rsplit_once CHR ''@'' body = Some (addr_raw, oid_raw)"
      by (cases "rsplit_once CHR ''@'' body") auto
    with l obtain a oid where a: "address_parse addr_raw = Inr a" and oid: "oid_parse oid_raw = Some oid"
      and l: "l = File a oid r"
      by (auto split: sum.split_asm option.split_asm)
    have "set addr_raw \<subseteq> set body" using at by (auto simp: rsplit_once_Some_iff)
    then show ?thesis
      using split_range_Inr [OF sr] a oid l by (auto simp: address_parse_iff oid_parse_iff)
  qed
qed

lemma parse_inner_str: "locator_ok l \<Longrightarrow> parse_inner (locator_str l) = Inr l"
proof (cases l)
  case (Cas h r)
  assume ok: "locator_ok l"
  let ?raw = "''cas:b3-'' @ b3_str h @ write_range r"
  have "CHR ''#'' \<notin> set (''b3-'' @ b3_str h)" by (simp add: b3_str_def hex_no_hash)
  then have "split_range ?raw ((''b3-'' @ b3_str h) @ write_range r) = Inr (''b3-'' @ b3_str h, r)"
    using ok Cas by (intro split_range_write) auto
  moreover have "strip_prefix ''cas:'' ?raw = Some ((''b3-'' @ b3_str h) @ write_range r)"
    by (simp add: strip_prefix_Some_iff)
  moreover have "b3_parse_hex (b3_str h) = Some h" using ok Cas by (simp add: b3_parse_iff)
  moreover have "strip_prefix ''b3-'' (''b3-'' @ b3_str h) = Some (b3_str h)"
    by (rule strip_prefix_append)
  ultimately show ?thesis
    using Cas unfolding parse_inner_def by (simp only: locator_str.simps option.simps bind_r_simps prod.case)
next
  case (File a oid r)
  assume ok: "locator_ok l"
  let ?raw = "''file:'' @ addr_str a @ ''@'' @ oid_str oid @ write_range r"
  let ?body = "addr_str a @ ''@'' @ oid_str oid"
  have "CHR ''#'' \<notin> set ?body" using ok File by (simp add: oid_str_def hex_no_hash)
  then have "split_range ?raw (?body @ write_range r) = Inr (?body, r)"
    using ok File by (intro split_range_write) auto
  moreover have "strip_prefix ''file:'' ?raw = Some (?body @ write_range r)"
    "strip_prefix ''cas:'' ?raw = None"
    by (simp_all add: strip_prefix_Some_iff strip_prefix_None_iff starts_with_def)
  moreover have "rsplit_once CHR ''@'' ?body = Some (addr_str a, oid_str oid)"
    by (simp add: rsplit_once_Some_iff oid_str_def hex_no_hash)
  moreover have "address_parse (addr_str a) = Inr a" "oid_parse (oid_str oid) = Some oid"
    using ok File by (simp_all add: address_parse_iff oid_parse_iff)
  ultimately show ?thesis
    using File unfolding parse_inner_def
    by (simp only: locator_str.simps option.simps bind_r_simps prod.case sum.case)
qed

lemma locator_parse_iff: "locator_parse raw = Inr l \<longleftrightarrow> locator_ok l \<and> locator_str l = raw"
  using parse_inner_ok parse_inner_str
  by (auto simp: locator_parse_def bind_r_Inr_iff Let_def split: if_splits)

interpretation locator: strict_codec locator_parse locator_str locator_ok
  by unfold_locales (simp_all add: locator_parse_iff)

text \<open>Every refusal is the one code of the grammar and names the text it refused.\<close>

definition refuses_only :: "string \<Rightarrow> (ax_error, 'a) result \<Rightarrow> bool" where
  "refuses_only raw r \<longleftrightarrow> (\<forall>e. r = Inl e \<longrightarrow> code e = LocatorInvalid \<and> subject e = raw)"

lemma refuses_only_intros [simp, intro]:
  "refuses_only raw (Inl (invalid raw why))"
  "refuses_only raw (Inr x)"
  by (simp_all add: refuses_only_def invalid_def)

lemma refuses_only_bind [intro]:
  "refuses_only raw r \<Longrightarrow> (\<And>x. refuses_only raw (f x)) \<Longrightarrow> refuses_only raw (bind_r r f)"
  by (cases r) (auto simp: refuses_only_def)

lemma refuses_only_option [intro]:
  "refuses_only raw r \<Longrightarrow> (\<And>x. refuses_only raw (f x)) \<Longrightarrow> refuses_only raw (case v of None \<Rightarrow> r | Some x \<Rightarrow> f x)"
  by (cases v) auto

lemma refuses_only_sum [intro]:
  "(\<And>x. refuses_only raw (f x)) \<Longrightarrow> (\<And>x. refuses_only raw (g x)) \<Longrightarrow>
   refuses_only raw (case v of Inl x \<Rightarrow> f x | Inr x \<Rightarrow> g x)"
  by (cases v) auto

lemma refuses_only_pair [intro]:
  "(\<And>x y. refuses_only raw (f x y)) \<Longrightarrow> refuses_only raw (case v of (x, y) \<Rightarrow> f x y)"
  by (cases v) auto

lemma refuses_only_if [intro]:
  "refuses_only raw r \<Longrightarrow> refuses_only raw r' \<Longrightarrow> refuses_only raw (if b then r else r')"
  by simp

lemmas refuses_only_rules =
  refuses_only_bind refuses_only_option refuses_only_sum refuses_only_pair refuses_only_if
  refuses_only_intros

lemma parse_range_refuses: "refuses_only raw (parse_range raw f)"
  unfolding parse_range_def parse_canonical_u64_def Let_def by (intro refuses_only_rules)

lemma parse_inner_refuses: "refuses_only raw (parse_inner raw)"
  unfolding parse_inner_def split_range_def
  by (intro refuses_only_rules parse_range_refuses)

lemma locator_parse_error: "locator_parse raw = Inl e \<Longrightarrow> code e = LocatorInvalid \<and> subject e = raw"
proof -
  have "refuses_only raw (locator_parse raw)"
    unfolding locator_parse_def Let_def by (intro refuses_only_rules parse_inner_refuses)
  then show "locator_parse raw = Inl e \<Longrightarrow> code e = LocatorInvalid \<and> subject e = raw"
    by (simp add: refuses_only_def)
qed

lemma secret_never_parses: "starts_with ''secret:'' raw \<Longrightarrow> \<not> is_ok (locator_parse raw)"
proof -
  assume "starts_with ''secret:'' raw"
  then obtain r where raw: "raw = ''secret:'' @ r" by (auto simp: starts_with_iff)
  have "locator_str l \<noteq> raw" for l
    by (cases l) (simp_all add: raw)
  then show ?thesis by (auto simp: is_ok_iff locator_parse_iff)
qed

end
