(* ===== verification/Trims.thy ===== *)
theory Trims
  imports Prelude
begin

text \<open>
  More about \<open>trim\<close>: one blank at either end of a text makes no difference to it. Cells
  of a table are padded with spaces, and a line may end in a carriage return.
\<close>

definition blank :: "char \<Rightarrow> bool" where
  "blank c \<longleftrightarrow> c = CHR 0x20 \<or> c = CHR 0x0D"

lemma blank_whitespace: "blank c \<Longrightarrow> [c] \<in> set whitespace"
  by (auto simp: blank_def whitespace_def)

lemma blank_alone_table:
  "list_all (\<lambda>w. w = [CHR 0x20] \<or> w = [CHR 0x0D] \<or> (CHR 0x20 \<notin> set w \<and> CHR 0x0D \<notin> set w)) whitespace"
  by code_simp

lemma blank_alone: "blank c \<Longrightarrow> w \<in> set whitespace \<Longrightarrow> c \<in> set w \<Longrightarrow> w = [c]"
proof -
  assume c: "blank c" and w: "w \<in> set whitespace" and mem: "c \<in> set w"
  have "w = [CHR 0x20] \<or> w = [CHR 0x0D] \<or> (CHR 0x20 \<notin> set w \<and> CHR 0x0D \<notin> set w)"
    using blank_alone_table w by (simp only: list_all_iff)
  then show "w = [c]" using c mem unfolding blank_def by fastforce
qed

lemma strip_front:
  assumes "[c] \<in> set ws" "\<And>w. w \<in> set ws \<Longrightarrow> c \<in> set w \<Longrightarrow> w = [c]"
  shows "strip_many ws (c # s) = strip_many ws s"
proof -
  have "find (\<lambda>w. w \<noteq> [] \<and> starts_with w (c # s)) ws = Some [c]"
  proof -
    have "find (\<lambda>w. w \<noteq> [] \<and> starts_with w (c # s)) ws \<noteq> None"
      using assms(1) by (auto simp: find_None_iff starts_with_def)
    then obtain w where w: "find (\<lambda>w. w \<noteq> [] \<and> starts_with w (c # s)) ws = Some w" by blast
    then have "w \<in> set ws" "w \<noteq> []" "starts_with w (c # s)"
      by (auto simp: find_Some_iff)
    then obtain r where "c # s = w @ r" by (auto simp: starts_with_iff)
    with \<open>w \<noteq> []\<close> have "c \<in> set w" by (cases w) simp_all
    with \<open>w \<in> set ws\<close> have "w = [c]" by (rule assms(2))
    with w show ?thesis by simp
  qed
  then show ?thesis by (subst strip_many.simps) simp
qed

lemma strip_blank: "blank c \<Longrightarrow> strip_many whitespace (c # s) = strip_many whitespace s"
  using strip_front blank_whitespace blank_alone by blast

lemma strip_blank_rev: "blank c \<Longrightarrow> strip_many (map rev whitespace) (c # s) = strip_many (map rev whitespace) s"
proof (rule strip_front)
  assume c: "blank c"
  show "[c] \<in> set (map rev whitespace)"
    using blank_whitespace [OF c] by force
  show "w = [c]" if "w \<in> set (map rev whitespace)" "c \<in> set w" for w
    using that blank_alone [OF c] by auto
qed

lemma starts_with_blank:
  "blank c \<Longrightarrow> w \<in> set whitespace \<Longrightarrow> s \<noteq> [] \<Longrightarrow> starts_with w (s @ [c]) \<longleftrightarrow> starts_with w s"
proof -
  assume c: "blank c" and w: "w \<in> set whitespace" and s: "s \<noteq> []"
  have "starts_with w s" if pre: "starts_with w (s @ [c])"
  proof -
    from pre have "prefix w (s @ [c])" by (auto simp: starts_with_iff prefix_def)
    then consider "w = s @ [c]" | "prefix w s" by (auto simp: prefix_snoc)
    then show ?thesis
    proof cases
      case 1
      then have "w = [c]" using blank_alone [OF c w] by simp
      with 1 s show ?thesis by simp
    next
      case 2
      then show ?thesis by (auto simp: starts_with_iff prefix_def)
    qed
  qed
  then show "starts_with w (s @ [c]) \<longleftrightarrow> starts_with w s"
    by (auto simp: starts_with_iff)
qed

lemma trim_start_blank_end:
  assumes "blank c"
  shows "trim_start (s @ [c]) = (if trim_start s = [] then [] else trim_start s @ [c])"
proof -
  have "strip_many ws (s @ [c]) = (if strip_many ws s = [] then [] else strip_many ws s @ [c])"
    if "ws = whitespace" for ws
    using that
  proof (induction ws s rule: strip_many.induct)
    case (1 ws s)
    show ?case
    proof (cases "s = []")
      case True
      then show ?thesis using strip_blank [OF assms, of "[]"] 1 by simp
    next
      case False
      have same: "find (\<lambda>w. w \<noteq> [] \<and> starts_with w (s @ [c])) ws = find (\<lambda>w. w \<noteq> [] \<and> starts_with w s) ws"
        using starts_with_blank [OF assms _ False] 1(2) by (intro find_cong) auto
      show ?thesis
      proof (cases "find (\<lambda>w. w \<noteq> [] \<and> starts_with w s) ws")
        case None
        then show ?thesis
          using same False by (simp add: strip_many.simps [of ws s] strip_many.simps [of ws "s @ [c]"])
      next
        case (Some w)
        then have "length w \<le> length s"
          by (auto simp: find_Some_iff starts_with_iff)
        then have drop: "drop (length w) (s @ [c]) = drop (length w) s @ [c]" by simp
        have a: "strip_many ws s = strip_many ws (drop (length w) s)"
          using Some by (subst strip_many.simps) simp
        have b: "strip_many ws (s @ [c]) = strip_many ws (drop (length w) s @ [c])"
          using Some same drop by (subst strip_many.simps) simp
        show ?thesis
          unfolding a b by (rule 1(1) [OF Some 1(2)])
      qed
    qed
  qed
  then show ?thesis by (simp add: trim_start_def)
qed

lemma trim_end_blank: "blank c \<Longrightarrow> trim_end (s @ [c]) = trim_end s"
  by (simp add: trim_end_def strip_blank_rev)

lemma trim_blank_end [text_simps]: "blank c \<Longrightarrow> trim (s @ [c]) = trim s"
  by (simp add: trim_def trim_start_blank_end trim_end_blank)

lemma trim_blank_front [text_simps]: "blank c \<Longrightarrow> trim (c # s) = trim s"
  by (simp add: trim_def trim_start_def strip_blank)

lemma trim_padded [text_simps]: "trim (CHR '' '' # s @ '' '') = trim s"
  by (simp add: trim_blank_front trim_blank_end blank_def)

end
