(* ===== verification/Roadmap_Rows.thy ===== *)
theory Roadmap_Rows
  imports Node_Ids Locators Trims
begin

text \<open>
  One row of \<open>Roadmap.md\<close> (\<open>crates/kernel/src/spine.rs\<close>): how a line is cut into cells,
  how six cells are read, and how a row is drawn. What is drawn is read back.
\<close>

section \<open>Statuses, evidence and rows\<close>

datatype (plugins only: code size) roadmap_status =
  NotStarted | InProgress | Done | Blocked | AwaitingApproval

definition roadmap_status_spellings :: "(roadmap_status \<times> string) list" where
  "roadmap_status_spellings =
     [(NotStarted, ''Not started''), (InProgress, ''In progress''), (Done, ''Done''),
      (Blocked, ''Blocked''), (AwaitingApproval, ''Awaiting approval'')]"

definition roadmap_columns :: nat where
  "roadmap_columns = 6"

definition spelling :: "roadmap_status \<Rightarrow> string" where
  "spelling s =
     (case find (\<lambda>(known, _). known = s) roadmap_status_spellings of
        None \<Rightarrow> ''Not started''
      | Some (_, text) \<Rightarrow> text)"

definition parse_status :: "string \<Rightarrow> roadmap_status option" where
  "parse_status raw =
     map_option fst (find (\<lambda>(_, text). eq_ignore_ascii_case text raw) roadmap_status_spellings)"

datatype evidence_cell = Empty | Invalid string | Present locator

record roadmap_row =
  row_id :: node_id
  item :: string
  row_weight :: u32
  needs :: "node_id list"
  status :: roadmap_status
  evidence :: evidence_cell

record new_child =
  new_item :: string
  new_weight :: u32

section \<open>Cutting a line\<close>

definition bar :: char where
  "bar = CHR ''|''"

definition split_table_row :: "string \<Rightarrow> string list option" where
  "split_table_row line =
     (let trimmed = trim line in
      if \<not> starts_with [bar] trimmed then None
      else (case strip_prefix [bar] trimmed of
              None \<Rightarrow> None
            | Some rest \<Rightarrow>
                (case strip_suffix [bar] rest of
                   None \<Rightarrow> None
                 | Some inner \<Rightarrow> Some (map trim (split_on bar inner)))))"

definition is_separator :: "string list \<Rightarrow> bool" where
  "is_separator cells \<longleftrightarrow>
     cells \<noteq> [] \<and>
     list_all (\<lambda>c. c \<noteq> [] \<and> list_all (\<lambda>ch. ch = CHR ''-'' \<or> ch = CHR '':'') c) cells"

definition body_row :: "string list \<Rightarrow> bool" where
  "body_row cells \<longleftrightarrow> length cells = roadmap_columns \<and> \<not> is_separator cells"

section \<open>Reading and drawing\<close>

fun read_needs :: "string list \<Rightarrow> (string, node_id list) result" where
  "read_needs [] = Inr []"
| "read_needs (part # parts) =
     (let trimmed = trim part in
      if trimmed = [] then read_needs parts
      else (case node_parse trimmed of
              Inl err \<Rightarrow> Inl (subject err)
            | Inr i \<Rightarrow> bind_r (read_needs parts) (\<lambda>rest. Inr (i # rest))))"

fun read_row :: "string list \<Rightarrow> (string, roadmap_row) result" where
  "read_row (index_cell # item_cell # weight_cell # needs_cell # status_cell # evidence_cell # _) =
     (case node_parse index_cell of
        Inl err \<Rightarrow> Inl (subject err)
      | Inr i \<Rightarrow>
     bind_r (if weight_cell = [] then Inr 1
             else (case parse_unsigned u32_max weight_cell of
                     None \<Rightarrow> Inl (''weight `'' @ weight_cell @ ''` is not a number'')
                   | Some n \<Rightarrow> Inr (of_nat n))) (\<lambda>w.
     bind_r (read_needs (split_on CHR '','' needs_cell)) (\<lambda>ns.
     (case parse_status status_cell of
        None \<Rightarrow> Inl (''status `'' @ status_cell @ ''` outside the five-value enum'')
      | Some st \<Rightarrow>
          Inr \<lparr>row_id = i, item = item_cell, row_weight = w, needs = ns, status = st,
               evidence =
                 (if evidence_cell = [] then Empty
                  else (case locator_parse evidence_cell of
                          Inr l \<Rightarrow> Present l
                        | Inl _ \<Rightarrow> Invalid evidence_cell))\<rparr>))))"
| "read_row _ = Inl ''the row is short of cells''"

definition draw_row :: "roadmap_row \<Rightarrow> roadmap_status \<Rightarrow> locator option \<Rightarrow> string" where
  "draw_row row st ev =
     ''| '' @ node_str (row_id row) @ '' | '' @ item row @ '' | '' @ dec_of (unat (row_weight row)) @
     '' | '' @ join_with '', '' (map node_str (needs row)) @ '' | '' @ spelling st @ '' | '' @
     (case ev of None \<Rightarrow> [] | Some l \<Rightarrow> locator_str l) @ '' |''"

section \<open>Statuses\<close>

lemma spelling_simps:
  "spelling NotStarted = ''Not started''"
  "spelling InProgress = ''In progress''"
  "spelling Done = ''Done''"
  "spelling Blocked = ''Blocked''"
  "spelling AwaitingApproval = ''Awaiting approval''"
  by (simp_all add: spelling_def roadmap_status_spellings_def)

lemma parse_spelling: "parse_status (spelling s) = Some s"
  by (cases s)
    (simp_all add: spelling_simps parse_status_def roadmap_status_spellings_def
      eq_ignore_ascii_case_def to_ascii_lowercase_def ascii_lower_def)

text \<open>A status is read whatever the case of its letters.\<close>

lemma parse_status_case: "to_ascii_lowercase s = to_ascii_lowercase t \<Longrightarrow> parse_status s = parse_status t"
  by (simp add: parse_status_def eq_ignore_ascii_case_def)

lemma parse_status_Some:
  "parse_status raw = Some s \<Longrightarrow> to_ascii_lowercase raw = to_ascii_lowercase (spelling s)"
  by (auto simp: parse_status_def eq_ignore_ascii_case_def roadmap_status_spellings_def
      spelling_simps split: if_splits)

section \<open>Text a cell can carry\<close>

definition cell_ok :: "string \<Rightarrow> bool" where
  "cell_ok c \<longleftrightarrow> trim c = c \<and> bar \<notin> set c"

definition row_ok :: "roadmap_row \<Rightarrow> bool" where
  "row_ok row \<longleftrightarrow>
     node_ok (row_id row) \<and> cell_ok (item row) \<and> list_all node_ok (needs row) \<and>
     (case evidence row of
        Empty \<Rightarrow> True
      | Invalid raw \<Rightarrow> raw \<noteq> [] \<and> cell_ok raw \<and> (\<forall>l. locator_parse raw \<noteq> Inr l)
      | Present l \<Rightarrow> locator_ok l \<and> cell_ok (locator_str l))"


section \<open>What is drawn is read back\<close>

lemma cell_ok_Nil [simp]: "cell_ok []"
  by (simp add: cell_ok_def)

lemma cell_ok_solid: "s \<noteq> [] \<Longrightarrow> solid (hd s) \<Longrightarrow> solid (last s) \<Longrightarrow> bar \<notin> set s \<Longrightarrow> cell_ok s"
  by (simp add: cell_ok_def trim_solid)

lemma bar_facts: "\<not> is_digit bar" "bar \<noteq> CHR ''.''" "bar \<noteq> CHR '' ''" "bar \<noteq> CHR '',''" "solid bar"
  by (simp_all add: bar_def is_digit_def solid_def)

lemma set_join_with: "set (join_with sep xs) \<subseteq> set sep \<union> \<Union> (set (map set xs))"
  by (induction sep xs rule: join_with.induct) auto

lemma piece_digits: "piece_ok s \<Longrightarrow> c \<in> set s \<Longrightarrow> is_digit c"
  by (auto simp: piece_ok_def list_all_iff)

lemma node_chars: "node_ok i \<Longrightarrow> c \<in> set (node_str i) \<Longrightarrow> is_digit c \<or> c = CHR ''.''"
  using set_join_with [of "''.''" "pieces i"] node_str_pieces [of i]
  by (auto simp: node_ok_def list_all_iff dest: piece_digits)

lemma node_cell: "node_ok i \<Longrightarrow> cell_ok (node_str i)"
  using node_str_solid node_chars [of i bar] bar_facts by (intro cell_ok_solid) auto

lemma dec_cell: "cell_ok (dec_of n)"
proof (rule cell_ok_solid)
  show "solid (hd (dec_of n))" "solid (last (dec_of n))" "bar \<notin> set (dec_of n)"
    using dec_of_digits [of n] bar_facts by (auto simp: list_all_iff intro: digit_solid)
qed simp

lemma spelling_cell: "cell_ok (spelling st)"
  by (rule cell_ok_solid) (cases st; simp add: spelling_simps solid_def bar_def)+

lemma needs_cell:
  assumes "list_all node_ok ns"
  shows "cell_ok (join_with '', '' (map node_str ns))"
proof (cases "ns = []")
  case False
  have ne: "\<forall>s \<in> set (map node_str ns). s \<noteq> []"
    using assms node_str_solid by (auto simp: list_all_iff)
  have "node_ok (hd ns)" "node_ok (last ns)"
    using assms False by (simp_all add: list_all_iff)
  then have "solid (hd (node_str (hd ns)))" "solid (last (node_str (last ns)))"
    using node_str_solid by blast+
  moreover have "bar \<notin> set (join_with '', '' (map node_str ns))"
    using set_join_with [of "'', ''" "map node_str ns"] assms bar_facts
    by (auto simp: list_all_iff dest: node_chars)
  ultimately show ?thesis
    using join_ends [of "map node_str ns" "'', ''"] ne False
    by (intro cell_ok_solid) (simp_all add: hd_map last_map)
qed simp

text \<open>The six cells of a drawn row come back trimmed and in order.\<close>

definition row_cells :: "roadmap_row \<Rightarrow> roadmap_status \<Rightarrow> locator option \<Rightarrow> string list" where
  "row_cells row st ev =
     [node_str (row_id row), item row, dec_of (unat (row_weight row)),
      join_with '', '' (map node_str (needs row)), spelling st,
      (case ev of None \<Rightarrow> [] | Some l \<Rightarrow> locator_str l)]"

definition draw_cells :: "string list \<Rightarrow> string" where
  "draw_cells cells = bar # join_with [bar] (map (\<lambda>c. CHR '' '' # c @ '' '') cells) @ [bar]"

lemma split_draw_cells:
  assumes "cells \<noteq> []" "list_all cell_ok cells"
  shows "split_table_row (draw_cells cells) = Some cells"
proof -
  let ?padded = "map (\<lambda>c. CHR '' '' # c @ '' '') cells"
  have "trim (draw_cells cells) = draw_cells cells"
    unfolding draw_cells_def using bar_facts by (intro trim_solid) simp_all
  moreover have "\<forall>p \<in> set ?padded. bar \<notin> set p"
    using assms(2) bar_facts by (auto simp: list_all_iff cell_ok_def)
  then have "split_on bar (join_with [bar] ?padded) = ?padded"
    using assms(1) by (intro split_join) simp_all
  moreover have "map trim ?padded = cells"
    using assms(2) by (auto simp: list_all_iff cell_ok_def trim_padded intro: map_idI)
  moreover have "strip_prefix [bar] (draw_cells cells) = Some (join_with [bar] ?padded @ [bar])"
    "strip_suffix [bar] (join_with [bar] ?padded @ [bar]) = Some (join_with [bar] ?padded)"
    "starts_with [bar] (draw_cells cells)"
    by (simp_all add: strip_prefix_Some_iff strip_suffix_Some_iff draw_cells_def starts_with_iff)
  ultimately show ?thesis
    by (simp add: split_table_row_def)
qed

lemma draw_row_cells: "draw_row row st ev = draw_cells (row_cells row st ev)"
  by (simp add: draw_row_def draw_cells_def row_cells_def bar_def)

definition cell_of :: "locator option \<Rightarrow> evidence_cell" where
  "cell_of ev = (case ev of None \<Rightarrow> Empty | Some l \<Rightarrow> Present l)"

definition ev_ok :: "locator option \<Rightarrow> bool" where
  "ev_ok ev \<longleftrightarrow> (case ev of None \<Rightarrow> True | Some l \<Rightarrow> locator_ok l \<and> bar \<notin> set (locator_str l))"

lemma locator_str_solid:
  assumes "locator_ok l"
  shows "locator_str l \<noteq> [] \<and> solid (hd (locator_str l)) \<and> solid (last (locator_str l))"
proof -
  have hex: "solid (last (write_hex bs))" if "bs \<noteq> []" for bs
  proof -
    have "write_hex bs \<noteq> []" using that by (cases bs) auto
    then have "last (write_hex bs) \<in> set (write_hex bs)" by simp
    then have "nibble (last (write_hex bs)) \<noteq> None" by (rule write_hex_chars)
    then show ?thesis by (auto simp: nibble_def solid_def Let_def split: if_splits)
  qed
  have rng: "solid (last (range_str r))" for r
  proof -
    have "is_digit (last (dec_of n))" for n
      using dec_of_digits [of n] last_in_set [OF dec_of_not_Nil] by (metis list_all_iff)
    then show ?thesis by (cases r) (auto intro: digit_solid)
  qed
  have rne: "range_str r \<noteq> []" for r by (cases r) auto
  have wne: "bs \<noteq> [] \<Longrightarrow> write_hex bs \<noteq> []" for bs by (cases bs) auto
  show ?thesis
  proof (cases l)
    case (Cas h r)
    then have "hash_bytes h \<noteq> []" using assms by auto
    with Cas show ?thesis
      using hex [of "hash_bytes h"] rng
      by (cases r) (auto simp: write_range_def b3_str_def rne wne solid_def)
  next
    case (File a oid r)
    then have "oid_bytes oid \<noteq> []" using assms by auto
    with File show ?thesis
      using hex [of "oid_bytes oid"] rng
      by (cases r) (auto simp: write_range_def oid_str_def rne wne solid_def)
  qed
qed

lemma ev_cell: "ev_ok ev \<Longrightarrow> cell_ok (case ev of None \<Rightarrow> [] | Some l \<Rightarrow> locator_str l)"
  using locator_str_solid by (auto simp: ev_ok_def intro: cell_ok_solid split: option.splits)

lemma row_cells_ok: "row_ok row \<Longrightarrow> ev_ok ev \<Longrightarrow> list_all cell_ok (row_cells row st ev)"
  using ev_cell [of ev]
  by (simp add: row_cells_def row_ok_def node_cell dec_cell spelling_cell needs_cell)

lemma split_commas:
  assumes "list_all node_ok ns" "ns \<noteq> []"
  shows "map trim (split_on CHR '','' (join_with '', '' (map node_str ns))) = map node_str ns"
  using assms
proof (induction ns rule: induct_list012)
  case (2 i)
  then have "CHR '','' \<notin> set (node_str i)"
    using node_chars [of i "CHR '',''"] by (auto simp: is_digit_def)
  then show ?case
    using 2 by (simp add: split_on_no_sep node.spell_trimmed)
next
  case (3 i j ns)
  then have "CHR '','' \<notin> set (node_str i)"
    using node_chars [of i "CHR '',''"] by (auto simp: is_digit_def)
  moreover have "trim (CHR '' '' # s) = trim s" for s by (simp add: trim_blank_front blank_def)
  moreover obtain p ps where "split_on CHR '','' (join_with '', '' (map node_str (j # ns))) = p # ps"
    by (meson neq_Nil_conv split_on_not_Nil)
  ultimately show ?case
    using 3 by (simp add: split_on_append_sep node.spell_trimmed)
qed simp

lemma read_needs_trim: "read_needs xs = read_needs (map trim xs)"
proof (induction xs)
  case (Cons x xs)
  show ?case by (simp only: read_needs.simps list.map trim_idem Cons [symmetric])
qed simp

lemma read_needs_nodes: "list_all node_ok ns \<Longrightarrow> read_needs (map node_str ns) = Inr ns"
  by (induction ns) (auto simp: node.spell_trimmed node.parse_spell node_str_solid)

lemma read_needs_drawn:
  "list_all node_ok ns \<Longrightarrow> read_needs (split_on CHR '','' (join_with '', '' (map node_str ns))) = Inr ns"
  using split_commas read_needs_nodes read_needs_trim
  by (cases "ns = []") (simp, metis)

lemma read_row_cells:
  assumes "row_ok row" "ev_ok ev"
  shows "read_row (row_cells row st ev) = Inr (row\<lparr>status := st, evidence := cell_of ev\<rparr>)"
proof -
  have w: "parse_unsigned u32_max (dec_of (unat (row_weight row))) = Some (unat (row_weight row))"
  proof (rule parse_unsigned_dec_of)
    show "unat (row_weight row) \<le> u32_max"
      using unat_less_32 [of "row_weight row"] unfolding u32_max_def by linarith
  qed
  have i: "node_parse (node_str (row_id row)) = Inr (row_id row)"
    using assms(1) by (simp add: row_ok_def node.parse_spell)
  have ns: "read_needs (split_on CHR '','' (join_with '', '' (map node_str (needs row)))) = Inr (needs row)"
    using assms(1) by (simp add: row_ok_def read_needs_drawn)
  have ev: "(if (case ev of None \<Rightarrow> [] | Some l \<Rightarrow> locator_str l) = [] then Empty
         else (case locator_parse (case ev of None \<Rightarrow> [] | Some l \<Rightarrow> locator_str l) of
                 Inr l \<Rightarrow> Present l | Inl _ \<Rightarrow> Invalid (case ev of None \<Rightarrow> [] | Some l \<Rightarrow> locator_str l))) =
       cell_of ev"
  proof (cases ev)
    case None
    then show ?thesis by (simp add: cell_of_def)
  next
    case (Some l)
    then have "locator_ok l" using assms(2) by (simp add: ev_ok_def)
    then show ?thesis
      using Some locator.parse_spell locator_str_solid by (simp add: cell_of_def)
  qed
  show ?thesis
    unfolding row_cells_def read_row.simps i ns
    by (simp add: w ev parse_spelling)
qed

text \<open>A row drawn into the table is read back as the same row with the status and evidence it was drawn with, for every index, item without a bar, weight, list of needs, status and locator without a bar.\<close>

lemma row_reads_back:
  assumes "row_ok row" "ev_ok ev"
  shows "\<exists>cells. split_table_row (draw_row row st ev) = Some cells \<and>
    read_row cells = Inr (row\<lparr>status := st, evidence := cell_of ev\<rparr>)"
  using split_draw_cells [OF _ row_cells_ok [OF assms]] read_row_cells [OF assms]
  by (simp add: draw_row_cells row_cells_def)

end
