(* ===== verification/Shares.thy ===== *)
theory Shares
  imports Codes
begin

text \<open>
  How much of the whole plan one node is (\<open>crates/kernel/src/share.rs\<close>). A share is the
  whole or a part of a divided share; \<open>split_share\<close> is the only division, and the locale
  \<open>division\<close> is what the plan relies on: the parts of a division add up to what was divided.
\<close>

section \<open>The contract of a division\<close>

locale division =
  fixes divide :: "'p \<Rightarrow> 'w list \<Rightarrow> ('e, 'p list) result"
    and amount :: "'p \<Rightarrow> nat"
    and short_enough :: "'w list \<Rightarrow> bool"
  assumes divide_length: "divide pot ws = Inr parts \<Longrightarrow> length parts = length ws"
    and divide_sum:
      "divide pot ws = Inr parts \<Longrightarrow> short_enough ws \<Longrightarrow> (\<Sum>p\<leftarrow>parts. amount p) = amount pot"
begin

lemma part_le:
  assumes "divide pot ws = Inr parts" "short_enough ws" "p \<in> set parts"
  shows "amount p \<le> amount pot"
proof -
  have "amount p \<le> (\<Sum>p\<leftarrow>parts. amount p)"
    using assms(3) by (induction parts) auto
  then show ?thesis using assms divide_sum by simp
qed

text \<open>Dividing each part again still adds up to the first pot.\<close>

lemma divide_twice:
  assumes "divide pot ws = Inr parts" "short_enough ws"
    and "list_all2 (\<lambda>p ps. \<exists>vs. short_enough vs \<and> divide p vs = Inr ps) parts pss"
  shows "(\<Sum>p\<leftarrow>concat pss. amount p) = amount pot"
proof -
  have "(\<Sum>p\<leftarrow>concat pss. amount p) = (\<Sum>p\<leftarrow>parts. amount p)"
    using assms(3) by (induction rule: list_all2_induct) (auto simp: divide_sum)
  then show ?thesis using assms divide_sum by simp
qed

end

section \<open>Billionths\<close>

datatype share = Share (ppb: u64)

definition whole_ppb :: u64 where
  "whole_ppb = 1000000000"

definition share_whole :: share where
  "share_whole = Share whole_ppb"

definition share_none :: share where
  "share_none = Share 0"

text \<open>One part before the remainder: computed in 128 bits, then narrowed.\<close>

definition exact_part :: "u64 \<Rightarrow> u64 \<Rightarrow> u32 \<Rightarrow> u64" where
  "exact_part pot weight w =
     (let wide = saturating_mul (ucast pot :: 128 word) (ucast w);
          exact = (if weight = 0 then 0 else wide div ucast weight)
      in if unat exact \<le> u64_max then ucast exact else pot)"

fun spread_remainder :: "u64 \<Rightarrow> u64 list \<Rightarrow> u64 list" where
  "spread_remainder r [] = []"
| "spread_remainder r (p # ps) =
     (if r = 0 then p # ps
      else saturating_add p 1 # spread_remainder (saturating_sub r 1) ps)"

definition total_weight :: "u32 list \<Rightarrow> u64" where
  "total_weight ws = sum_list (map ucast ws)"

definition split_share :: "share \<Rightarrow> u32 list \<Rightarrow> (ax_error, share list) result" where
  "split_share s ws =
     (let weight = total_weight ws in
      if ws = [] \<or> weight = 0
      then Inl (with_recovery ''give at least one part, and at least one weight above zero''
             (failure InvalidArgs ''divide a share''
               (dec_of (length ws) @ '' parts, '' @ dec_of (unat weight) @ '' in weight'')))
      else (let parts = map (exact_part (ppb s) weight) ws;
                handed = foldl saturating_add 0 parts;
                remainder = saturating_sub (ppb s) handed
            in Inr (map Share (spread_remainder remainder parts))))"

definition gather :: "share list \<Rightarrow> share" where
  "gather parts = Share (min (foldl (\<lambda>held p. saturating_add held (ppb p)) 0 parts) whole_ppb)"

section \<open>The arithmetic, read as natural numbers\<close>

definition few :: "'a list \<Rightarrow> bool" where
  "few ws \<longleftrightarrow> length ws \<le> 4294967296"

lemma sum_weights_bound: "(\<Sum>w\<leftarrow>ws. unat (w :: u32)) \<le> length ws * 4294967295"
proof (induction ws)
  case Nil
  then show ?case by simp
next
  case (Cons w ws)
  have "unat w \<le> 4294967295" using unat_less_32 [of w] by linarith
  with Cons show ?case by simp
qed

lemma total_weight_nat:
  "few ws \<Longrightarrow> unat (total_weight ws) = (\<Sum>w\<leftarrow>ws. unat w)"
proof -
  assume few: "few ws"
  have "unat (total_weight vs) = (\<Sum>w\<leftarrow>vs. unat w) mod 2 ^ 64" for vs
  proof (induction vs)
    case Nil
    then show ?case by (simp add: total_weight_def)
  next
    case (Cons v vs)
    have "unat (total_weight (v # vs)) = (unat v + unat (total_weight vs)) mod 2 ^ 64"
      by (simp add: total_weight_def unat_word_ariths(1) unat_ucast_up)
    with Cons show ?case by (simp add: mod_add_right_eq)
  qed
  moreover have "(\<Sum>w\<leftarrow>ws. unat w) \<le> 4294967296 * 4294967295"
  proof -
    have "length ws * 4294967295 \<le> 4294967296 * 4294967295"
      using few by (intro mult_right_mono) (auto simp: few_def)
    then show ?thesis using sum_weights_bound [of ws] by linarith
  qed
  ultimately show ?thesis by simp
qed

lemma exact_part_nat:
  assumes "weight \<noteq> 0" "unat w \<le> unat weight"
  shows "unat (exact_part pot weight w) = unat pot * unat w div unat weight"
proof -
  have pot: "unat (ucast pot :: 128 word) = unat pot" and w: "unat (ucast w :: 128 word) = unat w"
    and weight: "unat (ucast weight :: 128 word) = unat weight"
    by (simp_all add: unat_ucast_up)
  have "unat pot * unat w \<le> 18446744073709551615 * 4294967295"
    using unat_less_64 [of pot] unat_less_32 [of w] by (intro mult_mono) linarith+
  then have wide: "unat (saturating_mul (ucast pot :: 128 word) (ucast w)) = unat pot * unat w"
    by (simp add: unat_saturating_mul pot w)
  have t0: "0 < unat weight" using assms(1) by (simp add: unat_gt_0)
  let ?e = "saturating_mul (ucast pot :: 128 word) (ucast w) div ucast weight"
  have e: "unat ?e = unat pot * unat w div unat weight"
    by (simp add: unat_div wide weight)
  also have "\<dots> \<le> unat pot * unat weight div unat weight"
    using assms(2) by (intro div_le_mono) simp
  also have "\<dots> = unat pot" using t0 by simp
  finally have le: "unat ?e \<le> unat pot" .
  have "unat pot < 18446744073709551616" by simp
  then have fits: "unat ?e \<le> u64_max" using le unfolding u64_max_def by linarith
  then have "unat (ucast ?e :: u64) = unat ?e"
    by (simp add: unsigned_ucast_eq u64_max_def take_bit_nat_eq_self)
  then show ?thesis
    using assms(1) fits e by (simp add: exact_part_def)
qed

lemma floor_sum_le: "(\<Sum>w\<leftarrow>ws. a * w div t) \<le> a * (\<Sum>w\<leftarrow>ws. w) div (t :: nat)"
proof (induction ws)
  case Nil
  then show ?case by simp
next
  case (Cons w ws)
  have "a * w div t + a * (\<Sum>w\<leftarrow>ws. w) div t \<le> (a * w + a * (\<Sum>w\<leftarrow>ws. w)) div t"
    using div_add1_eq [of "a * w" "a * (\<Sum>w\<leftarrow>ws. w)" t] by linarith
  with Cons.IH show ?case by (simp only: list.map sum_list.Cons distrib_left)
qed

lemma floor_sum_ge:
  fixes f :: "'a \<Rightarrow> nat"
  assumes t: "0 < t"
  shows "ws \<noteq> [] \<Longrightarrow> (\<Sum>w\<leftarrow>ws. f w) < t * ((\<Sum>w\<leftarrow>ws. f w div t) + length ws)"
proof (induction ws)
  case Nil
  then show ?case by simp
next
  case (Cons w ws)
  have one: "f w < t * (f w div t) + t"
    using dividend_less_times_div [OF t, of "f w"] by (simp only: add.commute)
  have "(\<Sum>w\<leftarrow>ws. f w) \<le> t * ((\<Sum>w\<leftarrow>ws. f w div t) + length ws)"
    using Cons.IH by (cases "ws = []") (auto simp only: list.map sum_list.Nil le0 intro: less_imp_le)
  then have "f w + (\<Sum>w\<leftarrow>ws. f w) < (t * (f w div t) + t) + t * ((\<Sum>w\<leftarrow>ws. f w div t) + length ws)"
    using one by (intro add_less_le_mono)
  then show ?case
    by (simp only: list.map sum_list.Cons list.size distrib_left mult_1_right One_nat_def
        mult_Suc_right add.assoc add.commute add.left_commute add_0_right)
qed

lemma foldl_saturating_sum:
  "unat a + (\<Sum>p\<leftarrow>ps. unat (p :: u64)) < 2 ^ 64 \<Longrightarrow>
   unat (foldl saturating_add a ps) = unat a + (\<Sum>p\<leftarrow>ps. unat p)"
proof (induction ps arbitrary: a)
  case Nil
  then show ?case by simp
next
  case (Cons p ps)
  then have "unat (saturating_add a p) = unat a + unat p"
    by (simp add: unat_saturating_add)
  with Cons show ?case by (simp add: add.assoc)
qed

lemma length_spread [simp]: "length (spread_remainder r ps) = length ps"
  by (induction r ps rule: spread_remainder.induct) auto

lemma sum_spread:
  "unat r \<le> length ps \<Longrightarrow> (\<Sum>p\<leftarrow>ps. unat p) + unat r < 2 ^ 64 \<Longrightarrow>
   (\<Sum>p\<leftarrow>spread_remainder r ps. unat p) = (\<Sum>p\<leftarrow>ps. unat p) + unat r"
proof (induction r ps rule: spread_remainder.induct)
  case (1 r)
  then show ?case by simp
next
  case (2 r p ps)
  show ?case
  proof (cases "r = 0")
    case True
    then show ?thesis by simp
  next
    case False
    then have r: "0 < unat r" by (simp add: unat_gt_0)
    then have "unat (saturating_add p 1) = unat p + 1"
      using "2.prems" by (simp add: unat_saturating_add)
    moreover have "unat (saturating_sub r 1) = unat r - 1"
      by (simp add: unat_saturating_sub)
    ultimately show ?thesis
      using 2 r False by simp
  qed
qed

text \<open>The first \<open>r\<close> parts get one billionth each, no other part changes.\<close>

lemma nth_spread:
  "i < length ps \<Longrightarrow> unat (ps ! i) + 1 < 2 ^ 64 \<Longrightarrow>
   unat (spread_remainder r ps ! i) = unat (ps ! i) + (if i < unat r then 1 else 0)"
proof (induction r ps arbitrary: i rule: spread_remainder.induct)
  case (1 r)
  then show ?case by simp
next
  case (2 r p ps)
  show ?case
  proof (cases "r = 0")
    case True
    then show ?thesis by simp
  next
    case False
    then have r: "0 < unat r" by (simp add: unat_gt_0)
    have next_r: "unat (saturating_sub r 1) = unat r - 1"
      by (simp add: unat_saturating_sub)
    show ?thesis
      using 2 False r next_r by (cases i) (auto simp: unat_saturating_add)
  qed
qed

section \<open>What a split guarantees\<close>

definition split_parts :: "share \<Rightarrow> u32 list \<Rightarrow> u64 list" where
  "split_parts s ws = map (exact_part (ppb s) (total_weight ws)) ws"

lemma split_parts_exact:
  assumes "few ws" "total_weight ws \<noteq> 0"
  shows "map unat (split_parts s ws) =
         map (\<lambda>w. unat (ppb s) * unat w div (\<Sum>v\<leftarrow>ws. unat v)) ws"
proof -
  have "unat (exact_part (ppb s) (total_weight ws) w) =
        unat (ppb s) * unat w div (\<Sum>v\<leftarrow>ws. unat v)" if "w \<in> set ws" for w
  proof -
    have "unat w \<le> (\<Sum>v\<leftarrow>ws. unat v)"
      using that by (induction ws) auto
    then show ?thesis
      using assms by (simp add: exact_part_nat total_weight_nat)
  qed
  then show ?thesis by (simp add: split_parts_def)
qed

text \<open>The remainder is smaller than the number of parts, and the parts before it add to the rest.\<close>

lemma split_remainder:
  fixes s :: share and ws :: "u32 list"
  assumes "few ws" "ws \<noteq> []" "total_weight ws \<noteq> 0"
  defines "parts \<equiv> split_parts s ws"
  defines "r \<equiv> saturating_sub (ppb s) (foldl saturating_add 0 parts)"
  shows "unat r < length ws" "(\<Sum>p\<leftarrow>parts. unat p) + unat r = unat (ppb s)"
proof -
  let ?t = "\<Sum>v\<leftarrow>ws. unat v"
  let ?f = "\<Sum>w\<leftarrow>ws. unat (ppb s) * unat w div ?t"
  have t: "0 < ?t"
    using assms(1,3) by (metis total_weight_nat unat_gt_0)
  have sum: "(\<Sum>p\<leftarrow>parts. unat p) = ?f"
    unfolding parts_def using split_parts_exact [OF assms(1,3)] by simp
  have "?f \<le> unat (ppb s) * ?t div ?t"
    using floor_sum_le [of "unat (ppb s)" ?t "map unat ws"] by (simp add: comp_def)
  then have le: "?f \<le> unat (ppb s)" using t by simp
  have small: "?f < 2 ^ 64" using order_le_less_trans [OF le unat_less_64] by simp
  have "unat (foldl saturating_add 0 parts) = ?f"
    using foldl_saturating_sum [of 0 parts] sum small by simp
  then have r: "unat r = unat (ppb s) - ?f"
    by (simp add: r_def unat_saturating_sub)
  with sum le show "(\<Sum>p\<leftarrow>parts. unat p) + unat r = unat (ppb s)" by simp
  have "?t * unat (ppb s) < ?t * (?f + length ws)"
    using floor_sum_ge [OF t assms(2), of "\<lambda>w. unat (ppb s) * unat w"]
    by (simp only: sum_list_const_mult mult.commute [of "unat (ppb s)" ?t])
  then have "unat (ppb s) < ?f + length ws"
    by (simp only: mult_less_cancel1)
  with r le show "unat r < length ws" by simp
qed

lemma split_refused_iff:
  "(\<exists>e. split_share s ws = Inl e) \<longleftrightarrow> ws = [] \<or> total_weight ws = 0"
  by (auto simp: split_share_def Let_def)

lemma split_Inr:
  "split_share s ws = Inr parts \<Longrightarrow>
   ws \<noteq> [] \<and> total_weight ws \<noteq> 0 \<and>
   parts = map Share (spread_remainder
     (saturating_sub (ppb s) (foldl saturating_add 0 (split_parts s ws))) (split_parts s ws))"
  by (auto simp: split_share_def split_parts_def Let_def split: if_splits)

lemma split_length: "split_share s ws = Inr parts \<Longrightarrow> length parts = length ws"
  by (auto dest!: split_Inr simp: split_parts_def)

lemma split_sum:
  assumes "split_share s ws = Inr parts" "few ws"
  shows "(\<Sum>p\<leftarrow>parts. unat (ppb p)) = unat (ppb s)"
proof -
  let ?ps = "split_parts s ws"
  let ?r = "saturating_sub (ppb s) (foldl saturating_add 0 ?ps)"
  from split_Inr [OF assms(1)]
  have ws: "ws \<noteq> []" "total_weight ws \<noteq> 0" and parts: "parts = map Share (spread_remainder ?r ?ps)"
    by auto
  have "unat ?r \<le> length ?ps" and sum: "(\<Sum>p\<leftarrow>?ps. unat p) + unat ?r = unat (ppb s)"
    using split_remainder [OF assms(2) ws, of s] by (simp_all add: split_parts_def)
  moreover have "(\<Sum>p\<leftarrow>?ps. unat p) + unat ?r < 2 ^ 64"
    using sum unat_less_64 [of "ppb s"] by simp
  ultimately show ?thesis
    using sum_spread [of ?r ?ps] parts by (simp add: comp_def)
qed

interpretation share: division split_share "\<lambda>s. unat (ppb s)" few
  by unfold_locales (auto intro: split_length split_sum)

text \<open>Each part is its exact proportion, rounded down or up by less than one billionth.\<close>

lemma split_proportional:
  fixes s :: share and ws :: "u32 list"
  assumes "split_share s ws = Inr parts" "few ws" "i < length ws"
  defines "exact \<equiv> unat (ppb s) * unat (ws ! i) div (\<Sum>v\<leftarrow>ws. unat v)"
  shows "unat (ppb (parts ! i)) = exact \<or> unat (ppb (parts ! i)) = exact + 1"
proof -
  let ?ps = "split_parts s ws"
  let ?r = "saturating_sub (ppb s) (foldl saturating_add 0 ?ps)"
  from split_Inr [OF assms(1)]
  have ws: "ws \<noteq> []" "total_weight ws \<noteq> 0" and parts: "parts = map Share (spread_remainder ?r ?ps)"
    by auto
  have len: "length ?ps = length ws" by (simp add: split_parts_def)
  have exact: "unat (?ps ! i) = exact"
    using arg_cong [OF split_parts_exact [OF assms(2) ws(2), of s], of "\<lambda>xs. xs ! i"] assms(3) len
    by (simp add: exact_def)
  show ?thesis
  proof (cases "i < unat ?r")
    case True
    have "unat (?ps ! i) + unat ?r \<le> unat (ppb s)"
      using split_remainder(2) [OF assms(2) ws, of s] assms(3) len
      by (metis add.commute add_le_cancel_left elem_le_sum_list length_map nth_map)
    with True have "unat (?ps ! i) + 1 \<le> unat (ppb s)" by linarith
    then have "unat (?ps ! i) + 1 < 2 ^ 64"
      using order_le_less_trans [OF _ unat_less_64] by fastforce
    then show ?thesis
      using nth_spread [of i ?ps ?r] assms(3) len exact parts by simp
  next
    case False
    have "spread_remainder r ps ! i = ps ! i" if "\<not> i < unat r" "i < length ps" for r ps
      using that
    proof (induction r ps arbitrary: i rule: spread_remainder.induct)
      case (2 r p ps)
      then show ?case
        by (cases i) (auto simp: unat_saturating_sub unat_gt_0 unat_eq_0)
    qed simp
    then show ?thesis
      using False assms(3) len exact parts by simp
  qed
qed

lemma gather_exact:
  assumes "(\<Sum>p\<leftarrow>parts. unat (ppb p)) \<le> unat whole_ppb"
  shows "unat (ppb (gather parts)) = (\<Sum>p\<leftarrow>parts. unat (ppb p))"
proof -
  have fold: "foldl (\<lambda>held p. saturating_add held (ppb p)) a parts =
        foldl saturating_add a (map ppb parts)" for a
    by (induction parts arbitrary: a) auto
  have "(\<Sum>p\<leftarrow>parts. unat (ppb p)) < 18446744073709551616"
    using assms by (rule order_le_less_trans) simp
  then have "unat (foldl saturating_add 0 (map ppb parts)) = (\<Sum>p\<leftarrow>parts. unat (ppb p))"
    using foldl_saturating_sum [of 0 "map ppb parts"] assms
    by (simp add: comp_def)
  then show ?thesis
    using assms by (simp add: gather_def fold min_def word_le_nat_alt)
qed

lemma gather_whole: "unat (ppb (gather parts)) \<le> unat whole_ppb"
  by (simp add: gather_def min_def word_le_nat_alt)

text \<open>Dividing a share fails exactly for no parts or no weight; otherwise there is one part per weight, the parts add up to the share, and each part is its exact proportion rounded down or one billionth more.\<close>

lemma split_conserves:
  assumes "few ws"
  shows "((\<exists>e. split_share s ws = Inl e) \<longleftrightarrow> ws = [] \<or> total_weight ws = 0) \<and>
    (split_share s ws = Inr parts \<longrightarrow> length parts = length ws \<and> (\<Sum>p\<leftarrow>parts. unat (ppb p)) = unat (ppb s)) \<and>
    (split_share s ws = Inr parts \<longrightarrow> i < length ws \<longrightarrow>
      unat (ppb (parts ! i)) - unat (ppb s) * unat (ws ! i) div (\<Sum>v\<leftarrow>ws. unat v) \<in> {0, 1} \<and>
      unat (ppb s) * unat (ws ! i) div (\<Sum>v\<leftarrow>ws. unat v) \<le> unat (ppb (parts ! i)))"
  using split_refused_iff [of s ws] split_length [of s ws parts] split_sum [OF _ assms, of s parts]
    split_proportional [OF _ assms, of s parts i] by auto

end
