(* ===== verification/Ordered_Maps.thy ===== *)
theory Ordered_Maps
  imports Prelude
begin

text \<open>
  \<open>BTreeMap\<close> and \<open>BTreeSet\<close>. What the program relies on is the interface
  \<open>ordered_map\<close>: a lookup sees the last insertion, and iteration visits each key once,
  in ascending order. The model's maps are association lists kept in ascending key
  order, so that iterating one is walking the list.
\<close>

section \<open>The interface\<close>

locale ordered_map =
  fixes empty_map :: "'m"
    and insert_map :: "'k::linorder \<Rightarrow> 'v \<Rightarrow> 'm \<Rightarrow> 'm"
    and remove_map :: "'k \<Rightarrow> 'm \<Rightarrow> 'm"
    and get_map :: "'m \<Rightarrow> 'k \<Rightarrow> 'v option"
    and keys_map :: "'m \<Rightarrow> 'k list"
    and ok_map :: "'m \<Rightarrow> bool"
  assumes get_empty: "get_map empty_map = (\<lambda>_. None)"
    and get_insert: "ok_map m \<Longrightarrow> get_map (insert_map k v m) = (get_map m)(k \<mapsto> v)"
    and get_remove: "ok_map m \<Longrightarrow> get_map (remove_map k m) = (get_map m)(k := None)"
    and keys_ascending: "ok_map m \<Longrightarrow> sorted_wrt (<) (keys_map m)"
    and keys_dom: "ok_map m \<Longrightarrow> set (keys_map m) = dom (get_map m)"
    and ok_empty: "ok_map empty_map"
    and ok_insert: "ok_map m \<Longrightarrow> ok_map (insert_map k v m)"
    and ok_remove: "ok_map m \<Longrightarrow> ok_map (remove_map k m)"
begin

lemma keys_distinct: "ok_map m \<Longrightarrow> distinct (keys_map m)"
  using keys_ascending strict_sorted_iff by blast

lemma keys_unique:
  assumes "ok_map m" "ok_map m'" "dom (get_map m) = dom (get_map m')"
  shows "keys_map m = keys_map m'"
  using assms keys_dom keys_ascending
  by (metis strict_sorted_equal)

lemma keys_overwrite:
  assumes "ok_map m" "get_map m k \<noteq> None"
  shows "keys_map (insert_map k v m) = keys_map m"
proof (rule keys_unique)
  show "ok_map (insert_map k v m)" "ok_map m"
    using assms by (auto intro: ok_insert)
  show "dom (get_map (insert_map k v m)) = dom (get_map m)"
    using assms by (auto simp: get_insert)
qed

lemma get_None_iff: "ok_map m \<Longrightarrow> get_map m k = None \<longleftrightarrow> k \<notin> set (keys_map m)"
  by (auto simp: keys_dom)

lemma get_of_key: "ok_map m \<Longrightarrow> k \<in> set (keys_map m) \<Longrightarrow> \<exists>v. get_map m k = Some v"
  by (auto simp: keys_dom)

lemma ok_fold: "ok_map m \<Longrightarrow> ok_map (fold (\<lambda>(k, v). insert_map k v) kvs m)"
  by (induction kvs arbitrary: m) (auto simp: ok_insert)

lemma get_fold:
  "ok_map m \<Longrightarrow>
   get_map (fold (\<lambda>(k, v). insert_map k v) kvs m) = get_map m ++ map_of (rev kvs)"
proof (induction kvs arbitrary: m)
  case Nil
  then show ?case by simp
next
  case (Cons kv kvs)
  then show ?case
    by (cases kv) (simp add: ok_insert get_insert map_add_def fun_eq_iff split: option.splits)
qed

end

section \<open>Ascending association lists\<close>

type_synonym ('k, 'v) btree = "('k \<times> 'v) list"

fun bt_insert :: "'k::linorder \<Rightarrow> 'v \<Rightarrow> ('k, 'v) btree \<Rightarrow> ('k, 'v) btree" where
  "bt_insert k v [] = [(k, v)]"
| "bt_insert k v ((a, b) # m) =
     (if k < a then (k, v) # (a, b) # m
      else if k = a then (k, v) # m
      else (a, b) # bt_insert k v m)"

fun bt_remove :: "'k \<Rightarrow> ('k, 'v) btree \<Rightarrow> ('k, 'v) btree" where
  "bt_remove k [] = []"
| "bt_remove k ((a, b) # m) = (if k = a then m else (a, b) # bt_remove k m)"

definition bt_get :: "('k, 'v) btree \<Rightarrow> 'k \<Rightarrow> 'v option" where
  "bt_get m k = map_of m k"

definition bt_keys :: "('k, 'v) btree \<Rightarrow> 'k list" where
  "bt_keys m = map fst m"

definition bt_values :: "('k, 'v) btree \<Rightarrow> 'v list" where
  "bt_values m = map snd m"

definition bt_ok :: "('k::linorder, 'v) btree \<Rightarrow> bool" where
  "bt_ok m \<longleftrightarrow> sorted_wrt (<) (bt_keys m)"

lemma bt_get_insert [map_laws]: "bt_get (bt_insert k v m) = (bt_get m)(k \<mapsto> v)"
  by (induction k v m rule: bt_insert.induct) (auto simp: bt_get_def fun_eq_iff)

lemma bt_keys_insert: "set (bt_keys (bt_insert k v m)) = insert k (set (bt_keys m))"
  by (induction k v m rule: bt_insert.induct) (auto simp: bt_keys_def)

lemma bt_keys_remove: "set (bt_keys (bt_remove k m)) \<subseteq> set (bt_keys m)"
  by (induction k m rule: bt_remove.induct) (auto simp: bt_keys_def)

lemma bt_ok_Cons: "bt_ok ((a, b) # m) \<longleftrightarrow> bt_ok m \<and> (\<forall>k \<in> set (bt_keys m). a < k)"
  by (auto simp: bt_ok_def bt_keys_def)

lemma bt_ok_Nil [simp]: "bt_ok []"
  by (simp add: bt_ok_def bt_keys_def)

lemma bt_ok_insert [map_laws]: "bt_ok m \<Longrightarrow> bt_ok (bt_insert k v m)"
  by (induction k v m rule: bt_insert.induct)
    (auto simp: bt_ok_Cons bt_keys_insert, auto simp: bt_keys_def)

lemma bt_ok_remove [map_laws]: "bt_ok m \<Longrightarrow> bt_ok (bt_remove k m)"
  by (induction k m rule: bt_remove.induct) (auto simp: bt_ok_Cons dest: bt_keys_remove [THEN subsetD])

lemma bt_get_None_iff [map_laws]: "bt_get m k = None \<longleftrightarrow> k \<notin> set (bt_keys m)"
  by (simp add: bt_get_def bt_keys_def map_of_eq_None_iff)

lemma bt_get_remove [map_laws]: "bt_ok m \<Longrightarrow> bt_get (bt_remove k m) = (bt_get m)(k := None)"
proof (induction k m rule: bt_remove.induct)
  case (1 k)
  then show ?case by (simp add: bt_get_def fun_eq_iff)
next
  case (2 k a b m)
  then have "a \<notin> set (bt_keys m)" by (auto simp: bt_ok_Cons)
  then have "bt_get m a = None" by (simp add: bt_get_None_iff)
  with 2 show ?case by (auto simp: bt_ok_Cons bt_get_def fun_eq_iff)
qed

lemma bt_keys_dom [map_laws]: "set (bt_keys m) = dom (bt_get m)"
  by (auto simp: bt_get_def bt_keys_def dom_map_of_conv_image_fst [symmetric] simp flip: domIff)

interpretation bt: ordered_map "[]" bt_insert bt_remove bt_get bt_keys bt_ok
proof unfold_locales
  show "bt_get [] = (\<lambda>_. None)" by (simp add: bt_get_def fun_eq_iff)
qed (simp_all add: bt_get_insert bt_get_remove bt_keys_dom bt_ok_insert bt_ok_remove,
     simp add: bt_ok_def)

lemma bt_get_mem: "bt_ok m \<Longrightarrow> (k, v) \<in> set m \<longleftrightarrow> bt_get m k = Some v"
  using bt.keys_distinct [of m] by (auto simp: bt_get_def bt_keys_def map_of_eq_Some_iff)

lemma bt_values_in: "bt_ok m \<Longrightarrow> v \<in> set (bt_values m) \<longleftrightarrow> (\<exists>k. bt_get m k = Some v)"
  by (auto simp: bt_values_def bt_get_mem [symmetric] image_iff) (metis snd_conv)

text \<open>Replacing the value under a key that is there keeps the rest of the list in place.\<close>

lemma bt_insert_overwrite:
  "bt_ok m \<Longrightarrow> bt_get m k \<noteq> None \<Longrightarrow>
   bt_insert k v m = map (\<lambda>(a, b). if a = k then (k, v) else (a, b)) m"
proof (induction k v m rule: bt_insert.induct)
  case (1 k v)
  then show ?case by (simp add: bt_get_def)
next
  case (2 k v a b m)
  have above: "\<forall>x \<in> set (bt_keys m). a < x" using 2 by (simp add: bt_ok_Cons)
  consider "k = a" | "k \<noteq> a" "k \<in> set (bt_keys m)"
    using "2.prems"(2) by (auto simp: bt_get_None_iff bt_keys_def)
  then show ?case
  proof cases
    case 1
    then have "map (\<lambda>(a, b). if a = k then (k, v) else (a, b)) m = m"
      using above by (intro map_idI) (force simp: bt_keys_def)
    with 1 show ?thesis by simp
  next
    case 2
    with above have "a < k" by blast
    with 2 "2.IH" "2.prems" show ?thesis
      by (auto simp: bt_ok_Cons bt_get_None_iff)
  qed
qed

section \<open>Ascending sets\<close>

fun bs_insert :: "'k::linorder \<Rightarrow> 'k list \<Rightarrow> 'k list" where
  "bs_insert k [] = [k]"
| "bs_insert k (a # s) =
     (if k < a then k # a # s else if k = a then a # s else a # bs_insert k s)"

definition bs_ok :: "'k::linorder list \<Rightarrow> bool" where
  "bs_ok s \<longleftrightarrow> sorted_wrt (<) s"

definition bs_extend :: "'k::linorder list \<Rightarrow> 'k list \<Rightarrow> 'k list" where
  "bs_extend s xs = fold bs_insert xs s"

lemma set_bs_insert [simp]: "set (bs_insert k s) = insert k (set s)"
  by (induction k s rule: bs_insert.induct) auto

lemma bs_ok_Nil [simp]: "bs_ok []"
  by (simp add: bs_ok_def)

lemma bs_ok_insert [map_laws]: "bs_ok s \<Longrightarrow> bs_ok (bs_insert k s)"
  by (induction k s rule: bs_insert.induct) (auto simp: bs_ok_def)

lemma set_bs_extend [simp]: "set (bs_extend s xs) = set s \<union> set xs"
  by (induction xs arbitrary: s) (auto simp: bs_extend_def)

lemma bs_ok_extend [map_laws]: "bs_ok s \<Longrightarrow> bs_ok (bs_extend s xs)"
  by (induction xs arbitrary: s) (auto simp: bs_extend_def bs_ok_insert)

lemma bs_unique: "bs_ok s \<Longrightarrow> bs_ok t \<Longrightarrow> set s = set t \<Longrightarrow> s = t"
  by (simp add: bs_ok_def strict_sorted_equal)

lemma bs_distinct: "bs_ok s \<Longrightarrow> distinct s"
  using strict_sorted_iff by (auto simp: bs_ok_def)

lemma bs_insert_mem: "bs_ok s \<Longrightarrow> k \<in> set s \<Longrightarrow> bs_insert k s = s"
  by (rule bs_unique) (auto simp: bs_ok_insert)

lemma bs_ok_filter: "bs_ok s \<Longrightarrow> bs_ok (filter P s)"
  by (simp add: bs_ok_def sorted_wrt_filter)

end
