(* ===== verification/Plan_Trees.thy ===== *)
theory Plan_Trees
  imports Roadmap_Rows Shares Ordered_Maps
begin

text \<open>
  The plan as a tree (\<open>crates/kernel/src/plan.rs\<close>): how rows are placed and refused, how
  the whole is divided among them, what may be started, and how a held node is put down.
  \<open>PlanTree\<close> is the ordered map from a node's id to its row, share and children.
\<close>

section \<open>Holding a node and putting it down\<close>

datatype stop_cause =
    Blocked string
  | HandedBack string
  | FrozeWithoutEvidence
  | Stalled u32
  | GateOverdue u64

definition stop_status :: "stop_cause \<Rightarrow> roadmap_status" where
  "stop_status why = (case why of HandedBack _ \<Rightarrow> NotStarted | _ \<Rightarrow> roadmap_status.Blocked)"

definition is_red :: "stop_cause \<Rightarrow> bool" where
  "is_red why = (case why of HandedBack _ \<Rightarrow> False | _ \<Rightarrow> True)"

definition stop_line :: "stop_cause \<Rightarrow> string" where
  "stop_line why =
     (case why of
        Blocked note \<Rightarrow> note
      | HandedBack note \<Rightarrow> note
      | FrozeWithoutEvidence \<Rightarrow> ''the run holding it ended without citing anything''
      | Stalled repeats \<Rightarrow> ''the run repeated one action '' @ dec_of (unat repeats) @ '' times''
      | GateOverdue waited \<Rightarrow> ''a door has waited '' @ dec_of (unat waited) @ '' ms for a person'')"

datatype held = Held (held_id: node_id)

datatype plan_exit = Finished node_id locator | Stopped node_id stop_cause

definition held_finish :: "held \<Rightarrow> locator \<Rightarrow> plan_exit" where
  "held_finish h ev = Finished (held_id h) ev"

definition held_stop :: "held \<Rightarrow> stop_cause \<Rightarrow> plan_exit" where
  "held_stop h why = Stopped (held_id h) why"

fun exit_id :: "plan_exit \<Rightarrow> node_id" where
  "exit_id (Finished i _) = i"
| "exit_id (Stopped i _) = i"

fun exit_status :: "plan_exit \<Rightarrow> roadmap_status" where
  "exit_status (Finished _ _) = Done"
| "exit_status (Stopped _ why) = stop_status why"

fun exit_evidence :: "plan_exit \<Rightarrow> locator option" where
  "exit_evidence (Finished _ ev) = Some ev"
| "exit_evidence (Stopped _ _) = None"

section \<open>Placing the rows\<close>

record plan_node =
  plan_row :: roadmap_row
  plan_share :: share
  children :: "node_id list"

type_synonym plan_tree = "(node_id, plan_node) btree"

definition is_leaf :: "plan_node \<Rightarrow> bool" where
  "is_leaf node \<longleftrightarrow> children node = []"

definition plan_refusal :: "string \<Rightarrow> string \<Rightarrow> string \<Rightarrow> ax_error" where
  "plan_refusal act subj recov = with_recovery recov (failure InvalidArgs act subj)"

fun place_rows :: "roadmap_row list \<Rightarrow> plan_tree \<Rightarrow> (ax_error, plan_tree) result" where
  "place_rows [] nodes = Inr nodes"
| "place_rows (row # rows) nodes =
     (if bt_get nodes (row_id row) \<noteq> None
      then Inl (plan_refusal ''place a plan node''
             (''index '' @ node_str (row_id row) @ '' appears twice'')
             ''give every row its own index; two rows with one number are two plans'')
      else place_rows rows
             (bt_insert (row_id row) \<lparr>plan_row = row, plan_share = share_none, children = []\<rparr> nodes))"

fun hang_children :: "node_id list \<Rightarrow> plan_tree \<Rightarrow> (ax_error, plan_tree) result" where
  "hang_children [] nodes = Inr nodes"
| "hang_children (i # placed) nodes =
     (case node_parent i of
        None \<Rightarrow> hang_children placed nodes
      | Some p \<Rightarrow>
          (case bt_get nodes p of
             None \<Rightarrow> Inl (plan_refusal ''place a plan node''
                      (node_str i @ '' hangs under '' @ node_str p @ '', which the table does not carry'')
                      ''write the parent row first; a plan cannot branch from nothing'')
           | Some node \<Rightarrow>
               hang_children placed (bt_insert p (node\<lparr>children := children node @ [i]\<rparr>) nodes)))"

section \<open>Dependencies\<close>

fun check_needs :: "plan_tree \<Rightarrow> node_id \<Rightarrow> node_id list \<Rightarrow> ax_error option" where
  "check_needs nodes i [] = None"
| "check_needs nodes i (need # ns) =
     (if bt_get nodes need = None
      then Some (plan_refusal ''read a plan dependency''
             (node_str i @ '' needs '' @ node_str need @ '', which the table does not carry'')
             ''name a row the plan holds, or drop the dependency'')
      else if need = i
      then Some (plan_refusal ''read a plan dependency'' (node_str i @ '' needs itself'')
             ''a node cannot wait for its own result'')
      else check_needs nodes i ns)"

fun check_all_needs :: "plan_tree \<Rightarrow> (node_id \<times> plan_node) list \<Rightarrow> ax_error option" where
  "check_all_needs nodes [] = None"
| "check_all_needs nodes ((i, node) # rest) =
     (case check_needs nodes i (needs (plan_row node)) of
        Some e \<Rightarrow> Some e
      | None \<Rightarrow> check_all_needs nodes rest)"

text \<open>One pass over the nodes after \<open>free\<close> was peeled; the queue is a stack, its top last.\<close>

fun relax ::
  "node_id \<Rightarrow> (node_id \<times> plan_node) list \<Rightarrow> (node_id, nat) btree \<times> node_id list \<Rightarrow>
   (node_id, nat) btree \<times> node_id list" where
  "relax free [] st = st"
| "relax free ((i, node) # rest) (waiting, queue) =
     (if free \<notin> set (needs (plan_row node)) then relax free rest (waiting, queue)
      else (case bt_get waiting i of
              None \<Rightarrow> relax free rest (waiting, queue)
            | Some n \<Rightarrow>
                relax free rest
                  (bt_insert i (n - 1) waiting, if n - 1 = 0 then queue @ [i] else queue)))"

text \<open>Kahn's loop. Every turn removes one waiting node, so as many turns as nodes suffice.\<close>

fun peel :: "nat \<Rightarrow> plan_tree \<Rightarrow> (node_id, nat) btree \<times> node_id list \<Rightarrow> (node_id, nat) btree \<times> node_id list" where
  "peel 0 nodes st = st"
| "peel (Suc fuel) nodes (waiting, queue) =
     (if queue = [] then (waiting, queue)
      else (let free = last queue in
            peel fuel nodes (relax free nodes (bt_remove free waiting, butlast queue))))"

definition first_waiting :: "plan_tree \<Rightarrow> (node_id, nat) btree" where
  "first_waiting nodes = map (\<lambda>(i, node). (i, length (needs (plan_row node)))) nodes"

definition first_queue :: "plan_tree \<Rightarrow> node_id list" where
  "first_queue nodes = map fst (filter (\<lambda>(_, n). n = 0) (first_waiting nodes))"

definition stuck_nodes :: "plan_tree \<Rightarrow> node_id list" where
  "stuck_nodes nodes = bt_keys (fst (peel (length nodes) nodes (first_waiting nodes, first_queue nodes)))"

fun circle_walk ::
  "nat \<Rightarrow> plan_tree \<Rightarrow> node_id list \<Rightarrow> node_id \<Rightarrow> node_id \<Rightarrow> node_id list \<Rightarrow> node_id list option" where
  "circle_walk 0 nodes stuck start here walk = Some walk"
| "circle_walk (Suc n) nodes stuck start here walk =
     (case bt_get nodes here of
        None \<Rightarrow> None
      | Some node \<Rightarrow>
          (case find (\<lambda>need. need \<in> set stuck) (needs (plan_row node)) of
             None \<Rightarrow> None
           | Some nxt \<Rightarrow>
               if nxt = start then Some (walk @ [nxt])
               else circle_walk n nodes stuck start nxt (walk @ [nxt])))"

definition first_cycle :: "plan_tree \<Rightarrow> node_id list option" where
  "first_cycle nodes =
     (case stuck_nodes nodes of
        [] \<Rightarrow> None
      | start # rest \<Rightarrow> circle_walk (length (start # rest)) nodes (start # rest) start start [start])"

definition arrow :: string where
  "arrow = [CHR '' '', CHR 0xE2, CHR 0x86, CHR 0x92, CHR '' '']"

definition check_dependencies :: "plan_tree \<Rightarrow> ax_error option" where
  "check_dependencies nodes =
     (case check_all_needs nodes nodes of
        Some e \<Rightarrow> Some e
      | None \<Rightarrow>
          (case first_cycle nodes of
             None \<Rightarrow> None
           | Some circle \<Rightarrow>
               Some (plan_refusal ''read a plan dependency''
                 (join_with arrow (map node_str circle) @ '' runs in a circle'')
                 ''drop one of those dependencies; nothing in a circle can ever start'')))"

section \<open>Branches that claim to be done\<close>

fun check_children :: "plan_tree \<Rightarrow> node_id \<Rightarrow> node_id list \<Rightarrow> ax_error option" where
  "check_children nodes i [] = None"
| "check_children nodes i (c # cs) =
     (if (case bt_get nodes c of None \<Rightarrow> False | Some node \<Rightarrow> status (plan_row node) \<noteq> Done)
      then Some (plan_refusal ''read a plan branch''
             (node_str i @ '' says done while '' @ node_str c @ '' does not'')
             ''a branch is done when its children are; finish the child or reopen the branch'')
      else check_children nodes i cs)"

fun check_branch_claims :: "plan_tree \<Rightarrow> (node_id \<times> plan_node) list \<Rightarrow> ax_error option" where
  "check_branch_claims nodes [] = None"
| "check_branch_claims nodes ((i, node) # rest) =
     (if children node = [] \<or> status (plan_row node) \<noteq> Done then check_branch_claims nodes rest
      else (case check_children nodes i (children node) of
              Some e \<Rightarrow> Some e
            | None \<Rightarrow> check_branch_claims nodes rest))"

section \<open>Dividing the whole\<close>

definition level_weights :: "plan_tree \<Rightarrow> node_id list \<Rightarrow> u32 list" where
  "level_weights nodes among =
     map (\<lambda>i. case bt_get nodes i of None \<Rightarrow> 1 | Some node \<Rightarrow> row_weight (plan_row node)) among"

definition level_parts :: "share \<Rightarrow> u32 list \<Rightarrow> (ax_error, share list) result" where
  "level_parts pot ws =
     (if list_all (\<lambda>w. w = 0) ws then split_share pot (replicate (length ws) 1) else split_share pot ws)"

text \<open>\<open>None\<close> is the recursion running past its fuel, which the depth of an id rules out.\<close>

function (sequential)
  hand_out :: "nat \<Rightarrow> share \<Rightarrow> node_id list \<Rightarrow> plan_tree \<Rightarrow> (ax_error, plan_tree) result option"
  and hand_parts :: "nat \<Rightarrow> (node_id \<times> share) list \<Rightarrow> plan_tree \<Rightarrow> (ax_error, plan_tree) result option"
where
  "hand_out fuel pot [] nodes = Some (Inr nodes)"
| "hand_out 0 pot (i # is) nodes = None"
| "hand_out (Suc fuel) pot (i # is) nodes =
     (case level_parts pot (level_weights nodes (i # is)) of
        Inl e \<Rightarrow> Some (Inl e)
      | Inr parts \<Rightarrow> hand_parts fuel (zip (i # is) parts) nodes)"
| "hand_parts fuel [] nodes = Some (Inr nodes)"
| "hand_parts fuel ((i, part) # rest) nodes =
     (case bt_get nodes i of
        None \<Rightarrow> hand_parts fuel rest nodes
      | Some node \<Rightarrow>
          (case hand_out fuel part (children node) (bt_insert i (node\<lparr>plan_share := part\<rparr>) nodes) of
             None \<Rightarrow> None
           | Some (Inl e) \<Rightarrow> Some (Inl e)
           | Some (Inr nodes') \<Rightarrow> hand_parts fuel rest nodes'))"
  by pat_completeness auto
termination
  by (relation "measures
       [\<lambda>x. case x of Inl (n, _) \<Rightarrow> n | Inr (n, _) \<Rightarrow> n,
        \<lambda>x. case x of Inl _ \<Rightarrow> 0 | Inr (_, parts, _) \<Rightarrow> Suc (length parts)]") auto

definition roots :: "plan_tree \<Rightarrow> node_id list" where
  "roots nodes = filter (\<lambda>i. node_parent i = None) (bt_keys nodes)"

definition divide :: "plan_tree \<Rightarrow> (ax_error, plan_tree) result option" where
  "divide nodes = hand_out (Suc node_depth_max) share_whole (roots nodes) nodes"

definition build :: "roadmap_row list \<Rightarrow> (ax_error, plan_tree) result option" where
  "build rows =
     (case place_rows rows [] of
        Inl e \<Rightarrow> Some (Inl e)
      | Inr nodes \<Rightarrow>
     (case hang_children (bt_keys nodes) nodes of
        Inl e \<Rightarrow> Some (Inl e)
      | Inr nodes \<Rightarrow>
     (case check_dependencies nodes of
        Some e \<Rightarrow> Some (Inl e)
      | None \<Rightarrow>
     (case check_branch_claims nodes nodes of
        Some e \<Rightarrow> Some (Inl e)
      | None \<Rightarrow> divide nodes))))"

section \<open>What may be started\<close>

definition needs_of :: "plan_tree \<Rightarrow> node_id \<Rightarrow> node_id list" where
  "needs_of t i =
     fold (\<lambda>step found.
             case bt_get t step of
               None \<Rightarrow> found
             | Some node \<Rightarrow> bs_extend found (needs (plan_row node)))
       (ancestors i @ [i]) []"

definition is_done :: "plan_tree \<Rightarrow> node_id \<Rightarrow> bool" where
  "is_done t need = (case bt_get t need of None \<Rightarrow> False | Some node \<Rightarrow> status (plan_row node) = Done)"

definition ready :: "plan_tree \<Rightarrow> node_id list" where
  "ready t =
     map (\<lambda>node. row_id (plan_row node))
       (filter (\<lambda>node. list_all (is_done t) (needs_of t (row_id (plan_row node))))
         (filter (\<lambda>node. is_leaf node \<and> status (plan_row node) = NotStarted) (bt_values t)))"

definition somewhere_else :: "plan_tree \<Rightarrow> string" where
  "somewhere_else t =
     (case ready t of
        [] \<Rightarrow> ''nothing is ready; report to the person rather than picking a node''
      | i # _ \<Rightarrow> ''claim '' @ node_str i @ '', which is ready'')"

definition claim :: "plan_tree \<Rightarrow> node_id \<Rightarrow> (ax_error, held) result" where
  "claim t i =
     (case bt_get t i of
        None \<Rightarrow> Inl (plan_refusal ''claim a plan node'' (''no row numbered '' @ node_str i)
                 (''list the plan first; it carries '' @ dec_of (length t) @ '' rows''))
      | Some node \<Rightarrow>
          if \<not> is_leaf node
          then Inl (plan_refusal ''claim a plan node''
                 (node_str i @ '' is a branch with '' @ dec_of (length (children node)) @ '' children'')
                 ''claim one of its children; a branch is done when its children are'')
          else if status (plan_row node) \<noteq> NotStarted
          then Inl (with_recovery (somewhere_else t)
                 (failure GoalConflict ''claim a plan node''
                   (node_str i @ '' is `'' @ spelling (status (plan_row node)) @ ''`'')))
          else (let waiting = filter (\<lambda>need. \<not> is_done t need) (needs_of t i) in
                if waiting \<noteq> []
                then Inl (plan_refusal ''claim a plan node''
                       (node_str i @ '' waits for '' @ join_with '', '' (map node_str waiting))
                       (somewhere_else t))
                else Inr (Held i)))"

section \<open>Progress\<close>

record planned_progress =
  done_leaves :: u32
  blocked_leaves :: u32
  total_leaves :: u32
  done_ppb :: u64
  blocked_ppb :: u64

record progress_count =
  c_done :: u32
  c_blocked :: u32
  c_total :: u32
  c_done_parts :: "share list"
  c_blocked_parts :: "share list"

definition counts_done :: "plan_node \<Rightarrow> bool" where
  "counts_done node \<longleftrightarrow>
     status (plan_row node) = Done \<and> (case evidence (plan_row node) of Present _ \<Rightarrow> True | _ \<Rightarrow> False)"

definition counts_blocked :: "plan_node \<Rightarrow> bool" where
  "counts_blocked node \<longleftrightarrow>
     status (plan_row node) = roadmap_status.Blocked \<or> status (plan_row node) = AwaitingApproval"

definition count_node :: "plan_node \<Rightarrow> progress_count \<Rightarrow> progress_count" where
  "count_node node c =
     (if \<not> is_leaf node then c
      else (let c = c\<lparr>c_total := saturating_add (c_total c) 1\<rparr> in
            if counts_done node
            then c\<lparr>c_done := saturating_add (c_done c) 1, c_done_parts := c_done_parts c @ [plan_share node]\<rparr>
            else if counts_blocked node
            then c\<lparr>c_blocked := saturating_add (c_blocked c) 1,
                   c_blocked_parts := c_blocked_parts c @ [plan_share node]\<rparr>
            else c))"

definition progress :: "plan_tree \<Rightarrow> planned_progress" where
  "progress t =
     (let c = fold count_node (bt_values t)
                \<lparr>c_done = 0, c_blocked = 0, c_total = 0, c_done_parts = [], c_blocked_parts = []\<rparr>
      in \<lparr>done_leaves = c_done c, blocked_leaves = c_blocked c, total_leaves = c_total c,
          done_ppb = ppb (gather (c_done_parts c)), blocked_ppb = ppb (gather (c_blocked_parts c))\<rparr>)"

end
