(* ===== verification/Plan_Cycles.thy ===== *)
theory Plan_Cycles
  imports Plan_Trees
begin

text \<open>
  What \<open>first_cycle\<close> finds (\<open>crates/kernel/src/plan.rs\<close>). The peeling loop ends within one
  turn per node; what it leaves behind is exactly the set of nodes that cannot be peeled;
  and, for rows that name no dependency twice, that set is empty exactly when the
  dependency relation has no circle.
\<close>

section \<open>The dependency relation\<close>

definition node_needs :: "plan_tree \<Rightarrow> node_id \<Rightarrow> node_id list" where
  "node_needs nodes i = (case bt_get nodes i of None \<Rightarrow> [] | Some node \<Rightarrow> needs (plan_row node))"

definition needs_rel :: "plan_tree \<Rightarrow> (node_id \<times> node_id) set" where
  "needs_rel nodes = {(i, n). n \<in> set (node_needs nodes i)}"

definition needs_closed :: "plan_tree \<Rightarrow> bool" where
  "needs_closed nodes \<longleftrightarrow> (\<forall>i n. n \<in> set (node_needs nodes i) \<longrightarrow> bt_get nodes n \<noteq> None)"

definition needs_once :: "plan_tree \<Rightarrow> bool" where
  "needs_once nodes \<longleftrightarrow> (\<forall>i. distinct (node_needs nodes i))"

lemma node_needs_mem: "bt_ok nodes \<Longrightarrow> (i, node) \<in> set nodes \<Longrightarrow> node_needs nodes i = needs (plan_row node)"
  by (simp add: node_needs_def bt_get_mem)

lemma node_needs_iff:
  "n \<in> set (node_needs nodes i) \<longleftrightarrow> (\<exists>node. bt_get nodes i = Some node \<and> n \<in> set (needs (plan_row node)))"
  by (cases "bt_get nodes i") (auto simp: node_needs_def)

section \<open>One pass\<close>

lemma relax_unseen:
  "i \<notin> fst ` set rest \<Longrightarrow> bt_get (fst (relax free rest (waiting, queue))) i = bt_get waiting i"
proof (induction free rest "(waiting, queue)" arbitrary: waiting queue rule: relax.induct)
  case (2 free a node rest waiting queue)
  then show ?case by (auto simp: bt_get_insert split: option.splits)
qed simp

lemma relax_ok: "bt_ok waiting \<Longrightarrow> bt_ok (fst (relax free rest (waiting, queue)))"
  by (induction free rest "(waiting, queue)" arbitrary: waiting queue rule: relax.induct)
    (auto simp: bt_ok_insert split: option.splits)

lemma relax_keys: "set (bt_keys (fst (relax free rest (waiting, queue)))) = set (bt_keys waiting)"
proof (induction free rest "(waiting, queue)" arbitrary: waiting queue rule: relax.induct)
  case (2 free a node rest waiting queue)
  have "bt_get waiting a = Some n \<Longrightarrow> a \<in> set (bt_keys waiting)" for n
    by (auto simp: bt_keys_dom)
  with 2 show ?case by (auto simp: bt_keys_insert split: option.splits)
qed simp

lemma relax_get:
  assumes "distinct (map fst rest)"
  shows "bt_get (fst (relax free rest (waiting, queue))) i =
    (case bt_get waiting i of
       None \<Rightarrow> None
     | Some n \<Rightarrow> Some (if \<exists>node. (i, node) \<in> set rest \<and> free \<in> set (needs (plan_row node)) then n - 1 else n))"
  using assms
proof (induction free rest "(waiting, queue)" arbitrary: waiting queue rule: relax.induct)
  case (2 free a node rest waiting queue)
  show ?case
  proof (cases "i = a")
    case True
    then have "i \<notin> fst ` set rest" using 2(4) by auto
    moreover have "(i, x) \<notin> set rest" for x using calculation by force
    ultimately show ?thesis
      using True by (auto simp: relax_unseen bt_get_insert split: option.splits)
  next
    case False
    then show ?thesis
      using 2 by (auto simp: bt_get_insert split: option.splits)
  qed
qed (auto split: option.splits)

lemma relax_queue:
  assumes "distinct (map fst rest)"
  shows "snd (relax free rest (waiting, queue)) =
    queue @ map fst (filter (\<lambda>(i, node). free \<in> set (needs (plan_row node)) \<and>
      (case bt_get waiting i of None \<Rightarrow> False | Some n \<Rightarrow> n - 1 = 0)) rest)"
  using assms
proof (induction free rest "(waiting, queue)" arbitrary: waiting queue rule: relax.induct)
  case (2 free a node rest waiting queue)
  have same: "filter (\<lambda>(i, node). free \<in> set (needs (plan_row node)) \<and>
        (case bt_get (bt_insert a m waiting) i of None \<Rightarrow> False | Some n \<Rightarrow> n - 1 = 0)) rest =
      filter (\<lambda>(i, node). free \<in> set (needs (plan_row node)) \<and>
        (case bt_get waiting i of None \<Rightarrow> False | Some n \<Rightarrow> n - 1 = 0)) rest" for m
    using 2(4) by (intro filter_cong) (force simp: bt_get_insert)+
  show ?case
    using 2 by (auto simp: same split: option.splits)
qed simp

section \<open>The invariant of the loop\<close>

text \<open>
  \<open>gone\<close> is what has been peeled: closed under dependencies and free of circles; every
  other node waits for as many entries of its list as are not accounted for; the queue
  holds each node that waits for nothing, once.
\<close>

definition peel_inv :: "plan_tree \<Rightarrow> node_id set \<Rightarrow> (node_id, nat) btree \<times> node_id list \<Rightarrow> bool" where
  "peel_inv nodes gone st \<longleftrightarrow>
     bt_ok (fst st) \<and>
     gone \<subseteq> set (bt_keys nodes) \<and>
     set (bt_keys (fst st)) = set (bt_keys nodes) - gone \<and>
     (\<forall>i n. bt_get (fst st) i = Some n \<longrightarrow>
        n = length (node_needs nodes i) - card (set (node_needs nodes i) \<inter> gone)) \<and>
     distinct (snd st) \<and> set (snd st) = {i. bt_get (fst st) i = Some 0} \<and>
     (\<forall>i \<in> gone. set (node_needs nodes i) \<subseteq> gone) \<and>
     (\<forall>i \<in> gone. (i, i) \<notin> (needs_rel nodes)\<^sup>+)"

lemma card_needs_le: "card (set (node_needs nodes i) \<inter> gone) \<le> length (node_needs nodes i)"
  by (meson Int_lower1 List.finite_set card_length card_mono order_trans)

lemma closed_reach:
  assumes "\<forall>i \<in> gone. set (node_needs nodes i) \<subseteq> gone" "(a, b) \<in> (needs_rel nodes)\<^sup>+" "a \<in> gone"
  shows "b \<in> gone"
  using assms(2,3)
proof (induction rule: trancl_induct)
  case (base y)
  then show ?case using assms(1) by (auto simp: needs_rel_def)
next
  case (step y z)
  then show ?case using assms(1) by (auto simp: needs_rel_def)
qed

lemma peel_inv_start:
  assumes "bt_ok nodes"
  shows "peel_inv nodes {} (first_waiting nodes, first_queue nodes)"
proof -
  have keys: "bt_keys (first_waiting nodes) = bt_keys nodes"
    by (induction nodes) (auto simp: first_waiting_def bt_keys_def)
  then have ok: "bt_ok (first_waiting nodes)" using assms by (simp add: bt_ok_def)
  have get: "bt_get (first_waiting nodes) i = Some n \<Longrightarrow> n = length (node_needs nodes i)" for i n
  proof -
    assume "bt_get (first_waiting nodes) i = Some n"
    then have "(i, n) \<in> set (first_waiting nodes)" using ok by (simp add: bt_get_mem)
    then obtain node where "(i, node) \<in> set nodes" "n = length (needs (plan_row node))"
      by (auto simp: first_waiting_def)
    then show ?thesis using assms by (simp add: node_needs_mem)
  qed
  have "distinct (first_queue nodes)"
    using bt.keys_distinct [OF ok] unfolding first_queue_def bt_keys_def
    by (rule distinct_map_filter)
  moreover have "set (first_queue nodes) = {i. bt_get (first_waiting nodes) i = Some 0}"
    using ok by (force simp: first_queue_def bt_get_mem [symmetric])
  ultimately show ?thesis
    using ok keys get by (auto simp: peel_inv_def)
qed

lemma peel_inv_step:
  assumes "bt_ok nodes" "needs_closed nodes" "peel_inv nodes gone (waiting, queue)" "queue \<noteq> []"
  shows "peel_inv nodes (insert (last queue) gone)
           (relax (last queue) nodes (bt_remove (last queue) waiting, butlast queue))"
    and "last queue \<notin> gone" "last queue \<in> set (bt_keys nodes)"
proof -
  let ?f = "last queue"
  let ?w = "bt_remove ?f waiting"
  let ?st = "relax ?f nodes (?w, butlast queue)"
  have ok: "bt_ok waiting" and sub: "gone \<subseteq> set (bt_keys nodes)"
    and keys: "set (bt_keys waiting) = set (bt_keys nodes) - gone"
    and cnt: "\<And>i n. bt_get waiting i = Some n \<Longrightarrow>
        n = length (node_needs nodes i) - card (set (node_needs nodes i) \<inter> gone)"
    and dist: "distinct queue" and q: "set queue = {i. bt_get waiting i = Some 0}"
    and closed: "\<forall>i \<in> gone. set (node_needs nodes i) \<subseteq> gone"
    and acyc: "\<forall>i \<in> gone. (i, i) \<notin> (needs_rel nodes)\<^sup>+"
    using assms(3) by (auto simp: peel_inv_def)
  have f0: "bt_get waiting ?f = Some 0" using q last_in_set [OF assms(4)] by blast
  then have fk: "?f \<in> set (bt_keys waiting)" by (auto simp: bt_keys_dom)
  with keys show fg: "?f \<notin> gone" and "?f \<in> set (bt_keys nodes)" by auto
  have fn: "set (node_needs nodes ?f) \<subseteq> gone"
  proof -
    have "length (node_needs nodes ?f) \<le> card (set (node_needs nodes ?f) \<inter> gone)"
      using cnt [OF f0] by simp
    then have "card (set (node_needs nodes ?f)) \<le> card (set (node_needs nodes ?f) \<inter> gone)"
      using card_length order_trans by blast
    then have "set (node_needs nodes ?f) \<inter> gone = set (node_needs nodes ?f)"
      by (intro card_seteq) auto
    then show ?thesis by blast
  qed
  have dn: "distinct (map fst nodes)" using assms(1) bt.keys_distinct by (simp add: bt_keys_def)
  have okw: "bt_ok ?w" using ok by (rule bt_ok_remove)
  have getw: "bt_get ?w = (bt_get waiting)(?f := None)" using ok by (rule bt_get_remove)
  have hit: "(\<exists>node. (i, node) \<in> set nodes \<and> ?f \<in> set (needs (plan_row node))) \<longleftrightarrow> ?f \<in> set (node_needs nodes i)" for i
    using assms(1) by (cases "bt_get nodes i") (auto simp: node_needs_def bt_get_mem)
  have get: "bt_get (fst ?st) i =
      (case bt_get ?w i of None \<Rightarrow> None
       | Some n \<Rightarrow> Some (if ?f \<in> set (node_needs nodes i) then n - 1 else n))" for i
    using relax_get [OF dn, of ?f ?w "butlast queue" i] hit by (simp cong: option.case_cong)
  have cntw: "\<And>i n. bt_get ?w i = Some n \<Longrightarrow> ?f \<in> set (node_needs nodes i) \<Longrightarrow> 0 < n"
  proof -
    fix i n
    assume i: "bt_get ?w i = Some n" and mem: "?f \<in> set (node_needs nodes i)"
    then have n: "n = length (node_needs nodes i) - card (set (node_needs nodes i) \<inter> gone)"
      using cnt getw by (metis fun_upd_apply option.distinct(1))
    have "card (set (node_needs nodes i) \<inter> gone) < card (set (node_needs nodes i))"
      using mem fg by (intro psubset_card_mono) auto
    with n card_length [of "node_needs nodes i"] show "0 < n" by linarith
  qed
  have cnt': "n = length (node_needs nodes i) - card (set (node_needs nodes i) \<inter> insert ?f gone)"
    if g: "bt_get (fst ?st) i = Some n" for i n
  proof -
    obtain m where m: "bt_get ?w i = Some m"
      and n: "n = (if ?f \<in> set (node_needs nodes i) then m - 1 else m)"
      using g unfolding get by (cases "bt_get ?w i") auto
    then have mm: "m = length (node_needs nodes i) - card (set (node_needs nodes i) \<inter> gone)"
      using cnt getw by (metis fun_upd_apply option.distinct(1))
    show ?thesis
    proof (cases "?f \<in> set (node_needs nodes i)")
      case True
      then have "set (node_needs nodes i) \<inter> insert ?f gone = insert ?f (set (node_needs nodes i) \<inter> gone)"
        by auto
      with fg mm n True show ?thesis by simp
    next
      case False
      then have "set (node_needs nodes i) \<inter> insert ?f gone = set (node_needs nodes i) \<inter> gone" by auto
      with mm n False show ?thesis by simp
    qed
  qed
  let ?new = "map fst (filter (\<lambda>(i, node). ?f \<in> set (needs (plan_row node)) \<and>
      (case bt_get ?w i of None \<Rightarrow> False | Some n \<Rightarrow> n - 1 = 0)) nodes)"
  have queue: "snd ?st = butlast queue @ ?new"
    by (rule relax_queue [OF dn])
  have new: "set ?new = {i. ?f \<in> set (node_needs nodes i) \<and> bt_get ?w i = Some 1}"
  proof -
    have "set ?new = {i. ?f \<in> set (node_needs nodes i) \<and> (case bt_get ?w i of None \<Rightarrow> False | Some n \<Rightarrow> n - 1 = 0)}"
      using hit by force
    also have "\<dots> = {i. ?f \<in> set (node_needs nodes i) \<and> bt_get ?w i = Some 1}"
      using cntw by (force split: option.splits)
    finally show ?thesis .
  qed
  have old: "set (butlast queue) = {i. bt_get ?w i = Some 0}"
  proof -
    have "queue = butlast queue @ [?f]" using assms(4) by simp
    then have "set (butlast queue) = set queue - {?f}"
      using dist by (metis Diff_insert_absorb Un_insert_right append_Nil2 distinct.simps(2) distinct_append
          insert_is_Un list.set(1,2) not_distinct_conv_prefix set_append sup_bot.right_neutral)
    with q getw show ?thesis by auto
  qed
  have "distinct (snd ?st)"
  proof -
    have "distinct ?new" using dn by (rule distinct_map_filter)
    moreover have "distinct (butlast queue)" using dist by (rule distinct_butlast)
    moreover have "set (butlast queue) \<inter> set ?new = {}" using old new by auto
    ultimately show ?thesis by (simp only: queue distinct_append)
  qed
  moreover have "set (snd ?st) = {i. bt_get (fst ?st) i = Some 0}"
    unfolding queue set_append old new get using cntw by (force split: option.splits)
  moreover have "set (bt_keys (fst ?st)) = set (bt_keys nodes) - insert ?f gone"
    using relax_keys [of ?f nodes ?w "butlast queue"] getw keys by (auto simp: bt_keys_dom)
  moreover have "bt_ok (fst ?st)" using okw by (rule relax_ok)
  moreover have "\<forall>i \<in> insert ?f gone. set (node_needs nodes i) \<subseteq> insert ?f gone"
    using closed fn by auto
  moreover have "(?f, ?f) \<notin> (needs_rel nodes)\<^sup>+"
  proof
    assume "(?f, ?f) \<in> (needs_rel nodes)\<^sup>+"
    then obtain n where "n \<in> set (node_needs nodes ?f)" "n = ?f \<or> (n, ?f) \<in> (needs_rel nodes)\<^sup>+"
      by (auto simp: needs_rel_def elim: converse_tranclE)
    with fn fg closed_reach [OF closed] show False by auto
  qed
  ultimately show "peel_inv nodes (insert ?f gone) ?st"
    using cnt' sub acyc \<open>?f \<in> set (bt_keys nodes)\<close> unfolding peel_inv_def by auto
qed

section \<open>The loop ends\<close>

lemma peel_ends:
  assumes "bt_ok nodes" "needs_closed nodes" "peel_inv nodes gone st"
    and "card (set (bt_keys nodes) - gone) \<le> fuel"
  shows "\<exists>gone'. peel_inv nodes gone' (peel fuel nodes st) \<and> snd (peel fuel nodes st) = []"
  using assms(3,4)
proof (induction fuel arbitrary: gone st)
  case 0
  have "queue = []" if "st = (waiting, queue)" for waiting queue
  proof (rule ccontr)
    assume "queue \<noteq> []"
    with 0 that have "last queue \<in> set (bt_keys nodes) - gone"
      using peel_inv_step(2,3) [OF assms(1,2)] by blast
    with 0 show False by auto
  qed
  with 0 show ?case by (cases st) auto
next
  case (Suc fuel)
  obtain waiting queue where st: "st = (waiting, queue)" by (cases st)
  show ?case
  proof (cases "queue = []")
    case True
    with Suc st show ?thesis by auto
  next
    case False
    note step = peel_inv_step [OF assms(1,2) Suc.prems(1) [unfolded st] False]
    have "set (bt_keys nodes) - insert (last queue) gone = (set (bt_keys nodes) - gone) - {last queue}"
      by blast
    then have "card (set (bt_keys nodes) - insert (last queue) gone) \<le> fuel"
      using Suc.prems(2) step(2,3) by (simp add: card_Diff_singleton)
    then show ?thesis
      using Suc.IH [OF step(1)] False st by (simp add: Let_def)
  qed
qed

lemma peel_result:
  assumes "bt_ok nodes" "needs_closed nodes"
  shows "\<exists>gone. peel_inv nodes gone (peel (length nodes) nodes (first_waiting nodes, first_queue nodes)) \<and>
    snd (peel (length nodes) nodes (first_waiting nodes, first_queue nodes)) = []"
proof -
  have "card (set (bt_keys nodes) - {}) \<le> length nodes"
    using card_length [of "bt_keys nodes"] by (simp add: bt_keys_def)
  then show ?thesis using peel_ends [OF assms peel_inv_start [OF assms(1)]] by blast
qed

text \<open>More fuel changes nothing: the loop had ended.\<close>

lemma peel_done: "snd st = [] \<Longrightarrow> peel k nodes st = st"
  by (cases k; cases st) auto

lemma peel_add: "peel (m + k) nodes st = peel k nodes (peel m nodes st)"
proof (induction m arbitrary: st)
  case (Suc m)
  show ?case
    by (cases st) (simp add: Suc Let_def peel_done)
qed simp

lemma peel_enough:
  assumes "bt_ok nodes" "needs_closed nodes" "length nodes \<le> fuel"
  shows "peel fuel nodes (first_waiting nodes, first_queue nodes) =
         peel (length nodes) nodes (first_waiting nodes, first_queue nodes)"
proof -
  obtain k where "fuel = length nodes + k" using assms(3) le_Suc_ex by blast
  then show ?thesis using peel_result [OF assms(1,2)] by (auto simp: peel_add peel_done)
qed

section \<open>What is stuck\<close>

lemma stuck_facts:
  assumes "bt_ok nodes" "needs_closed nodes"
  shows "set (stuck_nodes nodes) \<subseteq> set (bt_keys nodes)"
    and "(i, i) \<in> (needs_rel nodes)\<^sup>+ \<Longrightarrow> i \<in> set (bt_keys nodes) \<Longrightarrow> i \<in> set (stuck_nodes nodes)"
    and "needs_once nodes \<Longrightarrow> i \<in> set (stuck_nodes nodes) \<Longrightarrow>
         \<exists>n \<in> set (node_needs nodes i). n \<in> set (stuck_nodes nodes)"
proof -
  let ?st = "peel (length nodes) nodes (first_waiting nodes, first_queue nodes)"
  obtain gone where inv: "peel_inv nodes gone ?st" and e: "snd ?st = []"
    using peel_result [OF assms] by blast
  have keys: "set (stuck_nodes nodes) = set (bt_keys nodes) - gone"
    using inv by (simp add: peel_inv_def stuck_nodes_def)
  then show "set (stuck_nodes nodes) \<subseteq> set (bt_keys nodes)" by blast
  show "(i, i) \<in> (needs_rel nodes)\<^sup>+ \<Longrightarrow> i \<in> set (bt_keys nodes) \<Longrightarrow> i \<in> set (stuck_nodes nodes)"
    using inv keys by (auto simp: peel_inv_def)
  show "\<exists>n \<in> set (node_needs nodes i). n \<in> set (stuck_nodes nodes)"
    if once: "needs_once nodes" and i: "i \<in> set (stuck_nodes nodes)"
  proof (rule ccontr)
    assume "\<not> ?thesis"
    then have "set (node_needs nodes i) \<inter> gone = set (node_needs nodes i)"
      using keys assms(2) by (auto simp: needs_closed_def bt_keys_dom)
    then have "card (set (node_needs nodes i) \<inter> gone) = length (node_needs nodes i)"
      using once by (simp add: needs_once_def distinct_card)
    moreover obtain n where "bt_get (fst ?st) i = Some n"
      using i by (auto simp: stuck_nodes_def bt_keys_dom)
    moreover have "n = length (node_needs nodes i) - card (set (node_needs nodes i) \<inter> gone)"
      using inv calculation(2) by (simp add: peel_inv_def)
    moreover have "bt_get (fst ?st) i \<noteq> Some 0"
      using inv e by (auto simp: peel_inv_def)
    ultimately show False by simp
  qed
qed

section \<open>The walk\<close>

lemma circle_walk_path:
  assumes "circle_walk n nodes stuck start here walk = Some w" "here = last walk" "walk \<noteq> []"
    and "\<forall>k. Suc k < length walk \<longrightarrow> (walk ! k, walk ! Suc k) \<in> needs_rel nodes"
    and "set walk \<subseteq> set stuck" "start = hd walk"
  shows "(\<forall>k. Suc k < length w \<longrightarrow> (w ! k, w ! Suc k) \<in> needs_rel nodes) \<and> set w \<subseteq> set stuck \<and>
    w \<noteq> [] \<and> hd w = start \<and>
    (length w = n + length walk \<or> (\<exists>u. w = u @ [start] \<and> u \<noteq> []))"
  using assms
proof (induction n nodes stuck start here walk rule: circle_walk.induct)
  case (1 nodes stuck start here walk)
  then show ?case by auto
next
  case (2 n nodes stuck start here walk)
  from "2.prems"(1) obtain node nxt where node: "bt_get nodes here = Some node"
    and find: "find (\<lambda>need. need \<in> set stuck) (needs (plan_row node)) = Some nxt"
    by (auto split: option.splits)
  have nxt: "nxt \<in> set stuck" "(here, nxt) \<in> needs_rel nodes"
    using find node by (auto simp: find_Some_iff needs_rel_def node_needs_def)
  have path: "\<forall>k. Suc k < length (walk @ [nxt]) \<longrightarrow>
      ((walk @ [nxt]) ! k, (walk @ [nxt]) ! Suc k) \<in> needs_rel nodes"
  proof (intro allI impI)
    fix k
    assume "Suc k < length (walk @ [nxt])"
    then consider "Suc k < length walk" | "Suc k = length walk" by fastforce
    then show "((walk @ [nxt]) ! k, (walk @ [nxt]) ! Suc k) \<in> needs_rel nodes"
    proof cases
      case 1
      then show ?thesis using "2.prems"(4) by (simp add: nth_append)
    next
      case 2
      then have "walk ! k = here" using "2.prems"(2,3) by (cases walk rule: rev_cases) auto
      with 2 nxt show ?thesis by (simp add: nth_append)
    qed
  qed
  show ?case
  proof (cases "nxt = start")
    case True
    then have "w = walk @ [nxt]" using "2.prems"(1) node find by simp
    then show ?thesis using path nxt "2.prems" True by auto
  next
    case False
    then have "circle_walk n nodes stuck start nxt (walk @ [nxt]) = Some w"
      using "2.prems"(1) node find by simp
    from "2.IH" [OF node find False this] show ?thesis
      using path nxt "2.prems" by auto
  qed
qed

text \<open>A path that repeats a node runs around a circle.\<close>

lemma path_trancl:
  assumes "\<forall>k. Suc k < length w \<longrightarrow> (w ! k, w ! Suc k) \<in> R" "i < j" "j < length w"
  shows "(w ! i, w ! j) \<in> R\<^sup>+"
  using assms(2,3)
proof (induction j)
  case (Suc j)
  then have step: "(w ! j, w ! Suc j) \<in> R" using assms(1) by simp
  show ?case
  proof (cases "i = j")
    case True
    with step show ?thesis by auto
  next
    case False
    then have "(w ! i, w ! j) \<in> R\<^sup>+" using Suc by simp
    then show ?thesis using step by (rule trancl_into_trancl)
  qed
qed simp

lemma path_repeats:
  assumes "\<forall>k. Suc k < length w \<longrightarrow> (w ! k, w ! Suc k) \<in> R" "\<not> distinct w"
  shows "\<exists>i \<in> set w. (i, i) \<in> R\<^sup>+"
proof -
  obtain i j where "i < j" "j < length w" "w ! i = w ! j"
    using assms(2) by (auto simp: distinct_conv_nth) (metis linorder_neqE_nat)
  then show ?thesis
    using path_trancl [OF assms(1), of i j] by (metis nth_mem)
qed

lemma first_cycle_sound:
  assumes "bt_ok nodes" "first_cycle nodes = Some w"
  shows "(\<forall>k. Suc k < length w \<longrightarrow> (w ! k, w ! Suc k) \<in> needs_rel nodes) \<and>
    (\<exists>i \<in> set w. (i, i) \<in> (needs_rel nodes)\<^sup>+)"
proof -
  obtain start rest where stuck: "stuck_nodes nodes = start # rest"
    and w: "circle_walk (length (start # rest)) nodes (start # rest) start start [start] = Some w"
    using assms(2) by (auto simp: first_cycle_def split: list.splits)
  from circle_walk_path [OF w]
  have path: "\<forall>k. Suc k < length w \<longrightarrow> (w ! k, w ! Suc k) \<in> needs_rel nodes"
    and sub: "set w \<subseteq> set (stuck_nodes nodes)" and hd: "w \<noteq> []" "hd w = start"
    and len: "length w = length (stuck_nodes nodes) + 1 \<or> (\<exists>u. w = u @ [start] \<and> u \<noteq> [])"
    unfolding stuck by auto
  have "\<not> distinct w"
    using len
  proof
    assume l: "length w = length (stuck_nodes nodes) + 1"
    show ?thesis
    proof
      assume "distinct w"
      then have "length w = card (set w)" by (simp add: distinct_card)
      also have "\<dots> \<le> card (set (stuck_nodes nodes))" using sub by (intro card_mono) simp_all
      also have "\<dots> \<le> length (stuck_nodes nodes)" by (rule card_length)
      finally show False using l by simp
    qed
  next
    assume "\<exists>u. w = u @ [start] \<and> u \<noteq> []"
    then obtain u where "w = u @ [start]" "u \<noteq> []" by blast
    with hd show ?thesis by (cases u) auto
  qed
  with path path_repeats show ?thesis by blast
qed

lemma circle_walk_total:
  assumes "\<forall>i \<in> set stuck. \<exists>n \<in> set (node_needs nodes i). n \<in> set stuck"
    and "here \<in> set stuck"
  shows "circle_walk n nodes stuck start here walk \<noteq> None"
  using assms(2)
proof (induction n arbitrary: here walk)
  case (Suc n)
  then obtain m where m: "m \<in> set (node_needs nodes here)" "m \<in> set stuck" using assms(1) by blast
  then obtain node where node: "bt_get nodes here = Some node" "m \<in> set (needs (plan_row node))"
    by (auto simp: node_needs_iff)
  then have "find (\<lambda>need. need \<in> set stuck) (needs (plan_row node)) \<noteq> None"
    using m by (auto simp: find_None_iff)
  then obtain nxt where nxt: "find (\<lambda>need. need \<in> set stuck) (needs (plan_row node)) = Some nxt"
    by blast
  then have "nxt \<in> set stuck" by (auto simp: find_Some_iff)
  with Suc.IH node nxt show ?case by simp
qed simp

lemma cycle_in_keys: "(i, i) \<in> (needs_rel nodes)\<^sup>+ \<Longrightarrow> i \<in> set (bt_keys nodes)"
proof -
  assume "(i, i) \<in> (needs_rel nodes)\<^sup>+"
  then obtain n where "(i, n) \<in> needs_rel nodes" by (meson tranclD)
  then have "bt_get nodes i \<noteq> None" by (auto simp: needs_rel_def node_needs_iff)
  then show ?thesis by (simp add: bt_get_None_iff)
qed

lemma first_cycle_complete:
  assumes "bt_ok nodes" "needs_closed nodes" "needs_once nodes"
  shows "first_cycle nodes = None \<longleftrightarrow> acyclic (needs_rel nodes)"
proof
  assume none: "first_cycle nodes = None"
  have "stuck_nodes nodes = []"
  proof (rule ccontr)
    assume "stuck_nodes nodes \<noteq> []"
    then obtain start rest where stuck: "stuck_nodes nodes = start # rest" by (meson neq_Nil_conv)
    have "\<forall>i \<in> set (start # rest). \<exists>n \<in> set (node_needs nodes i). n \<in> set (start # rest)"
      using stuck_facts(3) [OF assms] unfolding stuck by blast
    then have "circle_walk (length (start # rest)) nodes (start # rest) start start [start] \<noteq> None"
      by (rule circle_walk_total) simp
    with none stuck show False by (simp add: first_cycle_def)
  qed
  then show "acyclic (needs_rel nodes)"
    using stuck_facts(2) [OF assms(1,2)] cycle_in_keys by (auto simp: acyclic_def)
next
  assume "acyclic (needs_rel nodes)"
  with first_cycle_sound [OF assms(1)] show "first_cycle nodes = None"
    by (meson acyclic_def not_None_eq)
qed

text \<open>When the search for a circle answers a walk, every step of the walk is a need of the plan and some node on it needs itself through others: a plan is never refused for a circle it does not have.\<close>

lemma cycle_report_is_real:
  assumes "bt_ok nodes" "first_cycle nodes = Some w"
  shows "(\<forall>k. Suc k < length w \<longrightarrow> (w ! k, w ! Suc k) \<in> needs_rel nodes) \<and>
    (\<exists>i \<in> set w. (i, i) \<in> (needs_rel nodes)\<^sup>+)"
  using first_cycle_sound [OF assms] .

end
