(* ===== verification/Plan_Shares.thy ===== *)
theory Plan_Shares
  imports Plan_Trees
begin

text \<open>
  The shape \<open>build\<close> gives a plan and how it divides the whole (\<open>crates/kernel/src/plan.rs\<close>):
  a node's children are the rows one segment below it, every level of the tree divides what
  its branch holds, and the leaves of a built plan hold the whole between them.
\<close>

section \<open>The shape of a tree\<close>

definition tree_shape :: "plan_tree \<Rightarrow> bool" where
  "tree_shape t \<longleftrightarrow>
     bt_ok t \<and>
     (\<forall>i node. bt_get t i = Some node \<longrightarrow>
        row_id (plan_row node) = i \<and> node_ok i \<and>
        children node = filter (\<lambda>j. node_parent j = Some i) (bt_keys t) \<and>
        (\<forall>p. node_parent i = Some p \<longrightarrow> bt_get t p \<noteq> None))"

definition fresh_node :: "roadmap_row \<Rightarrow> plan_node" where
  "fresh_node row = \<lparr>plan_row = row, plan_share = share_none, children = []\<rparr>"

lemma place_rows_iff:
  "place_rows rows m = Inr nodes \<longleftrightarrow>
   distinct (map row_id rows) \<and> (\<forall>r \<in> set rows. bt_get m (row_id r) = None) \<and>
   nodes = fold (\<lambda>(i, node). bt_insert i node) (map (\<lambda>r. (row_id r, fresh_node r)) rows) m"
proof (induction rows arbitrary: m)
  case (Cons r rows)
  have "(\<forall>x \<in> set rows. bt_get (bt_insert (row_id r) v m) (row_id x) = None) \<longleftrightarrow>
      row_id r \<notin> row_id ` set rows \<and> (\<forall>x \<in> set rows. bt_get m (row_id x) = None)" for v
    by (auto simp: bt_get_insert image_iff)
  with Cons show ?case by (auto simp: fresh_node_def)
qed auto

lemma placed:
  assumes "place_rows rows [] = Inr nodes"
  shows "bt_ok nodes"
    and "bt_get nodes = map_of (map (\<lambda>r. (row_id r, fresh_node r)) rows)"
    and "set (bt_keys nodes) = row_id ` set rows"
proof -
  let ?kvs = "map (\<lambda>r. (row_id r, fresh_node r)) rows"
  have dist: "distinct (map row_id rows)" and nodes: "nodes = fold (\<lambda>(i, node). bt_insert i node) ?kvs []"
    using assms by (auto simp: place_rows_iff)
  show "bt_ok nodes" unfolding nodes by (rule bt.ok_fold) simp
  have "bt_get nodes = bt_get [] ++ map_of (rev ?kvs)"
    unfolding nodes by (rule bt.get_fold) simp
  also have "\<dots> = map_of (rev ?kvs)" by (simp add: bt.get_empty)
  also have "\<dots> = map_of ?kvs"
    using dist by (intro iffD2 [OF map_of_inject_set]) (simp_all add: comp_def rev_map [symmetric] distinct_rev)
  finally show get: "bt_get nodes = map_of ?kvs" .
  show "set (bt_keys nodes) = row_id ` set rows"
    unfolding bt_keys_dom get by (simp add: dom_map_of_conv_image_fst image_image)
qed

lemma hang_iff:
  "bt_ok nodes \<Longrightarrow>
   (\<exists>t. hang_children placed nodes = Inr t) \<longleftrightarrow>
   (\<forall>j \<in> set placed. \<forall>p. node_parent j = Some p \<longrightarrow> bt_get nodes p \<noteq> None)"
proof (induction placed nodes rule: hang_children.induct)
  case (2 i placed nodes)
  show ?case
  proof (cases "node_parent i")
    case None
    with 2 show ?thesis by simp
  next
    case (Some p)
    show ?thesis
    proof (cases "bt_get nodes p")
      case None
      with Some show ?thesis by auto
    next
      case (Some node)
      let ?n = "bt_insert p (node\<lparr>children := children node @ [i]\<rparr>) nodes"
      have "bt_get ?n q \<noteq> None \<longleftrightarrow> bt_get nodes q \<noteq> None" for q
        using Some by (simp add: bt_get_insert)
      moreover have "bt_ok ?n" using 2 by (simp add: bt_ok_insert)
      ultimately show ?thesis
        using 2 Some \<open>node_parent i = Some p\<close> by auto
    qed
  qed
qed simp

lemma hung:
  "bt_ok nodes \<Longrightarrow> hang_children placed nodes = Inr t \<Longrightarrow>
   bt_ok t \<and> bt_keys t = bt_keys nodes \<and>
   bt_get t i = map_option (\<lambda>node. node\<lparr>children := children node @ filter (\<lambda>j. node_parent j = Some i) placed\<rparr>)
                  (bt_get nodes i)"
proof (induction placed nodes arbitrary: t rule: hang_children.induct)
  case (1 nodes)
  then show ?case by (cases "bt_get nodes i") auto
next
  case (2 j placed nodes)
  show ?case
  proof (cases "node_parent j")
    case None
    with 2 show ?thesis by simp
  next
    case (Some p)
    with 2 obtain node where node: "bt_get nodes p = Some node" by (auto split: option.splits)
    let ?n = "bt_insert p (node\<lparr>children := children node @ [j]\<rparr>) nodes"
    have "bt_keys ?n = bt_keys nodes"
      using "2.prems"(1) node by (intro bt.keys_overwrite) auto
    with 2 Some node show ?thesis
      by (auto simp: bt_ok_insert bt_get_insert)
  qed
qed

definition hung_tree :: "roadmap_row list \<Rightarrow> plan_tree \<Rightarrow> bool" where
  "hung_tree rows t \<longleftrightarrow>
     (\<exists>nodes. place_rows rows [] = Inr nodes \<and> hang_children (bt_keys nodes) nodes = Inr t)"

lemma hung_tree_shape:
  assumes "hung_tree rows t" "\<forall>r \<in> set rows. node_ok (row_id r)"
  shows "tree_shape t"
    and "set (bt_keys t) = row_id ` set rows"
    and "bt_get t i = Some node \<Longrightarrow> plan_row node \<in> set rows"
    and "length t = length rows"
proof -
  obtain nodes where pl: "place_rows rows [] = Inr nodes" and h: "hang_children (bt_keys nodes) nodes = Inr t"
    using assms(1) by (auto simp: hung_tree_def)
  note n = placed [OF pl]
  note get = hung [OF n(1) h]
  have fresh: "row_id (plan_row node) = i \<and> plan_row node \<in> set rows \<and> children node = []"
    if "bt_get nodes i = Some node" for i node
    using that by (auto simp: n(2) fresh_node_def dest!: map_of_SomeD)
  have par: "\<forall>j \<in> set (bt_keys nodes). \<forall>p. node_parent j = Some p \<longrightarrow> bt_get nodes p \<noteq> None"
    using hang_iff [OF n(1)] h by blast
  have none: "bt_get t p = None \<longleftrightarrow> bt_get nodes p = None" for p
    using get by simp
  show keys: "set (bt_keys t) = row_id ` set rows" using get n(3) by simp
  show "bt_get t i = Some node \<Longrightarrow> plan_row node \<in> set rows"
    using get fresh by fastforce
  show "tree_shape t"
    unfolding tree_shape_def
  proof (intro conjI allI impI)
    show "bt_ok t" using get by blast
    fix i node
    assume i: "bt_get t i = Some node"
    then obtain node0 where node0: "bt_get nodes i = Some node0"
      and node: "node = node0\<lparr>children := children node0 @ filter (\<lambda>j. node_parent j = Some i) (bt_keys nodes)\<rparr>"
      using get by fastforce
    show "row_id (plan_row node) = i" using fresh [OF node0] node by simp
    show "node_ok i" using fresh [OF node0] assms(2) by auto
    show "children node = filter (\<lambda>j. node_parent j = Some i) (bt_keys t)"
      using fresh [OF node0] node get by simp
    show "bt_get t p \<noteq> None" if "node_parent i = Some p" for p
    proof -
      have "i \<in> set (bt_keys nodes)" using node0 by (auto simp: bt_keys_dom)
      with par that none show ?thesis by blast
    qed
  qed
  have "length t = length (bt_keys nodes)" using get by (metis bt_keys_def length_map)
  also have "\<dots> = card (set (bt_keys nodes))"
    using bt.keys_distinct [OF n(1)] by (simp add: distinct_card)
  also have "\<dots> = length rows"
  proof -
    have "distinct (map row_id rows)" using pl by (simp add: place_rows_iff)
    then have "card (row_id ` set rows) = length rows"
      using distinct_card [of "map row_id rows"] by simp
    then show ?thesis by (simp only: n(3))
  qed
  finally show "length t = length rows" .
qed

section \<open>Same plan, other shares\<close>

definition same_plan :: "plan_tree \<Rightarrow> plan_tree \<Rightarrow> bool" where
  "same_plan t t' \<longleftrightarrow>
     bt_ok t' \<and> bt_keys t' = bt_keys t \<and>
     (\<forall>i. map_option (\<lambda>n. (plan_row n, children n)) (bt_get t' i) =
          map_option (\<lambda>n. (plan_row n, children n)) (bt_get t i))"

lemma same_plan_refl: "bt_ok t \<Longrightarrow> same_plan t t"
  by (simp add: same_plan_def)

lemma same_plan_trans: "same_plan t u \<Longrightarrow> same_plan u v \<Longrightarrow> same_plan t v"
  by (simp add: same_plan_def)

lemma same_plan_get:
  assumes "same_plan t t'"
  shows "bt_get t' i = None \<longleftrightarrow> bt_get t i = None"
    and "bt_get t i = Some n \<Longrightarrow> \<exists>n'. bt_get t' i = Some n' \<and> plan_row n' = plan_row n \<and> children n' = children n"
    and "bt_get t' i = Some n' \<Longrightarrow> \<exists>n. bt_get t i = Some n \<and> plan_row n' = plan_row n \<and> children n' = children n"
proof -
  have eq: "map_option (\<lambda>n. (plan_row n, children n)) (bt_get t' i) =
      map_option (\<lambda>n. (plan_row n, children n)) (bt_get t i)"
    using assms by (simp add: same_plan_def)
  show "bt_get t' i = None \<longleftrightarrow> bt_get t i = None"
    using eq by (cases "bt_get t i"; cases "bt_get t' i") auto
  show "bt_get t i = Some n \<Longrightarrow> \<exists>n'. bt_get t' i = Some n' \<and> plan_row n' = plan_row n \<and> children n' = children n"
    using eq by (cases "bt_get t' i") auto
  show "bt_get t' i = Some n' \<Longrightarrow> \<exists>n. bt_get t i = Some n \<and> plan_row n' = plan_row n \<and> children n' = children n"
    using eq by (cases "bt_get t i") auto
qed

lemma same_plan_shape: "same_plan t t' \<Longrightarrow> tree_shape t \<Longrightarrow> tree_shape t'"
proof -
  assume same: "same_plan t t'" and shape: "tree_shape t"
  have ok: "bt_ok t'" and keys: "bt_keys t' = bt_keys t" using same by (simp_all add: same_plan_def)
  show "tree_shape t'"
    unfolding tree_shape_def
  proof (intro conjI allI impI ok)
    fix i n'
    assume "bt_get t' i = Some n'"
    then obtain n where n: "bt_get t i = Some n" "plan_row n' = plan_row n" "children n' = children n"
      using same_plan_get(3) [OF same] by blast
    with shape keys show "row_id (plan_row n') = i" "node_ok i"
      "children n' = filter (\<lambda>j. node_parent j = Some i) (bt_keys t')"
      by (auto simp: tree_shape_def)
    show "bt_get t' p \<noteq> None" if "node_parent i = Some p" for p
      using that shape n(1) same_plan_get(1) [OF same] by (simp add: tree_shape_def)
  qed
qed

lemma same_plan_insert:
  assumes "bt_ok t" "bt_get t i = Some node"
  shows "same_plan t (bt_insert i (node\<lparr>plan_share := s\<rparr>) t)"
  using assms bt.keys_overwrite [OF assms(1), of i "node\<lparr>plan_share := s\<rparr>"]
  by (simp add: same_plan_def bt_ok_insert bt_get_insert)

definition share_at :: "plan_tree \<Rightarrow> node_id \<Rightarrow> nat" where
  "share_at t i = (case bt_get t i of None \<Rightarrow> 0 | Some node \<Rightarrow> unat (ppb (plan_share node)))"

definition below :: "node_id \<Rightarrow> node_id \<Rightarrow> bool" where
  "below i j \<longleftrightarrow> prefix (pieces i) (pieces j)"

definition kids :: "plan_tree \<Rightarrow> node_id \<Rightarrow> node_id list" where
  "kids t i = (case bt_get t i of None \<Rightarrow> [] | Some node \<Rightarrow> children node)"

definition level :: "plan_tree \<Rightarrow> nat \<Rightarrow> node_id list \<Rightarrow> bool" where
  "level t k among \<longleftrightarrow>
     distinct among \<and> set among \<subseteq> set (bt_keys t) \<and> (\<forall>i \<in> set among. length (pieces i) = k)"

text \<open>A branch's share is divided among its children.\<close>

definition divided :: "plan_tree \<Rightarrow> node_id \<Rightarrow> bool" where
  "divided t j \<longleftrightarrow> (kids t j \<noteq> [] \<longrightarrow> (\<Sum>c\<leftarrow>kids t j. share_at t c) = share_at t j)"

lemma same_plan_kids: "same_plan t t' \<Longrightarrow> kids t' i = kids t i"
  using same_plan_get [of t t' i] by (cases "bt_get t i"; cases "bt_get t' i") (auto simp: kids_def)

lemma level_same: "same_plan t t' \<Longrightarrow> level t' k among \<longleftrightarrow> level t k among"
  by (simp add: level_def same_plan_def)

lemma key_ok: "tree_shape t \<Longrightarrow> i \<in> set (bt_keys t) \<Longrightarrow> node_ok i"
  by (auto simp: tree_shape_def bt_keys_dom)

lemma kids_level:
  assumes "tree_shape t" "bt_get t i = Some node"
  shows "level t (Suc (length (pieces i))) (children node)"
proof -
  have ch: "children node = filter (\<lambda>j. node_parent j = Some i) (bt_keys t)" and ok: "bt_ok t"
    using assms by (auto simp: tree_shape_def)
  have "length (pieces j) = Suc (length (pieces i))" if "j \<in> set (children node)" for j
    using that parent_pieces [of j i] key_ok [OF assms(1), of j] by (auto simp: ch)
  then show ?thesis
    using bt.keys_distinct [OF ok] by (auto simp: level_def ch)
qed

lemma kids_below: "tree_shape t \<Longrightarrow> bt_get t i = Some node \<Longrightarrow> c \<in> set (children node) \<Longrightarrow> strict_prefix (pieces i) (pieces c)"
  using parent_is_ancestor by (auto simp: tree_shape_def ancestor_iff_prefix)

lemma level_apart: "level t k among \<Longrightarrow> i \<in> set among \<Longrightarrow> j \<in> set among \<Longrightarrow> below i x \<Longrightarrow> below j x \<Longrightarrow> i = j"
  unfolding level_def below_def
  by (rule pieces_inj) (auto simp: prefix_def append_eq_append_conv)

text \<open>Between a node and one below it hangs a child of the first.\<close>

lemma branch_step:
  assumes "tree_shape t" "i \<in> set (bt_keys t)" "j \<in> set (bt_keys t)" "strict_prefix (pieces i) (pieces j)"
  shows "\<exists>c \<in> set (kids t i). below c j"
  using assms(3,4)
proof (induction "length (pieces j)" arbitrary: j rule: less_induct)
  case less
  obtain node where node: "bt_get t j = Some node" using less.prems(1) by (auto simp: bt_keys_dom)
  have jok: "node_ok j" using key_ok [OF assms(1)] less.prems(1) .
  have "length (pieces i) < length (pieces j)" using less.prems(2) prefix_length_less by blast
  then have "length (pieces j) \<noteq> 1" using length_greater_0_conv [of "pieces i"] pieces_not_Nil [of i] by linarith
  then obtain p where p: "node_parent j = Some p" using parent_None_iff by blast
  then have pk: "p \<in> set (bt_keys t)" using assms(1) node by (auto simp: tree_shape_def bt_get_None_iff)
  have pp: "pieces p = butlast (pieces j)" using parent_pieces [OF jok p] by blast
  show ?case
  proof (cases "p = i")
    case True
    obtain n where "bt_get t i = Some n" using assms(2) by (auto simp: bt_keys_dom)
    then have "j \<in> set (kids t i)"
      using assms(1) less.prems(1) p True by (auto simp: kids_def tree_shape_def)
    then show ?thesis by (auto simp: below_def)
  next
    case False
    have "prefix (pieces i) (pieces p)"
      using less.prems(2) pp by (metis append_butlast_last_id pieces_not_Nil prefix_order.less_le
          prefix_snoc strict_prefix_def)
    then have "strict_prefix (pieces i) (pieces p)" using False pieces_inj by (auto simp: strict_prefix_def)
    then obtain c where "c \<in> set (kids t i)" "below c p"
      using less.hyps [OF parent_length [OF p] pk] by blast
    moreover have "prefix (pieces p) (pieces j)"
      using pp by (metis append_butlast_last_id pieces_not_Nil prefixI)
    ultimately show ?thesis by (auto simp: below_def dest: prefix_order.trans)
  qed
qed

section \<open>One level\<close>

lemma level_parts_ok:
  assumes "ws \<noteq> []" "few ws"
  shows "\<exists>parts. level_parts pot ws = Inr parts \<and> length parts = length ws \<and>
    (\<Sum>p\<leftarrow>parts. unat (ppb p)) = unat (ppb pot)"
proof -
  define vs where "vs = (if list_all (\<lambda>w. w = 0) ws then replicate (length ws) 1 else ws)"
  have parts: "level_parts pot ws = split_share pot vs" by (simp add: level_parts_def vs_def)
  have len: "length vs = length ws" and fv: "few vs" using assms(2) by (simp_all add: vs_def few_def)
  have "0 < (\<Sum>w\<leftarrow>vs. unat w)"
  proof (cases "list_all (\<lambda>w. w = 0) ws")
    case True
    with assms(1) show ?thesis by (simp add: vs_def sum_list_replicate)
  next
    case False
    then obtain w where "w \<in> set ws" "w \<noteq> 0" by (auto simp: list_all_iff)
    then have "unat w \<le> (\<Sum>w\<leftarrow>ws. unat w)" "0 < unat w"
      by (induction ws) (auto simp: unat_gt_0)
    with False show ?thesis by (simp add: vs_def)
  qed
  then have "total_weight vs \<noteq> 0"
    using total_weight_nat [OF fv] by (metis less_irrefl unat_0)
  then obtain ps where ps: "split_share pot vs = Inr ps"
    using split_refused_iff [of pot vs] assms(1) len by (cases "split_share pot vs") auto
  then show ?thesis
    using share.divide_length share.divide_sum fv len parts by metis
qed

lemma share_at_insert:
  "share_at (bt_insert i (node\<lparr>plan_share := p\<rparr>) t) j = (if j = i then unat (ppb p) else share_at t j)"
  by (simp add: share_at_def bt_get_insert)

lemma below_refl: "below i i"
  by (simp add: below_def)

lemma level_few: "level t k among \<Longrightarrow> bt_ok t \<Longrightarrow> few t \<Longrightarrow> few among"
proof -
  assume l: "level t k among" and "bt_ok t" and few: "few t"
  then have "length among = card (set among)" by (simp add: level_def distinct_card)
  also have "\<dots> \<le> card (set (bt_keys t))" using l by (intro card_mono) (simp_all add: level_def)
  also have "\<dots> \<le> length t" using card_length [of "bt_keys t"] by (simp add: bt_keys_def)
  finally show "few among" using few by (simp add: few_def)
qed

lemma same_plan_length: "same_plan t t' \<Longrightarrow> length t' = length t"
  by (metis bt_keys_def length_map same_plan_def)

text \<open>What handing out a level, or the parts of a level, does to the tree.\<close>

definition handed :: "node_id list \<Rightarrow> plan_tree \<Rightarrow> plan_tree \<Rightarrow> bool" where
  "handed among t t' \<longleftrightarrow>
     same_plan t t' \<and>
     (\<forall>j. (\<forall>i \<in> set among. \<not> below i j) \<longrightarrow> bt_get t' j = bt_get t j) \<and>
     (\<forall>i \<in> set among. \<forall>j. below i j \<longrightarrow> divided t' j)"

lemma deep_key:
  assumes "tree_shape t" "i \<in> set (bt_keys t)" "node_depth_max < n + length (pieces i)"
  shows "0 < n"
  using assms(3) key_ok [OF assms(1,2)] by (auto simp: node_ok_def)

lemma divided_kids_outside:
  assumes "handed among t t'" "\<forall>i \<in> set among. \<not> below i j"
    and "\<forall>c \<in> set (kids t j). \<forall>i \<in> set among. \<not> below i c"
  shows "divided t' j \<longleftrightarrow> divided t j"
proof -
  have same: "kids t' j = kids t j" using assms(1) same_plan_kids by (auto simp: handed_def)
  have "share_at t' c = share_at t c" if "c \<in> set (kids t j)" for c
    using assms(1,3) that by (simp add: handed_def share_at_def)
  then have "map (share_at t') (kids t j) = map (share_at t) (kids t j)" by simp
  moreover have "share_at t' j = share_at t j"
    using assms(1,2) by (simp add: handed_def share_at_def)
  ultimately show ?thesis unfolding divided_def same by (simp only:)
qed

lemma kid_below: "tree_shape t \<Longrightarrow> c \<in> set (kids t j) \<Longrightarrow> strict_prefix (pieces j) (pieces c)"
  using kids_below by (cases "bt_get t j") (auto simp: kids_def)

text \<open>One part: the node takes it, its subtree divides it, and nothing else changes.\<close>

lemma handed_one:
  assumes shape: "tree_shape t" and i: "bt_get t i = Some node"
    and sub: "handed (children node) (bt_insert i (node\<lparr>plan_share := p\<rparr>) t) u"
    and sum: "children node \<noteq> [] \<Longrightarrow> (\<Sum>c\<leftarrow>children node. share_at u c) = unat (ppb p)"
  shows "handed [i] t u" "share_at u i = unat (ppb p)"
proof -
  let ?t1 = "bt_insert i (node\<lparr>plan_share := p\<rparr>) t"
  have ok: "bt_ok t" using shape by (simp add: tree_shape_def)
  have s1: "same_plan t ?t1" using ok i by (rule same_plan_insert)
  then have shape1: "tree_shape ?t1" using shape same_plan_shape by blast
  have up: "\<not> below c i" if "c \<in> set (children node)" for c
    using kids_below [OF shape i that] by (auto simp: below_def strict_prefix_def dest: prefix_order.antisym)
  then have get_i: "bt_get u i = bt_get ?t1 i" using sub by (auto simp: handed_def)
  then show share: "share_at u i = unat (ppb p)"
    by (simp add: share_at_def bt_get_insert)
  have same: "same_plan t u" using s1 sub same_plan_trans by (auto simp: handed_def)
  have shape_u: "tree_shape u" using same shape same_plan_shape by blast
  have kids_u: "kids u i = children node"
    using same_plan_kids [OF same, of i] i by (simp add: kids_def)
  have out: "bt_get u j = bt_get t j" if "\<not> below i j" for j
  proof -
    have "\<not> below c j" if "c \<in> set (children node)" for c
      using kids_below [OF shape i that] \<open>\<not> below i j\<close>
      by (auto simp: below_def strict_prefix_def dest: prefix_order.trans)
    then have "bt_get u j = bt_get ?t1 j" using sub by (auto simp: handed_def)
    moreover have "j \<noteq> i" using that below_refl by blast
    ultimately show ?thesis by (simp add: bt_get_insert)
  qed
  have "divided u j" if b: "below i j" for j
  proof (cases "kids u j = [] \<or> j = i")
    case True
    with kids_u share sum show ?thesis by (auto simp: divided_def)
  next
    case False
    then have "bt_get u j \<noteq> None" by (auto simp: kids_def split: option.splits)
    then have key: "j \<in> set (bt_keys u)" by (simp add: bt_get_None_iff)
    have strict: "strict_prefix (pieces i) (pieces j)"
      using b False pieces_inj by (auto simp: below_def strict_prefix_def)
    have "i \<in> set (bt_keys u)" using i same by (auto simp: same_plan_def bt_keys_dom)
    then obtain c where "c \<in> set (kids u i)" "below c j"
      using branch_step [OF shape_u _ key strict] by blast
    then show ?thesis using sub kids_u by (auto simp: handed_def)
  qed
  with same out show "handed [i] t u" by (auto simp: handed_def)
qed

section \<open>Handing out\<close>

lemma few_same: "same_plan t t' \<Longrightarrow> few t \<Longrightarrow> few t'"
  by (simp add: few_def same_plan_length)

text \<open>First one part, then the rest of the level.\<close>

lemma handed_rest:
  assumes "level t k (i # rest)" "tree_shape t"
    and one: "handed [i] t u" and rest: "handed rest u v"
  shows "handed (i # rest) t v" "share_at v i = share_at u i"
proof -
  have same: "same_plan t u" "same_plan u v" using one rest by (auto simp: handed_def)
  have shape_u: "tree_shape u" using same(1) assms(2) same_plan_shape by blast
  have apart: "\<not> below r j" if "r \<in> set rest" "below i j" for r j
    using level_apart [OF assms(1), of i r j] that assms(1) by (auto simp: level_def)
  have "bt_get v i = bt_get u i"
    using rest apart [OF _ below_refl] by (auto simp: handed_def)
  then show "share_at v i = share_at u i" by (simp add: share_at_def)
  have "divided v j" if "below i j" for j
  proof -
    have "divided v j \<longleftrightarrow> divided u j"
    proof (rule divided_kids_outside [OF rest])
      show "\<forall>r \<in> set rest. \<not> below r j" using apart that by blast
      show "\<forall>c \<in> set (kids u j). \<forall>r \<in> set rest. \<not> below r c"
      proof (intro ballI)
        fix c r
        assume "c \<in> set (kids u j)" and r: "r \<in> set rest"
        then have "below i c"
          using kid_below [OF shape_u] that
          by (auto simp: below_def strict_prefix_def dest: prefix_order.trans)
        then show "\<not> below r c" using apart r by blast
      qed
    qed
    then show ?thesis using one that by (simp add: handed_def)
  qed
  moreover have "bt_get v j = bt_get t j" if "\<forall>x \<in> set (i # rest). \<not> below x j" for j
    using one rest that by (simp add: handed_def)
  moreover have "same_plan t v" using same same_plan_trans by blast
  ultimately show "handed (i # rest) t v"
    using rest by (auto simp: handed_def)
qed

lemma hand_out_parts:
  shows "tree_shape t \<Longrightarrow> few t \<Longrightarrow> level t k among \<Longrightarrow> node_depth_max < n + k \<Longrightarrow>
    \<exists>u. hand_out n pot among t = Some (Inr u) \<and> handed among t u \<and>
      (among \<noteq> [] \<longrightarrow> (\<Sum>i\<leftarrow>among. share_at u i) = unat (ppb pot))"
  and "tree_shape t \<Longrightarrow> few t \<Longrightarrow> level t k (map fst parts) \<Longrightarrow> node_depth_max \<le> m + k \<Longrightarrow>
    \<exists>u. hand_parts m parts t = Some (Inr u) \<and> handed (map fst parts) t u \<and>
      (\<forall>(i, p) \<in> set parts. share_at u i = unat (ppb p))"
proof (induction n pot among t and m parts t arbitrary: k and k rule: hand_out_hand_parts.induct)
  case (1 fuel pot nodes)
  then show ?case by (auto simp: handed_def tree_shape_def intro: same_plan_refl)
next
  case (2 pot i "is" nodes)
  then have "0 < (0 :: nat)"
    by (intro deep_key [of nodes i]) (auto simp: level_def)
  then show ?case by simp
next
  case (3 fuel pot i "is" nodes)
  let ?among = "i # is"
  have ok: "bt_ok nodes" using "3.prems"(1) by (simp add: tree_shape_def)
  have "few (level_weights nodes ?among)"
    using level_few [OF "3.prems"(3) ok "3.prems"(2)] by (simp add: few_def level_weights_def)
  moreover have "level_weights nodes ?among \<noteq> []" by (simp add: level_weights_def)
  ultimately obtain parts where parts: "level_parts pot (level_weights nodes ?among) = Inr parts"
    and len: "length parts = length ?among" and sum: "(\<Sum>p\<leftarrow>parts. unat (ppb p)) = unat (ppb pot)"
    using level_parts_ok by (metis length_map level_weights_def)
  have zip: "map fst (zip ?among parts) = ?among" using len by simp
  have "node_depth_max \<le> fuel + k" using "3.prems"(4) by simp
  then obtain u where u: "hand_parts fuel (zip ?among parts) nodes = Some (Inr u)"
    and h: "handed (map fst (zip ?among parts)) nodes u"
    and sh: "\<forall>(i, p) \<in> set (zip ?among parts). share_at u i = unat (ppb p)"
    using "3.IH" [OF parts "3.prems"(1,2)] "3.prems"(3) zip by metis
  have "map (share_at u) ?among = map (\<lambda>p. unat (ppb p)) parts"
  proof (rule nth_equalityI)
    show "length (map (share_at u) ?among) = length (map (\<lambda>p. unat (ppb p)) parts)" using len by simp
    fix x
    assume "x < length (map (share_at u) ?among)"
    then have x: "x < length ?among" "x < length parts" using len by simp_all
    then have "(?among ! x, parts ! x) \<in> set (zip ?among parts)" by (auto simp: set_zip)
    with sh have "share_at u (?among ! x) = unat (ppb (parts ! x))" by blast
    then show "map (share_at u) ?among ! x = map (\<lambda>p. unat (ppb p)) parts ! x"
      by (simp only: nth_map [OF x(1)] nth_map [OF x(2)])
  qed
  then have "(\<Sum>j\<leftarrow>?among. share_at u j) = unat (ppb pot)" using sum by (simp only:)
  moreover have "hand_out (Suc fuel) pot ?among nodes = Some (Inr u)"
    using parts u by simp
  ultimately show ?case using h zip by metis
next
  case (4 fuel nodes)
  then show ?case by (auto simp: handed_def tree_shape_def intro: same_plan_refl)
next
  case (5 fuel i part rest nodes)
  have ok: "bt_ok nodes" and key: "i \<in> set (bt_keys nodes)" and len_i: "length (pieces i) = k"
    using "5.prems" by (auto simp: tree_shape_def level_def)
  then obtain node where node: "bt_get nodes i = Some node" by (auto simp: bt_keys_dom)
  let ?t1 = "bt_insert i (node\<lparr>plan_share := part\<rparr>) nodes"
  have s1: "same_plan nodes ?t1" using ok node by (rule same_plan_insert)
  have shape1: "tree_shape ?t1" using s1 "5.prems"(1) same_plan_shape by blast
  have few1: "few ?t1" using s1 "5.prems"(2) few_same by blast
  have lev1: "level ?t1 (Suc k) (children node)"
    using kids_level [OF "5.prems"(1) node] level_same [OF s1] len_i by simp
  have fuel1: "node_depth_max < fuel + Suc k" using "5.prems"(4) by simp
  obtain u where u: "hand_out fuel part (children node) ?t1 = Some (Inr u)"
    and hu: "handed (children node) ?t1 u"
    and sum: "children node \<noteq> [] \<longrightarrow> (\<Sum>c\<leftarrow>children node. share_at u c) = unat (ppb part)"
    using "5.IH"(2) [OF node shape1 few1 lev1 fuel1] by blast
  note one = handed_one [OF "5.prems"(1) node hu sum [rule_format]]
  have same: "same_plan nodes u" using one(1) by (simp add: handed_def)
  have "level u k (map fst rest)"
    using "5.prems"(3) unfolding level_same [OF same] by (simp add: level_def)
  then obtain v where v: "hand_parts fuel rest u = Some (Inr v)" and hv: "handed (map fst rest) u v"
    and sv: "\<forall>(i, p) \<in> set rest. share_at v i = unat (ppb p)"
    using "5.IH"(3) [OF node u] same_plan_shape [OF same "5.prems"(1)] few_same [OF same "5.prems"(2)]
      "5.prems"(4) by blast
  have lev: "level nodes k (i # map fst rest)" using "5.prems"(3) by simp
  note all = handed_rest [OF lev "5.prems"(1) one(1) hv]
  have "hand_parts fuel ((i, part) # rest) nodes = Some (Inr v)"
    using node u v by simp
  then show ?case using all one(2) sv by auto
qed

section \<open>The whole plan\<close>

text \<open>Every node hangs below a row of the top level.\<close>

lemma root_above:
  assumes "tree_shape t" "j \<in> set (bt_keys t)"
  shows "\<exists>r \<in> set (roots t). below r j"
  using assms(2)
proof (induction "length (pieces j)" arbitrary: j rule: less_induct)
  case less
  show ?case
  proof (cases "node_parent j")
    case None
    with less.prems show ?thesis by (auto simp: roots_def below_def)
  next
    case (Some p)
    obtain node where node: "bt_get t j = Some node" using less.prems by (auto simp: bt_keys_dom)
    then have pk: "p \<in> set (bt_keys t)"
      using assms(1) Some by (auto simp: tree_shape_def bt_get_None_iff)
    have "pieces p = butlast (pieces j)"
      using parent_pieces [OF key_ok [OF assms(1) less.prems] Some] by blast
    then have "below p j" unfolding below_def by (metis append_butlast_last_id pieces_not_Nil prefixI)
    then show ?thesis
      using less.hyps [OF parent_length [OF Some] pk] by (auto simp: below_def dest: prefix_order.trans)
  qed
qed

lemma roots_level: "tree_shape t \<Longrightarrow> level t 1 (roots t)"
  using bt.keys_distinct [of t] by (auto simp: level_def roots_def tree_shape_def parent_None_iff)

theorem divide_total:
  assumes "tree_shape t" "few t"
  shows "\<exists>u. divide t = Some (Inr u) \<and> same_plan t u \<and> (\<forall>j \<in> set (bt_keys u). divided u j) \<and>
    (t \<noteq> [] \<longrightarrow> (\<Sum>r\<leftarrow>roots u. share_at u r) = unat whole_ppb)"
proof -
  obtain u where u: "hand_out (Suc node_depth_max) share_whole (roots t) t = Some (Inr u)"
    and h: "handed (roots t) t u"
    and sum: "roots t \<noteq> [] \<longrightarrow> (\<Sum>i\<leftarrow>roots t. share_at u i) = unat (ppb share_whole)"
    using hand_out_parts(1) [OF assms roots_level [OF assms(1)], of "Suc node_depth_max"] by auto
  have same: "same_plan t u" and keys: "bt_keys u = bt_keys t"
    using h by (simp_all add: handed_def same_plan_def)
  have "divided u j" if "j \<in> set (bt_keys u)" for j
    using root_above [OF assms(1)] that keys h by (auto simp: handed_def)
  moreover have "roots t \<noteq> []" if "t \<noteq> []"
  proof -
    have "bt_keys t \<noteq> []" using that by (simp add: bt_keys_def)
    then have "hd (bt_keys t) \<in> set (bt_keys t)" by simp
    then show ?thesis using root_above [OF assms(1)] by fastforce
  qed
  ultimately show ?thesis
    using u sum same keys by (auto simp: divide_def roots_def share_whole_def)
qed

section \<open>The leaves hold the whole\<close>

definition leaves :: "plan_tree \<Rightarrow> node_id list" where
  "leaves t = filter (\<lambda>i. kids t i = []) (bt_keys t)"

definition leaves_below :: "plan_tree \<Rightarrow> node_id \<Rightarrow> node_id set" where
  "leaves_below t i = {j \<in> set (leaves t). below i j}"

lemma kids_keys: "tree_shape t \<Longrightarrow> c \<in> set (kids t i) \<Longrightarrow> c \<in> set (bt_keys t)"
  by (cases "bt_get t i") (auto simp: kids_def tree_shape_def)

lemma level_union_sum:
  assumes "level t k among"
  shows "(\<Sum>j \<in> (\<Union>i \<in> set among. leaves_below t i). share_at t j) =
    (\<Sum>i\<leftarrow>among. \<Sum>j \<in> leaves_below t i. share_at t j)"
proof -
  have fin: "finite (leaves_below t i)" for i by (simp add: leaves_below_def)
  have "(\<Sum>j \<in> (\<Union>i \<in> set among. leaves_below t i). share_at t j) =
      (\<Sum>i \<in> set among. \<Sum>j \<in> leaves_below t i. share_at t j)"
    using level_apart [OF assms] fin
    by (intro sum.UNION_disjoint) (auto simp: leaves_below_def)
  also have "\<dots> = (\<Sum>i\<leftarrow>among. \<Sum>j \<in> leaves_below t i. share_at t j)"
    using assms by (simp add: level_def sum_list_distinct_conv_sum_set)
  finally show ?thesis .
qed

lemma subtree_sum:
  assumes "tree_shape t" "\<forall>j \<in> set (bt_keys t). divided t j" "i \<in> set (bt_keys t)"
  shows "(\<Sum>j \<in> leaves_below t i. share_at t j) = share_at t i"
  using assms(3)
proof (induction "node_depth_max - length (pieces i)" arbitrary: i rule: less_induct)
  case less
  obtain node where node: "bt_get t i = Some node" using less.prems by (auto simp: bt_keys_dom)
  then have kids: "kids t i = children node" by (simp add: kids_def)
  show ?case
  proof (cases "kids t i = []")
    case True
    have "leaves_below t i = {i}"
    proof
      show "leaves_below t i \<subseteq> {i}"
      proof
        fix j
        assume j: "j \<in> leaves_below t i"
        then have "j \<in> set (bt_keys t)" "prefix (pieces i) (pieces j)"
          by (auto simp: leaves_below_def leaves_def below_def)
        then show "j \<in> {i}"
          using branch_step [OF assms(1) less.prems] True pieces_inj by (auto simp: strict_prefix_def)
      qed
      show "{i} \<subseteq> leaves_below t i"
        using True less.prems by (auto simp: leaves_below_def leaves_def below_def)
    qed
    then show ?thesis by simp
  next
    case False
    have lev: "level t (Suc (length (pieces i))) (kids t i)"
      using kids_level [OF assms(1) node] kids by simp
    have eq: "leaves_below t i = (\<Union>c \<in> set (kids t i). leaves_below t c)"
    proof
      show "leaves_below t i \<subseteq> (\<Union>c \<in> set (kids t i). leaves_below t c)"
      proof
        fix j
        assume j: "j \<in> leaves_below t i"
        then have jk: "j \<in> set (bt_keys t)" "prefix (pieces i) (pieces j)" "kids t j = []"
          by (auto simp: leaves_below_def leaves_def below_def)
        then have "strict_prefix (pieces i) (pieces j)"
          using False pieces_inj by (auto simp: strict_prefix_def)
        then obtain c where "c \<in> set (kids t i)" "below c j"
          using branch_step [OF assms(1) less.prems jk(1)] by blast
        then show "j \<in> (\<Union>c \<in> set (kids t i). leaves_below t c)"
          using j by (auto simp: leaves_below_def)
      qed
      show "(\<Union>c \<in> set (kids t i). leaves_below t c) \<subseteq> leaves_below t i"
        using kid_below [OF assms(1)]
        by (auto simp: leaves_below_def below_def strict_prefix_def dest: prefix_order.trans)
    qed
    have "(\<Sum>j \<in> leaves_below t c. share_at t j) = share_at t c" if c: "c \<in> set (kids t i)" for c
    proof (rule less.hyps)
      show ck: "c \<in> set (bt_keys t)" using kids_keys [OF assms(1) c] .
      have "length (pieces c) \<le> node_depth_max" using key_ok [OF assms(1) ck] by (simp add: node_ok_def)
      moreover have "length (pieces c) = Suc (length (pieces i))" using lev c by (simp add: level_def)
      ultimately show "node_depth_max - length (pieces c) < node_depth_max - length (pieces i)" by linarith
    qed
    then have "(\<Sum>j \<in> leaves_below t i. share_at t j) = (\<Sum>c\<leftarrow>kids t i. share_at t c)"
      unfolding eq level_union_sum [OF lev] by (intro arg_cong [of _ _ sum_list] map_cong) simp_all
    then show ?thesis using assms(2) less.prems False by (simp add: divided_def)
  qed
qed

theorem leaves_sum:
  assumes "tree_shape t" "\<forall>j \<in> set (bt_keys t). divided t j"
  shows "(\<Sum>j\<leftarrow>leaves t. share_at t j) = (\<Sum>r\<leftarrow>roots t. share_at t r)"
proof -
  have "distinct (leaves t)"
    using assms(1) bt.keys_distinct [of t] by (auto simp: leaves_def tree_shape_def)
  then have "(\<Sum>j\<leftarrow>leaves t. share_at t j) = (\<Sum>j \<in> set (leaves t). share_at t j)"
    by (rule sum_list_distinct_conv_sum_set)
  also have "set (leaves t) = (\<Union>r \<in> set (roots t). leaves_below t r)"
    using root_above [OF assms(1)] by (auto simp: leaves_below_def leaves_def)
  also have "(\<Sum>j \<in> (\<Union>r \<in> set (roots t). leaves_below t r). share_at t j) =
      (\<Sum>r\<leftarrow>roots t. \<Sum>j \<in> leaves_below t r. share_at t j)"
    by (rule level_union_sum [OF roots_level [OF assms(1)]])
  also have "\<dots> = (\<Sum>r\<leftarrow>roots t. share_at t r)"
    using subtree_sum [OF assms]
    by (intro arg_cong [of _ _ sum_list] map_cong) (auto simp: roots_def)
  finally show ?thesis .
qed

end
