(* ===== verification/Plans.thy ===== *)
theory Plans
  imports Plan_Cycles Plan_Shares
begin

text \<open>
  What a built plan guarantees (\<open>crates/kernel/src/plan.rs\<close>): which tables \<open>build\<close> accepts,
  that the leaves of an accepted one hold the whole between them, that \<open>claim\<close> succeeds on
  exactly the nodes \<open>ready\<close> lists, and what \<open>progress\<close> counts.
\<close>

section \<open>Which tables are accepted\<close>

lemma check_needs_None:
  "check_needs nodes i ns = None \<longleftrightarrow> (\<forall>n \<in> set ns. bt_get nodes n \<noteq> None \<and> n \<noteq> i)"
  by (induction nodes i ns rule: check_needs.induct) auto

lemma check_all_needs_None:
  "check_all_needs nodes kvs = None \<longleftrightarrow>
   (\<forall>(i, node) \<in> set kvs. \<forall>n \<in> set (needs (plan_row node)). bt_get nodes n \<noteq> None \<and> n \<noteq> i)"
proof (induction nodes kvs rule: check_all_needs.induct)
  case (2 nodes i node rest)
  then show ?case
    using check_needs_None [of nodes i "needs (plan_row node)"]
    by (cases "check_needs nodes i (needs (plan_row node))") auto
qed simp

lemma check_children_None:
  "check_children nodes i cs = None \<longleftrightarrow>
   (\<forall>c \<in> set cs. \<forall>node. bt_get nodes c = Some node \<longrightarrow> status (plan_row node) = Done)"
  by (induction nodes i cs rule: check_children.induct) (auto split: option.splits)

lemma check_branch_claims_None:
  "check_branch_claims nodes kvs = None \<longleftrightarrow>
   (\<forall>(i, node) \<in> set kvs. status (plan_row node) = Done \<longrightarrow>
      (\<forall>c \<in> set (children node). \<forall>n. bt_get nodes c = Some n \<longrightarrow> status (plan_row n) = Done))"
proof (induction nodes kvs rule: check_branch_claims.induct)
  case (2 nodes i node rest)
  then show ?case
    using check_children_None [of nodes i "children node"]
    by (cases "check_children nodes i (children node)") auto
qed simp

text \<open>The rows of one table, as the rules speak of them.\<close>

definition row_ids :: "roadmap_row list \<Rightarrow> node_id set" where
  "row_ids rows = row_id ` set rows"

definition rows_need :: "roadmap_row list \<Rightarrow> (node_id \<times> node_id) set" where
  "rows_need rows = {(row_id r, n) | r n. r \<in> set rows \<and> n \<in> set (needs r)}"

definition honest_branches :: "roadmap_row list \<Rightarrow> bool" where
  "honest_branches rows \<longleftrightarrow>
     (\<forall>r \<in> set rows. \<forall>c \<in> set rows.
        status r = Done \<longrightarrow> node_parent (row_id c) = Some (row_id r) \<longrightarrow> status c = Done)"

definition table_ok :: "roadmap_row list \<Rightarrow> bool" where
  "table_ok rows \<longleftrightarrow>
     distinct (map row_id rows) \<and>
     (\<forall>r \<in> set rows. \<forall>p. node_parent (row_id r) = Some p \<longrightarrow> p \<in> row_ids rows) \<and>
     (\<forall>r \<in> set rows. set (needs r) \<subseteq> row_ids rows \<and> row_id r \<notin> set (needs r)) \<and>
     honest_branches rows"

definition typed_rows :: "roadmap_row list \<Rightarrow> bool" where
  "typed_rows rows \<longleftrightarrow> (\<forall>r \<in> set rows. node_ok (row_id r)) \<and> few rows"

lemma hung_tree_get:
  assumes "hung_tree rows t" "typed_rows rows" "r \<in> set rows"
  shows "\<exists>node. bt_get t (row_id r) = Some node \<and> plan_row node = r"
proof -
  have ok: "\<forall>r \<in> set rows. node_ok (row_id r)" using assms(2) by (simp add: typed_rows_def)
  note shape = hung_tree_shape [OF assms(1) ok]
  obtain node where node: "bt_get t (row_id r) = Some node"
    using shape(2) assms(3) by (auto simp: bt_keys_dom)
  then have "plan_row node \<in> set rows" "row_id (plan_row node) = row_id r"
    using shape by (auto simp: tree_shape_def)
  moreover have "distinct (map row_id rows)"
    using assms(1) by (auto simp: hung_tree_def place_rows_iff)
  ultimately have "plan_row node = r" using assms(3) by (metis distinct_map inj_onD)
  with node show ?thesis by blast
qed

lemma hung_tree_ex:
  assumes "typed_rows rows"
  shows "(\<exists>t. hung_tree rows t) \<longleftrightarrow>
    distinct (map row_id rows) \<and>
    (\<forall>r \<in> set rows. \<forall>p. node_parent (row_id r) = Some p \<longrightarrow> p \<in> row_ids rows)"
proof -
  have key: "bt_get nodes p \<noteq> None \<longleftrightarrow> p \<in> row_ids rows"
    and keys: "set (bt_keys nodes) = row_ids rows" and ok: "bt_ok nodes"
    if "place_rows rows [] = Inr nodes" for nodes p
    using placed(1,3) [OF that] by (simp_all only: bt_get_None_iff row_ids_def not_not)
  have "(\<exists>t. hung_tree rows t) \<longleftrightarrow>
      (\<exists>nodes. place_rows rows [] = Inr nodes \<and>
        (\<forall>j \<in> row_ids rows. \<forall>p. node_parent j = Some p \<longrightarrow> p \<in> row_ids rows))"
  proof -
    have "(\<exists>t. hang_children (bt_keys nodes) nodes = Inr t) \<longleftrightarrow>
        (\<forall>j \<in> row_ids rows. \<forall>p. node_parent j = Some p \<longrightarrow> p \<in> row_ids rows)"
      if pl: "place_rows rows [] = Inr nodes" for nodes
      unfolding hang_iff [OF ok [OF pl]] keys [OF pl] key [OF pl] ..
    then show ?thesis unfolding hung_tree_def by blast
  qed
  then show ?thesis
    by (auto simp: place_rows_iff row_ids_def bt_get_def)
qed

lemma build_hung:
  "build rows = Some (Inr u) \<Longrightarrow>
   \<exists>t. hung_tree rows t \<and> check_dependencies t = None \<and> check_branch_claims t t = None \<and> divide t = Some (Inr u)"
  by (auto simp: build_def hung_tree_def split: sum.splits option.splits)

lemma hung_few: "hung_tree rows t \<Longrightarrow> typed_rows rows \<Longrightarrow> few t"
  using hung_tree_shape(4) by (auto simp: typed_rows_def few_def)

lemma hung_shape: "hung_tree rows t \<Longrightarrow> typed_rows rows \<Longrightarrow> tree_shape t"
  using hung_tree_shape(1) by (auto simp: typed_rows_def)

lemma build_returns:
  assumes "typed_rows rows"
  shows "\<exists>r. build rows = Some r"
proof -
  have "\<exists>r. divide t = Some r" if "hung_tree rows t" for t
    using divide_total [OF hung_shape [OF that assms] hung_few [OF that assms]] by blast
  then show ?thesis
    by (auto simp: build_def hung_tree_def split: sum.splits option.splits)
qed

lemma hung_needs:
  assumes "hung_tree rows t" "typed_rows rows"
  shows "needs_rel t = rows_need rows"
proof -
  have ok: "\<forall>r \<in> set rows. node_ok (row_id r)" using assms(2) by (simp add: typed_rows_def)
  note shape = hung_tree_shape [OF assms(1) ok]
  show ?thesis
  proof
    show "needs_rel t \<subseteq> rows_need rows"
      using shape(1,3) by (fastforce simp: needs_rel_def node_needs_iff rows_need_def tree_shape_def)
    show "rows_need rows \<subseteq> needs_rel t"
      using hung_tree_get [OF assms] by (fastforce simp: needs_rel_def node_needs_iff rows_need_def)
  qed
qed

lemma hung_checks:
  assumes "hung_tree rows t" "typed_rows rows"
  shows "check_all_needs t t = None \<longleftrightarrow>
      (\<forall>r \<in> set rows. set (needs r) \<subseteq> row_ids rows \<and> row_id r \<notin> set (needs r))"
    and "check_branch_claims t t = None \<longleftrightarrow> honest_branches rows"
proof -
  have nok: "\<forall>r \<in> set rows. node_ok (row_id r)" using assms(2) by (simp add: typed_rows_def)
  note shape = hung_tree_shape [OF assms(1) nok]
  have ok: "bt_ok t" using shape(1) by (simp add: tree_shape_def)
  have key: "bt_get t n \<noteq> None \<longleftrightarrow> n \<in> row_ids rows" for n
    using shape(2) by (simp add: bt_get_None_iff row_ids_def)
  have all: "(\<forall>(i, node) \<in> set t. P i node) \<longleftrightarrow> (\<forall>i node. bt_get t i = Some node \<longrightarrow> P i node)" for P
    using bt_get_mem [OF ok] by fastforce
  have node: "bt_get t i = Some node \<Longrightarrow> plan_row node \<in> set rows \<and> row_id (plan_row node) = i" for i node
    using shape(1,3) by (auto simp: tree_shape_def)
  show "check_all_needs t t = None \<longleftrightarrow>
      (\<forall>r \<in> set rows. set (needs r) \<subseteq> row_ids rows \<and> row_id r \<notin> set (needs r))"
    unfolding check_all_needs_None all key
  proof (intro iffI ballI allI impI)
    fix r
    assume h: "\<forall>i node. bt_get t i = Some node \<longrightarrow> (\<forall>n \<in> set (needs (plan_row node)). n \<in> row_ids rows \<and> n \<noteq> i)"
      and r: "r \<in> set rows"
    obtain n where "bt_get t (row_id r) = Some n" "plan_row n = r"
      using hung_tree_get [OF assms r] by blast
    with h show "set (needs r) \<subseteq> row_ids rows \<and> row_id r \<notin> set (needs r)" by blast
  next
    fix i nd n
    assume "\<forall>r \<in> set rows. set (needs r) \<subseteq> row_ids rows \<and> row_id r \<notin> set (needs r)"
      and "bt_get t i = Some nd" "n \<in> set (needs (plan_row nd))"
    with node show "n \<in> row_ids rows \<and> n \<noteq> i" by blast
  qed
  have kids: "c \<in> set (children nd) \<longleftrightarrow> c \<in> row_ids rows \<and> node_parent c = Some i"
    if "bt_get t i = Some nd" for i nd c
    using shape(1,2) that by (auto simp: tree_shape_def row_ids_def)
  show "check_branch_claims t t = None \<longleftrightarrow> honest_branches rows"
    unfolding check_branch_claims_None all honest_branches_def
  proof (intro iffI ballI allI impI)
    fix r c
    assume h: "\<forall>i nd. bt_get t i = Some nd \<longrightarrow> status (plan_row nd) = Done \<longrightarrow>
        (\<forall>c \<in> set (children nd). \<forall>n. bt_get t c = Some n \<longrightarrow> status (plan_row n) = Done)"
      and r: "r \<in> set rows" "status r = Done" and c: "c \<in> set rows" "node_parent (row_id c) = Some (row_id r)"
    obtain nr nc where "bt_get t (row_id r) = Some nr" "plan_row nr = r"
        "bt_get t (row_id c) = Some nc" "plan_row nc = c"
      using hung_tree_get [OF assms] r c by metis
    with h kids r c show "status c = Done" by (metis image_eqI row_ids_def)
  next
    fix i nd c n
    assume h: "\<forall>r \<in> set rows. \<forall>c \<in> set rows. status r = Done \<longrightarrow>
        node_parent (row_id c) = Some (row_id r) \<longrightarrow> status c = Done"
      and nd: "bt_get t i = Some nd" "status (plan_row nd) = Done" "c \<in> set (children nd)"
      and n: "bt_get t c = Some n"
    with node [OF nd(1)] node [OF n] kids [OF nd(1), of c] show "status (plan_row n) = Done" by metis
  qed
qed

text \<open>
  A table that is well-formed and has no circle is accepted; and, for rows that name no
  dependency twice, a table that is accepted has none.
\<close>

lemma first_cycle_hung:
  assumes "hung_tree rows t" "typed_rows rows" "check_all_needs t t = None"
  shows "acyclic (rows_need rows) \<Longrightarrow> first_cycle t = None"
    and "\<forall>r \<in> set rows. distinct (needs r) \<Longrightarrow> first_cycle t = None \<Longrightarrow> acyclic (rows_need rows)"
proof -
  note shape = hung_shape [OF assms(1,2)]
  have ok: "bt_ok t" using shape by (simp add: tree_shape_def)
  have all: "bt_get t i = Some node \<Longrightarrow> n \<in> set (needs (plan_row node)) \<Longrightarrow> bt_get t n \<noteq> None" for i node n
    using assms(3) bt_get_mem [OF ok] by (fastforce simp: check_all_needs_None)
  have closed: "needs_closed t"
    unfolding needs_closed_def node_needs_iff using all by blast
  show "acyclic (rows_need rows) \<Longrightarrow> first_cycle t = None"
    using first_cycle_sound [OF ok] hung_needs [OF assms(1,2)] by (metis acyclic_def not_None_eq)
  assume "\<forall>r \<in> set rows. distinct (needs r)"
  moreover have "\<forall>r \<in> set rows. node_ok (row_id r)" using assms(2) by (simp add: typed_rows_def)
  ultimately have "needs_once t"
    using hung_tree_shape(3) [OF assms(1)] by (auto simp: needs_once_def node_needs_def split: option.splits)
  then show "first_cycle t = None \<Longrightarrow> acyclic (rows_need rows)"
    using first_cycle_complete [OF ok closed] hung_needs [OF assms(1,2)] by simp
qed

lemma build_ok_parts:
  assumes "typed_rows rows"
  shows "(\<exists>u. build rows = Some (Inr u)) \<longleftrightarrow>
    (\<exists>t. hung_tree rows t \<and> check_all_needs t t = None \<and> first_cycle t = None \<and> check_branch_claims t t = None)"
proof
  assume "\<exists>u. build rows = Some (Inr u)"
  then show "\<exists>t. hung_tree rows t \<and> check_all_needs t t = None \<and> first_cycle t = None \<and> check_branch_claims t t = None"
    using build_hung by (fastforce simp: check_dependencies_def split: option.splits)
next
  assume "\<exists>t. hung_tree rows t \<and> check_all_needs t t = None \<and> first_cycle t = None \<and> check_branch_claims t t = None"
  then obtain t where t: "hung_tree rows t" "check_all_needs t t = None" "first_cycle t = None"
    "check_branch_claims t t = None" by blast
  obtain u where "divide t = Some (Inr u)"
    using divide_total [OF hung_shape [OF t(1) assms] hung_few [OF t(1) assms]] by blast
  with t have "build rows = Some (Inr u)"
    by (auto simp: build_def hung_tree_def check_dependencies_def)
  then show "\<exists>u. build rows = Some (Inr u)" ..
qed

lemma build_accepts:
  assumes "typed_rows rows" "table_ok rows" "acyclic (rows_need rows)"
  shows "\<exists>u. build rows = Some (Inr u)"
proof -
  obtain t where t: "hung_tree rows t"
    using hung_tree_ex [OF assms(1)] assms(2) by (auto simp: table_ok_def)
  note checks = hung_checks [OF t assms(1)]
  have "check_all_needs t t = None" "check_branch_claims t t = None"
    using checks assms(2) by (simp_all add: table_ok_def)
  with t first_cycle_hung(1) [OF t assms(1)] assms(3) show ?thesis
    using build_ok_parts [OF assms(1)] by blast
qed

lemma build_accepted:
  assumes "typed_rows rows" "build rows = Some (Inr u)"
  shows "table_ok rows"
    and "\<forall>r \<in> set rows. distinct (needs r) \<Longrightarrow> acyclic (rows_need rows)"
proof -
  obtain t where t: "hung_tree rows t" "check_all_needs t t = None" "first_cycle t = None"
    "check_branch_claims t t = None"
    using build_ok_parts [OF assms(1)] assms(2) by blast
  show "table_ok rows"
    using hung_tree_ex [OF assms(1)] hung_checks [OF t(1) assms(1)] t by (auto simp: table_ok_def)
  show "\<forall>r \<in> set rows. distinct (needs r) \<Longrightarrow> acyclic (rows_need rows)"
    using first_cycle_hung(2) [OF t(1) assms(1) t(2)] t(3) by blast
qed

section \<open>A built tree\<close>

lemma built_tree:
  assumes "typed_rows rows" "build rows = Some (Inr u)"
  shows "tree_shape u"
    and "set (bt_keys u) = row_ids rows"
    and "bt_get u i = Some node \<Longrightarrow> plan_row node \<in> set rows \<and> row_id (plan_row node) = i"
    and "r \<in> set rows \<Longrightarrow> \<exists>node. bt_get u (row_id r) = Some node \<and> plan_row node = r"
    and "\<forall>j \<in> set (bt_keys u). divided u j"
    and "rows \<noteq> [] \<Longrightarrow> (\<Sum>j\<leftarrow>leaves u. share_at u j) = unat whole_ppb"
    and "length u = length rows"
proof -
  obtain t where t: "hung_tree rows t" and d: "divide t = Some (Inr u)"
    using build_hung [OF assms(2)] by blast
  have nok: "\<forall>r \<in> set rows. node_ok (row_id r)" using assms(1) by (simp add: typed_rows_def)
  note shape = hung_tree_shape [OF t nok]
  have same: "same_plan t u" and div: "\<forall>j \<in> set (bt_keys u). divided u j"
    and sum: "t \<noteq> [] \<longrightarrow> (\<Sum>r\<leftarrow>roots u. share_at u r) = unat whole_ppb"
    using divide_total [OF shape(1) hung_few [OF t assms(1)]] d by auto
  show su: "tree_shape u" using same shape(1) same_plan_shape by blast
  show keys: "set (bt_keys u) = row_ids rows"
    using same shape(2) by (simp add: same_plan_def row_ids_def)
  show "bt_get u i = Some node \<Longrightarrow> plan_row node \<in> set rows \<and> row_id (plan_row node) = i"
    using same_plan_get(3) [OF same] shape(1,3) by (force simp: tree_shape_def)
  show "r \<in> set rows \<Longrightarrow> \<exists>node. bt_get u (row_id r) = Some node \<and> plan_row node = r"
    using same_plan_get(2) [OF same] hung_tree_get [OF t assms(1)] by blast
  show "\<forall>j \<in> set (bt_keys u). divided u j" by (rule div)
  show "length u = length rows" using same_plan_length [OF same] shape(4) by simp
  assume "rows \<noteq> []"
  then have "t \<noteq> []" using shape(4) by auto
  with sum leaves_sum [OF su div] show "(\<Sum>j\<leftarrow>leaves u. share_at u j) = unat whole_ppb" by simp
qed

end
