(* ===== verification/Plan_Work.thy ===== *)
theory Plan_Work
  imports Plans
begin

text \<open>
  Starting work on a plan and measuring it (\<open>crates/kernel/src/plan.rs\<close>): what a node waits
  for, which nodes are ready, when \<open>claim\<close> succeeds, and what \<open>progress\<close> adds up to.
\<close>

section \<open>What a node waits for\<close>

definition done_ids :: "plan_tree \<Rightarrow> node_id set" where
  "done_ids t = {i. is_done t i}"

lemma is_done_iff: "is_done t i \<longleftrightarrow> (\<exists>node. bt_get t i = Some node \<and> status (plan_row node) = Done)"
  by (cases "bt_get t i") (auto simp: is_done_def)

lemma needs_fold:
  "bs_ok found \<Longrightarrow>
   bs_ok (fold (\<lambda>step found. case bt_get t step of None \<Rightarrow> found | Some node \<Rightarrow> bs_extend found (needs (plan_row node))) steps found) \<and>
   set (fold (\<lambda>step found. case bt_get t step of None \<Rightarrow> found | Some node \<Rightarrow> bs_extend found (needs (plan_row node))) steps found) =
     set found \<union> (\<Union>a \<in> set steps. set (node_needs t a))"
proof (induction steps arbitrary: found)
  case (Cons a steps)
  show ?case
    using Cons.IH [of found] Cons.IH [of "bs_extend found (needs (plan_row (the (bt_get t a))))"] Cons.prems
    by (cases "bt_get t a") (auto simp: node_needs_def bs_ok_extend)
qed simp

lemma needs_of_ok: "bs_ok (needs_of t i)"
  using needs_fold [of "[]" t "ancestors i @ [i]"] by (simp only: needs_of_def bs_ok_Nil)

lemma set_needs_of: "set (needs_of t i) = (\<Union>a \<in> insert i {a. is_ancestor_of a i}. set (node_needs t a))"
  using needs_fold [of "[]" t "ancestors i @ [i]"] by (simp add: needs_of_def set_ancestors)

lemma needs_inherited: "is_ancestor_of a i \<Longrightarrow> set (needs_of t a) \<subseteq> set (needs_of t i)"
  using ancestor_trans by (auto simp: set_needs_of)

section \<open>Ready and claim\<close>

definition startable :: "plan_tree \<Rightarrow> node_id \<Rightarrow> bool" where
  "startable t i \<longleftrightarrow>
     (\<exists>node. bt_get t i = Some node \<and> children node = [] \<and> status (plan_row node) = NotStarted) \<and>
     set (needs_of t i) \<subseteq> done_ids t"

lemma set_ready: "tree_shape t \<Longrightarrow> set (ready t) = {i. startable t i}"
proof -
  assume shape: "tree_shape t"
  then have ok: "bt_ok t" by (simp add: tree_shape_def)
  have id: "bt_get t i = Some node \<Longrightarrow> row_id (plan_row node) = i" for i node
    using shape by (simp add: tree_shape_def)
  show ?thesis
    unfolding ready_def startable_def
    using id by (force simp: bt_values_in [OF ok] is_leaf_def list_all_iff done_ids_def)
qed

lemma ready_ascending:
  assumes "tree_shape t"
  shows "sorted_wrt (<) (ready t)"
proof -
  have ok: "bt_ok t" using assms by (simp add: tree_shape_def)
  have "map (\<lambda>node. row_id (plan_row node)) (bt_values t) = bt_keys t"
    using assms bt_get_mem [OF ok] by (auto simp: tree_shape_def bt_values_def bt_keys_def)
  then have "sorted_wrt (<) (map (\<lambda>node. row_id (plan_row node)) (bt_values t))"
    using ok by (simp add: bt_ok_def)
  then show ?thesis
    unfolding ready_def by (simp add: sorted_wrt_map sorted_wrt_filter)
qed

lemma claim_ok_iff:
  assumes "tree_shape t"
  shows "claim t i = Inr h \<longleftrightarrow> h = Held i \<and> i \<in> set (ready t)"
proof (cases "bt_get t i")
  case None
  then show ?thesis using set_ready [OF assms] by (auto simp: claim_def startable_def)
next
  case (Some node)
  have "filter (\<lambda>need. \<not> is_done t need) (needs_of t i) = [] \<longleftrightarrow> set (needs_of t i) \<subseteq> done_ids t"
    by (auto simp: filter_empty_conv done_ids_def)
  then show ?thesis
    using Some set_ready [OF assms] by (auto simp: claim_def startable_def is_leaf_def Let_def)
qed

text \<open>A refused claim: another run has the leaf (and the code says so), or it cannot start.\<close>

lemma claim_error:
  assumes "claim t i = Inl e"
  shows "code e = (if \<exists>node. bt_get t i = Some node \<and> is_leaf node \<and> status (plan_row node) \<noteq> NotStarted
                   then ax_code.GoalConflict else InvalidArgs)"
proof (cases "bt_get t i")
  case None
  with assms show ?thesis by (simp add: claim_def plan_refusal_def) (metis error_selectors(1,8))
next
  case (Some node)
  with assms show ?thesis
    by (auto simp: claim_def plan_refusal_def Let_def split: if_splits)
qed

lemma done_never_waits: "i \<in> set (ready t) \<Longrightarrow> tree_shape t \<Longrightarrow> n \<in> set (needs_of t i) \<Longrightarrow> is_done t n"
  by (auto simp: set_ready startable_def done_ids_def)

text \<open>A node below one that waits waits too.\<close>

lemma waits_inherited:
  assumes "tree_shape t" "is_ancestor_of a i" "n \<in> set (node_needs t a)" "\<not> is_done t n"
  shows "i \<notin> set (ready t)"
  using assms by (auto simp: set_ready startable_def set_needs_of done_ids_def)

text \<open>A branch that needs a row below itself keeps every row below itself from starting.\<close>

lemma own_descendant_stuck:
  assumes "tree_shape t" "d \<in> set (node_needs t b)" "is_ancestor_of b d" "is_ancestor_of b i"
    and "\<not> is_done t d"
  shows "i \<notin> set (ready t)"
  using waits_inherited [OF assms(1,4,2,5)] .

section \<open>Progress\<close>

definition leaf_nodes :: "plan_tree \<Rightarrow> plan_node list" where
  "leaf_nodes t = filter is_leaf (bt_values t)"

lemma sat_count:
  "unat (c :: u32) + 1 < 4294967296 \<Longrightarrow> unat (saturating_add c 1) = unat c + 1"
  by (simp add: unat_saturating_add)

lemma count_nodes:
  assumes "unat (c_total c) + length nodes < 4294967296"
    and "unat (c_done c) \<le> unat (c_total c)" "unat (c_blocked c) \<le> unat (c_total c)"
  defines "ls \<equiv> filter is_leaf nodes"
  defines "r \<equiv> fold count_node nodes c"
  shows "unat (c_total r) = unat (c_total c) + length ls"
    and "unat (c_done r) = unat (c_done c) + length (filter counts_done ls)"
    and "unat (c_blocked r) = unat (c_blocked c) + length (filter counts_blocked ls)"
    and "c_done_parts r = c_done_parts c @ map plan_share (filter counts_done ls)"
    and "c_blocked_parts r = c_blocked_parts c @ map plan_share (filter counts_blocked ls)"
proof -
  have apart: "counts_done n \<Longrightarrow> \<not> counts_blocked n" for n
    by (auto simp: counts_done_def counts_blocked_def)
  have "unat (c_total r) = unat (c_total c) + length ls \<and>
     unat (c_done r) = unat (c_done c) + length (filter counts_done ls) \<and>
     unat (c_blocked r) = unat (c_blocked c) + length (filter counts_blocked ls) \<and>
     c_done_parts r = c_done_parts c @ map plan_share (filter counts_done ls) \<and>
     c_blocked_parts r = c_blocked_parts c @ map plan_share (filter counts_blocked ls)"
    using assms(1-3) unfolding r_def ls_def
  proof (induction nodes arbitrary: c)
    case (Cons n nodes)
    let ?c = "count_node n c"
    have total: "unat (c_total ?c) = unat (c_total c) + (if is_leaf n then 1 else 0)"
      using Cons.prems by (simp add: count_node_def Let_def sat_count)
    have fin: "unat (c_done ?c) = unat (c_done c) + (if is_leaf n \<and> counts_done n then 1 else 0)"
      using Cons.prems by (simp add: count_node_def Let_def sat_count)
    have blocked: "unat (c_blocked ?c) = unat (c_blocked c) + (if is_leaf n \<and> counts_blocked n then 1 else 0)"
      using Cons.prems apart by (auto simp: count_node_def Let_def sat_count)
    have parts: "c_done_parts ?c = c_done_parts c @ (if is_leaf n \<and> counts_done n then [plan_share n] else [])"
      "c_blocked_parts ?c = c_blocked_parts c @ (if is_leaf n \<and> counts_blocked n then [plan_share n] else [])"
      using apart by (auto simp: count_node_def Let_def)
    have "unat (c_total ?c) + length nodes < 4294967296"
      "unat (c_done ?c) \<le> unat (c_total ?c)" "unat (c_blocked ?c) \<le> unat (c_total ?c)"
      using Cons.prems total fin blocked by (auto split: if_splits)
    note ih = Cons.IH [OF this]
    show ?case using ih total fin blocked parts by simp
  qed simp
  then show "unat (c_total r) = unat (c_total c) + length ls"
    and "unat (c_done r) = unat (c_done c) + length (filter counts_done ls)"
    and "unat (c_blocked r) = unat (c_blocked c) + length (filter counts_blocked ls)"
    and "c_done_parts r = c_done_parts c @ map plan_share (filter counts_done ls)"
    and "c_blocked_parts r = c_blocked_parts c @ map plan_share (filter counts_blocked ls)"
    by auto
qed

lemma leaf_shares:
  assumes "tree_shape t"
  shows "(\<Sum>n\<leftarrow>leaf_nodes t. unat (ppb (plan_share n))) = (\<Sum>i\<leftarrow>leaves t. share_at t i)"
proof -
  have ok: "bt_ok t" using assms by (simp add: tree_shape_def)
  have get: "bt_get t i = Some n" if "(i, n) \<in> set t" for i n
    using that bt_get_mem [OF ok] by simp
  have "map (share_at t) (filter (\<lambda>i. kids t i = []) (map fst kvs)) =
      map (\<lambda>n. unat (ppb (plan_share n))) (filter is_leaf (map snd kvs))" if "set kvs \<subseteq> set t" for kvs
    using that
  proof (induction kvs)
    case (Cons kv kvs)
    obtain i n where kv: "kv = (i, n)" by (cases kv)
    then have "bt_get t i = Some n" using Cons.prems get by auto
    with Cons kv show ?case by (simp add: kids_def share_at_def is_leaf_def)
  qed simp
  from this [of t] show ?thesis
    by (simp add: leaf_nodes_def leaves_def bt_keys_def bt_values_def)
qed

lemma sum_filter_split:
  fixes f :: "'a \<Rightarrow> nat"
  assumes "\<And>x. x \<in> set xs \<Longrightarrow> P x \<Longrightarrow> \<not> Q x"
  shows "(\<Sum>x\<leftarrow>filter P xs. f x) + (\<Sum>x\<leftarrow>filter Q xs. f x) \<le> (\<Sum>x\<leftarrow>xs. f x)"
  using assms by (induction xs) force+

lemma progress_counts:
  assumes "typed_rows rows" "rows \<noteq> []" "build rows = Some (Inr t)" "length rows < 4294967296"
  shows "unat (total_leaves (progress t)) = length (leaf_nodes t)"
    and "unat (done_leaves (progress t)) = length (filter counts_done (leaf_nodes t))"
    and "unat (blocked_leaves (progress t)) = length (filter counts_blocked (leaf_nodes t))"
    and "unat (done_ppb (progress t)) = (\<Sum>n\<leftarrow>filter counts_done (leaf_nodes t). unat (ppb (plan_share n)))"
    and "unat (blocked_ppb (progress t)) = (\<Sum>n\<leftarrow>filter counts_blocked (leaf_nodes t). unat (ppb (plan_share n)))"
    and "unat (done_ppb (progress t)) + unat (blocked_ppb (progress t)) \<le> unat whole_ppb"
proof -
  note built = built_tree [OF assms(1,3)]
  let ?c0 = "\<lparr>c_done = 0, c_blocked = 0, c_total = 0, c_done_parts = [], c_blocked_parts = []\<rparr>"
  have len: "length (bt_values t) < 4294967296" using built(7) assms(4) by (simp add: bt_values_def)
  note counted = count_nodes [of ?c0 "bt_values t", folded leaf_nodes_def]
  have whole: "(\<Sum>n\<leftarrow>leaf_nodes t. unat (ppb (plan_share n))) = unat whole_ppb"
    using leaf_shares [OF built(1)] built(6) assms(2) by simp
  have both: "(\<Sum>n\<leftarrow>filter counts_done (leaf_nodes t). unat (ppb (plan_share n))) +
      (\<Sum>n\<leftarrow>filter counts_blocked (leaf_nodes t). unat (ppb (plan_share n))) \<le> unat whole_ppb"
    unfolding whole [symmetric]
    by (rule sum_filter_split) (auto simp: counts_done_def counts_blocked_def)
  show "unat (total_leaves (progress t)) = length (leaf_nodes t)"
    "unat (done_leaves (progress t)) = length (filter counts_done (leaf_nodes t))"
    "unat (blocked_leaves (progress t)) = length (filter counts_blocked (leaf_nodes t))"
    using counted(1-3) len by (simp_all add: progress_def Let_def)
  show d: "unat (done_ppb (progress t)) = (\<Sum>n\<leftarrow>filter counts_done (leaf_nodes t). unat (ppb (plan_share n)))"
    using counted(4) len both
    by (simp add: progress_def Let_def gather_exact comp_def)
  show b: "unat (blocked_ppb (progress t)) = (\<Sum>n\<leftarrow>filter counts_blocked (leaf_nodes t). unat (ppb (plan_share n)))"
    using counted(5) len both
    by (simp add: progress_def Let_def gather_exact comp_def)
  show "unat (done_ppb (progress t)) + unat (blocked_ppb (progress t)) \<le> unat whole_ppb"
    using both unfolding d b .
qed

end
