(* ===== verification/Blockages.thy ===== *)
theory Blockages
  imports Plan_Work
begin

text \<open>
  What a red node holds up (\<open>crates/kernel/src/blockage.rs\<close>): the walk up the tree and along
  the dependency edges, the report per cause, and who is told. The walk recurses; its fuel
  is the number of rows, and \<open>None\<close> is running past it, which a built plan rules out.
\<close>

section \<open>The model\<close>

record red_node =
  red_at :: node_id
  red_why :: stop_cause

record blockage =
  source :: node_id
  why :: stop_cause
  reaches :: "node_id list"

record notice =
  notice_to :: string
  about :: node_id
  notice_line :: string

definition blockage_line :: "blockage \<Rightarrow> string" where
  "blockage_line b =
     (let branch = (case ancestors (source b) of [] \<Rightarrow> node_str (source b) | as \<Rightarrow> node_str (last as))
      in ''branch '' @ branch @ '' is stuck at '' @ node_str (source b) @ '': '' @ stop_line (why b))"

definition push_edge :: "node_id \<Rightarrow> node_id \<Rightarrow> (node_id, node_id list) btree \<Rightarrow> (node_id, node_id list) btree" where
  "push_edge i need edges =
     bt_insert need ((case bt_get edges need of None \<Rightarrow> [] | Some ws \<Rightarrow> ws) @ [i]) edges"

definition reverse_edges :: "plan_tree \<Rightarrow> (node_id, node_id list) btree" where
  "reverse_edges t =
     fold (\<lambda>node edges. let i = row_id (plan_row node) in fold (push_edge i) (needs_of t i) edges)
       (bt_values t) []"

function (sequential)
  walk :: "nat \<Rightarrow> node_id \<Rightarrow> (node_id, node_id list) btree \<Rightarrow> node_id list \<Rightarrow> node_id list option"
  and walk_all :: "nat \<Rightarrow> node_id list \<Rightarrow> (node_id, node_id list) btree \<Rightarrow> node_id list \<Rightarrow> node_id list option"
where
  "walk 0 i dependents seen = None"
| "walk (Suc fuel) i dependents seen =
     (if i \<in> set seen then Some seen
      else walk_all fuel (ancestors i @ (case bt_get dependents i of None \<Rightarrow> [] | Some ws \<Rightarrow> ws)) dependents
             (bs_insert i seen))"
| "walk_all fuel [] dependents seen = Some seen"
| "walk_all fuel (x # xs) dependents seen =
     (case walk fuel x dependents seen of
        None \<Rightarrow> None
      | Some seen' \<Rightarrow> walk_all fuel xs dependents seen')"
  by pat_completeness auto
termination
  by (relation "measures
       [\<lambda>x. case x of Inl (n, _) \<Rightarrow> n | Inr (n, _) \<Rightarrow> n,
        \<lambda>x. case x of Inl _ \<Rightarrow> 0 | Inr (_, xs, _) \<Rightarrow> Suc (length xs)]") auto

definition walk_fuel :: "plan_tree \<Rightarrow> nat" where
  "walk_fuel t = Suc (length t)"

fun spread_each ::
  "plan_tree \<Rightarrow> (node_id, node_id list) btree \<Rightarrow> node_id list \<Rightarrow> red_node list \<Rightarrow>
   (node_id, blockage) btree \<Rightarrow> (node_id, blockage) btree option" where
  "spread_each t dependents sources [] found = Some found"
| "spread_each t dependents sources (held # red) found =
     (if bt_get t (red_at held) = None then spread_each t dependents sources red found
      else (case walk (walk_fuel t) (red_at held) dependents [] of
              None \<Rightarrow> None
            | Some seen \<Rightarrow>
                spread_each t dependents sources red
                  (bt_insert (red_at held)
                    \<lparr>source = red_at held, why = red_why held,
                     reaches = filter (\<lambda>i. i \<noteq> red_at held \<and> i \<notin> set sources) seen\<rparr> found)))"

definition spread :: "plan_tree \<Rightarrow> red_node list \<Rightarrow> blockage list option" where
  "spread t red =
     map_option bt_values
       (spread_each t (reverse_edges t) (bs_extend [] (map red_at red)) red [])"

fun notices_one ::
  "blockage \<Rightarrow> (node_id, string) btree \<Rightarrow> node_id list \<Rightarrow> string list \<Rightarrow> notice list" where
  "notices_one b holders [] told = []"
| "notices_one b holders (i # is) told =
     (case bt_get holders i of
        None \<Rightarrow> notices_one b holders is told
      | Some who \<Rightarrow>
          if Some who = bt_get holders (source b) \<or> who \<in> set told then notices_one b holders is told
          else \<lparr>notice_to = who, about = source b, notice_line = blockage_line b\<rparr>
               # notices_one b holders is (bs_insert who told))"

definition notices :: "blockage list \<Rightarrow> (node_id, string) btree \<Rightarrow> notice list" where
  "notices blocked holders = concat (map (\<lambda>b. notices_one b holders (reaches b) []) blocked)"

section \<open>Edges\<close>

text \<open>Whom a stuck node holds up next: the branches above it and the nodes that wait for it.\<close>

definition holds_up :: "plan_tree \<Rightarrow> (node_id \<times> node_id) set" where
  "holds_up t = {(a, b). is_ancestor_of b a \<or> (bt_get t b \<noteq> None \<and> a \<in> set (needs_of t b))}"

definition edges_at :: "(node_id, node_id list) btree \<Rightarrow> node_id \<Rightarrow> node_id list" where
  "edges_at edges i = (case bt_get edges i of None \<Rightarrow> [] | Some ws \<Rightarrow> ws)"

lemma edges_push:
  "edges_at (push_edge i need edges) a = edges_at edges a @ (if a = need then [i] else [])"
  by (simp add: edges_at_def push_edge_def bt_get_insert)

lemma edges_fold:
  "set (edges_at (fold (push_edge i) ns edges) a) = set (edges_at edges a) \<union> (if a \<in> set ns then {i} else {})"
  by (induction ns arbitrary: edges) (auto simp: edges_push)

lemma reverse_edges_fold:
  "set (edges_at (fold (\<lambda>node edges. let i = row_id (plan_row node) in fold (push_edge i) (needs_of t i) edges) nodes edges) a) =
   set (edges_at edges a) \<union> {row_id (plan_row n) | n. n \<in> set nodes \<and> a \<in> set (needs_of t (row_id (plan_row n)))}"
  by (induction nodes arbitrary: edges) (auto simp: Let_def edges_fold)

lemma edges_reverse:
  assumes "tree_shape t"
  shows "set (edges_at (reverse_edges t) a) = {b. bt_get t b \<noteq> None \<and> a \<in> set (needs_of t b)}"
proof -
  have ok: "bt_ok t" using assms by (simp add: tree_shape_def)
  have id: "bt_get t i = Some node \<Longrightarrow> row_id (plan_row node) = i" for i node
    using assms by (simp add: tree_shape_def)
  have "set (edges_at (reverse_edges t) a) =
      {row_id (plan_row n) | n. n \<in> set (bt_values t) \<and> a \<in> set (needs_of t (row_id (plan_row n)))}"
    unfolding reverse_edges_def reverse_edges_fold by (simp add: edges_at_def bt_get_def)
  then show ?thesis using id by (force simp: bt_values_in [OF ok])
qed

definition successors :: "(node_id, node_id list) btree \<Rightarrow> node_id \<Rightarrow> node_id list" where
  "successors dependents i = ancestors i @ edges_at dependents i"

lemma successors_holds_up:
  "tree_shape t \<Longrightarrow> set (successors (reverse_edges t) a) = {b. (a, b) \<in> holds_up t}"
  by (auto simp: successors_def holds_up_def edges_reverse set_ancestors)

section \<open>The walk computes what is reachable\<close>

abbreviation succ_rel :: "(node_id, node_id list) btree \<Rightarrow> (node_id \<times> node_id) set" where
  "succ_rel dependents \<equiv> {(a, b). b \<in> set (successors dependents a)}"

lemma absorb_step: "A \<subseteq> B \<Longrightarrow> i \<in> B \<Longrightarrow> S \<subseteq> insert i X \<union> A \<Longrightarrow> S \<subseteq> X \<union> B"
  by blast

lemma absorb_two: "A \<subseteq> C \<Longrightarrow> B \<subseteq> C \<Longrightarrow> S \<subseteq> U \<union> B \<Longrightarrow> U \<subseteq> X \<union> A \<Longrightarrow> S \<subseteq> X \<union> C"
  by blast

lemma walk_sound:
  shows "walk n i dependents seen = Some s \<Longrightarrow> bs_ok seen \<Longrightarrow>
    bs_ok s \<and> set seen \<subseteq> set s \<and> i \<in> set s \<and> set s \<subseteq> set seen \<union> (succ_rel dependents)\<^sup>* `` {i} \<and>
    (\<forall>x \<in> set s - set seen. set (successors dependents x) \<subseteq> set s)"
  and "walk_all n xs dependents seen = Some s \<Longrightarrow> bs_ok seen \<Longrightarrow>
    bs_ok s \<and> set seen \<subseteq> set s \<and> set xs \<subseteq> set s \<and> set s \<subseteq> set seen \<union> (succ_rel dependents)\<^sup>* `` set xs \<and>
    (\<forall>x \<in> set s - set seen. set (successors dependents x) \<subseteq> set s)"
proof (induction n i dependents seen and n xs dependents seen arbitrary: s and s rule: walk_walk_all.induct)
  case (1 i dependents seen)
  then show ?case by simp
next
  case (2 fuel i dependents seen)
  show ?case
  proof (cases "i \<in> set seen")
    case True
    with 2 show ?thesis by auto
  next
    case False
    have rest: "walk_all fuel (successors dependents i) dependents (bs_insert i seen) = Some s"
      using "2.prems"(1) False by (simp add: successors_def edges_at_def)
    have "bs_ok (bs_insert i seen)" using "2.prems"(2) by (rule bs_ok_insert)
    note ih = "2.IH" [OF False, folded edges_at_def, folded successors_def, OF rest this]
    have "(succ_rel dependents)\<^sup>* `` set (successors dependents i) \<subseteq> (succ_rel dependents)\<^sup>* `` {i}"
      by (auto intro: converse_rtrancl_into_rtrancl)
    moreover have "i \<in> (succ_rel dependents)\<^sup>* `` {i}" by auto
    moreover have "set s \<subseteq> insert i (set seen) \<union> (succ_rel dependents)\<^sup>* `` set (successors dependents i)"
      using ih by simp
    ultimately have "set s \<subseteq> set seen \<union> (succ_rel dependents)\<^sup>* `` {i}" by (rule absorb_step)
    moreover have "\<forall>x \<in> set s - set seen. set (successors dependents x) \<subseteq> set s"
    proof
      fix x
      assume "x \<in> set s - set seen"
      then show "set (successors dependents x) \<subseteq> set s"
        using ih by (cases "x = i") simp_all
    qed
    moreover have "set seen \<subseteq> set s" "i \<in> set s" "bs_ok s" using ih by simp_all
    ultimately show ?thesis by (intro conjI)
  qed
next
  case (3 fuel dependents seen)
  then show ?case by auto
next
  case (4 fuel x xs dependents seen)
  then obtain u where u: "walk fuel x dependents seen = Some u" and s: "walk_all fuel xs dependents u = Some s"
    by (auto split: option.splits)
  note a = "4.IH"(1) [OF u "4.prems"(2)]
  note b = "4.IH"(2) [OF u s] 
  have bu: "bs_ok u" using a by blast
  note b = b [OF bu]
  have "(succ_rel dependents)\<^sup>* `` {x} \<subseteq> (succ_rel dependents)\<^sup>* `` set (x # xs)"
    "(succ_rel dependents)\<^sup>* `` set xs \<subseteq> (succ_rel dependents)\<^sup>* `` set (x # xs)"
    by (intro Image_mono; simp add: subset_insertI)+
  moreover have "set s \<subseteq> set u \<union> (succ_rel dependents)\<^sup>* `` set xs"
    "set u \<subseteq> set seen \<union> (succ_rel dependents)\<^sup>* `` {x}" using a b by simp_all
  ultimately have "set s \<subseteq> set seen \<union> (succ_rel dependents)\<^sup>* `` set (x # xs)"
    by (rule absorb_two)
  moreover have "\<forall>y \<in> set s - set seen. set (successors dependents y) \<subseteq> set s"
  proof
    fix y
    assume y: "y \<in> set s - set seen"
    show "set (successors dependents y) \<subseteq> set s"
    proof (cases "y \<in> set u")
      case True
      then have "set (successors dependents y) \<subseteq> set u" using a y by simp
      then show ?thesis using b by (meson subset_trans)
    next
      case False
      then show ?thesis using b y by simp
    qed
  qed
  moreover have "set seen \<subseteq> set s" "set (x # xs) \<subseteq> set s" "bs_ok s"
    using a b by (auto simp only: list.set insert_subset)
  ultimately show ?case by (intro conjI)
qed

lemma walk_ok:
  fixes U :: "node_id set"
  assumes "finite U" "\<And>x. x \<in> U \<Longrightarrow> set (successors dependents x) \<subseteq> U"
  shows "i \<in> U \<Longrightarrow> card (U - set seen) < n \<Longrightarrow> \<exists>s. walk n i dependents seen = Some s \<and> set seen \<subseteq> set s"
  and "set xs \<subseteq> U \<Longrightarrow> card (U - set seen) < n \<Longrightarrow> \<exists>s. walk_all n xs dependents seen = Some s \<and> set seen \<subseteq> set s"
  using assms(2)
proof (induction n i dependents seen and n xs dependents seen rule: walk_walk_all.induct)
  case (1 i dependents seen)
  then show ?case by simp
next
  case (2 fuel i dependents seen)
  show ?case
  proof (cases "i \<in> set seen")
    case False
    have "U - set (bs_insert i seen) = (U - set seen) - {i}" by auto
    moreover have "i \<in> U - set seen" using "2.prems"(1) False by blast
    ultimately have small: "card (U - set (bs_insert i seen)) < fuel"
      using "2.prems"(2) assms(1) by (simp add: card_Diff_singleton) (metis Diff_iff One_nat_def Suc_less_SucD Suc_pred card_gt_0_iff empty_iff finite_Diff)
    have "set (successors dependents i) \<subseteq> U" using "2.prems" by blast
    with "2.IH" [OF False, folded edges_at_def, folded successors_def, OF _ small "2.prems"(3)] False
    show ?thesis by (auto simp: successors_def edges_at_def)
  qed auto
next
  case (3 fuel dependents seen)
  then show ?case by simp
next
  case (4 fuel x xs dependents seen)
  then obtain u where u: "walk fuel x dependents seen = Some u" "set seen \<subseteq> set u" by auto
  have "card (U - set u) \<le> card (U - set seen)"
    using u(2) assms(1) by (intro card_mono) auto
  then have "card (U - set u) < fuel" using "4.prems"(2) by simp
  with "4.IH"(2) [OF u(1)] "4.prems" u show ?case by auto
qed

lemma walk_reaches:
  assumes "tree_shape t" "bt_get t i \<noteq> None"
  shows "\<exists>s. walk (walk_fuel t) i (reverse_edges t) [] = Some s \<and> bs_ok s \<and> set s = (holds_up t)\<^sup>* `` {i}"
proof -
  let ?d = "reverse_edges t"
  have succ: "set (successors ?d a) = {b. (a, b) \<in> holds_up t}" for a
    using assms(1) by (rule successors_holds_up)
  have rel: "succ_rel ?d = holds_up t" by (auto simp: succ)
  have parent: "bt_get t a \<noteq> None" if "bt_get t b \<noteq> None" "is_ancestor_of a b" for a b
    using that
  proof (induction "length (pieces b)" arbitrary: b rule: less_induct)
    case less
    show ?case
    proof (cases "node_parent b")
      case None
      then have "length (pieces b) = 1" by (simp add: parent_None_iff)
      with less.prems(2) show ?thesis
        by (auto simp: ancestor_iff_prefix length_Suc_conv strict_prefix_def prefix_Cons)
    next
      case (Some p)
      then have "bt_get t p \<noteq> None" using assms(1) less.prems(1) by (auto simp: tree_shape_def)
      moreover have "a = p \<or> is_ancestor_of a p"
        using less.prems(2) parent_ancestor_step [OF Some] by simp
      ultimately show ?thesis using less.hyps [OF parent_length [OF Some]] by metis
    qed
  qed
  have closed: "set (successors ?d x) \<subseteq> set (bt_keys t)" if "x \<in> set (bt_keys t)" for x
    using parent that by (auto simp: succ holds_up_def bt_keys_dom)
  have key: "i \<in> set (bt_keys t)" using assms(2) by (auto simp: bt_keys_dom)
  have "card (set (bt_keys t) - set []) < walk_fuel t"
    using card_length [of "bt_keys t"] by (simp add: walk_fuel_def bt_keys_def)
  then have "\<exists>s. walk (walk_fuel t) i ?d [] = Some s \<and> set [] \<subseteq> set s"
    using closed key by (intro walk_ok(1) [of "set (bt_keys t)"]) auto
  then obtain s where s: "walk (walk_fuel t) i ?d [] = Some s" by blast
  note sound = walk_sound(1) [OF s bs_ok_Nil]
  have "(holds_up t)\<^sup>* `` {i} \<subseteq> set s"
  proof
    fix x
    assume "x \<in> (holds_up t)\<^sup>* `` {i}"
    then have "(i, x) \<in> (holds_up t)\<^sup>*" by blast
    then show "x \<in> set s"
      by (induction rule: rtrancl_induct) (use sound succ in auto)
  qed
  with s sound rel show ?thesis by auto
qed

section \<open>The report\<close>

definition blockage_of :: "plan_tree \<Rightarrow> red_node list \<Rightarrow> node_id \<Rightarrow> stop_cause \<Rightarrow> blockage \<Rightarrow> bool" where
  "blockage_of t red i cause b \<longleftrightarrow>
     source b = i \<and> why b = cause \<and> bs_ok (reaches b) \<and>
     set (reaches b) = (holds_up t)\<^sup>* `` {i} - insert i (red_at ` set red)"

lemma spread_each_ok:
  assumes "tree_shape t" "set sources = red_at ` set all" "bt_ok found"
  shows "\<exists>f. spread_each t (reverse_edges t) sources red found = Some f \<and> bt_ok f \<and>
    (\<forall>i. case map_of (rev (map (\<lambda>h. (red_at h, red_why h)) red)) i of
           None \<Rightarrow> bt_get f i = bt_get found i
         | Some cause \<Rightarrow> (if bt_get t i = None then bt_get f i = bt_get found i
                          else \<exists>b. bt_get f i = Some b \<and> blockage_of t all i cause b))"
  using assms(3)
proof (induction red arbitrary: found)
  case (Cons h red)
  show ?case
  proof (cases "bt_get t (red_at h)")
    case None
    from Cons.IH [OF Cons.prems] obtain f where f: "spread_each t (reverse_edges t) sources red found = Some f"
      "bt_ok f" and g: "\<And>i. case map_of (rev (map (\<lambda>h. (red_at h, red_why h)) red)) i of
           None \<Rightarrow> bt_get f i = bt_get found i
         | Some cause \<Rightarrow> (if bt_get t i = None then bt_get f i = bt_get found i
                          else \<exists>b. bt_get f i = Some b \<and> blockage_of t all i cause b)" by blast
    have "case map_of (rev (map (\<lambda>h. (red_at h, red_why h)) (h # red))) i of
           None \<Rightarrow> bt_get f i = bt_get found i
         | Some cause \<Rightarrow> (if bt_get t i = None then bt_get f i = bt_get found i
                          else \<exists>b. bt_get f i = Some b \<and> blockage_of t all i cause b)" for i
      using g [of i] None by (auto simp: map_add_def split: option.splits)
    with f None show ?thesis by auto
  next
    case (Some node)
    then obtain s where s: "walk (walk_fuel t) (red_at h) (reverse_edges t) [] = Some s" "bs_ok s"
      "set s = (holds_up t)\<^sup>* `` {red_at h}"
      using walk_reaches [OF assms(1), of "red_at h"] by auto
    let ?b = "\<lparr>source = red_at h, why = red_why h,
      reaches = filter (\<lambda>i. i \<noteq> red_at h \<and> i \<notin> set sources) s\<rparr>"
    have b: "blockage_of t all (red_at h) (red_why h) ?b"
      using s assms(2) by (auto simp: blockage_of_def bs_ok_filter)
    have ok: "bt_ok (bt_insert (red_at h) ?b found)" using Cons.prems by (rule bt_ok_insert)
    from Cons.IH [OF ok] obtain f
      where f: "spread_each t (reverse_edges t) sources red (bt_insert (red_at h) ?b found) = Some f" "bt_ok f"
      and g: "\<And>i. case map_of (rev (map (\<lambda>h. (red_at h, red_why h)) red)) i of
           None \<Rightarrow> bt_get f i = bt_get (bt_insert (red_at h) ?b found) i
         | Some cause \<Rightarrow> (if bt_get t i = None then bt_get f i = bt_get (bt_insert (red_at h) ?b found) i
                          else \<exists>b. bt_get f i = Some b \<and> blockage_of t all i cause b)" by blast
    have "case map_of (rev (map (\<lambda>h. (red_at h, red_why h)) (h # red))) i of
           None \<Rightarrow> bt_get f i = bt_get found i
         | Some cause \<Rightarrow> (if bt_get t i = None then bt_get f i = bt_get found i
                          else \<exists>b. bt_get f i = Some b \<and> blockage_of t all i cause b)" for i
      using g [of i] Some b by (auto simp: map_add_def bt_get_insert split: option.splits if_splits)
    moreover have "spread_each t (reverse_edges t) sources (h # red) found = Some f"
      using Some s f by simp
    ultimately show ?thesis using f by blast
  qed
qed simp

lemma notices_one_told:
  "n \<in> set (notices_one b holders is told) \<longleftrightarrow>
   about n = source b \<and> notice_line n = blockage_line b \<and> notice_to n \<notin> set told \<and>
   Some (notice_to n) \<noteq> bt_get holders (source b) \<and>
   (\<exists>i \<in> set is. bt_get holders i = Some (notice_to n)) \<and> notice.more n = ()"
  by (induction b holders "is" told rule: notices_one.induct) (auto split: option.splits if_splits)

lemma notices_one_once:
  "distinct (map notice_to (notices_one b holders is told))"
proof (induction b holders "is" told rule: notices_one.induct)
  case (2 b holders i "is" told)
  then show ?case by (auto simp: notices_one_told split: option.splits)
qed simp


lemma notices_told_to:
  "who \<in> set (map notice_to (notices_one b holders is told)) \<longleftrightarrow>
   who \<notin> set told \<and> Some who \<noteq> bt_get holders (source b) \<and> (\<exists>i \<in> set is. bt_get holders i = Some who)"
  by (induction b holders "is" told rule: notices_one.induct) (auto split: option.split)

text \<open>Every red node of the plan gets its blockage, in the order of the indexes.\<close>

theorem spread_all:
  assumes "tree_shape t" "distinct (map red_at red)"
  shows "\<exists>bs. spread t red = Some bs \<and>
    map source bs = sort (filter (\<lambda>i. i \<in> set (bt_keys t)) (map red_at red)) \<and>
    (\<forall>b \<in> set bs. \<exists>h \<in> set red. blockage_of t red (red_at h) (red_why h) b)"
proof -
  have "set (bs_extend [] (map red_at red)) = red_at ` set red" by simp
  from spread_each_ok [OF assms(1) this bt_ok_Nil, of red]
  obtain f where f: "spread_each t (reverse_edges t) (bs_extend [] (map red_at red)) red [] = Some f" "bt_ok f"
    and get: "\<forall>i. case map_of (rev (map (\<lambda>h. (red_at h, red_why h)) red)) i of
           None \<Rightarrow> bt_get f i = bt_get [] i
         | Some cause \<Rightarrow> (if bt_get t i = None then bt_get f i = bt_get [] i
                          else \<exists>b. bt_get f i = Some b \<and> blockage_of t red i cause b)"
    by blast
  have dist: "distinct (map fst (map (\<lambda>h. (red_at h, red_why h)) red))"
    using assms(2) by (simp add: comp_def)
  have cause: "map_of (rev (map (\<lambda>h. (red_at h, red_why h)) red)) i = Some c \<longleftrightarrow>
      (\<exists>h \<in> set red. red_at h = i \<and> red_why h = c)" for i c
    using dist by (subst map_of_eq_Some_iff) (auto simp: rev_map [symmetric] comp_def distinct_rev)
  have none: "map_of (rev (map (\<lambda>h. (red_at h, red_why h)) red)) i = None \<longleftrightarrow> i \<notin> red_at ` set red" for i
    by (auto simp: map_of_eq_None_iff image_image)
  have found: "(\<exists>b. bt_get f i = Some b) \<longleftrightarrow> i \<in> red_at ` set red \<and> bt_get t i \<noteq> None" for i
    using get [rule_format, of i] none [of i]
    by (cases "map_of (rev (map (\<lambda>h. (red_at h, red_why h)) red)) i")
      (auto simp: bt_get_def split: if_splits)
  have is_blockage: "\<exists>h \<in> set red. red_at h = i \<and> blockage_of t red (red_at h) (red_why h) b"
    if "bt_get f i = Some b" for i b
  proof -
    have known: "i \<in> red_at ` set red" "bt_get t i \<noteq> None" using found [of i] that by blast+
    then obtain c where c: "map_of (rev (map (\<lambda>h. (red_at h, red_why h)) red)) i = Some c"
      using none [of i] by blast
    then have "blockage_of t red i c b" using get [rule_format, of i] known that by simp
    then show ?thesis using c unfolding cause by blast
  qed
  have src: "source b = i" if "(i, b) \<in> set f" for i b
    using is_blockage [of i b] that f(2) by (auto simp: bt_get_mem blockage_of_def)
  then have "map source (bt_values f) = bt_keys f"
    by (simp add: bt_values_def bt_keys_def case_prod_unfold)
  moreover have "bt_keys f = sort (filter (\<lambda>i. i \<in> set (bt_keys t)) (map red_at red))"
  proof (rule sorted_distinct_set_unique)
    show "sorted (bt_keys f)" "distinct (bt_keys f)"
      using bt.keys_ascending [OF f(2)] by (auto simp: strict_sorted_iff)
    show "distinct (sort (filter (\<lambda>i. i \<in> set (bt_keys t)) (map red_at red)))" using assms(2) by simp
    show "set (bt_keys f) = set (sort (filter (\<lambda>i. i \<in> set (bt_keys t)) (map red_at red)))"
      using found by (auto simp: bt_keys_dom)
  qed simp
  moreover have "\<forall>b \<in> set (bt_values f). \<exists>h \<in> set red. blockage_of t red (red_at h) (red_why h) b"
    using is_blockage bt_values_in [OF f(2)] by blast
  ultimately show ?thesis using f(1) by (auto simp: spread_def)
qed

text \<open>Each blockage is told at most once to each resident, never to the one who holds the stuck node, and exactly to the other residents who hold a node it reaches.\<close>

lemma notices_told_once:
  shows "(distinct (map notice_to (notices_one b holders (reaches b) []))) \<and>
    (who \<in> set (map notice_to (notices_one b holders (reaches b) [])) \<longleftrightarrow>
      Some who \<noteq> bt_get holders (source b) \<and> (\<exists>i. i \<in> set (reaches b) \<and> bt_get holders i = Some who)) \<and>
    (notices bs holders = concat (map (\<lambda>b. notices_one b holders (reaches b) []) bs))"
  using notices_one_once [of b holders "reaches b" "[]"] notices_told_to [of who b holders "reaches b"]
  by (auto simp: notices_def)

end
