(* ===== verification/Roadmap_Docs.thy ===== *)
theory Roadmap_Docs
  imports Roadmap_Rows
begin

text \<open>
  The spine documents as text (\<open>crates/kernel/src/spine.rs\<close>): finding the first table of
  \<open>Roadmap.md\<close> and reading its rows, rewriting one row, hanging children under a row, and
  the fields of a Memo outline.
\<close>

section \<open>Lines\<close>

definition nl :: char where
  "nl = CHR 0x0A"

definition cr :: char where
  "cr = CHR 0x0D"

definition strip_cr :: "string \<Rightarrow> string" where
  "strip_cr l = (case strip_suffix [cr] l of None \<Rightarrow> l | Some x \<Rightarrow> x)"

text \<open>Rust's \<open>str::lines\<close>: a line feed ends a line, a carriage return before it goes with it.\<close>

definition lines_of :: "string \<Rightarrow> string list" where
  "lines_of text =
     (let ps = split_on nl text
      in map strip_cr (butlast ps) @ (if last ps = [] then [] else [last ps]))"

section \<open>Reading the table\<close>

datatype roadmap_shape = WellFormed "roadmap_row list" | Malformed "string list"

fun scan ::
  "nat \<Rightarrow> bool \<Rightarrow> bool \<Rightarrow> roadmap_row list \<Rightarrow> string list \<Rightarrow> string list \<Rightarrow>
   roadmap_row list \<times> string list \<times> bool" where
  "scan n in_table header_seen rows problems [] = (rows, problems, header_seen)"
| "scan n in_table header_seen rows problems (line # rest) =
     (case split_table_row line of
        None \<Rightarrow>
          if in_table then (rows, problems, header_seen)
          else scan (Suc n) in_table header_seen rows problems rest
      | Some cells \<Rightarrow>
          if length cells \<noteq> roadmap_columns
          then scan (Suc n) True header_seen rows
                 (problems @ [''line '' @ dec_of (Suc n) @ '': '' @ dec_of (length cells) @
                    '' columns, the roadmap table has exactly '' @ dec_of roadmap_columns]) rest
          else if \<not> header_seen then scan (Suc n) True True rows problems rest
          else if is_separator cells then scan (Suc n) True True rows problems rest
          else (case read_row cells of
                  Inr row \<Rightarrow> scan (Suc n) True True (rows @ [row]) problems rest
                | Inl why \<Rightarrow>
                    scan (Suc n) True True rows
                      (problems @ [''line '' @ dec_of (Suc n) @ '': '' @ why]) rest))"

definition check_roadmap_shape :: "string \<Rightarrow> roadmap_shape" where
  "check_roadmap_shape text =
     (let (rows, problems, header_seen) = scan 0 False False [] [] (lines_of text);
          problems = (if header_seen then problems
                      else problems @ [''no '' @ dec_of roadmap_columns @ ''-column table found''])
      in if problems = [] then WellFormed rows else Malformed problems)"

definition well_formed :: "string \<Rightarrow> string \<Rightarrow> (ax_error, roadmap_row list) result" where
  "well_formed text act =
     (case check_roadmap_shape text of
        WellFormed rows \<Rightarrow> Inr rows
      | Malformed problems \<Rightarrow>
          Inl (with_recovery
            (''repair the '' @ dec_of roadmap_columns @
             ''-column table in Roadmap.md first; a plan that does not parse has no denominator'')
            (failure InvalidArgs act (join_with ''; '' problems))))"

section \<open>Rewriting one row\<close>

fun rewrite_lines :: "(string list \<Rightarrow> string option) \<Rightarrow> bool \<Rightarrow> bool \<Rightarrow> string list \<Rightarrow> string list" where
  "rewrite_lines chosen in_table ended [] = []"
| "rewrite_lines chosen in_table ended (line # rest) =
     (let cells = split_table_row line;
          ended' = (if cells = None \<and> in_table then True else ended);
          in_table' = (cells \<noteq> None);
          hit = (if ended' then None
                 else (case cells of
                         None \<Rightarrow> None
                       | Some cs \<Rightarrow> if body_row cs then chosen cs else None))
      in (case hit of Some replacement \<Rightarrow> replacement | None \<Rightarrow> line)
         # rewrite_lines chosen in_table' ended' rest)"

definition rewrite :: "string \<Rightarrow> (string list \<Rightarrow> string option) \<Rightarrow> string" where
  "rewrite text chosen = join_with [nl] (rewrite_lines chosen False False (split_on nl text))"

text \<open>The row whose first cell reads as the id.\<close>

definition cell_id :: "string list \<Rightarrow> node_id option" where
  "cell_id cells =
     (case cells of
        [] \<Rightarrow> None
      | raw # _ \<Rightarrow> (case node_parse raw of Inl _ \<Rightarrow> None | Inr found \<Rightarrow> Some found))"

definition set_roadmap_status ::
  "string \<Rightarrow> node_id \<Rightarrow> roadmap_status \<Rightarrow> locator option \<Rightarrow> (ax_error, string) result" where
  "set_roadmap_status text i st ev =
     (if st = Done \<and> ev = None
      then Inl (with_recovery ''pass a retrievable locator: `cas:<hash>` or `file:<path>@<oid>`''
             (failure EvidenceMissing ''mark a roadmap row done''
               (''row '' @ node_str i @ '' has no evidence'')))
      else bind_r (well_formed text ''edit a roadmap row'') (\<lambda>rows.
        case find (\<lambda>row. row_id row = i) rows of
          None \<Rightarrow> Inl (with_recovery ''read the roadmap and use an index the table carries''
                    (failure InvalidArgs ''edit a roadmap row'' (''no row numbered '' @ node_str i)))
        | Some row \<Rightarrow>
            (let replacement = draw_row row st ev
             in Inr (rewrite text
                  (\<lambda>cells. if cell_id cells = Some i then Some replacement else None)))))"

section \<open>Hanging children\<close>

text \<open>The lines of the first table, numbered from zero, both ends included.\<close>

fun locate_from :: "nat \<Rightarrow> nat option \<Rightarrow> nat \<Rightarrow> string list \<Rightarrow> (nat \<times> nat) option" where
  "locate_from n first stop [] = map_option (\<lambda>start. (start, stop)) first"
| "locate_from n first stop (line # rest) =
     (if split_table_row line \<noteq> None
      then locate_from (Suc n) (if first = None then Some n else first) n rest
      else if first \<noteq> None then map_option (\<lambda>start. (start, stop)) first
      else locate_from (Suc n) first stop rest)"

definition locate_table :: "string \<Rightarrow> (nat \<times> nat) option" where
  "locate_table text = locate_from 0 None 0 (split_on nl text)"

definition split_refusal :: "string \<Rightarrow> string \<Rightarrow> ax_error" where
  "split_refusal subj recov = with_recovery recov (failure InvalidArgs ''split a plan node'' subj)"

definition draw_child :: "node_id \<Rightarrow> new_child \<Rightarrow> string" where
  "draw_child i c =
     ''| '' @ node_str i @ '' | '' @ trim (new_item c) @ '' | '' @ dec_of (unat (new_weight c)) @
     '' |  | '' @ spelling NotStarted @ '' |  |''"

fun draw_children :: "node_id \<Rightarrow> u32 \<Rightarrow> new_child list \<Rightarrow> (ax_error, string list) result" where
  "draw_children p next [] = Inr []"
| "draw_children p next (c # cs) =
     (if trim (new_item c) = []
      then Inl (split_refusal ''a child with no text''
             ''say what each child is; a row nobody can read is a row nobody can take'')
      else if bar \<in> set (new_item c)
      then Inl (split_refusal (''`'' @ new_item c @ ''` carries a column separator'')
             ''write the item without `|`; it would split the row into more cells'')
      else if new_weight c = 0
      then Inl (split_refusal (''`'' @ new_item c @ ''` is weighted zero'')
             ''give every child a weight of at least one; a node worth nothing is never given to anybody'')
      else (let next = saturating_add next 1 in
            bind_r (child p next) (\<lambda>i.
            bind_r (draw_children p next cs) (\<lambda>drawn.
              Inr (draw_child i c # drawn)))))"

definition last_child :: "roadmap_row list \<Rightarrow> node_id \<Rightarrow> u32" where
  "last_child rows p =
     foldr max (map (\<lambda>row. ordinal (row_id row)) (filter (\<lambda>row. node_parent (row_id row) = Some p) rows)) 0"

definition hangs_under :: "node_id \<Rightarrow> string \<Rightarrow> bool" where
  "hangs_under p line =
     (case split_table_row line of
        None \<Rightarrow> False
      | Some cells \<Rightarrow>
          body_row cells \<and>
          (case cell_id cells of None \<Rightarrow> False | Some i \<Rightarrow> i = p \<or> is_ancestor_of p i))"

definition seam_of :: "string list \<Rightarrow> nat \<Rightarrow> nat \<Rightarrow> node_id \<Rightarrow> nat" where
  "seam_of ls first stop p =
     foldl (\<lambda>after (n, line). if first \<le> n \<and> n \<le> stop \<and> hangs_under p line then n else after)
       stop (zip [0..<length ls] ls)"

definition insert_children :: "string \<Rightarrow> node_id \<Rightarrow> new_child list \<Rightarrow> (ax_error, string) result" where
  "insert_children text p cs =
     (if cs = []
      then Inl (split_refusal ''no children given''
             ''name at least one child; splitting into nothing would delete the work'')
      else bind_r (well_formed text ''split a plan node'') (\<lambda>rows.
        if \<not> list_ex (\<lambda>row. row_id row = p) rows
        then Inl (split_refusal (''no row numbered '' @ node_str p)
               ''read the roadmap and use an index the table carries'')
        else bind_r (draw_children p (last_child rows p) cs) (\<lambda>drawn.
          case locate_table text of
            None \<Rightarrow> Inl (split_refusal ''the roadmap table is not there''
                      ''repair the table before splitting a node'')
          | Some (first, stop) \<Rightarrow>
              (let ls = split_on nl text;
                   seam = seam_of ls first stop p
               in Inr (join_with [nl]
                    (concat (map (\<lambda>(n, line). if n = seam then line # drawn else [line])
                       (zip [0..<length ls] ls))))))))"

section \<open>The Memo outline\<close>

definition memo_outline_fields :: "string list" where
  "memo_outline_fields =
     [''Current goal'', ''Current stage'', ''Next action'', ''Blocked by'', ''Decision index'',
      ''Checkpoint index'']"

text \<open>
  \<open>str::to_lowercase\<close> as far as an ASCII prefix can see it: of the characters that are not
  ASCII only U+212A and U+0130 have a lowercase that begins with an ASCII letter.
\<close>

fun lowercase :: "string \<Rightarrow> string" where
  "lowercase [] = []"
| "lowercase (a # s) =
     (if a = CHR 0xE2 \<and> take 2 s = [CHR 0x84, CHR 0xAA] then CHR ''k'' # lowercase (drop 2 s)
      else if a = CHR 0xC4 \<and> take 1 s = [CHR 0xB0] then CHR ''i'' # CHR 0xCC # CHR 0x87 # lowercase (drop 1 s)
      else ascii_lower a # lowercase s)"

datatype memo_shape = MemoWellFormed | MemoMalformed "string list"

definition furniture :: "char \<Rightarrow> bool" where
  "furniture c \<longleftrightarrow> c \<in> {CHR ''#'', CHR ''-'', CHR ''*'', CHR '' '', CHR 0x09}"

definition check_memo_shape :: "string \<Rightarrow> memo_shape" where
  "check_memo_shape text =
     (let stripped = map (\<lambda>line. lowercase (dropWhile furniture line)) (lines_of text);
          missing = filter (\<lambda>field. \<not> list_ex (\<lambda>line. starts_with (lowercase field) line) stripped)
                      memo_outline_fields
      in if missing = [] then MemoWellFormed else MemoMalformed missing)"

section \<open>Cells that were read can be drawn\<close>

lemma set_trim: "set (trim s) \<subseteq> set s"
proof -
  obtain p where "s = p @ trim_start s" using strip_many_suffix [of s whitespace] by (auto simp: trim_start_def)
  moreover obtain q where "trim_start s = trim s @ q" using trim_end_prefix by (auto simp: trim_def)
  ultimately show ?thesis by (metis Un_iff set_append subsetI)
qed

lemma split_row_cells:
  assumes "split_table_row line = Some cells"
  shows "list_all cell_ok cells" "\<And>c x. c \<in> set cells \<Longrightarrow> x \<in> set c \<Longrightarrow> x \<in> set line"
proof -
  obtain rest inner where r: "trim line = bar # rest" and i: "rest = inner @ [bar]"
    and cells: "cells = map trim (split_on bar inner)"
    using assms
    by (auto simp: split_table_row_def Let_def strip_prefix_Some_iff strip_suffix_Some_iff
        split: if_splits option.splits)
  show "list_all cell_ok cells"
    using split_on_pieces [of _ bar inner] set_trim
    by (fastforce simp: cells list_all_iff cell_ok_def trim_idem)
  have sub: "set inner \<subseteq> set line" using r i set_trim [of line] by auto
  have "x \<in> set s" if "p \<in> set (split_on c s)" "x \<in> set p" for x p c and s :: string
    using that
  proof (induction s arbitrary: p)
    case (Cons a s)
    obtain q qs where "split_on c s = q # qs" by (meson neq_Nil_conv split_on_not_Nil)
    with Cons show ?case by (fastforce split: if_splits)
  qed simp
  then show "\<And>c x. c \<in> set cells \<Longrightarrow> x \<in> set c \<Longrightarrow> x \<in> set line"
    using sub set_trim by (fastforce simp: cells)
qed

lemma read_needs_ok: "read_needs parts = Inr ns \<Longrightarrow> list_all node_ok ns"
proof (induction parts arbitrary: ns)
  case (Cons part parts)
  then show ?case
    by (auto simp: Let_def bind_r_Inr_iff node_parse_ok_iff split: if_splits sum.splits)
qed simp

lemma read_row_Inr:
  assumes "read_row cells = Inr row"
  shows "\<exists>a b c d e f g. cells = a # b # c # d # e # f # g \<and> node_parse a = Inr (row_id row) \<and>
    item row = b \<and> list_all node_ok (needs row) \<and>
    evidence row = (if f = [] then Empty
       else (case locator_parse f of Inr l \<Rightarrow> Present l | Inl _ \<Rightarrow> Invalid f))"
  using assms
proof (cases cells rule: read_row.cases)
  case (1 a b c d e f g)
  with assms show ?thesis
    by (auto simp: bind_r_Inr_iff dest!: read_needs_ok split: sum.splits option.splits if_splits)
qed auto

lemma read_row_ok:
  assumes "read_row cells = Inr row" "list_all cell_ok cells"
  shows "row_ok row" "cell_id cells = Some (row_id row)"
proof -
  obtain a b c d e f g where cells: "cells = a # b # c # d # e # f # g" and i: "node_parse a = Inr (row_id row)"
    and rest: "item row = b" "list_all node_ok (needs row)"
    and ev: "evidence row = (if f = [] then Empty
       else (case locator_parse f of Inr l \<Rightarrow> Present l | Inl _ \<Rightarrow> Invalid f))"
    using read_row_Inr [OF assms(1)] by blast
  show "cell_id cells = Some (row_id row)" using cells i by (simp add: cell_id_def)
  have "case evidence row of
        Empty \<Rightarrow> True
      | Invalid raw \<Rightarrow> raw \<noteq> [] \<and> cell_ok raw \<and> (\<forall>l. locator_parse raw \<noteq> Inr l)
      | Present l \<Rightarrow> locator_ok l \<and> cell_ok (locator_str l)"
  proof (cases "f = []")
    case False
    have f: "cell_ok f" using assms(2) cells by simp
    show ?thesis
    proof (cases "locator_parse f")
      case (Inl e)
      with False f show ?thesis by (simp add: ev)
    next
      case (Inr l)
      then have "locator_ok l" "locator_str l = f" by (simp_all add: locator_parse_iff)
      with Inr False f show ?thesis by (simp add: ev)
    qed
  qed (simp add: ev)
  then show "row_ok row"
    using rest i assms(2) cells unfolding row_ok_def by (simp add: node_parse_ok_iff)
qed

end
