(* ===== verification/Roadmap_Edits.thy ===== *)
theory Roadmap_Edits
  imports Roadmap_Docs
begin

text \<open>
  What the two writers of \<open>crates/kernel/src/spine.rs\<close> leave behind: after a status edit the
  document reads as before but for the one row, and every line that does not carry the row
  is untouched; the children a split draws are new rows under their parent.
\<close>

section \<open>Scanning\<close>

lemma scan_acc:
  "scan n t h rows problems ls =
     (case scan n t h [] [] ls of (r, p, h') \<Rightarrow> (rows @ r, problems @ p, h'))"
proof (induction ls arbitrary: n t h rows problems)
  case (Cons l ls)
  show ?case
  proof (cases "split_table_row l")
    case None
    then show ?thesis
      unfolding scan.simps by (cases t) (simp_all only: option.case if_True if_False Cons [of "Suc n" False h rows problems] prod.case append_Nil2)
  next
    case (Some cells)
    have acc: "scan m t' h' rs ps ls = (case scan m t' h' [] [] ls of (r, p, h'') \<Rightarrow> (rs @ r, ps @ p, h''))"
      for m t' h' rs ps by (rule Cons)
    show ?thesis
    proof (cases "length cells = roadmap_columns")
      case False
      let ?y = "''line '' @ dec_of (Suc n) @ '': '' @ dec_of (length cells) @
         '' columns, the roadmap table has exactly '' @ dec_of roadmap_columns"
      show ?thesis
        unfolding scan.simps Some option.case if_P [OF False]
          acc [of _ _ _ rows "problems @ [?y]"] acc [of _ _ _ "[]" "[] @ [?y]"]
        by (simp add: case_prod_unfold)
    next
      case six: True
      show ?thesis
      proof (cases "h \<and> \<not> is_separator cells")
        case False
        then show ?thesis
          using Some six acc [of "Suc n" True True rows problems] by auto
      next
        case True
        show ?thesis
        proof (cases "read_row cells")
          case (Inl why)
          then show ?thesis
            using Some six True acc [of "Suc n" True True rows "problems @ [y]" for y]
              acc [of "Suc n" True True "[]" "[y]" for y]
            by (simp add: case_prod_unfold)
        next
          case (Inr row)
          then show ?thesis
            using Some six True acc [of "Suc n" True True "rows @ [row]" problems]
              acc [of "Suc n" True True "[row]" "[]"]
            by (simp add: case_prod_unfold)
        qed
      qed
    qed
  qed
qed simp

text \<open>What \<open>scan\<close> finds depends on each line's cells only.\<close>

lemma scan_cong: "map split_table_row ls = map split_table_row ls' \<Longrightarrow> scan n t h rows problems ls = scan n t h rows problems ls'"
proof (induction ls arbitrary: ls' n t h rows problems)
  case (Cons l ls)
  then obtain l' ls'' where l': "ls' = l' # ls''" "split_table_row l' = split_table_row l"
    "map split_table_row ls = map split_table_row ls''" by (cases ls') auto
  then have "scan m t' h' rs ps ls = scan m t' h' rs ps ls''" for m t' h' rs ps
    using Cons.IH by blast
  then show ?case
    unfolding l'(1) scan.simps l'(2) by (cases "split_table_row l") (simp_all split: sum.split)
qed simp

lemma scan_blank: "split_table_row b = None \<Longrightarrow> scan n t h rows problems (ls @ [b]) = scan n t h rows problems ls"
proof (induction ls arbitrary: n t h rows problems)
  case Nil
  then show ?case by simp
next
  case (Cons l ls)
  then show ?case
    unfolding append_Cons scan.simps by (cases "split_table_row l") (simp_all split: sum.split)
qed

lemma split_row_cr: "split_table_row (strip_cr l) = split_table_row l"
proof (cases "strip_suffix [cr] l")
  case (Some x)
  then have "l = x @ [cr]" by (simp add: strip_suffix_Some_iff)
  moreover have "trim (x @ [cr]) = trim x" by (rule trim_blank_end) (simp add: blank_def cr_def)
  ultimately show ?thesis using Some by (simp add: split_table_row_def strip_cr_def)
qed (simp add: strip_cr_def)

lemma scan_lines: "scan n t h rows problems (lines_of text) = scan n t h rows problems (split_on nl text)"
proof -
  let ?ps = "split_on nl text"
  have ps: "?ps = butlast ?ps @ [last ?ps]" by simp
  have same: "map split_table_row (map strip_cr xs @ ys) = map split_table_row (xs @ ys)" for xs ys
    by (simp add: split_row_cr comp_def)
  have empty: "split_table_row [] = None" by (simp add: split_table_row_def starts_with_def)
  show ?thesis
  proof (cases "last ?ps = []")
    case True
    then have "scan n t h rows problems (lines_of text) = scan n t h rows problems (butlast ?ps @ [])"
      using same [of "butlast ?ps" "[]"] by (intro scan_cong) (simp add: lines_of_def Let_def)
    also have "\<dots> = scan n t h rows problems (butlast ?ps @ [last ?ps])"
      using True empty by (simp add: scan_blank)
    finally show ?thesis using ps by simp
  next
    case False
    then have "scan n t h rows problems (lines_of text) = scan n t h rows problems (butlast ?ps @ [last ?ps])"
      using same [of "butlast ?ps" "[last ?ps]"] by (intro scan_cong) (simp add: lines_of_def Let_def)
    then show ?thesis using ps by simp
  qed
qed

lemma well_formed_iff:
  "check_roadmap_shape text = WellFormed rows \<longleftrightarrow> scan 0 False False [] [] (split_on nl text) = (rows, [], True)"
  by (auto simp: check_roadmap_shape_def scan_lines split: prod.splits if_splits)

section \<open>One line at a time\<close>

text \<open>
  \<open>reads t h ls rows\<close>: scanning \<open>ls\<close> finds no problem and gives \<open>rows\<close>. The last
  argument is whether a header was seen by the end.
\<close>

fun reads :: "bool \<Rightarrow> bool \<Rightarrow> string list \<Rightarrow> (roadmap_row list \<times> bool) option" where
  "reads t h [] = Some ([], h)"
| "reads t h (line # rest) =
     (case split_table_row line of
        None \<Rightarrow> if t then Some ([], h) else reads t h rest
      | Some cells \<Rightarrow>
          if length cells \<noteq> roadmap_columns then None
          else if \<not> h \<or> is_separator cells then reads True True rest
          else (case read_row cells of
                  Inl _ \<Rightarrow> None
                | Inr row \<Rightarrow> map_option (\<lambda>(rows, h'). (row # rows, h')) (reads True True rest)))"

lemma scan_reads: "scan n t h [] [] ls = (rows, [], h') \<longleftrightarrow> reads t h ls = Some (rows, h')"
proof (induction ls arbitrary: n t h rows)
  case (Cons l ls)
  have bad: "scan m t' h' rs [y] ls \<noteq> (rows, [], h'')" for m t' h' rs y h''
    using scan_acc [of m t' h' rs "[y]" ls] by (simp split: prod.splits)
  have one: "scan m t' h'' [row] [] ls = (rows, [], h') \<longleftrightarrow>
      (\<exists>rs. rows = row # rs \<and> scan m t' h'' [] [] ls = (rs, [], h'))" for m t' h'' row
    using scan_acc [of m t' h'' "[row]" "[]" ls] by (auto split: prod.splits)
  show ?case
  proof (cases "split_table_row l")
    case None
    with Cons show ?thesis by auto
  next
    case (Some cells)
    show ?thesis
    proof (cases "length cells = roadmap_columns \<and> h \<and> \<not> is_separator cells")
      case False
      with Some Cons bad show ?thesis by auto
    next
      case True
      then show ?thesis
        using Some Cons one bad
        by (cases "read_row cells") auto
    qed
  qed
qed auto

lemma reads_rows:
  assumes "reads t h ls = Some (rows, h')" "row \<in> set rows" "\<forall>l \<in> set ls. c \<notin> set l"
  shows "row_ok row \<and> c \<notin> set (item row)"
  using assms
proof (induction ls arbitrary: t h rows)
  case (Cons l ls)
  show ?case
  proof (cases "split_table_row l")
    case None
    with Cons show ?thesis by (auto split: if_splits)
  next
    case (Some cells)
    note cells = split_row_cells [OF Some]
    from Some Cons.prems(1) have six: "length cells = roadmap_columns" by (auto split: if_splits)
    show ?thesis
    proof (cases "\<not> h \<or> is_separator cells")
      case True
      with Some six Cons show ?thesis by auto
    next
      case False
      then obtain r rs where r: "read_row cells = Inr r" "rows = r # rs" "reads True True ls = Some (rs, h')"
        using Some six Cons.prems(1) by (auto split: sum.splits)
      show ?thesis
      proof (cases "row = r")
        case True
        have "item r \<in> set cells" using read_row_Inr [OF r(1)] by auto
        then have "c \<notin> set (item r)" using cells(2) Cons.prems(3) by auto
        with True read_row_ok [OF r(1) cells(1)] show ?thesis by blast
      next
        case False
        with r Cons show ?thesis by auto
      qed
    qed
  qed
qed simp

section \<open>A status edit\<close>

lemma reads_rewrite:
  fixes i :: node_id
  assumes repl: "split_table_row repl = Some rc" "length rc = roadmap_columns" "\<not> is_separator rc"
    "read_row rc = Inr new"
  defines "f \<equiv> \<lambda>cells. if cell_id cells = Some i then Some repl else None"
  shows "reads t h ls = Some (rows, h') \<Longrightarrow>
    reads t h (rewrite_lines f t False ls) = Some (map (\<lambda>r. if row_id r = i then new else r) rows, h')"
proof (induction ls arbitrary: t h rows)
  case Nil
  then show ?case by simp
next
  case (Cons l ls)
  show ?case
  proof (cases "split_table_row l")
    case None
    then show ?thesis using Cons by (cases t) auto
  next
    case (Some cells)
    have ok: "list_all cell_ok cells" using split_row_cells(1) [OF Some] .
    from Some Cons.prems have six: "length cells = roadmap_columns" by (auto split: if_splits)
    let ?l = "case (if body_row cells then f cells else None) of None \<Rightarrow> l | Some r \<Rightarrow> r"
    have rw: "rewrite_lines f t False (l # ls) = ?l # rewrite_lines f True False ls"
      using Some by (simp add: Let_def)
    show ?thesis
    proof (cases "\<not> h \<or> is_separator cells")
      case True
      then have rest: "reads True True ls = Some (rows, h')" using Some six Cons.prems by auto
      obtain cs where cs: "split_table_row ?l = Some cs" "length cs = roadmap_columns" "\<not> h \<or> is_separator cs"
      proof (cases "body_row cells \<and> cell_id cells = Some i")
        case True
        then have "?l = repl" by (simp add: f_def)
        moreover have "\<not> h" using True \<open>\<not> h \<or> is_separator cells\<close> by (auto simp: body_row_def)
        ultimately show thesis using that repl by metis
      next
        case False
        then have "?l = l" by (auto simp: f_def)
        then show thesis using that Some six True by metis
      qed
      then show ?thesis unfolding rw using Cons.IH [OF rest] by simp
    next
      case False
      then obtain r rs where r: "read_row cells = Inr r" "rows = r # rs" "reads True True ls = Some (rs, h')"
        using Some six Cons.prems by (auto split: sum.splits)
      have id: "cell_id cells = Some (row_id r)" using read_row_ok(2) [OF r(1) ok] .
      have body: "body_row cells" using False six by (simp add: body_row_def)
      show ?thesis
      proof (cases "row_id r = i")
        case True
        then have "?l = repl" using id body by (simp add: f_def)
        then show ?thesis unfolding rw using Cons.IH [OF r(3)] r True False repl by simp
      next
        case not: False
        then have "?l = l" using id body by (simp add: f_def)
        then show ?thesis unfolding rw using Cons.IH [OF r(3)] r not False Some six by simp
      qed
    qed
  qed
qed

lemma rewrite_lines_length: "length (rewrite_lines f t e ls) = length ls"
  by (induction f t e ls rule: rewrite_lines.induct) (simp_all add: Let_def)

lemma rewrite_lines_set: "l \<in> set (rewrite_lines f t e ls) \<Longrightarrow> l \<in> set ls \<or> (\<exists>cells. f cells = Some l)"
  by (induction f t e ls rule: rewrite_lines.induct)
    (auto simp: Let_def split: option.splits if_splits)

text \<open>Only a line whose first cell reads as the id is replaced.\<close>

lemma rewrite_lines_nth:
  "k < length ls \<Longrightarrow>
   rewrite_lines f t e ls ! k = ls ! k \<or>
   (\<exists>cells. split_table_row (ls ! k) = Some cells \<and> f cells = Some (rewrite_lines f t e ls ! k))"
proof (induction f t e ls arbitrary: k rule: rewrite_lines.induct)
  case (2 chosen in_table ended line rest)
  then show ?case
    by (cases k) (auto simp: Let_def split: option.splits if_splits)
qed simp

lemma control_nl: "\<not> has_control s \<Longrightarrow> nl \<notin> set s"
  by (induction s) (auto simp: nl_def)

lemma locator_no_nl: "locator_ok l \<Longrightarrow> nl \<notin> set (locator_str l)"
proof -
  have hex: "nl \<notin> set (write_hex bs)" for bs
    using write_hex_chars [of nl bs] by (auto simp: nibble_def nl_def)
  have dec: "nl \<notin> set (dec_of n)" for n
    using dec_of_digits [of n] by (auto simp: list_all_iff is_digit_def nl_def)
  have rng: "nl \<notin> set (range_str r)" for r
    using dec by (cases r) (auto simp: nl_def)
  have wr: "nl \<notin> set (write_range r)" for r
    using rng by (cases r) (auto simp: write_range_def nl_def)
  assume "locator_ok l"
  then show ?thesis
    using hex wr control_nl
    by (cases l) (auto simp: b3_str_def oid_str_def address_ok_def nl_def)
qed

lemma draw_row_no_nl:
  assumes "row_ok row" "nl \<notin> set (item row)" "ev_ok ev"
  shows "nl \<notin> set (draw_row row st ev)"
proof -
  have id: "nl \<notin> set (node_str i)" if "node_ok i" for i
    using node_chars [OF that, of nl] by (auto simp: is_digit_def nl_def)
  have "nl \<notin> set (join_with '', '' (map node_str (needs row)))"
    using set_join_with [of "'', ''" "map node_str (needs row)"] assms(1) id
    by (auto simp: row_ok_def list_all_iff nl_def)
  moreover have "nl \<notin> set (spelling st)" by (cases st) (simp_all add: spelling_simps nl_def)
  moreover have "nl \<notin> set (dec_of n)" for n
    using dec_of_digits [of n] by (auto simp: list_all_iff is_digit_def nl_def)
  moreover have "nl \<notin> set (case ev of None \<Rightarrow> [] | Some l \<Rightarrow> locator_str l)"
    using assms(3) locator_no_nl by (auto simp: ev_ok_def split: option.splits)
  moreover have "nl \<notin> set (node_str (row_id row))" using assms(1) id by (simp add: row_ok_def)
  ultimately show ?thesis using assms(2) by (simp add: draw_row_def nl_def)
qed

lemma row_cells_facts:
  assumes "node_ok (row_id row)"
  shows "length (row_cells row st ev) = roadmap_columns" "\<not> is_separator (row_cells row st ev)"
proof -
  show "length (row_cells row st ev) = roadmap_columns" by (simp add: row_cells_def roadmap_columns_def)
  obtain a s where s: "node_str (row_id row) = a # s"
    using node_str_solid [OF assms] by (cases "node_str (row_id row)") auto
  then have "is_digit a \<or> a = CHR ''.''" using node_chars [OF assms, of a] by simp
  then show "\<not> is_separator (row_cells row st ev)"
    using s by (auto simp: is_separator_def row_cells_def is_digit_def)
qed

lemma find_Some_mem: "find P xs = Some x \<Longrightarrow> x \<in> set xs \<and> P x"
  by (auto simp: find_Some_iff)

text \<open>The edited document reads as the old one, but for the status and evidence of the row.\<close>

lemma set_status_reads:
  assumes "set_roadmap_status text i st ev = Inr text'" "ev_ok ev"
  shows "\<exists>rows row.
    check_roadmap_shape text = WellFormed rows \<and> find (\<lambda>r. row_id r = i) rows = Some row \<and>
    check_roadmap_shape text' =
      WellFormed (map (\<lambda>r. if row_id r = i then row\<lparr>status := st, evidence := cell_of ev\<rparr> else r) rows) \<and>
    split_on nl text' = rewrite_lines
      (\<lambda>cells. if cell_id cells = Some i then Some (draw_row row st ev) else None) False False (split_on nl text)"
proof -
  let ?ls = "split_on nl text"
  from assms(1) obtain rows row where wf: "check_roadmap_shape text = WellFormed rows"
    and row: "find (\<lambda>r. row_id r = i) rows = Some row"
    and text': "text' = rewrite text (\<lambda>cells. if cell_id cells = Some i then Some (draw_row row st ev) else None)"
    by (auto simp: set_roadmap_status_def well_formed_def bind_r_Inr_iff Let_def
        split: if_splits option.split_asm roadmap_shape.splits)
  let ?f = "\<lambda>cells. if cell_id cells = Some i then Some (draw_row row st ev) else None"
  have reads: "reads False False ?ls = Some (rows, True)"
    using wf by (simp add: well_formed_iff scan_reads)
  have nonl: "\<forall>l \<in> set ?ls. nl \<notin> set l" using split_on_pieces by metis
  have mem: "row \<in> set rows" using find_Some_mem [OF row] by simp
  have ok: "row_ok row" and it: "nl \<notin> set (item row)"
    using reads_rows [OF reads mem nonl] by auto
  have nok: "node_ok (row_id row)" using ok by (simp add: row_ok_def)
  have cells: "split_table_row (draw_row row st ev) = Some (row_cells row st ev)"
    unfolding draw_row_cells using row_cells_ok [OF ok assms(2)]
    by (intro split_draw_cells) (simp_all add: row_cells_def)
  have reads': "reads False False (rewrite_lines ?f False False ?ls) =
      Some (map (\<lambda>r. if row_id r = i then row\<lparr>status := st, evidence := cell_of ev\<rparr> else r) rows, True)"
    by (rule reads_rewrite [OF cells row_cells_facts [OF nok] read_row_cells [OF ok assms(2)] reads])
  have "\<forall>l \<in> set (rewrite_lines ?f False False ?ls). nl \<notin> set l"
  proof
    fix l
    assume "l \<in> set (rewrite_lines ?f False False ?ls)"
    then have "l \<in> set ?ls \<or> l = draw_row row st ev"
      by (auto dest!: rewrite_lines_set split: if_splits)
    then show "nl \<notin> set l" using nonl draw_row_no_nl [OF ok it assms(2)] by blast
  qed
  moreover have "rewrite_lines ?f False False ?ls \<noteq> []"
    using rewrite_lines_length by (metis length_0_conv split_on_not_Nil)
  ultimately have split: "split_on nl text' = rewrite_lines ?f False False ?ls"
    unfolding text' rewrite_def by (intro split_join)
  then have "check_roadmap_shape text' =
      WellFormed (map (\<lambda>r. if row_id r = i then row\<lparr>status := st, evidence := cell_of ev\<rparr> else r) rows)"
    using reads' by (simp add: well_formed_iff scan_reads)
  with wf row split show ?thesis by blast
qed


text \<open>Every line but the row's own is left as it was.\<close>

lemma set_status_lines:
  assumes "set_roadmap_status text i st ev = Inr text'" "ev_ok ev"
  shows "length (split_on nl text') = length (split_on nl text)"
    and "k < length (split_on nl text) \<Longrightarrow>
      split_on nl text' ! k = split_on nl text ! k \<or>
      (\<exists>cells. split_table_row (split_on nl text ! k) = Some cells \<and> cell_id cells = Some i)"
proof -
  obtain row where split: "split_on nl text' = rewrite_lines
      (\<lambda>cells. if cell_id cells = Some i then Some (draw_row row st ev) else None) False False (split_on nl text)"
    using set_status_reads [OF assms] by blast
  show "length (split_on nl text') = length (split_on nl text)" by (simp add: split rewrite_lines_length)
  assume "k < length (split_on nl text)"
  from rewrite_lines_nth [OF this, of "\<lambda>cells. if cell_id cells = Some i then Some (draw_row row st ev) else None" False False]
  show "split_on nl text' ! k = split_on nl text ! k \<or>
      (\<exists>cells. split_table_row (split_on nl text ! k) = Some cells \<and> cell_id cells = Some i)"
    unfolding split by (auto split: if_splits)
qed

end
