(* ===== verification/Write_Domains.thy ===== *)
theory Write_Domains
  imports Addresses Ordered_Maps
begin

text \<open>
  Which addresses one actor may write (\<open>crates/kernel/src/write_domain.rs\<close>), and the
  detection of two runs editing a file back and forth.
\<close>

section \<open>Write domains\<close>

datatype write_domain = WriteDomain (prefixes: "address list")

datatype domain_verdict = Within | Outside "string list"

definition domain_new :: "address list \<Rightarrow> (ax_error, write_domain) result" where
  "domain_new ps =
     (case find is_reserved ps of
        Some p \<Rightarrow> Inl (with_recovery
          ''the reserved prefix is outside every write domain (C17); drop it from the prefix set''
          (failure InvalidArgs ''construct write domain'' (addr_str p)))
      | None \<Rightarrow> Inr (WriteDomain ps))"

definition prefix_strings :: "write_domain \<Rightarrow> string list" where
  "prefix_strings d = map addr_str (prefixes d)"

definition admits :: "write_domain \<Rightarrow> address \<Rightarrow> domain_verdict" where
  "admits d target =
     (if is_reserved target then Outside (prefix_strings d)
      else if list_ex (is_within target) (prefixes d) then Within
      else Outside (prefix_strings d))"

section \<open>Edit wars\<close>

record edit_sample =
  sample_addr :: address
  sample_run :: run_id

datatype edit_war_verdict = Calm | Freeze address

definition edit_war_freeze :: u32 where
  "edit_war_freeze = 2"

definition push_run :: "(address, run_id list) btree \<Rightarrow> edit_sample \<Rightarrow> (address, run_id list) btree" where
  "push_run m s =
     (let runs = (case bt_get m (sample_addr s) of None \<Rightarrow> [] | Some rs \<Rightarrow> rs)
      in bt_insert (sample_addr s)
           (if runs \<noteq> [] \<and> last runs = sample_run s then runs else runs @ [sample_run s]) m)"

definition count_reclaims :: "run_id list \<Rightarrow> u32" where
  "count_reclaims runs =
     foldl (\<lambda>n i. if runs ! i = runs ! (i - 2) \<and> runs ! i \<noteq> runs ! (i - 1)
                  then saturating_add n 1 else n)
       0 [2..<length runs]"

definition observe_edit_war :: "edit_sample list \<Rightarrow> edit_war_verdict" where
  "observe_edit_war samples =
     (case find (\<lambda>(a, runs). edit_war_freeze \<le> count_reclaims runs) (foldl push_run [] samples) of
        None \<Rightarrow> Calm
      | Some (a, _) \<Rightarrow> Freeze a)"

section \<open>What a domain admits\<close>

lemma domain_new_ok: "domain_new ps = Inr d \<longleftrightarrow> prefixes d = ps \<and> (\<forall>p \<in> set ps. \<not> is_reserved p)"
  by (cases d) (auto simp: domain_new_def find_None_iff find_Some_iff split: option.splits)

lemma admits_iff:
  "admits d target = Within \<longleftrightarrow>
   \<not> is_reserved target \<and> (\<exists>p \<in> set (prefixes d). is_within target p)"
  by (auto simp: admits_def list_ex_iff)

lemma admits_other: "admits d target \<noteq> Within \<Longrightarrow> admits d target = Outside (prefix_strings d)"
  by (auto simp: admits_def split: if_splits)

lemma admits_below:
  "admits d a = Within \<Longrightarrow> is_within b a \<Longrightarrow> \<not> is_reserved b \<Longrightarrow> admits d b = Within"
  using ground.covered by (auto simp: admits_iff)

text \<open>Domains whose prefixes are apart admit no common target.\<close>

lemma domains_apart:
  assumes "\<And>p q. p \<in> set (prefixes d) \<Longrightarrow> q \<in> set (prefixes e) \<Longrightarrow> \<not> is_within p q \<and> \<not> is_within q p"
  shows "\<not> (admits d t = Within \<and> admits e t = Within)"
  using assms ground.apart by (meson admits_iff)

section \<open>What an edit war is\<close>

text \<open>The runs that wrote \<open>a\<close>, in order, each stretch by one run counted once.\<close>

definition writers :: "edit_sample list \<Rightarrow> address \<Rightarrow> run_id list" where
  "writers samples a = remdups_adj (map sample_run (filter (\<lambda>s. sample_addr s = a) samples))"

definition reclaim_points :: "run_id list \<Rightarrow> nat set" where
  "reclaim_points runs = {i. 2 \<le> i \<and> i < length runs \<and> runs ! i = runs ! (i - 2) \<and> runs ! i \<noteq> runs ! (i - 1)}"

lemma remdups_adj_snoc:
  "remdups_adj (xs @ [x]) =
   (if xs \<noteq> [] \<and> last xs = x then remdups_adj xs else remdups_adj xs @ [x])"
  by (induction xs rule: remdups_adj.induct) auto

lemma last_remdups_adj: "last (remdups_adj xs) = last xs"
  by (induction xs rule: remdups_adj.induct) auto

lemma pushed:
  "bt_ok (foldl push_run [] samples) \<and>
   bt_get (foldl push_run [] samples) a =
     (if writers samples a = [] then None else Some (writers samples a))"
proof (induction samples rule: rev_induct)
  case Nil
  then show ?case by (simp add: bt_get_def writers_def)
next
  case (snoc s samples)
  have ok: "bt_ok (foldl push_run [] samples)" using snoc by blast
  show ?case
    using snoc ok
    by (auto simp: push_run_def Let_def bt_ok_insert bt_get_insert writers_def remdups_adj_snoc
        last_remdups_adj split: if_splits)
qed

lemma foldl_count:
  "n + length xs < 4294967296 \<Longrightarrow>
   unat (foldl (\<lambda>n i. if P i then saturating_add n 1 else n) (of_nat n :: u32) xs) =
   n + length (filter P xs)"
proof (induction xs arbitrary: n)
  case Nil
  then show ?case by (simp add: unat_of_nat)
next
  case (Cons x xs)
  have "saturating_add (of_nat n :: u32) 1 = of_nat (Suc n)"
    using Cons.prems by (simp add: saturating_add_def unat_of_nat)
  then show ?case
    using Cons.IH [of n] Cons.IH [of "Suc n"] Cons.prems by simp
qed

lemma count_reclaims_card:
  assumes "length runs < 4294967296"
  shows "unat (count_reclaims runs) = card (reclaim_points runs)"
proof -
  let ?P = "\<lambda>i. runs ! i = runs ! (i - 2) \<and> runs ! i \<noteq> runs ! (i - 1)"
  have "unat (count_reclaims runs) = length (filter ?P [2..<length runs])"
    using foldl_count [of 0 "[2..<length runs]" ?P] assms by (simp add: count_reclaims_def)
  also have "\<dots> = card (set (filter ?P [2..<length runs]))"
    by (simp only: distinct_card distinct_filter distinct_upt)
  also have "set (filter ?P [2..<length runs]) = reclaim_points runs"
    by (auto simp: reclaim_points_def)
  finally show ?thesis .
qed

lemma find_first_key:
  assumes "bt_ok m"
  shows "find (\<lambda>(k, v). P v) m = Some (k, v) \<longleftrightarrow>
    bt_get m k = Some v \<and> P v \<and> (\<forall>k' v'. k' < k \<longrightarrow> bt_get m k' = Some v' \<longrightarrow> \<not> P v')"
  using assms
proof (induction m)
  case Nil
  then show ?case by (simp add: bt_get_def)
next
  case (Cons kv m)
  obtain a b where kv: "kv = (a, b)" by (cases kv)
  with Cons.prems have ok: "bt_ok m" and above: "\<forall>x \<in> set (bt_keys m). a < x"
    by (auto simp: bt_ok_Cons)
  have get: "bt_get (kv # m) x = (if x = a then Some b else bt_get m x)" for x
    by (simp add: bt_get_def kv)
  have gt: "bt_get m x = Some y \<Longrightarrow> a < x" for x y
    using above by (metis bt_get_None_iff option.distinct(1))
  show ?case
  proof (cases "P b")
    case True
    then show ?thesis
      unfolding get by (auto simp: kv not_less_iff_gr_or_eq dest: gt order.asym)
  next
    case False
    have "find (\<lambda>(k, v). P v) (kv # m) = Some (k, v) \<longleftrightarrow> find (\<lambda>(k, v). P v) m = Some (k, v)"
      using False by (simp add: kv)
    also have "\<dots> \<longleftrightarrow> bt_get m k = Some v \<and> P v \<and>
        (\<forall>k' v'. k' < k \<longrightarrow> bt_get m k' = Some v' \<longrightarrow> \<not> P v')"
      using Cons.IH ok by blast
    also have "\<dots> \<longleftrightarrow> bt_get (kv # m) k = Some v \<and> P v \<and>
        (\<forall>k' v'. k' < k \<longrightarrow> bt_get (kv # m) k' = Some v' \<longrightarrow> \<not> P v')"
    proof -
      have "bt_get m a = None" using gt by (metis not_None_eq order_less_irrefl)
      then have "bt_get (kv # m) x = Some y \<and> P y \<longleftrightarrow> bt_get m x = Some y \<and> P y" for x y
        using False by (auto simp: get)
      then show ?thesis by blast
    qed
    finally show ?thesis .
  qed
qed

text \<open>
  The verdict freezes the first address, in path order, on which runs took a file back
  at least twice; it depends on each address's own history only.
\<close>

lemma edit_war_iff:
  assumes "length samples < 4294967296"
  shows "observe_edit_war samples = Freeze a \<longleftrightarrow>
    2 \<le> card (reclaim_points (writers samples a)) \<and>
    (\<forall>b < a. card (reclaim_points (writers samples b)) < 2)"
proof -
  let ?m = "foldl push_run [] samples"
  have ok: "bt_ok ?m" using pushed by blast
  have len: "length (writers samples b) < 4294967296" for b
  proof -
    have "length (writers samples b) \<le> length samples"
      unfolding writers_def
      by (rule order_trans [OF remdups_adj_length]) simp
    with assms show ?thesis by simp
  qed
  have big: "edit_war_freeze \<le> count_reclaims (writers samples b) \<longleftrightarrow>
      2 \<le> card (reclaim_points (writers samples b))" for b
    using count_reclaims_card [OF len] by (simp add: edit_war_freeze_def word_le_nat_alt)
  have nil: "reclaim_points [] = {}" by (simp add: reclaim_points_def)
  have "observe_edit_war samples = Freeze a \<longleftrightarrow>
      (\<exists>runs. find (\<lambda>(k, v). edit_war_freeze \<le> count_reclaims v) ?m = Some (a, runs))"
    by (auto simp: observe_edit_war_def split: option.splits)
  also have "\<dots> \<longleftrightarrow> (\<exists>runs. bt_get ?m a = Some runs \<and> edit_war_freeze \<le> count_reclaims runs \<and>
      (\<forall>b runs'. b < a \<longrightarrow> bt_get ?m b = Some runs' \<longrightarrow> \<not> edit_war_freeze \<le> count_reclaims runs'))"
    by (simp only: find_first_key [OF ok])
  also have "\<dots> \<longleftrightarrow> 2 \<le> card (reclaim_points (writers samples a)) \<and>
      (\<forall>b < a. card (reclaim_points (writers samples b)) < 2)"
    using pushed [of samples] big nil by (auto simp: not_le split: if_splits) (metis card.empty not_le zero_less_numeral)+
  finally show ?thesis .
qed

text \<open>A write domain admits an address exactly when it lies within one of its prefixes and is not the city's own reserved place; a domain can only be made of prefixes that are not reserved.\<close>

lemma domain_admits_exactly:
  shows "(admits d target = Within \<longleftrightarrow>
      \<not> is_reserved target \<and> (\<exists>p. p \<in> set (prefixes d) \<and> is_within target p)) \<and>
    (admits d target \<noteq> Within \<longleftrightarrow> admits d target = Outside (map addr_str (prefixes d))) \<and>
    (domain_new ps = Inr d \<longleftrightarrow> prefixes d = ps \<and> list_all (\<lambda>p. \<not> is_reserved p) ps)"
  using admits_iff [of d target] admits_other [of d target] domain_new_ok [of ps d]
  by (auto simp: list_all_iff prefix_strings_def)

end
