(* ===== verification/Events.thy ===== *)
theory Events
  imports Addresses Locators
begin

text \<open>
  One line of history (\<open>crates/kernel/src/event.rs\<close>): identities, payloads without floats,
  the draft a recording party supplies and the record the ledger makes of it; and the
  chain rule of \<open>crates/kernel/src/ledger.rs\<close>. The JSON encoding of a record and BLAKE3 are
  third-party code: \<open>line_codec\<close> says what is relied on of the first, and the second is any
  function from bytes to a digest.
\<close>

section \<open>Sequence numbers and time\<close>

type_synonym seq = u64
type_synonym time_ms = u64

definition seq_first :: seq where
  "seq_first = 0"

definition seq_next :: "seq \<Rightarrow> (ax_error, seq) result" where
  "seq_next s =
     (case checked_add s 1 of
        Some n \<Rightarrow> Inr n
      | None \<Rightarrow> Inl (with_recovery ''sequence space exhausted; this ledger cannot grow further''
                  (failure InvalidArgs ''advance seq'' (dec_of (unat s)))))"

section \<open>Payloads\<close>

text \<open>\<open>serde_json\<close>'s values as the code matches on them; a float keeps its text only.\<close>

datatype json_number = PosInt u64 | NegInt u64 | Float string

datatype json =
    JNull
  | JBool bool
  | JNumber json_number
  | JString string
  | JArray "json list"
  | JObject "(string \<times> json) list"

definition is_float :: "json_number \<Rightarrow> bool" where
  "is_float n = (case n of Float _ \<Rightarrow> True | _ \<Rightarrow> False)"

definition number_text :: "json_number \<Rightarrow> string" where
  "number_text n =
     (case n of PosInt w \<Rightarrow> dec_of (unat w) | NegInt w \<Rightarrow> ''-'' @ dec_of (unat w) | Float t \<Rightarrow> t)"

fun reject_floats :: "json \<Rightarrow> ax_error option"
  and reject_items :: "json list \<Rightarrow> ax_error option"
  and reject_fields :: "(string \<times> json) list \<Rightarrow> ax_error option"
where
  "reject_floats (JNumber n) =
     (if is_float n
      then Some (with_recovery ''ledger payloads never carry floats; scale to integers''
             (failure InvalidArgs ''build payload'' (number_text n)))
      else None)"
| "reject_floats (JArray items) = reject_items items"
| "reject_floats (JObject kvs) = reject_fields kvs"
| "reject_floats JNull = None"
| "reject_floats (JBool _) = None"
| "reject_floats (JString _) = None"
| "reject_items [] = None"
| "reject_items (v # vs) = (case reject_floats v of Some e \<Rightarrow> Some e | None \<Rightarrow> reject_items vs)"
| "reject_fields [] = None"
| "reject_fields ((_, v) # vs) = (case reject_floats v of Some e \<Rightarrow> Some e | None \<Rightarrow> reject_fields vs)"

datatype payload = Payload (payload_fields: "(string \<times> json) list")

definition payload_new :: "(string \<times> json) list \<Rightarrow> (ax_error, payload) result" where
  "payload_new kvs = (case reject_fields kvs of Some e \<Rightarrow> Inl e | None \<Rightarrow> Inr (Payload kvs))"

definition payload_empty :: payload where
  "payload_empty = Payload []"

section \<open>Drafts, records and references\<close>

definition event_log_v :: u32 where
  "event_log_v = 1"

definition run_city :: run_id where
  "run_city = 0"

record event_draft =
  d_run :: run_id
  d_t :: time_ms
  d_who :: string
  d_addr :: "address option"
  d_kind :: event_kind
  d_data :: payload
  d_ig :: bool

record event_record =
  r_v :: u32
  r_run :: run_id
  r_seq :: seq
  r_prev :: b3_hash
  r_t :: time_ms
  r_who :: string
  r_addr :: "address option"
  r_kind :: event_kind
  r_data :: payload
  r_ig :: bool

record event_ref =
  ref_seq :: seq
  ref_kind :: event_kind

definition from_draft :: "event_draft \<Rightarrow> seq \<Rightarrow> b3_hash \<Rightarrow> event_record" where
  "from_draft d s p =
     \<lparr>r_v = event_log_v, r_run = d_run d, r_seq = s, r_prev = p, r_t = d_t d, r_who = d_who d,
      r_addr = d_addr d, r_kind = d_kind d, r_data = d_data d, r_ig = d_ig d\<rparr>"

definition to_ref :: "event_record \<Rightarrow> event_ref" where
  "to_ref r = \<lparr>ref_seq = r_seq r, ref_kind = r_kind r\<rparr>"

text \<open>Evidence cites what a tool or a model returned (\<open>crates/kernel/src/completion.rs\<close>).\<close>

datatype evidence_refs = Evidence (evidence_refs: "event_ref list")

definition kind_debug :: "(event_kind \<Rightarrow> string) \<Rightarrow> event_ref \<Rightarrow> string" where
  "kind_debug debug r = ''ref kind '' @ debug (ref_kind r)"

definition citable :: "event_ref \<Rightarrow> bool" where
  "citable r \<longleftrightarrow> ref_kind r = ToolResult \<or> ref_kind r = ModelReturned"

definition evidence_new :: "(event_kind \<Rightarrow> string) \<Rightarrow> event_ref list \<Rightarrow> (ax_error, evidence_refs) result" where
  "evidence_new debug refs =
     (if refs = []
      then Inl (with_recovery ''cite at least one tool_result or model_returned event''
             (failure EvidenceMissing ''construct evidence'' ''empty ref list''))
      else (case find (\<lambda>r. \<not> citable r) refs of
              Some bad \<Rightarrow> Inl (with_recovery ''evidence kinds are tool_result and model_returned only''
                            (failure EvidenceMissing ''construct evidence'' (kind_debug debug bad)))
            | None \<Rightarrow> Inr (Evidence refs)))"

section \<open>The chain\<close>

definition genesis_prev :: b3_hash where
  "genesis_prev = B3Hash (replicate 32 0)"

type_synonym line_writer = "event_record \<Rightarrow> (ax_error, string) result"
type_synonym line_reader = "string \<Rightarrow> (ax_error, event_record) result"
type_synonym hasher = "string \<Rightarrow> b3_hash"

definition lf :: char where
  "lf = CHR 0x0A"

text \<open>
  What the ledger relies on of the encoding: a line that was written is read back, and
  compact JSON has no line feed in it.
\<close>

definition line_codec :: "line_writer \<Rightarrow> line_reader \<Rightarrow> bool" where
  "line_codec to_line parse_line \<longleftrightarrow>
     (\<forall>r line. to_line r = Inr line \<longrightarrow> parse_line line = Inr r \<and> lf \<notin> set line)"

text \<open>
  A line continues the chain at \<open>(prev, seq)\<close>: it is a record of this version, it names the
  hash of the line before it and it carries the next number.
\<close>

definition continues_chain :: "line_reader \<Rightarrow> b3_hash \<Rightarrow> seq \<Rightarrow> string \<Rightarrow> bool" where
  "continues_chain parse_line p s line =
     (case parse_line line of
        Inl _ \<Rightarrow> False
      | Inr r \<Rightarrow> r_prev r = p \<and> r_seq r = s \<and> r_v r = event_log_v)"

fun chained :: "line_reader \<Rightarrow> hasher \<Rightarrow> b3_hash \<Rightarrow> seq \<Rightarrow> string list \<Rightarrow> bool" where
  "chained parse_line h p s [] = True"
| "chained parse_line h p s (line # lines) \<longleftrightarrow>
     continues_chain parse_line p s line \<and> chained parse_line h (h line) (s + 1) lines"

fun chain_end :: "hasher \<Rightarrow> b3_hash \<Rightarrow> string list \<Rightarrow> b3_hash" where
  "chain_end h p [] = p"
| "chain_end h p (line # lines) = chain_end h (h line) lines"

lemma seq_next_iff: "seq_next s = Inr n \<longleftrightarrow> unat n = unat s + 1"
proof -
  have "seq_next s = Inr n \<longleftrightarrow> checked_add s 1 = Some n"
    by (cases "checked_add s 1") (simp_all add: seq_next_def)
  then show ?thesis by (simp add: checked_add_Some_iff)
qed

lemma seq_next_plus: "seq_next s = Inr n \<Longrightarrow> n = s + 1"
  by (cases "checked_add s 1") (auto simp: seq_next_def checked_add_def split: if_splits)

lemma chain_end_append: "chain_end h p (xs @ ys) = chain_end h (chain_end h p xs) ys"
  by (induction xs arbitrary: p) auto

lemma chained_append:
  "chained parse_line h p s (xs @ ys) \<longleftrightarrow>
   chained parse_line h p s xs \<and> chained parse_line h (chain_end h p xs) (s + of_nat (length xs)) ys"
  by (induction xs arbitrary: p s) (auto simp: add.assoc)

lemma chained_prefix: "chained parse_line h p s ys \<Longrightarrow> prefix xs ys \<Longrightarrow> chained parse_line h p s xs"
  by (auto simp: prefix_def chained_append)

lemma evidence_new_iff:
  "evidence_new debug refs = Inr e \<longleftrightarrow> evidence_refs e = refs \<and> refs \<noteq> [] \<and> (\<forall>r \<in> set refs. citable r)"
  by (cases e) (auto simp: evidence_new_def find_None_iff find_Some_iff split: option.splits)

text \<open>No float is anywhere in a payload that was accepted.\<close>

fun float_free :: "json \<Rightarrow> bool" where
  "float_free (JNumber n) \<longleftrightarrow> \<not> is_float n"
| "float_free (JArray items) \<longleftrightarrow> (\<forall>v \<in> set items. float_free v)"
| "float_free (JObject kvs) \<longleftrightarrow> (\<forall>kv \<in> set kvs. float_free (snd kv))"
| "float_free JNull \<longleftrightarrow> True"
| "float_free (JBool _) \<longleftrightarrow> True"
| "float_free (JString _) \<longleftrightarrow> True"

lemma reject_floats_None:
  shows "reject_floats v = None \<longleftrightarrow> float_free v"
    and "reject_items vs = None \<longleftrightarrow> (\<forall>v \<in> set vs. float_free v)"
    and "reject_fields fs = None \<longleftrightarrow> (\<forall>kv \<in> set fs. float_free (snd kv))"
  by (induction v and vs and fs rule: reject_floats_reject_items_reject_fields.induct)
    (auto split: option.splits)

text \<open>Evidence is made exactly of one or more references to tool results or model answers; anything else is refused with EvidenceMissing.\<close>

lemma evidence_cites_results:
  shows "(evidence_new debug refs = Inr e \<longleftrightarrow>
      evidence_refs e = refs \<and> refs \<noteq> [] \<and> list_all (\<lambda>r. ref_kind r = ToolResult \<or> ref_kind r = ModelReturned) refs) \<and>
    (evidence_new debug refs = Inl err \<longrightarrow> code err = EvidenceMissing)"
  using evidence_new_iff [of debug refs e]
  by (auto simp: evidence_new_def citable_def list_all_iff split: if_splits option.splits)

end
