(* ===== verification/Registries.thy ===== *)
theory Registries
  imports Locators Events Ordered_Maps
begin

text \<open>
  The three registry books (\<open>crates/kernel/src/registry.rs\<close>): verified artifacts, the assets
  promoted from them, and the residents. An asset is always a registered artifact, and an
  artifact is only ever a claim some in-window event verified.
\<close>

section \<open>State\<close>

datatype resident_id = ResidentId (resident_str: string)

instantiation resident_id :: linorder
begin

definition less_eq_resident_id :: "resident_id \<Rightarrow> resident_id \<Rightarrow> bool" where
  "less_eq_resident_id a b \<longleftrightarrow> resident_str a \<le> resident_str b"

definition less_resident_id :: "resident_id \<Rightarrow> resident_id \<Rightarrow> bool" where
  "less_resident_id a b \<longleftrightarrow> resident_str a < resident_str b"

instance
  by standard (auto simp: less_eq_resident_id_def less_resident_id_def resident_id.expand)

end

definition resident_id_new :: "string \<Rightarrow> resident_id option" where
  "resident_id_new raw = (if raw = [] then None else Some (ResidentId raw))"

record artifact_claim =
  claim_locator :: locator
  claim_by :: string

record artifact =
  artifact_locator :: locator
  verified_by :: event_ref

datatype (plugins only: code size) register_verdict = Registered | AlreadyRegistered

record registry =
  artifacts :: "(string, artifact) btree"
  assets :: "string list"
  residents :: "resident_id list"

section \<open>Operations\<close>

text \<open>\<open>debug\<close> is Rust's \<open>Debug\<close> text of an event kind.\<close>

definition artifact_verify ::
  "(event_kind \<Rightarrow> string) \<Rightarrow> artifact_claim \<Rightarrow> event_ref \<Rightarrow> (ax_error, artifact) result" where
  "artifact_verify debug c ev =
     (case ref_kind ev of
        ToolResult \<Rightarrow> Inr \<lparr>artifact_locator = claim_locator c, verified_by = ev\<rparr>
      | ModelReturned \<Rightarrow> Inr \<lparr>artifact_locator = claim_locator c, verified_by = ev\<rparr>
      | other \<Rightarrow>
          Inl (with_recovery
            (''evidence must be a tool_result or model_returned ref, got '' @ debug other @
             ''; run the verification and cite its result'')
            (failure EvidenceMissing ''verify claim'' (locator_str (claim_locator c)))))"

definition registry_new :: registry where
  "registry_new = \<lparr>artifacts = [], assets = [], residents = []\<rparr>"

definition register_artifact :: "artifact \<Rightarrow> registry \<Rightarrow> register_verdict \<times> registry" where
  "register_artifact a r =
     (let key = locator_str (artifact_locator a) in
      case bt_get (artifacts r) key of
        Some _ \<Rightarrow> (AlreadyRegistered, r)
      | None \<Rightarrow> (Registered, r\<lparr>artifacts := bt_insert key a (artifacts r)\<rparr>))"

definition promote_asset :: "locator \<Rightarrow> registry \<Rightarrow> (ax_error, register_verdict) result \<times> registry" where
  "promote_asset l r =
     (let key = locator_str l in
      if bt_get (artifacts r) key = None
      then (Inl (with_recovery ''register the artifact first, then promote it''
              (with_nearby (bt_keys (artifacts r)) (failure PathNotFound ''promote asset'' key))), r)
      else if key \<in> set (assets r) then (Inr AlreadyRegistered, r)
      else (Inr Registered, r\<lparr>assets := bs_insert key (assets r)\<rparr>))"

definition register_resident :: "resident_id \<Rightarrow> registry \<Rightarrow> register_verdict \<times> registry" where
  "register_resident i r =
     (if i \<in> set (residents r) then (AlreadyRegistered, r)
      else (Registered, r\<lparr>residents := bs_insert i (residents r)\<rparr>))"

definition artifact_of :: "registry \<Rightarrow> locator \<Rightarrow> artifact option" where
  "artifact_of r l = bt_get (artifacts r) (locator_str l)"

definition is_asset :: "registry \<Rightarrow> locator \<Rightarrow> bool" where
  "is_asset r l \<longleftrightarrow> locator_str l \<in> set (assets r)"

definition is_asset_at :: "registry \<Rightarrow> address \<Rightarrow> bool" where
  "is_asset_at r a \<longleftrightarrow>
     list_ex (\<lambda>key. case locator_parse key of Inr (File b _ _) \<Rightarrow> b = a | _ \<Rightarrow> False) (assets r)"

definition is_resident :: "registry \<Rightarrow> resident_id \<Rightarrow> bool" where
  "is_resident r i \<longleftrightarrow> i \<in> set (residents r)"

section \<open>The invariant of the books\<close>

definition books_ok :: "registry \<Rightarrow> bool" where
  "books_ok r \<longleftrightarrow>
     bt_ok (artifacts r) \<and> bs_ok (assets r) \<and> bs_ok (residents r) \<and>
     set (assets r) \<subseteq> set (bt_keys (artifacts r)) \<and>
     (\<forall>key a. bt_get (artifacts r) key = Some a \<longrightarrow>
        key = locator_str (artifact_locator a) \<and> citable (verified_by a))"

lemma artifact_verify_iff:
  "artifact_verify debug c ev = Inr a \<longleftrightarrow>
   citable ev \<and> a = \<lparr>artifact_locator = claim_locator c, verified_by = ev\<rparr>"
  by (auto simp: artifact_verify_def citable_def split: event_kind.splits)

lemma books_new: "books_ok registry_new"
  by (simp add: books_ok_def registry_new_def bt_get_def)

lemma books_register:
  assumes "books_ok r" "citable (verified_by a)"
  shows "books_ok (snd (register_artifact a r))"
proof (cases "bt_get (artifacts r) (locator_str (artifact_locator a))")
  case None
  then show ?thesis
    using assms by (auto simp: register_artifact_def books_ok_def bt_ok_insert bt_get_insert bt_keys_insert)
next
  case (Some b)
  then show ?thesis using assms by (simp add: register_artifact_def)
qed

lemma books_promote: "books_ok r \<Longrightarrow> books_ok (snd (promote_asset l r))"
  by (auto simp: promote_asset_def Let_def books_ok_def bs_ok_insert bt_get_None_iff)

lemma books_resident: "books_ok r \<Longrightarrow> books_ok (snd (register_resident i r))"
  by (auto simp: register_resident_def books_ok_def bs_ok_insert)

text \<open>Every sequence of registrations keeps the books.\<close>

datatype entry = Artifact artifact_claim event_ref | Asset locator | Census resident_id

fun enter :: "(event_kind \<Rightarrow> string) \<Rightarrow> entry \<Rightarrow> registry \<Rightarrow> registry" where
  "enter debug (Artifact c ev) r =
     (case artifact_verify debug c ev of Inl _ \<Rightarrow> r | Inr a \<Rightarrow> snd (register_artifact a r))"
| "enter debug (Asset l) r = snd (promote_asset l r)"
| "enter debug (Census i) r = snd (register_resident i r)"

lemma enter_ok: "books_ok r \<Longrightarrow> books_ok (enter debug e r)"
proof (cases e)
  case (Artifact c ev)
  then show "books_ok r \<Longrightarrow> books_ok (enter debug e r)"
    using artifact_verify_iff [of debug c ev] books_register
    by (cases "artifact_verify debug c ev") (simp_all, metis artifact.select_convs(2))
qed (simp_all add: books_promote books_resident)

lemma entries_ok: "books_ok r \<Longrightarrow> books_ok (fold (enter debug) es r)"
  by (induction es arbitrary: r) (simp_all add: enter_ok)

lemma asset_is_artifact:
  assumes "books_ok r" "is_asset r l"
  shows "\<exists>a. artifact_of r l = Some a \<and> locator_str (artifact_locator a) = locator_str l \<and> citable (verified_by a)"
proof -
  have "locator_str l \<in> set (bt_keys (artifacts r))" using assms by (auto simp: books_ok_def is_asset_def)
  then obtain a where "bt_get (artifacts r) (locator_str l) = Some a" by (auto simp: bt_keys_dom)
  then show ?thesis using assms(1) by (auto simp: artifact_of_def books_ok_def)
qed

text \<open>An address is an asset when some pin of a file at it is one.\<close>

lemma is_asset_at_iff:
  "is_asset_at r a \<longleftrightarrow>
   (\<exists>oid rng. locator_ok (File a oid rng) \<and> locator_str (File a oid rng) \<in> set (assets r))"
proof
  assume "is_asset_at r a"
  then obtain key where key: "key \<in> set (assets r)"
    and p: "case locator_parse key of Inr (File b _ _) \<Rightarrow> b = a | _ \<Rightarrow> False"
    by (auto simp: is_asset_at_def list_ex_iff)
  then obtain l where l: "locator_parse key = Inr l" by (cases "locator_parse key") auto
  then obtain oid rng where "l = File a oid rng" using p by (cases l) auto
  then show "\<exists>oid rng. locator_ok (File a oid rng) \<and> locator_str (File a oid rng) \<in> set (assets r)"
    using l key by (metis locator_parse_iff)
next
  assume "\<exists>oid rng. locator_ok (File a oid rng) \<and> locator_str (File a oid rng) \<in> set (assets r)"
  then obtain oid rng where ok: "locator_ok (File a oid rng)"
    and key: "locator_str (File a oid rng) \<in> set (assets r)" by blast
  have "locator_parse (locator_str (File a oid rng)) = Inr (File a oid rng)"
    using ok by (simp only: locator_parse_iff)
  then have "case locator_parse (locator_str (File a oid rng)) of Inr (File b _ _) \<Rightarrow> b = a | _ \<Rightarrow> False"
    by (simp del: locator_str.simps)
  then show "is_asset_at r a" using key unfolding is_asset_at_def list_ex_iff by blast
qed

end
