(* ===== verification/Approvals.thy ===== *)
theory Approvals
  imports Registries
begin

text \<open>
  Approvals and autonomy (\<open>crates/kernel/src/approval.rs\<close>): the items a gate or an agent
  raises, the standing policies that may answer one class of them, when a policy lapses, and
  who may answer the inbox.
\<close>

section \<open>Items and policies\<close>

datatype approval_id = ApprovalId (approval_str: string)

definition approval_id_new :: "string \<Rightarrow> approval_id option" where
  "approval_id_new raw = (if raw = [] then None else Some (ApprovalId raw))"

datatype (plugins only: code size) approval_source = GateSource | AgentSource

datatype (plugins only: code size) approval_class =
  Commitment | BudgetLimitClass | DiscardEscalate | AgentQuestion | Governance | Delegation

record cluster_key =
  cluster_class :: approval_class
  cluster_detail :: string

record approval_item =
  approval_id :: approval_id
  approval_source :: approval_source
  approval_actor :: string
  action_desc :: string
  approval_artifact :: locator
  approval_cluster :: cluster_key
  approval_created :: time_ms
  approval_tainted :: bool

datatype (plugins only: code size) policy_class = PolicyAgentQuestion
datatype (plugins only: code size) policy_verdict = PolicyAllow | PolicyDeny

record policy_matcher =
  matcher_class :: policy_class
  detail_prefix :: string

record policy =
  policy_id :: string
  matcher :: policy_matcher
  policy_verdict :: policy_verdict
  policy_source :: approval_id
  policy_created :: time_ms
  last_hit :: "time_ms option"

datatype policy_application = Applies policy_verdict | NotApplicable

fun class_matches :: "policy_class \<Rightarrow> approval_class \<Rightarrow> bool" where
  "class_matches PolicyAgentQuestion c \<longleftrightarrow> c = AgentQuestion"

definition match_item :: "policy \<Rightarrow> approval_item \<Rightarrow> policy_application" where
  "match_item p item =
     (if approval_tainted item then NotApplicable
      else if \<not> class_matches (matcher_class (matcher p)) (cluster_class (approval_cluster item))
        then NotApplicable
      else if \<not> starts_with (detail_prefix (matcher p)) (cluster_detail (approval_cluster item))
        then NotApplicable
      else Applies (policy_verdict p))"

section \<open>Expiry\<close>

datatype (plugins only: code size) policy_expiry = Active | Expired

definition policy_idle_days :: u32 where
  "policy_idle_days = 90"

definition expiry :: "policy \<Rightarrow> time_ms \<Rightarrow> policy_expiry" where
  "expiry p now =
     (let reference = (case last_hit p of
                         None \<Rightarrow> policy_created p
                       | Some hit \<Rightarrow> max hit (policy_created p))
      in case checked_sub now reference of
           None \<Rightarrow> Active
         | Some idle_ms \<Rightarrow>
             if saturating_mul (ucast policy_idle_days) 86400000 \<le> idle_ms then Expired else Active)"

datatype (plugins only: code size) policy_revocation = Revoked | RevokedExpired | Superseded

section \<open>Who answers\<close>

datatype autonomy = Owner | Delegate resident_id | Deferred

definition autonomy_default :: autonomy where
  "autonomy_default = Owner"

datatype answerer = Human | ResidentAnswerer resident_id

datatype (plugins only: code size) answer_verdict = May | HumanOnly | SelfApprovalBarred | NotTheDelegate

definition human_only :: "approval_item \<Rightarrow> bool" where
  "human_only item \<longleftrightarrow>
     approval_tainted item \<or>
     (case cluster_class (approval_cluster item) of
        Commitment \<Rightarrow> True | BudgetLimitClass \<Rightarrow> True | DiscardEscalate \<Rightarrow> True | _ \<Rightarrow> False)"

definition may_answer :: "autonomy \<Rightarrow> approval_item \<Rightarrow> answerer \<Rightarrow> answer_verdict" where
  "may_answer auto item who =
     (case who of
        Human \<Rightarrow> May
      | ResidentAnswerer resident \<Rightarrow>
          if \<not> (case auto of Delegate d \<Rightarrow> d = resident | _ \<Rightarrow> False) then NotTheDelegate
          else if human_only item then HumanOnly
          else if approval_actor item = resident_str resident then SelfApprovalBarred
          else May)"

section \<open>What they decide\<close>

lemma match_item_iff:
  "match_item p item = Applies v \<longleftrightarrow>
   v = policy_verdict p \<and> \<not> approval_tainted item \<and>
   cluster_class (approval_cluster item) = AgentQuestion \<and>
   prefix (detail_prefix (matcher p)) (cluster_detail (approval_cluster item))"
proof -
  have "class_matches (matcher_class (matcher p)) c \<longleftrightarrow> c = AgentQuestion" for c
    by (cases "matcher_class (matcher p)") simp
  then show ?thesis by (auto simp: match_item_def starts_with_iff prefix_def)
qed

lemma match_item_other: "match_item p item = NotApplicable \<or> (\<exists>v. match_item p item = Applies v)"
  by (cases "match_item p item") simp_all

lemma expiry_iff:
  "expiry p now = Expired \<longleftrightarrow>
   unat (policy_created p) + 7776000000 \<le> unat now \<and>
   (\<forall>hit. last_hit p = Some hit \<longrightarrow> unat hit + 7776000000 \<le> unat now)"
proof -
  have days: "saturating_mul (ucast policy_idle_days :: u64) 86400000 = 7776000000"
    by (simp add: saturating_mul_def policy_idle_days_def)
  have one: "(case checked_sub now ref of None \<Rightarrow> Active | Some idle \<Rightarrow> if 7776000000 \<le> idle then Expired else Active)
      = Expired \<longleftrightarrow> unat ref + 7776000000 \<le> unat now" for ref :: u64
  proof (cases "ref \<le> now")
    case True
    then have "unat (now - ref) = unat now - unat ref" by (simp add: unat_sub)
    then show ?thesis using True by (auto simp: checked_sub_def word_le_nat_alt)
  next
    case False
    then show ?thesis by (simp add: checked_sub_def word_le_nat_alt)
  qed
  show ?thesis
    unfolding expiry_def Let_def days one
    by (cases "last_hit p") (auto simp: max_def word_le_nat_alt)
qed

lemma may_answer_iff:
  "may_answer auto item who = May \<longleftrightarrow>
   who = Human \<or>
   (\<exists>d. who = ResidentAnswerer d \<and> auto = Delegate d \<and> \<not> human_only item \<and>
        approval_actor item \<noteq> resident_str d)"
  by (cases who; cases auto) (auto simp: may_answer_def)

lemma human_only_iff:
  "human_only item \<longleftrightarrow>
   approval_tainted item \<or>
   cluster_class (approval_cluster item) \<in> {Commitment, BudgetLimitClass, DiscardEscalate}"
  by (cases "cluster_class (approval_cluster item)") (simp_all add: human_only_def)

text \<open>A standing policy lapses exactly ninety days after the later of its making and its last use, reading a clock before either as no time at all; a resident answers exactly as the named delegate, for an item that is neither for people only nor its own.\<close>

lemma standing_answers_lapse:
  "(expiry p now = Expired \<longleftrightarrow>
      unat (policy_created p) + 90 * 86400000 \<le> unat now \<and>
      \<not> (\<exists>hit. last_hit p = Some hit \<and> unat now < unat hit + 90 * 86400000)) \<and>
   (may_answer auto it who = May \<longleftrightarrow>
      who = Human \<or>
      (\<exists>d. who = ResidentAnswerer d \<and> auto = Delegate d \<and> \<not> human_only it \<and>
           approval_actor it \<noteq> resident_str d)) \<and>
   (match_item p it = Applies v \<longleftrightarrow>
      v = policy_verdict p \<and> \<not> approval_tainted it \<and>
      cluster_class (approval_cluster it) = AgentQuestion \<and>
      prefix (detail_prefix (matcher p)) (cluster_detail (approval_cluster it)))"
  by (auto simp: expiry_iff may_answer_iff match_item_iff not_less)

end
