(* ===== verification/Taints.thy ===== *)
theory Taints
  imports Ordered_Maps
begin

text \<open>
  The taint ring (\<open>crates/kernel/src/taint.rs\<close>): provenance labels, their union, and external
  content with its provenance welded on. Derivation never drops a source; the laws are those
  of a bounded semilattice, which the locale \<open>provenance\<close> states.
\<close>

section \<open>The contract of provenance\<close>

locale provenance =
  fixes valid :: "'t \<Rightarrow> bool"
    and none :: 't
    and merge :: "'t \<Rightarrow> 't \<Rightarrow> 't"
    and origins :: "'t \<Rightarrow> 's set"
  assumes valid_none: "valid none"
    and valid_merge: "valid a \<Longrightarrow> valid b \<Longrightarrow> valid (merge a b)"
    and origins_none: "origins none = {}"
    and origins_merge: "origins (merge a b) = origins a \<union> origins b"
    and origins_determine: "valid a \<Longrightarrow> valid b \<Longrightarrow> origins a = origins b \<Longrightarrow> a = b"
begin

lemma merge_commute: "valid a \<Longrightarrow> valid b \<Longrightarrow> merge a b = merge b a"
  by (intro origins_determine valid_merge) (simp_all add: origins_merge Un_commute)

lemma merge_assoc: "valid a \<Longrightarrow> valid b \<Longrightarrow> valid c \<Longrightarrow> merge (merge a b) c = merge a (merge b c)"
  by (intro origins_determine valid_merge) (simp_all add: origins_merge Un_assoc)

lemma merge_idem: "valid a \<Longrightarrow> merge a a = a"
  by (intro origins_determine valid_merge) (simp_all add: origins_merge)

lemma merge_none: "valid a \<Longrightarrow> merge a none = a \<and> merge none a = a"
  by (auto intro!: origins_determine valid_merge simp: origins_merge origins_none valid_none)

text \<open>A derivation from many inputs carries every origin of every input, and only those.\<close>

lemma origins_fold: "origins (foldl merge a ts) = origins a \<union> (\<Union>t \<in> set ts. origins t)"
  by (induction ts arbitrary: a) (auto simp: origins_merge)

end

section \<open>Labels and sets\<close>

datatype taint_source = TaintSource (source_str: string)

instantiation taint_source :: linorder
begin

definition less_eq_taint_source :: "taint_source \<Rightarrow> taint_source \<Rightarrow> bool" where
  "less_eq_taint_source a b \<longleftrightarrow> source_str a \<le> source_str b"

definition less_taint_source :: "taint_source \<Rightarrow> taint_source \<Rightarrow> bool" where
  "less_taint_source a b \<longleftrightarrow> source_str a < source_str b"

instance
  by standard (auto simp: less_eq_taint_source_def less_taint_source_def taint_source.expand)

end

definition taint_source_new :: "string \<Rightarrow> taint_source option" where
  "taint_source_new label = (if label = [] then None else Some (TaintSource label))"

datatype taint_set = TaintSet (taint_list: "taint_source list")

definition taint_empty :: taint_set where
  "taint_empty = TaintSet []"

definition taint_of :: "taint_source \<Rightarrow> taint_set" where
  "taint_of s = TaintSet (bs_insert s [])"

definition taint_union :: "taint_set \<Rightarrow> taint_set \<Rightarrow> taint_set" where
  "taint_union a b = TaintSet (bs_extend (taint_list a) (taint_list b))"

definition taint_is_empty :: "taint_set \<Rightarrow> bool" where
  "taint_is_empty t \<longleftrightarrow> taint_list t = []"

definition taint_contains :: "taint_set \<Rightarrow> taint_source \<Rightarrow> bool" where
  "taint_contains t s \<longleftrightarrow> s \<in> set (taint_list t)"

definition taint_len :: "taint_set \<Rightarrow> nat" where
  "taint_len t = length (taint_list t)"

section \<open>Tainted values\<close>

record 'a tainted =
  tainted_value :: 'a
  tainted_by :: taint_set

definition tainted_new :: "'a \<Rightarrow> taint_source \<Rightarrow> 'a tainted" where
  "tainted_new v s = \<lparr>tainted_value = v, tainted_by = taint_of s\<rparr>"

definition tainted_map :: "('a \<Rightarrow> 'b) \<Rightarrow> 'a tainted \<Rightarrow> 'b tainted" where
  "tainted_map f t = \<lparr>tainted_value = f (tainted_value t), tainted_by = tainted_by t\<rparr>"

definition tainted_join :: "('a \<Rightarrow> 'b \<Rightarrow> 'c) \<Rightarrow> 'a tainted \<Rightarrow> 'b tainted \<Rightarrow> 'c tainted" where
  "tainted_join f a b =
     \<lparr>tainted_value = f (tainted_value a) (tainted_value b),
      tainted_by = taint_union (tainted_by a) (tainted_by b)\<rparr>"

section \<open>Nothing is washed clean\<close>

definition taint_ok :: "taint_set \<Rightarrow> bool" where
  "taint_ok t \<longleftrightarrow> bs_ok (taint_list t)"

definition origins :: "taint_set \<Rightarrow> taint_source set" where
  "origins t = {s. taint_contains t s}"

interpretation taint: provenance taint_ok taint_empty taint_union origins
proof
  fix a b :: taint_set
  show "taint_ok taint_empty" by (simp add: taint_ok_def taint_empty_def)
  show "origins taint_empty = {}" by (simp add: origins_def taint_contains_def taint_empty_def)
  show "origins (taint_union a b) = origins a \<union> origins b"
    by (auto simp: origins_def taint_contains_def taint_union_def)
  assume a: "taint_ok a" and b: "taint_ok b"
  then show "taint_ok (taint_union a b)" by (simp add: taint_ok_def taint_union_def bs_ok_extend)
  assume "origins a = origins b"
  then have "taint_list a = taint_list b"
    using a b by (auto simp: taint_ok_def origins_def taint_contains_def intro: bs_unique)
  then show "a = b" by (rule taint_set.expand)
qed

lemma origins_of: "origins (taint_of s) = {s}" and taint_ok_of: "taint_ok (taint_of s)"
  using bs_ok_insert [OF bs_ok_Nil, of s]
  by (simp_all add: origins_def taint_contains_def taint_of_def taint_ok_def)

lemma taint_is_empty_iff: "taint_is_empty t \<longleftrightarrow> origins t = {}"
  by (auto simp: taint_is_empty_def origins_def taint_contains_def)

lemma taint_len_card: "taint_ok t \<Longrightarrow> taint_len t = card (origins t)"
  by (simp add: taint_len_def origins_def taint_contains_def taint_ok_def bs_distinct distinct_card)

text \<open>
  However content is derived, by mapping and joining, it carries the source of every external
  value it was derived from, and is never empty of provenance.
\<close>

datatype 'a derivation =
    Foreign 'a taint_source
  | Mapped "'a \<Rightarrow> 'a" "'a derivation"
  | Joined "'a \<Rightarrow> 'a \<Rightarrow> 'a" "'a derivation" "'a derivation"

fun derive :: "'a derivation \<Rightarrow> 'a tainted" where
  "derive (Foreign v s) = tainted_new v s"
| "derive (Mapped f d) = tainted_map f (derive d)"
| "derive (Joined f d e) = tainted_join f (derive d) (derive e)"

fun foreign_sources :: "'a derivation \<Rightarrow> taint_source set" where
  "foreign_sources (Foreign v s) = {s}"
| "foreign_sources (Mapped f d) = foreign_sources d"
| "foreign_sources (Joined f d e) = foreign_sources d \<union> foreign_sources e"

lemma derive_origins:
  "taint_ok (tainted_by (derive d)) \<and> origins (tainted_by (derive d)) = foreign_sources d"
  by (induction d)
    (simp_all add: tainted_new_def tainted_map_def tainted_join_def origins_of taint_ok_of
      taint.valid_merge taint.origins_merge)

lemma foreign_sources_nonempty: "foreign_sources d \<noteq> {}"
  by (induction d) auto

lemma derive_never_clean: "\<not> taint_is_empty (tainted_by (derive d))"
  using derive_origins [of d] foreign_sources_nonempty [of d] by (simp add: taint_is_empty_iff)

end
