(* ===== verification/Budgets.thy ===== *)
theory Budgets
  imports Codes
begin

text \<open>
  Money and quantities as integers, the three-layer budget ladder with its spend verdict
  (\<open>crates/kernel/src/budget.rs\<close>), and the shedding posture of every queue
  (\<open>crates/kernel/src/backpressure.rs\<close>). Both clients ask one question of a capacity,
  whether a further cost fits under it; the locale \<open>capacity\<close> states what the answer obeys.
\<close>

section \<open>The contract of a capacity\<close>

locale capacity =
  fixes admitted :: "'s \<Rightarrow> 'c \<Rightarrow> bool"
    and room :: "'s \<Rightarrow> int list"
    and price :: "'c \<Rightarrow> int list"
  assumes admitted_iff: "admitted s c \<longleftrightarrow> list_all2 (\<le>) (price c) (room s)"
begin

text \<open>More room never makes the same cost harder to admit, and a lower price neither.\<close>

lemma room_monotone: "admitted s c \<Longrightarrow> list_all2 (\<le>) (room s) (room s') \<Longrightarrow> admitted s' c"
  unfolding admitted_iff by (rule list_all2_trans [of "(\<le>)" "(\<le>)" "(\<le>)"]) simp_all

lemma price_monotone: "admitted s c \<Longrightarrow> list_all2 (\<le>) (price c') (price c) \<Longrightarrow> admitted s c'"
  unfolding admitted_iff by (rule list_all2_trans [of "(\<le>)" "(\<le>)" "(\<le>)"]) simp_all

end

section \<open>Quantities\<close>

datatype usd_micros = UsdMicros (usd_get: u64)
datatype tokens = Tokens (tokens_get: u64)
datatype byte_len = ByteLen (bytes_get: u64)

definition usd_add :: "usd_micros \<Rightarrow> usd_micros \<Rightarrow> usd_micros option" where
  "usd_add a b = map_option UsdMicros (checked_add (usd_get a) (usd_get b))"

definition tokens_add :: "tokens \<Rightarrow> tokens \<Rightarrow> tokens option" where
  "tokens_add a b = map_option Tokens (checked_add (tokens_get a) (tokens_get b))"

record budget_cap =
  cap_usd :: usd_micros
  cap_tokens :: tokens

record budget_use =
  use_usd :: usd_micros
  use_tokens :: tokens

record budget_level =
  level_cap :: budget_cap
  level_used :: budget_use

record budget_ladder =
  ladder_city :: budget_level
  ladder_building :: budget_level
  ladder_run :: budget_level

datatype (plugins only: code size) budget_layer = CityLayer | BuildingLayer | RunLayer

datatype spend_verdict = SpendAdmit | Exhausted budget_layer

definition level_admits :: "budget_level \<Rightarrow> budget_use \<Rightarrow> bool" where
  "level_admits level cost =
     (let usd_fits = (case usd_add (use_usd (level_used level)) (use_usd cost) of
                        None \<Rightarrow> False
                      | Some n \<Rightarrow> usd_get n \<le> usd_get (cap_usd (level_cap level)));
          tokens_fit = (case tokens_add (use_tokens (level_used level)) (use_tokens cost) of
                          None \<Rightarrow> False
                        | Some n \<Rightarrow> tokens_get n \<le> tokens_get (cap_tokens (level_cap level)))
      in usd_fits \<and> tokens_fit)"

definition admit_spend :: "budget_ladder \<Rightarrow> budget_use \<Rightarrow> spend_verdict" where
  "admit_spend ladder cost =
     (case find (\<lambda>(layer, level). \<not> level_admits level cost)
             [(RunLayer, ladder_run ladder), (BuildingLayer, ladder_building ladder),
              (CityLayer, ladder_city ladder)] of
        Some (layer, _) \<Rightarrow> Exhausted layer
      | None \<Rightarrow> SpendAdmit)"

text \<open>The sub-agent context lock.\<close>

datatype ctx_lock = CtxLock (lock_limit: tokens)

datatype (plugins only: code size) ctx_verdict = CtxWithin | CtxReached

definition observe_ctx :: "tokens \<Rightarrow> ctx_lock \<Rightarrow> ctx_verdict" where
  "observe_ctx used lock =
     (if tokens_get (lock_limit lock) \<le> tokens_get used then CtxReached else CtxWithin)"

section \<open>Queues\<close>

record queue_stats =
  queue_depth :: u64
  queue_capacity :: u64

record item_meta =
  item_cost :: u64

datatype (plugins only: code size) shed_reason = CapacityExhausted

datatype admission = QueueAdmit | Shed shed_reason

definition admit_item :: "queue_stats \<Rightarrow> item_meta \<Rightarrow> admission" where
  "admit_item stats item =
     (case checked_add (queue_depth stats) (item_cost item) of
        Some n \<Rightarrow> if n \<le> queue_capacity stats then QueueAdmit else Shed CapacityExhausted
      | None \<Rightarrow> Shed CapacityExhausted)"

section \<open>What fits\<close>

lemma fits_iff:
  fixes used cost cap :: "'a::len word"
  shows "(\<exists>n. checked_add used cost = Some n \<and> n \<le> cap) \<longleftrightarrow> unat used + unat cost \<le> unat cap"
proof
  assume "\<exists>n. checked_add used cost = Some n \<and> n \<le> cap"
  then show "unat used + unat cost \<le> unat cap"
    by (auto simp: checked_add_Some_iff word_le_nat_alt)
next
  assume le: "unat used + unat cost \<le> unat cap"
  moreover have "unat cap < 2 ^ LENGTH('a)" by (rule unsigned_less)
  ultimately have "\<not> 2 ^ LENGTH('a) \<le> unat used + unat cost" by linarith
  then obtain n where "checked_add used cost = Some n"
    using checked_add_None_iff [of used cost] by (cases "checked_add used cost") auto
  with le show "\<exists>n. checked_add used cost = Some n \<and> n \<le> cap"
    by (auto simp: checked_add_Some_iff word_le_nat_alt)
qed

lemma room_iff:
  fixes used cost cap :: "'a::len word"
  shows "unat used + unat cost \<le> unat cap \<longleftrightarrow> uint cost \<le> uint cap - uint used"
  unfolding uint_nat by linarith

definition fits :: "budget_level \<Rightarrow> budget_use \<Rightarrow> bool" where
  "fits level cost \<longleftrightarrow>
     unat (usd_get (use_usd (level_used level))) + unat (usd_get (use_usd cost))
       \<le> unat (usd_get (cap_usd (level_cap level))) \<and>
     unat (tokens_get (use_tokens (level_used level))) + unat (tokens_get (use_tokens cost))
       \<le> unat (tokens_get (cap_tokens (level_cap level)))"

lemma usd_fits:
  "(case usd_add a b of None \<Rightarrow> False | Some n \<Rightarrow> usd_get n \<le> usd_get c) \<longleftrightarrow>
   unat (usd_get a) + unat (usd_get b) \<le> unat (usd_get c)"
  unfolding fits_iff [symmetric] usd_add_def by (cases "checked_add (usd_get a) (usd_get b)") simp_all

lemma tokens_fit:
  "(case tokens_add a b of None \<Rightarrow> False | Some n \<Rightarrow> tokens_get n \<le> tokens_get c) \<longleftrightarrow>
   unat (tokens_get a) + unat (tokens_get b) \<le> unat (tokens_get c)"
  unfolding fits_iff [symmetric] tokens_add_def
  by (cases "checked_add (tokens_get a) (tokens_get b)") simp_all

lemma level_admits_iff: "level_admits level cost \<longleftrightarrow> fits level cost"
  by (simp only: level_admits_def fits_def Let_def usd_fits tokens_fit)

text \<open>The verdict names the innermost layer the cost does not fit.\<close>

lemma admit_spend_iff:
  "admit_spend ladder cost = SpendAdmit \<longleftrightarrow>
     fits (ladder_run ladder) cost \<and> fits (ladder_building ladder) cost \<and> fits (ladder_city ladder) cost"
  "admit_spend ladder cost = Exhausted layer \<longleftrightarrow>
     (layer = RunLayer \<and> \<not> fits (ladder_run ladder) cost \<or>
      layer = BuildingLayer \<and> fits (ladder_run ladder) cost \<and> \<not> fits (ladder_building ladder) cost \<or>
      layer = CityLayer \<and> fits (ladder_run ladder) cost \<and> fits (ladder_building ladder) cost \<and>
        \<not> fits (ladder_city ladder) cost)"
  by (auto simp: admit_spend_def level_admits_iff)

lemma admit_item_iff:
  "admit_item stats item = QueueAdmit \<longleftrightarrow>
   unat (queue_depth stats) + unat (item_cost item) \<le> unat (queue_capacity stats)"
  unfolding fits_iff [symmetric] admit_item_def
  by (cases "checked_add (queue_depth stats) (item_cost item)") simp_all

lemma admit_item_other: "admit_item stats item \<noteq> QueueAdmit \<Longrightarrow> admit_item stats item = Shed CapacityExhausted"
  by (auto simp: admit_item_def split: option.splits)

text \<open>A queue's room, and a ladder's room layer by layer and in both currencies.\<close>

definition queue_room :: "queue_stats \<Rightarrow> int list" where
  "queue_room stats = [uint (queue_capacity stats) - uint (queue_depth stats)]"

interpretation queue_capacity: capacity "\<lambda>stats item. admit_item stats item = QueueAdmit" queue_room
  "\<lambda>item. [uint (item_cost item)]"
proof
  fix stats item
  show "admit_item stats item = QueueAdmit \<longleftrightarrow> list_all2 (\<le>) [uint (item_cost item)] (queue_room stats)"
    unfolding admit_item_iff by (simp add: queue_room_def room_iff)
qed

definition level_room :: "budget_level \<Rightarrow> int list" where
  "level_room level =
     [uint (usd_get (cap_usd (level_cap level))) - uint (usd_get (use_usd (level_used level))),
      uint (tokens_get (cap_tokens (level_cap level))) - uint (tokens_get (use_tokens (level_used level)))]"

definition ladder_room :: "budget_ladder \<Rightarrow> int list" where
  "ladder_room ladder =
     level_room (ladder_run ladder) @ level_room (ladder_building ladder) @ level_room (ladder_city ladder)"

definition spend_price :: "budget_use \<Rightarrow> int list" where
  "spend_price cost = [uint (usd_get (use_usd cost)), uint (tokens_get (use_tokens cost))]"

lemma fits_room: "fits level cost \<longleftrightarrow> list_all2 (\<le>) (spend_price cost) (level_room level)"
  by (simp add: fits_def spend_price_def level_room_def room_iff)

interpretation ladder: capacity "\<lambda>ladder cost. admit_spend ladder cost = SpendAdmit" ladder_room
  "\<lambda>cost. spend_price cost @ spend_price cost @ spend_price cost"
proof
  fix ladder cost
  have "length (spend_price cost) = length (level_room level)" for level
    by (simp add: spend_price_def level_room_def)
  then show "admit_spend ladder cost = SpendAdmit \<longleftrightarrow>
      list_all2 (\<le>) (spend_price cost @ spend_price cost @ spend_price cost) (ladder_room ladder)"
    by (simp add: admit_spend_iff fits_room ladder_room_def list_all2_append)
qed

text \<open>A cost is admitted exactly when in each of the run, building and city budgets the money and the tokens used so far plus the cost stay within the cap, counted without wrap-around; otherwise the innermost budget that is exhausted is named. A queue admits an item exactly when its depth plus the item's cost stays within its capacity.\<close>

lemma spending_stays_within:
  "(admit_spend ladder cost = SpendAdmit \<longleftrightarrow>
      fits (ladder_run ladder) cost \<and> fits (ladder_building ladder) cost \<and> fits (ladder_city ladder) cost) \<and>
   (admit_spend ladder cost = Exhausted layer \<longleftrightarrow>
      (layer = RunLayer \<and> \<not> fits (ladder_run ladder) cost) \<or>
      (layer = BuildingLayer \<and> fits (ladder_run ladder) cost \<and> \<not> fits (ladder_building ladder) cost) \<or>
      (layer = CityLayer \<and> fits (ladder_run ladder) cost \<and> fits (ladder_building ladder) cost \<and>
        \<not> fits (ladder_city ladder) cost)) \<and>
   (admit_item stats item' = QueueAdmit \<longleftrightarrow>
      unat (queue_depth stats) + unat (item_cost item') \<le> unat (queue_capacity stats))"
  using admit_spend_iff [of ladder cost] admit_item_iff by blast

end
