(* ===== verification/Tools.thy ===== *)
theory Tools
  imports Codecs Events
begin

text \<open>
  The tool seam (\<open>crates/kernel/src/tool.rs\<close>): tool names, the labels of external servers,
  the effect that routes a call to its gate, a tool's registration, and the three arms of
  execution.
\<close>

section \<open>Names\<close>

datatype tool_name = ToolName (tool_str: string)
datatype server_label = ServerLabel (label_str: string)

definition is_ascii_lower :: "char \<Rightarrow> bool" where
  "is_ascii_lower c \<longleftrightarrow> CHR ''a'' \<le> c \<and> c \<le> CHR ''z''"

definition is_ascii_upper :: "char \<Rightarrow> bool" where
  "is_ascii_upper c \<longleftrightarrow> CHR ''A'' \<le> c \<and> c \<le> CHR ''Z''"

definition is_ascii_alphanumeric :: "char \<Rightarrow> bool" where
  "is_ascii_alphanumeric c \<longleftrightarrow> is_ascii_lower c \<or> is_ascii_upper c \<or> is_digit c"

definition tool_name_parse :: "string \<Rightarrow> (ax_error, tool_name) result" where
  "tool_name_parse raw =
     (if raw \<noteq> [] \<and> list_all (\<lambda>c. is_ascii_lower c \<or> is_digit c \<or> c = CHR ''_'') raw
      then Inr (ToolName raw)
      else Inl (with_recovery ''use ascii lowercase, digits and underscore, non-empty''
             (failure InvalidArgs ''parse tool name'' raw)))"

definition server_label_parse :: "string \<Rightarrow> (ax_error, server_label) result" where
  "server_label_parse raw =
     (if raw \<noteq> [] \<and> list_all (\<lambda>c. is_ascii_lower c \<or> is_digit c) raw
      then Inr (ServerLabel raw)
      else Inl (with_recovery ''use ascii lowercase and digits, non-empty''
             (failure InvalidArgs ''name an mcp server'' raw)))"

definition tool_name_ok :: "tool_name \<Rightarrow> bool" where
  "tool_name_ok n \<longleftrightarrow>
     tool_str n \<noteq> [] \<and> list_all (\<lambda>c. is_ascii_lower c \<or> is_digit c \<or> c = CHR ''_'') (tool_str n)"

definition server_label_ok :: "server_label \<Rightarrow> bool" where
  "server_label_ok l \<longleftrightarrow>
     label_str l \<noteq> [] \<and> list_all (\<lambda>c. is_ascii_lower c \<or> is_digit c) (label_str l)"

interpretation tool_name: strict_codec tool_name_parse tool_str tool_name_ok
  by unfold_locales (auto simp: tool_name_parse_def tool_name_ok_def split: if_splits)

interpretation server_label: strict_codec server_label_parse label_str server_label_ok
  by unfold_locales (auto simp: server_label_parse_def server_label_ok_def split: if_splits)

text \<open>
  A label has no underscore, so the tool name \<open>{label}_{tool}\<close> is read back as that label
  and that tool only.
\<close>

lemma underscore_apart: "\<not> is_ascii_lower CHR ''_''" "\<not> is_digit CHR ''_''"
  by (simp_all add: is_ascii_lower_def is_digit_def less_eq_char_def)

lemma connector_name_split:
  assumes "server_label_ok l" "server_label_ok m"
    and "label_str l @ ''_'' @ s = label_str m @ ''_'' @ t"
  shows "l = m \<and> s = t"
proof -
  have no: "CHR ''_'' \<notin> set (label_str l)" if "server_label_ok l" for l
    using that underscore_apart unfolding server_label_ok_def list_all_iff by blast
  have "split_once CHR ''_'' (label_str l @ ''_'' @ s) = Some (label_str l, s)"
    "split_once CHR ''_'' (label_str m @ ''_'' @ t) = Some (label_str m, t)"
    using no assms(1,2) by (simp_all add: split_once_Some_iff)
  then have "label_str l = label_str m \<and> s = t" unfolding assms(3) by simp
  then show ?thesis using server_label.expand by blast
qed

section \<open>Effects and registrations\<close>

datatype timeout_ms = TimeoutMs u64

datatype tool_effect =
    ReadEffect
  | WriteEffect address
  | EgressEffect
  | ConnectorEffect server_label
  | SpawnEffect
  | GovernEffect
  | SpendEffect

datatype (plugins only: code size) temporal = Timeless | Timestamped

datatype (plugins only: code size) cost_tier = Free | Light | Heavy

datatype render_intent = Generic | Terminal | Diff "address list"

record tool_meta =
  meta_name :: tool_name
  disclosure :: string
  params :: payload
  meta_effect :: tool_effect
  meta_cost_tier :: cost_tier
  timeout :: "timeout_ms option"
  render :: render_intent
  meta_temporal :: temporal

record tool_call =
  call_id :: string
  call_name :: tool_name
  call_args :: payload

text \<open>
  What a call does, as the bytes an idempotency key is derived from: the name and the JSON of
  the arguments (a parameter), never the wire id.
\<close>

definition call_action :: "(payload \<Rightarrow> (string, string) result) \<Rightarrow> tool_call \<Rightarrow> (ax_error, string) result" where
  "call_action to_json call =
     (case to_json (call_args call) of
        Inl err \<Rightarrow> Inl (failure InvalidArgs ''read a tool call's action'' err)
      | Inr args \<Rightarrow> Inr (tool_str (call_name call) @ args))"

datatype exec_arm =
    Program string "string list"
  | Python string
  | Shell string

end
