(* ===== verification/Discards.thy ===== *)
theory Discards
  imports Registries Taints Budgets Tools
begin

text \<open>
  Deletion as an effect class (\<open>crates/kernel/src/discard.rs\<close>): a discard is built only with
  a restoration that resolves, the decision table of the fifth door, and the forecast over
  the arms of execution.
\<close>

section \<open>Plans\<close>

datatype restoration = Tracked locator | Interred locator | Rebuildable string

record discard =
  discard_paths :: "address list"
  discard_plan :: restoration
  discard_taint :: taint_set
  discard_bytes :: byte_len

definition plan_ok :: "restoration \<Rightarrow> bool" where
  "plan_ok r =
     (case r of
        Tracked l \<Rightarrow> (case l of File _ _ _ \<Rightarrow> True | Cas _ _ \<Rightarrow> False)
      | Interred l \<Rightarrow> (case l of Cas _ _ \<Rightarrow> True | File _ _ _ \<Rightarrow> False)
      | Rebuildable reason \<Rightarrow> reason \<noteq> [])"

definition discard_new ::
  "address list \<Rightarrow> restoration \<Rightarrow> taint_set \<Rightarrow> byte_len \<Rightarrow> (ax_error, discard) result" where
  "discard_new paths r taint n =
     (if paths = [] then Inl (failure InvalidArgs ''construct discard'' ''empty path list'')
      else if \<not> plan_ok r
      then Inl (with_recovery
             ''Tracked cites a file: locator, Interred a cas: locator, Rebuildable a non-empty reason''
             (failure DiscardIrreversible ''construct discard'' ''restoration plan does not resolve''))
      else Inr \<lparr>discard_paths = paths, discard_plan = r, discard_taint = taint, discard_bytes = n\<rparr>)"

datatype discard_request =
    PlannedDiscard discard
  | UnplannedDiscard "address list" taint_set byte_len

section \<open>The decision table\<close>

datatype (plugins only: code size) escalate_reason =
  TaintedReason | FilesOverMax | BytesOverMax | RegistryAsset

datatype (plugins only: code size) deny_reason = NoRestoration

datatype discard_verdict =
  DiscardAllow | DiscardEscalated escalate_reason | DiscardDeny deny_reason

definition discard_files_max :: u32 where
  "discard_files_max = 16"

definition discard_bytes_max :: u64 where
  "discard_bytes_max = 1048576"

definition decide :: "discard_request \<Rightarrow> registry \<Rightarrow> discard_verdict" where
  "decide req reg =
     (case req of
        UnplannedDiscard _ _ _ \<Rightarrow> DiscardDeny NoRestoration
      | PlannedDiscard d \<Rightarrow>
          if \<not> taint_is_empty (discard_taint d) then DiscardEscalated TaintedReason
          else if (if length (discard_paths d) \<le> u32_max
                   then discard_files_max < of_nat (length (discard_paths d)) else True)
          then DiscardEscalated FilesOverMax
          else if discard_bytes_max < bytes_get (discard_bytes d) then DiscardEscalated BytesOverMax
          else if list_ex (is_asset_at reg) (discard_paths d) then DiscardEscalated RegistryAsset
          else DiscardAllow)"

section \<open>The forecast\<close>

text \<open>\<open>str::contains\<close>.\<close>

fun occurs :: "string \<Rightarrow> string \<Rightarrow> bool" where
  "occurs needle [] \<longleftrightarrow> needle = []"
| "occurs needle (c # s) \<longleftrightarrow> starts_with needle (c # s) \<or> occurs needle s"

definition suspect_snippets_text :: "string list" where
  "suspect_snippets_text = [''rm '', ''rmdir'', ''-delete'', ''git reset --hard'', ''git clean'']"

definition suspect_snippets_python :: "string list" where
  "suspect_snippets_python = [''os.remove'', ''shutil.rmtree'', ''os.unlink'']"

datatype discard_forecast = Clear | Suspected string

definition program_basename :: "string \<Rightarrow> string" where
  "program_basename path =
     (let name = rev (takeWhile (\<lambda>c. c \<noteq> CHR ''/'' \<and> c \<noteq> backslash) (rev path))
      in case strip_suffix ''.exe'' name of Some stem \<Rightarrow> stem | None \<Rightarrow> name)"

fun forecast :: "exec_arm \<Rightarrow> discard_forecast" where
  "forecast (Program path args) =
     (let base = program_basename path; joined = join_with '' '' args in
      if base = ''rm'' \<or> base = ''rmdir'' \<or> base = ''del'' then Suspected base
      else if base = ''git'' \<and> (occurs ''reset --hard'' joined \<or> occurs ''clean'' joined)
        then Suspected (''git '' @ joined)
      else if base = ''find'' \<and> ''-delete'' \<in> set args then Suspected ''find -delete''
      else Clear)"
| "forecast (Python prog) =
     (case find (\<lambda>pattern. occurs pattern prog) (suspect_snippets_text @ suspect_snippets_python) of
        Some pattern \<Rightarrow> Suspected pattern
      | None \<Rightarrow>
          if occurs ''open('' prog \<and> (occurs [CHR 0x27, CHR ''w'', CHR 0x27] prog \<or> occurs [CHR 0x22, CHR ''w'', CHR 0x22] prog)
          then Suspected (''open(..., '' @ [CHR 0x27, CHR ''w'', CHR 0x27] @ '')'')
          else Clear)"
| "forecast (Shell text) =
     (case find (\<lambda>pattern. occurs pattern text) suspect_snippets_text of
        Some pattern \<Rightarrow> Suspected pattern
      | None \<Rightarrow>
          if CHR ''>'' \<in> set text \<and> \<not> occurs ''>>'' text then Suspected ''> truncation'' else Clear)"

section \<open>What passes the fifth door\<close>

lemma occurs_iff: "occurs needle s \<longleftrightarrow> (\<exists>a b. s = a @ needle @ b)"
proof (induction s)
  case (Cons c s)
  have "(\<exists>a b. c # s = a @ needle @ b) \<longleftrightarrow> prefix needle (c # s) \<or> (\<exists>a b. s = a @ needle @ b)"
  proof
    assume "\<exists>a b. c # s = a @ needle @ b"
    then obtain a b where "c # s = a @ needle @ b" by blast
    then show "prefix needle (c # s) \<or> (\<exists>a b. s = a @ needle @ b)"
      by (cases a) (auto simp: prefix_def)
  next
    assume "prefix needle (c # s) \<or> (\<exists>a b. s = a @ needle @ b)"
    then show "\<exists>a b. c # s = a @ needle @ b"
      by (metis append_Cons append_Nil prefix_def)
  qed
  then show ?case using Cons by (simp add: starts_with_iff prefix_def)
qed auto

lemma discard_new_iff:
  "discard_new paths r taint n = Inr d \<longleftrightarrow>
   paths \<noteq> [] \<and> plan_ok r \<and>
   d = \<lparr>discard_paths = paths, discard_plan = r, discard_taint = taint, discard_bytes = n\<rparr>"
  by (auto simp: discard_new_def)

lemma decide_allow_iff:
  "decide req reg = DiscardAllow \<longleftrightarrow>
   (\<exists>d. req = PlannedDiscard d \<and> taint_is_empty (discard_taint d) \<and> length (discard_paths d) \<le> 16 \<and>
      unat (bytes_get (discard_bytes d)) \<le> 1048576 \<and>
      (\<forall>p \<in> set (discard_paths d). \<not> is_asset_at reg p))"
proof (cases req)
  case (PlannedDiscard d)
  have files: "(if length (discard_paths d) \<le> u32_max
        then discard_files_max < of_nat (length (discard_paths d)) else True) \<longleftrightarrow> 16 < length (discard_paths d)"
  proof (cases "length (discard_paths d) \<le> u32_max")
    case True
    then have "unat (of_nat (length (discard_paths d)) :: u32) = length (discard_paths d)"
      by (simp add: unsigned_of_nat take_bit_nat_eq_self u32_max_def)
    then show ?thesis using True by (simp add: discard_files_max_def word_less_nat_alt)
  next
    case False
    then show ?thesis by (simp add: u32_max_def)
  qed
  show ?thesis
    unfolding decide_def PlannedDiscard discard_request.case files
    by (auto simp: discard_bytes_max_def word_less_nat_alt list_ex_iff)
qed (simp add: decide_def)

lemma decide_tainted:
  "\<not> taint_is_empty (discard_taint d) \<Longrightarrow> decide (PlannedDiscard d) reg = DiscardEscalated TaintedReason"
  by (simp add: decide_def)

end
