(* ===== verification/Verdicts.thy ===== *)
theory Verdicts
  imports Plan_Work Tools Budgets
begin

text \<open>
  The kernel's small pure judgments: whether a write's base version is fresh
  (\<open>version.rs\<close>), whether a run repeats itself (\<open>stall.rs\<close>), who may delegate
  (\<open>delegation.rs\<close>), what a city holding a pursuit does next (\<open>pursuit.rs\<close>), what
  configuration a run starts with (\<open>config.rs\<close>), and how work ends (\<open>completion.rs\<close>).
\<close>

section \<open>Versions\<close>

datatype version = Version (version_value: u64)

definition version_first :: version where
  "version_first = Version 1"

definition version_next :: "version \<Rightarrow> (ax_error, version) result" where
  "version_next v =
     (case checked_add (version_value v) 1 of
        Some n \<Rightarrow> Inr (Version n)
      | None \<Rightarrow> Inl (with_recovery ''version space exhausted for this subject''
                  (failure InvalidArgs ''advance version'' (dec_of (unat (version_value v))))))"

datatype version_verdict = Fresh | Stale version

definition check_base :: "version \<Rightarrow> version \<Rightarrow> version_verdict" where
  "check_base current base = (if base = current then Fresh else Stale current)"

text \<open>Of two writers that read the same version, the second is told it is stale.\<close>

lemma second_writer_stale: "version_next v = Inr w \<Longrightarrow> check_base v v = Fresh \<and> check_base w v = Stale w"
proof -
  assume "version_next v = Inr w"
  then have "unat (version_value w) = unat (version_value v) + 1"
    by (auto simp: version_next_def checked_add_Some_iff split: option.splits)
  then have "v \<noteq> w" by auto
  then show ?thesis by (simp add: check_base_def)
qed

section \<open>Stalls\<close>

datatype action_fingerprint = ActionFingerprint b3_hash

definition fingerprint_derive :: "hasher \<Rightarrow> string \<Rightarrow> action_fingerprint" where
  "fingerprint_derive digest action_canonical = ActionFingerprint (digest action_canonical)"

datatype stall_verdict = StallOk | Stall u32

definition loop_repeat_threshold :: u32 where
  "loop_repeat_threshold = 3"

fun count_repeats :: "action_fingerprint \<Rightarrow> action_fingerprint list \<Rightarrow> u32 \<Rightarrow> u32" where
  "count_repeats lst [] repeats = repeats"
| "count_repeats lst (print # older) repeats =
     (if print = lst then count_repeats lst older (saturating_add repeats 1) else repeats)"

definition observe_stall :: "action_fingerprint list \<Rightarrow> stall_verdict" where
  "observe_stall recent =
     (if recent = [] then StallOk
      else (let repeats = count_repeats (last recent) (rev recent) 0
            in if loop_repeat_threshold \<le> repeats then Stall repeats else StallOk))"

definition tail_run :: "action_fingerprint list \<Rightarrow> nat" where
  "tail_run recent = length (takeWhile (\<lambda>p. p = last recent) (rev recent))"

lemma count_repeats_sat:
  "unat (count_repeats lst ps n) =
   min (unat n + length (takeWhile (\<lambda>p. p = lst) ps)) 4294967295"
proof (induction ps arbitrary: n)
  case Nil
  have "unat n < 4294967296" using unsigned_less [of n] by simp
  then have "unat n \<le> 4294967295" by linarith
  then show ?case by (simp add: min_absorb1)
next
  case (Cons p ps)
  have "unat n < 4294967296" using unsigned_less [of n] by simp
  then have "unat n \<le> 4294967295" by linarith
  then show ?case using Cons by (auto simp: unat_saturating_add min_absorb1 min_def)
qed

lemma stall_iff:
  "observe_stall recent = StallOk \<longleftrightarrow> tail_run recent < 3"
  "observe_stall recent = Stall n \<longleftrightarrow> 3 \<le> tail_run recent \<and> unat n = min (tail_run recent) 4294967295"
proof -
  have c: "unat (count_repeats (last recent) (rev recent) 0) = min (tail_run recent) 4294967295"
    by (simp add: count_repeats_sat tail_run_def)
  have nil: "recent = [] \<Longrightarrow> tail_run recent = 0" by (simp add: tail_run_def)
  have t: "loop_repeat_threshold \<le> count_repeats (last recent) (rev recent) 0 \<longleftrightarrow> 3 \<le> tail_run recent"
    by (simp add: loop_repeat_threshold_def word_le_nat_alt c)
  show "observe_stall recent = StallOk \<longleftrightarrow> tail_run recent < 3"
    using nil t by (auto simp: observe_stall_def Let_def)
  show "observe_stall recent = Stall n \<longleftrightarrow> 3 \<le> tail_run recent \<and> unat n = min (tail_run recent) 4294967295"
    using nil t c by (auto simp: observe_stall_def Let_def word_unat_eq_iff)
qed

section \<open>Delegation\<close>

datatype (plugins only: code size) delegate_kind = Resident | Ephemeral

definition delegate_kind_str :: "delegate_kind \<Rightarrow> string" where
  "delegate_kind_str k = (case k of Resident \<Rightarrow> ''resident'' | Ephemeral \<Rightarrow> ''ephemeral'')"

text \<open>The depth-zero position carries nothing; a delegated one carries its kind.\<close>

datatype delegator = Delegator
datatype delegated = Delegated (delegated_kind: delegate_kind)

definition delegate :: "delegator \<Rightarrow> delegate_kind \<Rightarrow> delegated" where
  "delegate at kind = Delegated kind"

datatype (plugins only: code size) depth_of_spawner = RootDepth | DelegatedDepth
datatype (plugins only: code size) delegation_verdict = DelegationAllow | DelegationDeny

definition admit_delegation :: "depth_of_spawner \<Rightarrow> delegate_kind \<Rightarrow> delegation_verdict" where
  "admit_delegation parent kind =
     (case parent of
        RootDepth \<Rightarrow> (case kind of Resident \<Rightarrow> DelegationAllow | Ephemeral \<Rightarrow> DelegationAllow)
      | DelegatedDepth \<Rightarrow> DelegationDeny)"

lemma delegation_iff: "admit_delegation parent kind = DelegationAllow \<longleftrightarrow> parent = RootDepth"
  by (cases parent; cases kind) (simp_all add: admit_delegation_def)

section \<open>Pursuits\<close>

datatype (plugins only: code size) pursuit_state = Running | Paused

record pursuit =
  pursuit_goal :: string
  pursuit_is :: pursuit_state

definition pursuit_declare :: "delegator \<Rightarrow> string \<Rightarrow> (ax_error, pursuit) result" where
  "pursuit_declare at goal =
     (if trim goal = []
      then Inl (with_recovery ''say what the city is working towards, in one sentence''
             (failure InvalidArgs ''declare a pursuit'' ''the goal is blank''))
      else Inr \<lparr>pursuit_goal = goal, pursuit_is = Running\<rparr>)"

definition pursuit_pause :: "pursuit \<Rightarrow> pursuit" where
  "pursuit_pause p = p\<lparr>pursuit_is := Paused\<rparr>"

definition pursuit_resume :: "pursuit \<Rightarrow> pursuit" where
  "pursuit_resume p = p\<lparr>pursuit_is := Running\<rparr>"

datatype pursuit_verdict = Work node_id | Waiting u32 | PursuitPaused | Finished

definition observe_pursuit :: "pursuit_state \<Rightarrow> node_id list \<Rightarrow> u32 \<Rightarrow> pursuit_verdict" where
  "observe_pursuit state rdy in_flight =
     (if state = Paused then PursuitPaused
      else (case rdy of
              nxt # _ \<Rightarrow> Work nxt
            | [] \<Rightarrow> if 0 < in_flight then Waiting in_flight else Finished))"

text \<open>What a pursuit tells a city to work on can be claimed from the plan it read.\<close>

lemma pursuit_work_claimable:
  assumes "tree_shape t" "observe_pursuit state (ready t) n = Work i"
  shows "claim t i = Inr (Held i)"
proof -
  have "i \<in> set (ready t)"
    using assms(2) by (cases "ready t") (auto simp: observe_pursuit_def split: if_splits)
  then show ?thesis using claim_ok_iff [OF assms(1)] by blast
qed

lemma pursuit_finished_iff:
  "observe_pursuit state rdy n = Finished \<longleftrightarrow> state = Running \<and> rdy = [] \<and> n = 0"
  by (cases state; cases rdy) (auto simp: observe_pursuit_def word_gt_0)

section \<open>Configuration\<close>

datatype (plugins only: code size) clock_stamp = Off | Minute | FiveMinute | Hour

record 'a layered =
  layer_city :: "'a option"
  layer_building :: "'a option"
  layer_resident :: "'a option"

definition resolve_layers :: "'a layered \<Rightarrow> 'a option" where
  "resolve_layers v =
     (case layer_resident v of
        Some x \<Rightarrow> Some x
      | None \<Rightarrow> (case layer_building v of Some x \<Rightarrow> Some x | None \<Rightarrow> layer_city v))"

record clock_zone =
  zone_id :: string
  offset_min :: "32 word"

record sandbox_limits =
  allow_shell :: bool
  fuel :: u64
  mounts :: "address list"

definition sandbox_default :: sandbox_limits where
  "sandbox_default = \<lparr>allow_shell = False, fuel = 200000000, mounts = []\<rparr>"

datatype mcp_transport =
    Stdio string "string list"
  | Http string "string option"

record mcp_server =
  mcp_label :: server_label
  transport :: mcp_transport

datatype (plugins only: code size) effort =
  NoEffort | LowEffort | MediumEffort | HighEffort | XHighEffort | MaxEffort

record frozen_config =
  frozen_clock_stamp :: clock_stamp
  frozen_clock_zones :: "clock_zone list"
  frozen_sandbox :: sandbox_limits
  frozen_mcp :: "mcp_server list"
  frozen_effort :: "effort option"

definition or_default :: "'a \<Rightarrow> 'a option \<Rightarrow> 'a" where
  "or_default d x = (case x of None \<Rightarrow> d | Some v \<Rightarrow> v)"

definition freeze ::
  "clock_stamp layered \<Rightarrow> clock_zone list layered \<Rightarrow> effort layered \<Rightarrow> sandbox_limits layered \<Rightarrow>
   mcp_server list layered \<Rightarrow> frozen_config" where
  "freeze stamp zones eff sandbox mcp =
     \<lparr>frozen_clock_stamp = or_default Off (resolve_layers stamp),
      frozen_clock_zones = or_default [] (resolve_layers zones),
      frozen_sandbox = or_default sandbox_default (resolve_layers sandbox),
      frozen_mcp = or_default [] (resolve_layers mcp),
      frozen_effort = resolve_layers eff\<rparr>"

text \<open>A run may use the shell only where the innermost layer that speaks of the sandbox says so.\<close>

lemma shell_needs_a_layer:
  "allow_shell (frozen_sandbox (freeze stamp zones eff sandbox mcp)) \<longleftrightarrow>
   (\<exists>limits. resolve_layers sandbox = Some limits \<and> allow_shell limits)"
  by (cases "resolve_layers sandbox") (simp_all add: freeze_def or_default_def sandbox_default_def)

section \<open>Endings and progress\<close>

datatype completion = CompletedWith evidence_refs | Limit | Cancelled

definition completion_name :: "completion \<Rightarrow> string" where
  "completion_name c = (case c of CompletedWith _ \<Rightarrow> ''done'' | Limit \<Rightarrow> ''limit'' | Cancelled \<Rightarrow> ''cancelled'')"

text \<open>
  The fields an ending adds to an event payload; \<open>kind_json\<close> is serde's encoding of a kind,
  which may refuse with a text.
\<close>

fun cite_refs :: "(event_kind \<Rightarrow> (string, json) result) \<Rightarrow> event_ref list \<Rightarrow> (ax_error, json list) result" where
  "cite_refs kind_json [] = Inr []"
| "cite_refs kind_json (r # refs) =
     (case kind_json (ref_kind r) of
        Inl err \<Rightarrow> Inl (failure InvalidArgs ''encode evidence'' err)
      | Inr k \<Rightarrow>
          bind_r (cite_refs kind_json refs) (\<lambda>rest.
            Inr (JObject (bt_insert ''kind'' k (bt_insert ''seq'' (JNumber (PosInt (ref_seq r))) [])) # rest)))"

definition extend_payload ::
  "(event_kind \<Rightarrow> (string, json) result) \<Rightarrow> completion \<Rightarrow> (string \<times> json) list \<Rightarrow>
   (ax_error, (string \<times> json) list) result" where
  "extend_payload kind_json c m =
     (let m = bt_insert ''completion'' (JString (completion_name c)) m
      in case c of
           CompletedWith ev \<Rightarrow>
             bind_r (cite_refs kind_json (evidence_refs ev)) (\<lambda>cited.
               Inr (bt_insert ''evidence'' (JArray cited) m))
         | Limit \<Rightarrow> Inr m
         | Cancelled \<Rightarrow> Inr m)"

record unplanned_progress =
  steps :: u32
  burned :: budget_use

datatype progress_face = Planned planned_progress | Unplanned unplanned_progress

definition ratio_of :: "planned_progress \<Rightarrow> u32 \<times> u32" where
  "ratio_of p = (done_leaves p, total_leaves p)"

definition weighted_of :: "planned_progress \<Rightarrow> u64 \<times> u64" where
  "weighted_of p = (done_ppb p, whole_ppb)"

end
