(* ===== verification/Secrets.thy ===== *)
theory Secrets
  imports Tools "HOL-Library.Product_Lexorder"
begin

text \<open>
  Secret shapes (\<open>crates/kernel/src/secret.rs\<close>, table in \<open>consts_external.rs\<close>): the
  \<open>secret:\<close> reference, the shape table's hits, the fixed-point entropy judgment, and the
  scan that joins them. Offsets are natural numbers: a slice is never as long as the address
  space.
\<close>

unbundle bit_operations_syntax

section \<open>References\<close>

record secret_ref =
  realm :: string
  secret_name :: string

definition secret_malformed :: "string \<Rightarrow> ax_error" where
  "secret_malformed raw =
     with_recovery ''write secret:<realm>/<name>, both segments non-empty''
       (failure ConfigInvalid ''parse secret reference'' raw)"

definition secret_segment_ok :: "string \<Rightarrow> bool" where
  "secret_segment_ok s \<longleftrightarrow>
     s \<noteq> [] \<and>
     list_all (\<lambda>c. is_ascii_alphanumeric c \<or> c = CHR ''-'' \<or> c = CHR ''_'' \<or> c = CHR ''.'') s"

definition secret_ref_parse :: "string \<Rightarrow> (ax_error, secret_ref) result" where
  "secret_ref_parse raw =
     (case strip_prefix ''secret:'' raw of
        None \<Rightarrow> Inl (secret_malformed raw)
      | Some rest \<Rightarrow>
     (case split_once CHR ''/'' rest of
        None \<Rightarrow> Inl (secret_malformed raw)
      | Some (r, n) \<Rightarrow>
          if \<not> secret_segment_ok r \<or> \<not> secret_segment_ok n \<or> CHR ''/'' \<in> set n
          then Inl (secret_malformed raw)
          else Inr \<lparr>realm = r, secret_name = n\<rparr>))"

definition secret_ref_str :: "secret_ref \<Rightarrow> string" where
  "secret_ref_str s = ''secret:'' @ realm s @ ''/'' @ secret_name s"

definition secret_ref_ok :: "secret_ref \<Rightarrow> bool" where
  "secret_ref_ok s \<longleftrightarrow> secret_segment_ok (realm s) \<and> secret_segment_ok (secret_name s)"

lemma slash_apart:
  "\<not> is_ascii_alphanumeric CHR ''/''"
  by (simp add: is_ascii_alphanumeric_def is_ascii_lower_def is_ascii_upper_def is_digit_def less_eq_char_def)

lemma segment_no_slash: "secret_segment_ok s \<Longrightarrow> CHR ''/'' \<notin> set s"
  using slash_apart unfolding secret_segment_ok_def list_all_iff by auto

lemma secret_ref_steps:
  "secret_ref_parse raw = Inr s \<longleftrightarrow>
   (\<exists>rest. strip_prefix ''secret:'' raw = Some rest \<and>
      split_once CHR ''/'' rest = Some (realm s, secret_name s) \<and> secret_ref_ok s)"
proof -
  have eq: "\<lparr>realm = r, secret_name = n\<rparr> = s \<longleftrightarrow> r = realm s \<and> n = secret_name s" for r n
    by (cases s) auto
  show ?thesis
    using segment_no_slash [of "secret_name s"]
    by (auto simp: secret_ref_parse_def secret_ref_ok_def eq split: option.splits prod.splits)
qed

lemma secret_ref_parse_iff: "secret_ref_parse raw = Inr s \<longleftrightarrow> secret_ref_ok s \<and> secret_ref_str s = raw"
  unfolding secret_ref_steps split_once_Some_iff strip_prefix_Some_iff secret_ref_str_def
  using segment_no_slash [of "realm s"] by (auto simp: secret_ref_ok_def)

interpretation secret_ref: strict_codec secret_ref_parse secret_ref_str secret_ref_ok
  by unfold_locales (simp_all only: secret_ref_parse_iff)

section \<open>The shape table\<close>

datatype (plugins only: code size) secret_charset = Base62 | Base64Url | HexLower | UpperBase36

record secret_shape =
  provider :: string
  shape_prefix :: string
  charset :: secret_charset
  len_min :: nat
  len_max :: nat

definition secret_shapes :: "secret_shape list" where
  "secret_shapes =
     [\<lparr>provider = ''anthropic'', shape_prefix = ''sk-ant-'', charset = Base64Url, len_min = 24, len_max = 120\<rparr>,
      \<lparr>provider = ''openai'', shape_prefix = ''sk-proj-'', charset = Base64Url, len_min = 24, len_max = 200\<rparr>,
      \<lparr>provider = ''github'', shape_prefix = ''ghp_'', charset = Base62, len_min = 36, len_max = 40\<rparr>,
      \<lparr>provider = ''github-oauth'', shape_prefix = ''gho_'', charset = Base62, len_min = 36, len_max = 40\<rparr>,
      \<lparr>provider = ''aws'', shape_prefix = ''AKIA'', charset = UpperBase36, len_min = 16, len_max = 16\<rparr>,
      \<lparr>provider = ''gitlab'', shape_prefix = ''glpat-'', charset = Base64Url, len_min = 20, len_max = 22\<rparr>,
      \<lparr>provider = ''slack'', shape_prefix = ''xoxb-'', charset = Base62, len_min = 24, len_max = 80\<rparr>,
      \<lparr>provider = ''google'', shape_prefix = ''AIza'', charset = Base64Url, len_min = 35, len_max = 35\<rparr>]"

record secret_span =
  span_start :: nat
  span_len :: nat
  span_provider :: "string option"

definition charset_admits :: "secret_charset \<Rightarrow> char \<Rightarrow> bool" where
  "charset_admits cs c =
     (case cs of
        Base62 \<Rightarrow> is_ascii_alphanumeric c
      | Base64Url \<Rightarrow> is_ascii_alphanumeric c \<or> c = CHR ''-'' \<or> c = CHR ''_'' \<or> c = CHR ''=''
      | HexLower \<Rightarrow> is_digit c \<or> CHR ''a'' \<le> c \<and> c \<le> CHR ''f''
      | UpperBase36 \<Rightarrow> is_ascii_upper c \<or> is_digit c)"

text \<open>Where a needle first occurs: \<open>windows(n).position(..)\<close>.\<close>

fun find_at :: "string \<Rightarrow> string \<Rightarrow> nat option" where
  "find_at p [] = (if p = [] then Some 0 else None)"
| "find_at p (c # s) = (if starts_with p (c # s) then Some 0 else map_option Suc (find_at p s))"

lemma find_at_Some:
  "find_at p s = Some k \<longleftrightarrow>
   k \<le> length s \<and> prefix p (drop k s) \<and> (\<forall>j < k. \<not> prefix p (drop j s))"
proof (induction s arbitrary: k)
  case (Cons c s)
  show ?case
  proof (cases "starts_with p (c # s)")
    case True
    then have "prefix p (drop 0 (c # s))" by (simp add: starts_with_iff prefix_def)
    then show ?thesis using True by (auto simp: less_eq_nat.simps split: nat.splits)
  next
    case False
    then have no: "\<not> prefix p (c # s)" by (simp add: starts_with_iff prefix_def)
    show ?thesis
    proof (cases k)
      case 0
      then show ?thesis using False no by auto
    next
      case (Suc m)
      have "(\<forall>j < Suc m. \<not> prefix p (drop j (c # s))) \<longleftrightarrow> (\<forall>j < m. \<not> prefix p (drop j s))"
        using no by (auto simp: less_Suc_eq_0_disj)
      then show ?thesis using Suc False Cons.IH [of m] by auto
    qed
  qed
qed (auto simp: prefix_def)

lemma find_at_None: "find_at p s = None \<Longrightarrow> j \<le> length s \<Longrightarrow> \<not> prefix p (drop j s)"
proof (induction s arbitrary: j)
  case (Cons c s)
  then show ?case by (cases j) (auto simp: starts_with_iff prefix_def split: if_splits)
qed (auto split: if_splits)

section \<open>Shape hits\<close>

definition run_length :: "(char \<Rightarrow> bool) \<Rightarrow> string \<Rightarrow> nat" where
  "run_length P s = length (takeWhile P s)"

lemma run_length_le: "run_length P s \<le> length s"
  by (simp add: run_length_def length_takeWhile_le)

text \<open>The hits of one shape from an offset on; the search resumes after each prefix found.\<close>

function shape_hits :: "secret_shape \<Rightarrow> string \<Rightarrow> nat \<Rightarrow> secret_span list" where
  "shape_hits sh bytes at =
     (if shape_prefix sh = [] \<or> length bytes < length (shape_prefix sh) then []
      else (case find_at (shape_prefix sh) (drop at bytes) of
              None \<Rightarrow> []
            | Some rel \<Rightarrow>
                (let start = at + rel;
                     body_start = start + length (shape_prefix sh);
                     n = length (shape_prefix sh) + run_length (charset_admits (charset sh)) (drop body_start bytes);
                     hit = (if len_min sh \<le> n
                            then [\<lparr>span_start = start, span_len = min n (len_max sh),
                                   span_provider = Some (provider sh)\<rparr>]
                            else [])
                 in hit @ shape_hits sh bytes body_start)))"
  by pat_completeness auto

termination
proof (relation "measure (\<lambda>(sh, bytes, at). length bytes - at)")
  fix sh bytes at rel start body_start n hit
  assume "\<not> (shape_prefix sh = [] \<or> length bytes < length (shape_prefix sh))"
    and rel: "find_at (shape_prefix sh) (drop at bytes) = Some rel"
    and eqs: "start = at + rel" "body_start = start + length (shape_prefix sh)"
  then have ne: "shape_prefix sh \<noteq> []" by simp
  have "prefix (shape_prefix sh) (drop rel (drop at bytes))" using rel by (simp add: find_at_Some)
  then have "length (shape_prefix sh) \<le> length bytes - (rel + at)"
    using prefix_length_le by fastforce
  moreover have "0 < length (shape_prefix sh)" using ne by simp
  ultimately have "at < length bytes \<and> at < body_start" using eqs by linarith
  then show "((sh, bytes, body_start), (sh, bytes, at)) \<in> measure (\<lambda>(sh, bytes, at). length bytes - at)"
    by (simp add: diff_less_mono2)
qed simp

declare shape_hits.simps [simp del]

definition span_key :: "secret_span \<Rightarrow> nat \<times> nat" where
  "span_key h = (span_start h, span_len h)"

definition find_shape_hits :: "string \<Rightarrow> secret_span list" where
  "find_shape_hits bytes = sort_key span_key (concat (map (\<lambda>sh. shape_hits sh bytes 0) secret_shapes))"

section \<open>Entropy\<close>

definition token_byte :: "char \<Rightarrow> bool" where
  "token_byte c \<longleftrightarrow> is_ascii_alphanumeric c \<or> c = CHR ''-'' \<or> c = CHR ''_'' \<or> c = CHR ''+'' \<or> c = CHR ''/''"

definition mixed_alphabet :: "string \<Rightarrow> bool" where
  "mixed_alphabet bytes \<longleftrightarrow>
     list_ex is_ascii_upper bytes \<and> list_ex is_ascii_lower bytes \<and> list_ex is_digit bytes"

definition entropy_span_min_bytes :: nat where
  "entropy_span_min_bytes = 20"

text \<open>\<open>u64::ilog2\<close> of a number above zero.\<close>

fun ilog2 :: "nat \<Rightarrow> nat" where
  "ilog2 n = (if n < 2 then 0 else Suc (ilog2 (n div 2)))"

declare ilog2.simps [simp del]

type_synonym u128 = "128 word"

text \<open>One of the ten rounds of shift-and-square: the mantissa and the fraction so far.\<close>

definition log_round :: "u128 \<times> u64 \<Rightarrow> u128 \<times> u64" where
  "log_round st =
     (let y = drop_bit 32 (saturating_mul (fst st) (fst st)); frac = push_bit 1 (snd st)
      in if push_bit 32 2 \<le> y then (drop_bit 1 y, frac OR 1) else (y, frac))"

definition log2_q10 :: "u64 \<Rightarrow> u64" where
  "log2_q10 x =
     (if x = 0 then 0
      else (let k = ilog2 (unat x);
                mantissa = drop_bit k (push_bit 32 (ucast x :: u128))
            in push_bit 10 (of_nat k) OR snd ((log_round ^^ 10) (mantissa, 0))))"

definition byte_counts :: "string \<Rightarrow> u64 list" where
  "byte_counts bytes = map (\<lambda>b. of_nat (length (filter (\<lambda>c. of_char c = b) bytes))) [0::nat..<256]"

definition entropy_millibits_per_char :: "string \<Rightarrow> u64" where
  "entropy_millibits_per_char bytes =
     (if bytes = [] then 0
      else (let n = of_nat (length bytes) :: u64;
                log_n = log2_q10 n;
                sum_q10 = foldl (\<lambda>s count. if count = 0 then s
                    else saturating_add s (saturating_mul count (saturating_sub log_n (log2_q10 count))))
                  0 (byte_counts bytes)
            in saturating_mul sum_q10 1000 div 1024 div n))"

definition entropy_passes :: "string \<Rightarrow> bool" where
  "entropy_passes bytes \<longleftrightarrow>
     saturating_mul 7 1000 \<le> saturating_mul (entropy_millibits_per_char bytes) 2"

section \<open>The scan\<close>

definition span_overlaps :: "secret_span \<Rightarrow> nat \<Rightarrow> nat \<Rightarrow> bool" where
  "span_overlaps h start n \<longleftrightarrow> span_start h < start + n \<and> start < span_start h + span_len h"

function scan_tokens :: "string \<Rightarrow> nat \<Rightarrow> secret_span list \<Rightarrow> secret_span list" where
  "scan_tokens bytes at hits =
     (if length bytes \<le> at then hits
      else if \<not> token_byte (bytes ! at) then scan_tokens bytes (Suc at) hits
      else (let n = run_length token_byte (drop at bytes);
                run = take n (drop at bytes);
                hits = (if entropy_span_min_bytes \<le> n \<and> \<not> list_ex (\<lambda>h. span_overlaps h at n) hits \<and>
                           mixed_alphabet run \<and> entropy_passes run
                        then hits @ [\<lparr>span_start = at, span_len = n, span_provider = None\<rparr>]
                        else hits)
            in scan_tokens bytes (at + n) hits))"
  by pat_completeness auto

termination
proof (relation "measure (\<lambda>(bytes, at, hits). length bytes - at)")
  fix bytes :: string and at n :: nat and run :: string and hits x :: "secret_span list"
  assume "\<not> length bytes \<le> at" "\<not> \<not> token_byte (bytes ! at)" "n = run_length token_byte (drop at bytes)"
  then have "0 < n" by (simp add: run_length_def Cons_nth_drop_Suc [symmetric])
  then show "((bytes, at + n, x), (bytes, at, hits)) \<in> measure (\<lambda>(bytes, at, hits). length bytes - at)"
    using \<open>\<not> length bytes \<le> at\<close> by simp
qed auto

declare scan_tokens.simps [simp del]

definition scan_secrets :: "string \<Rightarrow> secret_span list" where
  "scan_secrets bytes = sort_key span_key (scan_tokens bytes 0 (find_shape_hits bytes))"

end
