(* ===== verification/Gates.thy ===== *)
theory Gates
  imports Approvals Discards Verdicts Secrets Write_Domains Events
begin

text \<open>
  The doors (\<open>crates/kernel/src/gate.rs\<close>): one function per door, each turning the verdict
  of its own module into allow, escalate with an approval item, or deny with a refusal; the
  egress list; and the spawn admission.
\<close>

section \<open>Outcomes and items\<close>

record gate_context =
  ctx_actor :: string
  ctx_now :: time_ms
  ctx_item :: approval_id

datatype gate_outcome = GateAllow | GateEscalate approval_item | GateDeny ax_error

definition gate_item ::
  "gate_context \<Rightarrow> approval_class \<Rightarrow> string \<Rightarrow> string \<Rightarrow> locator \<Rightarrow> bool \<Rightarrow> approval_item" where
  "gate_item ctx class detail desc artifact is_tainted =
     \<lparr>approval_id = ctx_item ctx, approval_source = GateSource, approval_actor = ctx_actor ctx,
      action_desc = desc, approval_artifact = artifact,
      approval_cluster = \<lparr>cluster_class = class, cluster_detail = detail\<rparr>,
      approval_created = ctx_now ctx, approval_tainted = is_tainted\<rparr>"

section \<open>The Domain door\<close>

definition domain_door :: "write_domain \<Rightarrow> address \<Rightarrow> taint_set \<Rightarrow> gate_outcome" where
  "domain_door d target taint =
     (case admits d target of
        Within \<Rightarrow> GateAllow
      | Outside ps \<Rightarrow>
          (let violation = ''target '' @ addr_str target @ '' is outside the write domain'';
               violation = (if \<not> taint_is_empty taint
                            then violation @ ''; the action derives from '' @ dec_of (taint_len taint) @
                                 '' external source(s)''
                            else violation);
               alternative = (if ps = []
                              then ''this actor writes nowhere; read, or hand the change to an actor with a domain''
                              else ''write under one of: '' @ join_with '', '' ps)
           in GateDeny (with_nearby ps
                (refusal OutsideWriteDomain ''write file'' (addr_str target)
                  (gate_refusal_new ''writes land inside the write domain'' violation alternative)))))"

section \<open>The Egress door\<close>

datatype egress_target_kind =
  Loopback | PrivateNet | Public string | Connector server_label

datatype egress_outcome = EgressAllow bool | EgressDeny ax_error

definition egress :: "secret_span list \<Rightarrow> egress_target_kind \<Rightarrow> bool \<Rightarrow> egress_outcome" where
  "egress spans target prior_public_egress =
     (if spans \<noteq> []
      then (let offsets = map (\<lambda>s. dec_of (span_start s) @ ''+'' @ dec_of (span_len s)) spans
            in EgressDeny (refusal SecretEgress ''send bytes out''
                 (dec_of (length spans) @ '' secret-shaped span(s) at '' @ join_with '', '' offsets)
                 (gate_refusal_new ''credentials leave only as secret: references (C13)''
                   (''the payload carries '' @ dec_of (length spans) @ '' secret-shaped span(s)'')
                   ''replace each span with its secret:<realm>/<name> reference; if a real credential already left, rotation is the only remedy'')))
      else (let leaves_the_machine = (case target of Public _ \<Rightarrow> True | Connector _ \<Rightarrow> True | _ \<Rightarrow> False)
            in EgressAllow (leaves_the_machine \<and> \<not> prior_public_egress)))"

datatype egress_allowlist = EgressAllowlist (suffixes: "string list")

definition allowlist_new :: "string list \<Rightarrow> egress_allowlist" where
  "allowlist_new entries =
     EgressAllowlist (remdups_adj (sort (filter (\<lambda>entry. entry \<noteq> [])
       (map (\<lambda>entry. to_ascii_lowercase (dropWhile (\<lambda>c. c = CHR ''.'') (trim entry))) entries))))"

definition allowlist_is_empty :: "egress_allowlist \<Rightarrow> bool" where
  "allowlist_is_empty l \<longleftrightarrow> suffixes l = []"

definition trim_end_dots :: "string \<Rightarrow> string" where
  "trim_end_dots s = rev (dropWhile (\<lambda>c. c = CHR ''.'') (rev s))"

definition host_admitted :: "egress_allowlist \<Rightarrow> string \<Rightarrow> bool" where
  "host_admitted l host =
     (let host = to_ascii_lowercase (trim_end_dots host)
      in list_ex (\<lambda>allowed. host = allowed \<or>
           (case strip_suffix allowed host of None \<Rightarrow> False | Some head \<Rightarrow> ends_with ''.'' head)) (suffixes l))"

definition egress_target :: "egress_allowlist \<Rightarrow> egress_target_kind \<Rightarrow> egress_outcome" where
  "egress_target l target =
     (case target of
        Connector _ \<Rightarrow> EgressAllow True
      | Loopback \<Rightarrow> EgressAllow False
      | PrivateNet \<Rightarrow> EgressAllow False
      | Public host \<Rightarrow>
          if host_admitted l host then EgressAllow True
          else (let known = suffixes l;
                    alternative = (if known = []
                      then ''this building reaches nothing public; add a domain to its egress list, or do the work in a building that has one''
                      else ''reachable domains here: '' @ join_with '', '' known)
                in EgressDeny (refusal GateDenied ''reach a host outside this building's egress list'' host
                     (gate_refusal_new ''a building reaches only the domains it names''
                       (host @ '' is not one of them'') alternative))))"

section \<open>The Spend door\<close>

definition layer_name :: "budget_layer \<Rightarrow> string" where
  "layer_name layer = (case layer of CityLayer \<Rightarrow> ''city'' | BuildingLayer \<Rightarrow> ''building'' | RunLayer \<Rightarrow> ''run'')"

definition spend_door ::
  "budget_ladder \<Rightarrow> budget_use \<Rightarrow> taint_set \<Rightarrow> gate_context \<Rightarrow> locator \<Rightarrow> gate_outcome" where
  "spend_door ladder cost taint ctx artifact =
     (case admit_spend ladder cost of
        SpendAdmit \<Rightarrow> GateAllow
      | Exhausted layer \<Rightarrow>
          GateEscalate (gate_item ctx BudgetLimitClass (layer_name layer)
            (''continue past the '' @ layer_name layer @ '' budget'') artifact (\<not> taint_is_empty taint)))"

section \<open>The Commitment door\<close>

datatype (plugins only: code size) commitment_decision = Approved | Denied

definition commitment_door ::
  "commitment_decision option \<Rightarrow> taint_set \<Rightarrow> gate_context \<Rightarrow> string \<Rightarrow> locator \<Rightarrow> gate_outcome" where
  "commitment_door decision taint ctx desc artifact =
     (case decision of
        None \<Rightarrow> GateEscalate (gate_item ctx Commitment desc desc artifact (\<not> taint_is_empty taint))
      | Some Approved \<Rightarrow> GateAllow
      | Some Denied \<Rightarrow> GateDeny
          (with_recovery ''the human refused this commitment; change the plan or ask with a different, clearly scoped item''
            (failure ApprovalDenied ''commit outward'' desc)))"

section \<open>The Discard door\<close>

definition reason_detail :: "escalate_reason \<Rightarrow> string \<times> bool" where
  "reason_detail reason =
     (case reason of
        TaintedReason \<Rightarrow> (''tainted'', True)
      | FilesOverMax \<Rightarrow> (''files_over_max'', False)
      | BytesOverMax \<Rightarrow> (''bytes_over_max'', False)
      | RegistryAsset \<Rightarrow> (''registry_asset'', False))"

definition discard_door ::
  "discard_request \<Rightarrow> registry \<Rightarrow> gate_context \<Rightarrow> string \<Rightarrow> locator \<Rightarrow> gate_outcome" where
  "discard_door req reg ctx desc artifact =
     (case decide req reg of
        DiscardAllow \<Rightarrow> GateAllow
      | DiscardEscalated reason \<Rightarrow>
          (case reason_detail reason of (detail, is_tainted) \<Rightarrow>
             GateEscalate (gate_item ctx DiscardEscalate detail desc artifact is_tainted))
      | DiscardDeny NoRestoration \<Rightarrow> GateDeny
          (refusal DiscardIrreversible ''discard files'' desc
            (gate_refusal_new ''every discard carries a resolvable restoration (C14)''
              ''this request names no restoration plan''
              ''split the batch under the thresholds, or inter the originals in CAS (Interred) and retry with that locator'')))"

section \<open>The Delegation and Governance doors\<close>

definition delegation_door ::
  "gate_context \<Rightarrow> address \<Rightarrow> address \<Rightarrow> locator \<Rightarrow> taint_set \<Rightarrow> gate_outcome" where
  "delegation_door ctx asking room artifact taint =
     GateEscalate (gate_item ctx Delegation (addr_str asking)
       (addr_str asking @ '' wants to hand work to another agent, in '' @ addr_str room)
       artifact (\<not> taint_is_empty taint))"

definition proposal_excerpt :: nat where
  "proposal_excerpt = 600"

text \<open>\<open>chars().take(n)\<close>: the first \<open>n\<close> code points, whole.\<close>

fun take_chars :: "nat \<Rightarrow> string \<Rightarrow> string" where
  "take_chars 0 s = []"
| "take_chars (Suc n) s =
     (case next_char s of None \<Rightarrow> [] | Some (c, rest) \<Rightarrow> c @ take_chars n rest)"

definition govern_door ::
  "gate_context \<Rightarrow> address \<Rightarrow> address \<Rightarrow> string \<Rightarrow> locator \<Rightarrow> taint_set \<Rightarrow> gate_outcome" where
  "govern_door ctx asking scope proposal artifact taint =
     (let excerpt = take_chars proposal_excerpt proposal;
          ellipsis = (if proposal_excerpt < char_count proposal then '' ...'' else '''')
      in GateEscalate (gate_item ctx Governance (addr_str asking)
           (addr_str asking @ '' wants to rewrite the rules of '' @ addr_str scope @ '':'' @ [lf] @
            excerpt @ ellipsis)
           artifact (\<not> taint_is_empty taint)))"

section \<open>Spawn admission\<close>

definition kind_name :: "delegate_kind \<Rightarrow> string" where
  "kind_name kind = (case kind of Resident \<Rightarrow> ''Resident'' | Ephemeral \<Rightarrow> ''Ephemeral'')"

definition spawn_door :: "depth_of_spawner \<Rightarrow> delegate_kind \<Rightarrow> gate_outcome" where
  "spawn_door parent kind =
     (case admit_delegation parent kind of
        DelegationAllow \<Rightarrow> GateAllow
      | DelegationDeny \<Rightarrow> GateDeny
          (refusal DelegationDepth ''spawn delegate'' (kind_name kind)
            (gate_refusal_new ''delegates do not delegate: one level deep''
              ''a delegated position requested a spawn''
              ''return this subtask to the resident who spawned you; that resident can delegate it'')))"

section \<open>Knocking\<close>

text \<open>Every question a door that mints items can be asked, and what the door answers.\<close>

datatype knock =
    KnockDomain write_domain address taint_set
  | KnockSpend budget_ladder budget_use taint_set locator
  | KnockCommitment "commitment_decision option" taint_set string locator
  | KnockDiscard discard_request registry string locator
  | KnockDelegation address address locator taint_set
  | KnockGovern address address string locator taint_set
  | KnockSpawn depth_of_spawner delegate_kind

fun answer_door :: "gate_context \<Rightarrow> knock \<Rightarrow> gate_outcome" where
  "answer_door ctx (KnockDomain d target taint) = domain_door d target taint"
| "answer_door ctx (KnockSpend ladder cost taint artifact) = spend_door ladder cost taint ctx artifact"
| "answer_door ctx (KnockCommitment decision taint desc artifact) =
     commitment_door decision taint ctx desc artifact"
| "answer_door ctx (KnockDiscard req reg desc artifact) = discard_door req reg ctx desc artifact"
| "answer_door ctx (KnockDelegation asking room artifact taint) = delegation_door ctx asking room artifact taint"
| "answer_door ctx (KnockGovern asking scope proposal artifact taint) =
     govern_door ctx asking scope proposal artifact taint"
| "answer_door ctx (KnockSpawn parent kind) = spawn_door parent kind"

lemma domain_door_iff:
  "domain_door d target taint = GateAllow \<longleftrightarrow>
   \<not> is_reserved target \<and> (\<exists>p \<in> set (prefixes d). is_within target p)"
  unfolding admits_iff [symmetric] by (simp add: domain_door_def Let_def split: domain_verdict.split)

lemma spend_door_iff:
  "spend_door ladder cost taint ctx artifact = GateAllow \<longleftrightarrow>
   fits (ladder_run ladder) cost \<and> fits (ladder_building ladder) cost \<and> fits (ladder_city ladder) cost"
  unfolding admit_spend_iff(1) [symmetric] by (simp add: spend_door_def split: spend_verdict.split)

lemma commitment_door_iff:
  "commitment_door decision taint ctx desc artifact = GateAllow \<longleftrightarrow> decision = Some Approved"
  by (simp add: commitment_door_def split: option.split commitment_decision.split)

lemma discard_door_iff:
  "discard_door req reg ctx desc artifact = GateAllow \<longleftrightarrow> decide req reg = DiscardAllow"
  by (simp add: discard_door_def split: discard_verdict.split deny_reason.split prod.split)

lemma spawn_door_iff: "spawn_door parent kind = GateAllow \<longleftrightarrow> parent = RootDepth"
  unfolding delegation_iff [of parent kind, symmetric]
  by (simp add: spawn_door_def split: delegation_verdict.split)

lemma door_always_asks [simp]:
  "delegation_door ctx asking room artifact taint \<noteq> GateAllow"
  "govern_door ctx asking scope proposal artifact taint \<noteq> GateAllow"
  by (simp_all add: delegation_door_def govern_door_def Let_def)

text \<open>Whoever knocks, an item names the asker, comes from a gate, and is in no agent's own class.\<close>

definition minted_by_gate :: "gate_context \<Rightarrow> approval_item \<Rightarrow> bool" where
  "minted_by_gate ctx it \<longleftrightarrow>
     approval_source it = GateSource \<and> approval_actor it = ctx_actor ctx \<and>
     approval_id it = ctx_item ctx \<and> approval_created it = ctx_now ctx \<and>
     cluster_class (approval_cluster it) \<noteq> AgentQuestion"

lemma minted [simp]: "minted_by_gate ctx (gate_item ctx cls detail desc artifact t) \<longleftrightarrow> cls \<noteq> AgentQuestion"
  by (simp add: minted_by_gate_def gate_item_def)

lemma escalated_item:
  assumes "answer_door ctx k = GateEscalate it"
  shows "minted_by_gate ctx it"
  using assms
  by (cases "(ctx, k)" rule: answer_door.cases)
    (auto simp: domain_door_def spend_door_def commitment_door_def discard_door_def delegation_door_def
      govern_door_def spawn_door_def Let_def
      split: domain_verdict.splits spend_verdict.splits option.splits commitment_decision.splits
        discard_verdict.splits deny_reason.splits prod.splits delegation_verdict.splits)

lemma no_policy_matches:
  assumes "answer_door ctx k = GateEscalate it"
  shows "match_item p it = NotApplicable"
  using escalated_item [OF assms] match_item_iff [of p it] match_item_other [of p it]
  by (auto simp: minted_by_gate_def)

text \<open>The doors on money, promises and deletions raise items that only a person may answer.\<close>

fun grave :: "knock \<Rightarrow> bool" where
  "grave (KnockSpend _ _ _ _) \<longleftrightarrow> True"
| "grave (KnockCommitment _ _ _ _) \<longleftrightarrow> True"
| "grave (KnockDiscard _ _ _ _) \<longleftrightarrow> True"
| "grave _ \<longleftrightarrow> False"

lemma grave_items_are_human_only:
  assumes "answer_door ctx k = GateEscalate it" "grave k"
  shows "human_only it"
  using assms
  by (cases k)
    (auto simp: spend_door_def commitment_door_def discard_door_def gate_item_def human_only_def
      split: spend_verdict.splits option.splits commitment_decision.splits discard_verdict.splits
        deny_reason.splits prod.splits)

lemma denial_codes:
  assumes "answer_door ctx k = GateDeny e"
  shows "code e \<in> {OutsideWriteDomain, ApprovalDenied, DiscardIrreversible, DelegationDepth}"
    and "code e \<noteq> ApprovalDenied \<Longrightarrow> gate e \<noteq> None"
    and "code e = ApprovalDenied \<Longrightarrow> gate e = None"
  using assms
  by (cases "(ctx, k)" rule: answer_door.cases;
      auto simp: domain_door_def spend_door_def commitment_door_def discard_door_def delegation_door_def
      govern_door_def spawn_door_def Let_def refusal_def failure_def with_nearby_def with_recovery_def
      split: domain_verdict.splits spend_verdict.splits option.splits commitment_decision.splits
        discard_verdict.splits deny_reason.splits prod.splits delegation_verdict.splits)+

section \<open>The egress list speaks labels\<close>

definition labels :: "string \<Rightarrow> string list" where
  "labels host = split_on CHR ''.'' host"

definition host_name :: "string \<Rightarrow> string" where
  "host_name host = to_ascii_lowercase (trim_end_dots host)"

lemma ends_with_dot: "ends_with ''.'' head \<longleftrightarrow> (\<exists>h. head = h @ ''.'')"
  by (simp add: ends_with_iff)

lemma label_suffix:
  "(host = e \<or> (\<exists>h. host = h @ CHR ''.'' # e)) \<longleftrightarrow> suffix (labels e) (labels host)"
proof
  assume "host = e \<or> (\<exists>h. host = h @ CHR ''.'' # e)"
  then show "suffix (labels e) (labels host)"
    by (auto simp: labels_def split_on_sep suffix_def)
next
  assume "suffix (labels e) (labels host)"
  then obtain pre where pre: "labels host = pre @ labels e" by (auto simp: suffix_def)
  show "host = e \<or> (\<exists>h. host = h @ CHR ''.'' # e)"
  proof (cases "pre = []")
    case True
    then show ?thesis using pre by (metis append_Nil join_split labels_def)
  next
    case False
    then have "host = join_with ''.'' pre @ ''.'' @ e"
      using pre join_with_append [of pre "labels e" "''.''"]
      by (metis join_split labels_def split_on_not_Nil)
    then show ?thesis by auto
  qed
qed

lemma host_admitted_labels:
  "host_admitted l host \<longleftrightarrow> (\<exists>e \<in> set (suffixes l). suffix (labels e) (labels (host_name host)))"
proof -
  have "(case strip_suffix e h of None \<Rightarrow> False | Some head \<Rightarrow> ends_with ''.'' head) \<longleftrightarrow>
      (\<exists>x. h = x @ CHR ''.'' # e)" for e h
  proof (cases "strip_suffix e h")
    case None
    then have "h \<noteq> x @ CHR ''.'' # e" for x
      using strip_suffix_Some_iff [of e h "x @ ''.''"] by auto
    then show ?thesis using None by simp
  next
    case (Some head)
    then have "h = head @ e" by (simp add: strip_suffix_Some_iff)
    then show ?thesis using Some by (auto simp: ends_with_dot)
  qed
  then show ?thesis
    by (simp add: host_admitted_def Let_def list_ex_iff host_name_def [symmetric] label_suffix)
qed

lemma allowlist_entries:
  "e \<in> set (suffixes (allowlist_new entries)) \<longleftrightarrow>
   e \<noteq> [] \<and> (\<exists>raw \<in> set entries. e = to_ascii_lowercase (dropWhile (\<lambda>c. c = CHR ''.'') (trim raw)))"
  by (auto simp: allowlist_new_def)

text \<open>An entry written as an absolute name, with the root's dot at its end, admits no host.\<close>

lemma trim_end_dots_last: "trim_end_dots s \<noteq> [] \<Longrightarrow> last (trim_end_dots s) \<noteq> CHR ''.''"
  unfolding trim_end_dots_def by (metis (mono_tags) hd_dropWhile last_rev rev_is_Nil_conv)

lemma ascii_lower_dot: "ascii_lower c = CHR ''.'' \<Longrightarrow> c = CHR ''.''"
proof (cases "65 \<le> (of_char c :: nat) \<and> (of_char c :: nat) \<le> 90")
  case True
  assume "ascii_lower c = CHR ''.''"
  then have "(of_char (ascii_lower c) :: nat) = 46" by simp
  moreover have "(of_char (ascii_lower c) :: nat) = of_char c + 32"
    using True by (simp add: ascii_lower_def)
  ultimately have False using True by linarith
  then show ?thesis ..
qed (simp add: ascii_lower_def)

lemma absolute_entry_admits_nothing:
  "\<not> host_admitted (EgressAllowlist [e @ ''.'']) host"
proof
  assume "host_admitted (EgressAllowlist [e @ ''.'']) host"
  then have "suffix (labels (e @ ''.'')) (labels (host_name host))"
    by (simp add: host_admitted_labels)
  then have "host_name host = e @ ''.'' \<or> (\<exists>h. host_name host = h @ CHR ''.'' # e @ ''.'')"
    by (simp add: label_suffix)
  then have "host_name host \<noteq> []" "last (host_name host) = CHR ''.''" by auto
  then have ne: "trim_end_dots host \<noteq> []" and "ascii_lower (last (trim_end_dots host)) = CHR ''.''"
    by (auto simp: host_name_def to_ascii_lowercase_def last_map)
  then show False using ascii_lower_dot trim_end_dots_last by blast
qed

section \<open>The excerpt a person is shown\<close>

lemma take_chars_prefix: "prefix (take_chars n s) s"
proof (induction n s rule: take_chars.induct)
  case (2 n s)
  show ?case
  proof (cases s)
    case (Cons c r)
    then have "prefix (take_chars n (dropWhile continues r)) (dropWhile continues r)" using 2 by simp
    then show ?thesis using Cons by (auto simp: prefix_def) (metis append.assoc takeWhile_dropWhile_id)
  qed simp
qed simp

text \<open>Whatever a door escalates is an item of that door's asker which no standing policy answers; an item about money, promises or deletions can be answered by no resident, whatever the autonomy.\<close>

lemma gate_items_need_people:
  assumes "answer_door ctx k = GateEscalate it"
  shows "(approval_source it = GateSource \<and> approval_actor it = ctx_actor ctx \<and> match_item p it = NotApplicable) \<and>
    (grave k \<longrightarrow> may_answer auto it (ResidentAnswerer r) \<noteq> May)"
  using escalated_item [OF assms] no_policy_matches [OF assms, of p] grave_items_are_human_only [OF assms]
  by (auto simp: minted_by_gate_def may_answer_iff)

end
