(* ===== verification/Idem_Keys.thy ===== *)
theory Idem_Keys
  imports Codecs Locators Events
begin

text \<open>
  Idempotency keys (\<open>crates/kernel/src/idem.rs\<close>) and the dedup judgment of
  \<open>gate.rs\<close>. BLAKE3's extendable output is not under \<open>src/\<close>: it is a parameter that
  gives the first sixteen bytes of its output for a byte string. What is proved is that the
  framing in front of it never lets two different actions hash the same bytes.
\<close>

section \<open>Bytes of words\<close>

definition byte_of :: "'a::len word \<Rightarrow> nat \<Rightarrow> u8" where
  "byte_of w i = ucast (drop_bit (8 * i) w)"

text \<open>\<open>to_le_bytes\<close> of a 64-bit number; a UUID's bytes run the other way.\<close>

definition le_bytes :: "u64 \<Rightarrow> u8 list" where
  "le_bytes w = map (byte_of w) [0..<8]"

definition run_bytes :: "run_id \<Rightarrow> u8 list" where
  "run_bytes r = map (byte_of r) (rev [0..<16])"

lemma length_bytes [simp]: "length (le_bytes w) = 8" "length (run_bytes r) = 16"
  by (simp_all add: le_bytes_def run_bytes_def)

lemma bit_byte_of: "k < 8 \<Longrightarrow> bit (byte_of w i) k \<longleftrightarrow> bit w (8 * i + k)"
  by (simp add: byte_of_def bit_ucast_iff bit_drop_bit_eq)

lemma byte_of_inj:
  fixes v w :: "'a::len word"
  assumes "LENGTH('a) \<le> 8 * n" "\<And>i. i < n \<Longrightarrow> byte_of v i = byte_of w i"
  shows "v = w"
proof (rule bit_word_eqI)
  fix m assume "m < LENGTH('a)"
  then have "m div 8 < n" using assms(1) by linarith
  then have "byte_of v (m div 8) = byte_of w (m div 8)" by (rule assms(2))
  moreover have "m mod 8 < 8" by simp
  ultimately have "bit v (8 * (m div 8) + m mod 8) \<longleftrightarrow> bit w (8 * (m div 8) + m mod 8)"
    using bit_byte_of by metis
  then show "bit v m \<longleftrightarrow> bit w m" by simp
qed

lemma le_bytes_inj: "le_bytes v = le_bytes w \<longleftrightarrow> v = w"
  by (auto simp: le_bytes_def intro: byte_of_inj [where n = 8])

lemma run_bytes_inj: "run_bytes r = run_bytes s \<longleftrightarrow> r = s"
  by (auto simp: run_bytes_def intro: byte_of_inj [where n = 16])

section \<open>Keys\<close>

record idem_key =
  key_v :: u8
  key_digest :: "u8 list"

definition idem_derive_v :: u8 where
  "idem_derive_v = 1"

definition idem_frame :: "run_id \<Rightarrow> seq \<Rightarrow> u8 list \<Rightarrow> u8 list" where
  "idem_frame run s action_canonical = run_bytes run @ le_bytes s @ action_canonical"

definition idem_derive :: "(u8 list \<Rightarrow> u8 list) \<Rightarrow> run_id \<Rightarrow> seq \<Rightarrow> u8 list \<Rightarrow> idem_key" where
  "idem_derive xof16 run s action_canonical =
     \<lparr>key_v = idem_derive_v, key_digest = xof16 (idem_frame run s action_canonical)\<rparr>"

definition idem_parse :: "string \<Rightarrow> idem_key option" where
  "idem_parse raw =
     (case strip_prefix ''idem'' raw of
        None \<Rightarrow> None
      | Some rest \<Rightarrow>
     (case split_once CHR ''-'' rest of
        None \<Rightarrow> None
      | Some (v_raw, hex) \<Rightarrow>
          if v_raw \<noteq> ''1'' then None
          else (case decode_hex_fixed 16 hex of
                  None \<Rightarrow> None
                | Some digest \<Rightarrow> Some \<lparr>key_v = idem_derive_v, key_digest = digest\<rparr>)))"

definition idem_str :: "idem_key \<Rightarrow> string" where
  "idem_str key = ''idem'' @ dec_of (unat (key_v key)) @ ''-'' @ write_hex (key_digest key)"

definition idem_deserialize :: "string \<Rightarrow> (string, idem_key) result" where
  "idem_deserialize raw =
     (case idem_parse raw of
        None \<Rightarrow> Inl ''expected `idem1-` plus 32 lowercase hex digits''
      | Some key \<Rightarrow> Inr key)"

section \<open>One spelling per key, one key per action\<close>

definition idem_ok :: "idem_key \<Rightarrow> bool" where
  "idem_ok key \<longleftrightarrow> key_v key = idem_derive_v \<and> length (key_digest key) = 16"

lemma idem_str_one: "key_v key = idem_derive_v \<Longrightarrow> idem_str key = ''idem1-'' @ write_hex (key_digest key)"
proof -
  have "digit_char 1 = CHR ''1''" by code_simp
  then show "key_v key = idem_derive_v \<Longrightarrow> idem_str key = ''idem1-'' @ write_hex (key_digest key)"
    by (simp add: idem_str_def idem_derive_v_def dec_of.simps)
qed

lemma idem_parse_iff: "idem_parse raw = Some key \<longleftrightarrow> idem_ok key \<and> idem_str key = raw"
proof -
  have eq: "\<lparr>key_v = idem_derive_v, key_digest = d\<rparr> = key \<longleftrightarrow>
      key_v key = idem_derive_v \<and> d = key_digest key" for d
    by (cases key) auto
  have "idem_parse raw = Some key \<longleftrightarrow>
      (\<exists>rest. strip_prefix ''idem'' raw = Some rest \<and>
        (\<exists>hex. split_once CHR ''-'' rest = Some (''1'', hex) \<and>
          key_v key = idem_derive_v \<and> decode_hex_fixed 16 hex = Some (key_digest key)))"
    by (auto simp: idem_parse_def eq split: option.splits prod.splits if_splits)
  also have "\<dots> \<longleftrightarrow> idem_ok key \<and> ''idem1-'' @ write_hex (key_digest key) = raw"
    by (auto simp: strip_prefix_Some_iff split_once_Some_iff decode_hex_iff idem_ok_def)
  also have "\<dots> \<longleftrightarrow> idem_ok key \<and> idem_str key = raw"
    using idem_str_one [of key] by (auto simp: idem_ok_def)
  finally show ?thesis .
qed

lemma idem_deserialize_iff: "idem_deserialize raw = Inr key \<longleftrightarrow> idem_ok key \<and> idem_str key = raw"
  unfolding idem_parse_iff [symmetric] by (simp add: idem_deserialize_def split: option.split)

interpretation idem: strict_codec idem_deserialize idem_str idem_ok
  by unfold_locales (simp_all only: idem_deserialize_iff)

lemma idem_frame_inj:
  "idem_frame r s a = idem_frame r' s' a' \<longleftrightarrow> r = r' \<and> s = s' \<and> a = a'"
  by (auto simp: idem_frame_def run_bytes_inj le_bytes_inj)

lemma idem_derive_inj:
  assumes "inj xof16"
  shows "idem_derive xof16 r s a = idem_derive xof16 r' s' a' \<longleftrightarrow> r = r' \<and> s = s' \<and> a = a'"
  using assms idem_frame_inj by (auto simp: idem_derive_def inj_eq)

lemma idem_derive_ok: "length (xof16 (idem_frame r s a)) = 16 \<Longrightarrow> idem_ok (idem_derive xof16 r s a)"
  by (simp add: idem_ok_def idem_derive_def)

section \<open>Dedup\<close>

datatype (plugins only: code size) dedup_verdict = FreshKey | DuplicateKey

text \<open>The seen set is the caller's; only membership in it counts.\<close>

definition dedup :: "idem_key list \<Rightarrow> idem_key \<Rightarrow> dedup_verdict" where
  "dedup seen key = (if key \<in> set seen then DuplicateKey else FreshKey)"

text \<open>
  A caller that records each fresh key performs each action at most once, however often a
  resumed run derives it again.
\<close>

fun performed :: "idem_key list \<Rightarrow> idem_key list \<Rightarrow> idem_key list" where
  "performed seen [] = []"
| "performed seen (key # rest) =
     (case dedup seen key of
        DuplicateKey \<Rightarrow> performed seen rest
      | FreshKey \<Rightarrow> key # performed (key # seen) rest)"

lemma performed_once:
  "distinct (performed seen keys) \<and> set (performed seen keys) = set keys - set seen"
proof (induction keys arbitrary: seen)
  case (Cons key rest)
  show ?case
  proof (cases "key \<in> set seen")
    case True
    then show ?thesis using Cons [of seen] by (auto simp: dedup_def)
  next
    case False
    then show ?thesis using Cons [of "key # seen"] by (auto simp: dedup_def)
  qed
qed simp

end
