(* ===== verification/Grounds.thy ===== *)
theory Grounds
  imports Write_Domains Events
begin

text \<open>
  Two claims on the same ground: goals (\<open>crates/kernel/src/goal.rs\<close>) and repair leases
  (\<open>crates/kernel/src/repair.rs\<close>). Both judge overlap either way, which the contract of a
  territory turns into sharing an address.
\<close>

section \<open>Goals\<close>

datatype goal_id = GoalId (goal_str: string)

definition goal_id_new :: "string \<Rightarrow> goal_id option" where
  "goal_id_new raw = (if raw = [] then None else Some (GoalId raw))"

datatype goal_resource = Path address | External string

record goal_entry =
  goal_id :: goal_id
  goal_owner :: string
  resources :: "goal_resource list"
  statement :: string
  standing :: bool

datatype goal_verdict = GoalClear | GoalConflictWith goal_id

fun resources_clash :: "goal_resource \<Rightarrow> goal_resource \<Rightarrow> bool" where
  "resources_clash (Path pa) (Path pb) \<longleftrightarrow> is_within pa pb \<or> is_within pb pa"
| "resources_clash (External ea) (External eb) \<longleftrightarrow> ea = eb"
| "resources_clash (Path _) (External _) \<longleftrightarrow> False"
| "resources_clash (External _) (Path _) \<longleftrightarrow> False"

fun detect_conflict :: "goal_entry list \<Rightarrow> goal_entry \<Rightarrow> goal_verdict" where
  "detect_conflict [] candidate = GoalClear"
| "detect_conflict (entry # registered) candidate =
     (if goal_id entry = goal_id candidate then detect_conflict registered candidate
      else if list_ex (\<lambda>held. list_ex (\<lambda>wanted. resources_clash held wanted) (resources candidate)) (resources entry)
      then GoalConflictWith (goal_id entry)
      else detect_conflict registered candidate)"

text \<open>What a resource covers: the addresses within a path, or one outside name.\<close>

definition covers :: "goal_resource \<Rightarrow> (address + string) set" where
  "covers r = (case r of Path p \<Rightarrow> Inl ` {a. is_within a p} | External e \<Rightarrow> {Inr e})"

definition ground_of :: "goal_entry \<Rightarrow> (address + string) set" where
  "ground_of g = (\<Union>r \<in> set (resources g). covers r)"

lemma clash_iff: "resources_clash r s \<longleftrightarrow> covers r \<inter> covers s \<noteq> {}"
proof (cases r; cases s)
  fix p q
  assume "r = Path p" "s = Path q"
  then show ?thesis using ground.meet_iff [of p q] by (auto simp: covers_def)
qed (auto simp: covers_def)

lemma clash_sym: "resources_clash r s \<longleftrightarrow> resources_clash s r"
  by (auto simp: clash_iff)

lemma entry_clash_iff:
  "list_ex (\<lambda>held. list_ex (\<lambda>wanted. resources_clash held wanted) (resources g)) (resources e) \<longleftrightarrow>
   ground_of e \<inter> ground_of g \<noteq> {}"
  by (auto simp: list_ex_iff clash_iff ground_of_def)

definition rivals :: "goal_entry list \<Rightarrow> goal_entry \<Rightarrow> goal_entry list" where
  "rivals registered g =
     filter (\<lambda>e. goal_id e \<noteq> goal_id g \<and> ground_of e \<inter> ground_of g \<noteq> {}) registered"

lemma detect_conflict_rivals:
  "detect_conflict registered g =
   (case rivals registered g of [] \<Rightarrow> GoalClear | e # _ \<Rightarrow> GoalConflictWith (goal_id e))"
  by (induction registered) (simp_all add: rivals_def entry_clash_iff)

text \<open>A table that grew one clear goal at a time never holds two goals on the same ground.\<close>

fun register_all :: "goal_entry list \<Rightarrow> goal_entry list \<Rightarrow> goal_entry list" where
  "register_all table [] = table"
| "register_all table (g # gs) =
     (if detect_conflict table g = GoalClear then register_all (table @ [g]) gs else register_all table gs)"

definition apart :: "goal_entry list \<Rightarrow> bool" where
  "apart table \<longleftrightarrow>
     (\<forall>e \<in> set table. \<forall>g \<in> set table. goal_id e \<noteq> goal_id g \<longrightarrow> ground_of e \<inter> ground_of g = {})"

lemma clear_iff: "detect_conflict table g = GoalClear \<longleftrightarrow>
  (\<forall>e \<in> set table. goal_id e \<noteq> goal_id g \<longrightarrow> ground_of e \<inter> ground_of g = {})"
proof -
  have "detect_conflict table g = GoalClear \<longleftrightarrow> rivals table g = []"
    unfolding detect_conflict_rivals by (cases "rivals table g") simp_all
  then show ?thesis by (auto simp: rivals_def filter_empty_conv)
qed

lemma register_apart: "apart table \<Longrightarrow> apart (register_all table gs)"
proof (induction table gs rule: register_all.induct)
  case (2 table g gs)
  have "apart (table @ [g])" if "detect_conflict table g = GoalClear"
    using 2(3) that unfolding clear_iff by (auto simp: apart_def)
  with 2 show ?case by simp
qed simp

section \<open>Repair leases\<close>

datatype repair_verdict = Lease | Queued run_id

fun repair_request :: "(address, run_id) btree \<Rightarrow> address \<Rightarrow> run_id \<Rightarrow> repair_verdict" where
  "repair_request [] scope who = Lease"
| "repair_request ((held, holder) # active) scope who =
     (if \<not> (is_within scope held \<or> is_within held scope) then repair_request active scope who
      else if held = scope \<and> holder = who then Lease
      else Queued holder)"

definition overlapping :: "address \<Rightarrow> address \<Rightarrow> bool" where
  "overlapping a b \<longleftrightarrow> (\<exists>x. is_within x a \<and> is_within x b)"

lemma overlapping_iff: "overlapping a b \<longleftrightarrow> is_within a b \<or> is_within b a"
  unfolding overlapping_def by (rule ground.meet_iff)

lemma repair_request_iff:
  "repair_request active scope who =
   (case find (\<lambda>(held, _). overlapping scope held) active of
      None \<Rightarrow> Lease
    | Some (held, holder) \<Rightarrow> if held = scope \<and> holder = who then Lease else Queued holder)"
proof (induction active)
  case (Cons kv active)
  obtain held holder where kv: "kv = (held, holder)" by (cases kv)
  show ?case
    using Cons.IH overlapping_iff [of scope held] unfolding kv by (cases "overlapping scope held") simp_all
qed simp

text \<open>Leases that are granted keep their zones apart: at most one lease covers any address.\<close>

definition leases_apart :: "(address, run_id) btree \<Rightarrow> bool" where
  "leases_apart active \<longleftrightarrow>
     bt_ok active \<and> (\<forall>a \<in> set (bt_keys active). \<forall>b \<in> set (bt_keys active). a \<noteq> b \<longrightarrow> \<not> overlapping a b)"

lemma overlapping_sym: "overlapping a b \<longleftrightarrow> overlapping b a"
  by (auto simp: overlapping_def)

lemma granted_apart:
  assumes "leases_apart active" "repair_request active scope who = Lease"
  shows "leases_apart (bt_insert scope who active)"
    and "bt_get active scope \<noteq> None \<Longrightarrow> bt_get active scope = Some who"
proof -
  have ok: "bt_ok active" using assms(1) by (simp add: leases_apart_def)
  have mem: "(a, h) \<in> set active \<Longrightarrow> a \<in> set (bt_keys active)" for a h
    by (force simp: bt_keys_def)
  have other: "b = scope" if b: "b \<in> set (bt_keys active)" "overlapping scope b" for b
  proof -
    obtain h where bh: "(b, h) \<in> set active" using b(1) by (auto simp: bt_keys_def)
    then have "find (\<lambda>(held, _). overlapping scope held) active \<noteq> None"
      using b(2) by (auto simp: find_None_iff)
    then obtain a k where ak: "find (\<lambda>(held, _). overlapping scope held) active = Some (a, k)" by auto
    then have "a = scope" using assms(2) by (auto simp: repair_request_iff split: if_splits)
    moreover have "a \<in> set (bt_keys active)" using ak mem by (auto simp: find_Some_iff) (metis nth_mem)
    ultimately show ?thesis using assms(1) b by (auto simp: leases_apart_def)
  qed
  show "leases_apart (bt_insert scope who active)"
    using assms(1) other overlapping_sym bt_ok_insert [OF ok]
    unfolding leases_apart_def bt_keys_insert by blast
  assume "bt_get active scope \<noteq> None"
  then obtain h where h: "bt_get active scope = Some h" by blast
  then have sh: "(scope, h) \<in> set active" using bt_get_mem [OF ok] by blast
  have self: "overlapping scope scope" by (auto simp: overlapping_iff ground.within_refl)
  have "find (\<lambda>(held, _). overlapping scope held) active \<noteq> None"
    using sh self by (auto simp: find_None_iff)
  then obtain a k where ak: "find (\<lambda>(held, _). overlapping scope held) active = Some (a, k)" by auto
  then have aw: "a = scope \<and> k = who" using assms(2) by (auto simp: repair_request_iff split: if_splits)
  have "(a, k) \<in> set active" using ak by (auto simp: find_Some_iff) (metis nth_mem)
  then have "bt_get active scope = Some who" using aw bt_get_mem [OF ok] by blast
  then show "bt_get active scope = Some who" .
qed

text \<open>A goal is clear exactly when no other registered goal holds ground it wants, whole subtrees of files counted; goals registered one after another only when clear never share ground.\<close>

lemma goals_keep_apart:
  "(detect_conflict table g = GoalClear \<longleftrightarrow>
      \<not> (\<exists>e. e \<in> set table \<and> goal_id e \<noteq> goal_id g \<and> ground_of e \<inter> ground_of g \<noteq> {})) \<and>
   apart (register_all [] gs)"
  using clear_iff [of table g] register_apart [of "[]" gs] by (auto simp: apart_def)

end
