(* ===== verification/Arbiters.thy ===== *)
theory Arbiters
  imports Grounds Ordered_Maps
begin

text \<open>
  Who settles a clash of two goals (\<open>crates/collab/src/arbiter.rs\<close>): nobody has to judge, a
  resident reads both, or the person decides.
\<close>

datatype (plugins only: code size) escalation = GateRefused | Intent | ArbitrationExhausted

definition escalation_str :: "escalation \<Rightarrow> string" where
  "escalation_str e =
     (case e of GateRefused \<Rightarrow> ''gate_refused'' | Intent \<Rightarrow> ''intent''
      | ArbitrationExhausted \<Rightarrow> ''arbitration_exhausted'')"

datatype level = Serialize goal_id | Arbitrate goal_id | Owner goal_id escalation

record circumstance =
  gate_refused :: bool
  touches_intent :: bool
  arbitration_tried :: bool

fun is_path :: "goal_resource \<Rightarrow> bool" where
  "is_path (Path _) = True"
| "is_path (External _) = False"

definition arbitrate :: "goal_entry list \<Rightarrow> goal_entry \<Rightarrow> circumstance \<Rightarrow> level option" where
  "arbitrate registered candidate c =
     (case detect_conflict registered candidate of
        GoalClear \<Rightarrow> None
      | GoalConflictWith w \<Rightarrow>
          if gate_refused c then Some (Owner w GateRefused)
          else if touches_intent c then Some (Owner w Intent)
          else if arbitration_tried c then Some (Owner w ArbitrationExhausted)
          else
            (let held = find (\<lambda>entry. goal_id entry = w) registered;
                 mechanical = (case held of
                   None \<Rightarrow> False
                 | Some entry \<Rightarrow> standing entry \<noteq> standing candidate \<and>
                     list_all is_path (resources entry @ resources candidate))
             in if mechanical then Some (Serialize w) else Some (Arbitrate w)))"

definition conflict_payload :: "goal_entry \<Rightarrow> level \<Rightarrow> (ax_error, payload) result" where
  "conflict_payload candidate l =
     (let m = bt_insert ''goal'' (JString (goal_str (goal_id candidate))) [];
          (w, name, because) = (case l of
             Serialize w \<Rightarrow> (w, ''serialize'', None)
           | Arbitrate w \<Rightarrow> (w, ''arbitrate'', None)
           | Owner w why \<Rightarrow> (w, ''owner'', Some why));
          m = bt_insert ''with'' (JString (goal_str w)) m;
          m = bt_insert ''level'' (JString name) m;
          m = (case because of None \<Rightarrow> m | Some why \<Rightarrow> bt_insert ''because'' (JString (escalation_str why)) m)
      in payload_new m)"

section \<open>Which level a clash reaches\<close>

fun settles_with :: "level \<Rightarrow> goal_id" where
  "settles_with (Serialize w) = w"
| "settles_with (Arbitrate w) = w"
| "settles_with (Owner w _) = w"

lemma arbitrate_None: "arbitrate registered g c = None \<longleftrightarrow> detect_conflict registered g = GoalClear"
  by (auto simp: arbitrate_def Let_def split: goal_verdict.split)

lemma arbitrate_with: "arbitrate registered g c = Some l \<Longrightarrow> detect_conflict registered g = GoalConflictWith (settles_with l)"
  by (auto simp: arbitrate_def Let_def split: goal_verdict.splits if_splits)

text \<open>The person decides exactly when a gate refused, intent is touched or reading was tried.\<close>

lemma arbitrate_owner:
  "arbitrate registered g c = Some l \<Longrightarrow>
   (\<exists>w why. l = Owner w why) \<longleftrightarrow> gate_refused c \<or> touches_intent c \<or> arbitration_tried c"
  by (auto simp: arbitrate_def Let_def split: goal_verdict.splits if_splits option.splits)

lemma detect_conflict_holder:
  "detect_conflict registered g = GoalConflictWith w \<Longrightarrow>
   \<exists>e. find (\<lambda>e. goal_id e = w) registered = Some e \<and> goal_id e = w"
  by (induction registered g rule: detect_conflict.induct) (auto split: if_splits)

text \<open>
  Nobody has to judge exactly when the first goal under the conflicting id differs in standing
  and both claim paths only.
\<close>

lemma arbitrate_serialize:
  assumes "arbitrate registered g c = Some l" "\<not> (gate_refused c \<or> touches_intent c \<or> arbitration_tried c)"
  shows "\<exists>e. find (\<lambda>e. goal_id e = settles_with l) registered = Some e \<and>
    ((\<exists>w. l = Serialize w) \<longleftrightarrow>
       standing e \<noteq> standing g \<and> (\<forall>r \<in> set (resources e) \<union> set (resources g). is_path r)) \<and>
    ((\<exists>w. l = Arbitrate w) \<longleftrightarrow>
       \<not> (standing e \<noteq> standing g \<and> (\<forall>r \<in> set (resources e) \<union> set (resources g). is_path r)))"
proof -
  have w: "detect_conflict registered g = GoalConflictWith (settles_with l)" by (rule arbitrate_with [OF assms(1)])
  obtain e where e: "find (\<lambda>e. goal_id e = settles_with l) registered = Some e"
    using detect_conflict_holder [OF w] by blast
  then show ?thesis using assms w
    by (cases l) (auto simp: arbitrate_def Let_def list_all_iff split: if_splits)
qed

text \<open>
  A standing goal that meets a passing one on paths is put after it: the standing one does
  not go first.
\<close>

lemma standing_goal_waits:
  assumes "arbitrate registered g c = Some (Serialize w)" "standing g"
  shows "\<exists>e. find (\<lambda>e. goal_id e = w) registered = Some e \<and> \<not> standing e"
proof -
  have "\<not> (gate_refused c \<or> touches_intent c \<or> arbitration_tried c)"
    using arbitrate_owner [OF assms(1)] by simp
  from arbitrate_serialize [OF assms(1) this] assms(2) show ?thesis by auto
qed

text \<open>The record names the pair and the level, and nothing in it can be refused.\<close>

lemma conflict_payload_total:
  "\<exists>p. conflict_payload g l = Inr p \<and>
     bt_get (payload_fields p) ''goal'' = Some (JString (goal_str (goal_id g))) \<and>
     bt_get (payload_fields p) ''with'' = Some (JString (goal_str (settles_with l)))"
  by (cases l) (auto simp: conflict_payload_def payload_new_def bt_get_def)

end
