(* ===== verification/Fault_Disks.thy ===== *)
theory Fault_Disks
  imports Addresses Ordered_Maps
begin

text \<open>
  The deterministic power-loss model of a filesystem (\<open>crates/memory/src/fault_fs.rs\<close>, over
  the seam \<open>crates/memory/src/vfs.rs\<close>). Every file has a durable and a live plane; a cut
  drops what was not synced but for a torn prefix, and every file whose directory entry
  was not. A plan names the one operation, or the one write, that dies.
\<close>

section \<open>State\<close>

type_synonym path = "string list"

definition parent :: "path \<Rightarrow> path option" where
  "parent p = (if p = [] then None else Some (butlast p))"

definition file_name :: "path \<Rightarrow> string option" where
  "file_name p = (if p = [] then None else Some (last p))"

definition join_path :: "path \<Rightarrow> string \<Rightarrow> path" where
  "join_path dir name = dir @ [name]"

definition display :: "path \<Rightarrow> string" where
  "display p = join_with ''/'' p"

datatype torn_tail = NoTear | KeepBytes u64

record fault_plan =
  cut_at_op :: "u64 option"
  cut_on_write :: "string option"
  torn :: torn_tail

record file_state =
  durable :: string
  live :: string
  durable_entry :: bool

record disk =
  files :: "(path, file_state) btree"
  dirs :: "path list"
  op :: u64
  plan :: fault_plan

datatype io_error = IoOther string | IoNotFound string

type_synonym 'a vfs = "disk \<Rightarrow> (io_error, 'a) result \<times> disk"

section \<open>Power loss\<close>

definition torn_keep :: "torn_tail \<Rightarrow> string \<Rightarrow> nat" where
  "torn_keep t delta = (case t of NoTear \<Rightarrow> 0 | KeepBytes k \<Rightarrow> min (unat k) (length delta))"

definition settle :: "torn_tail \<Rightarrow> file_state \<Rightarrow> file_state" where
  "settle t f =
     (let delta = drop (length (durable f)) (live f);
          settled = durable f @ take (torn_keep t delta) delta
      in f\<lparr>durable := settled, live := settled\<rparr>)"

definition cut :: "disk \<Rightarrow> disk" where
  "cut d =
     d\<lparr>files := map (\<lambda>(p, f). (p, settle (torn (plan d)) f)) (filter (\<lambda>(_, f). durable_entry f) (files d))\<rparr>"

definition charge :: "string \<Rightarrow> unit vfs" where
  "charge op_name d =
     (let d = d\<lparr>op := saturating_add (op d) 1\<rparr> in
      if cut_at_op (plan d) = Some (op d)
      then (Inl (IoOther (''power lost during '' @ op_name @ '' (op '' @ dec_of (unat (op d)) @ '')'')),
            cut (d\<lparr>plan := (plan d)\<lparr>cut_at_op := None\<rparr>\<rparr>))
      else (Inr (), d))"

definition contains :: "string \<Rightarrow> string \<Rightarrow> bool" where
  "contains haystack needle \<longleftrightarrow>
     needle = [] \<or> list_ex (\<lambda>i. take (length needle) (drop i haystack) = needle) [0..<length haystack]"

definition not_found :: "path \<Rightarrow> io_error" where
  "not_found p = IoNotFound (''no such file: '' @ display p)"

text \<open>What a charged operation answers: its value, unless power died in it.\<close>

definition charged :: "string \<Rightarrow> (disk \<Rightarrow> 'a) \<Rightarrow> 'a vfs" where
  "charged op_name value d =
     (case charge op_name d of
        (Inl e, d') \<Rightarrow> (Inl e, d')
      | (Inr _, d') \<Rightarrow> (Inr (value d'), d'))"

section \<open>The operations\<close>

definition vfs_create_dir_all :: "path \<Rightarrow> unit vfs" where
  "vfs_create_dir_all dir d = charge ''create_dir_all'' (d\<lparr>dirs := bs_insert dir (dirs d)\<rparr>)"

definition vfs_list :: "path \<Rightarrow> path list vfs" where
  "vfs_list dir = charged ''list'' (\<lambda>d. filter (\<lambda>p. parent p = Some dir) (bt_keys (files d)))"

definition vfs_list_dirs :: "path \<Rightarrow> path list vfs" where
  "vfs_list_dirs dir =
     charged ''list_dirs'' (\<lambda>d.
       bs_extend [] (filter (\<lambda>q. parent q = Some dir) (List.map_filter parent (bt_keys (files d)))))"

definition vfs_read :: "path \<Rightarrow> string vfs" where
  "vfs_read p d =
     (case charge ''read'' d of
        (Inl e, d') \<Rightarrow> (Inl e, d')
      | (Inr _, d') \<Rightarrow>
          (case bt_get (files d') p of
             None \<Rightarrow> (Inl (not_found p), d')
           | Some f \<Rightarrow> (Inr (live f), d')))"

definition vfs_append :: "path \<Rightarrow> string \<Rightarrow> unit vfs" where
  "vfs_append p bytes d =
     (let f = (case bt_get (files d) p of
                 None \<Rightarrow> \<lparr>durable = [], live = [], durable_entry = False\<rparr>
               | Some f \<Rightarrow> f);
          d = d\<lparr>files := bt_insert p (f\<lparr>live := live f @ bytes\<rparr>) (files d)\<rparr>
      in case cut_on_write (plan d) of
           Some needle \<Rightarrow>
             if contains bytes needle
             then (let d = d\<lparr>plan := (plan d)\<lparr>cut_on_write := None\<rparr>, op := saturating_add (op d) 1\<rparr>
                   in (Inl (IoOther (''power lost during append carrying `'' @ needle @ ''` (op '' @
                         dec_of (unat (op d)) @ '')'')), cut d))
             else charge ''append'' d
         | None \<Rightarrow> charge ''append'' d)"

definition vfs_truncate :: "path \<Rightarrow> u64 \<Rightarrow> unit vfs" where
  "vfs_truncate p len d =
     (case bt_get (files d) p of
        None \<Rightarrow> (Inl (not_found p), d)
      | Some f \<Rightarrow>
          charge ''truncate'' (d\<lparr>files := bt_insert p (f\<lparr>live := take (unat len) (live f)\<rparr>) (files d)\<rparr>))"

definition vfs_rename :: "path \<Rightarrow> path \<Rightarrow> unit vfs" where
  "vfs_rename src dst d =
     (case bt_get (files d) src of
        None \<Rightarrow> (Inl (not_found src), d)
      | Some f \<Rightarrow>
          charge ''rename''
            (d\<lparr>files := bt_insert dst (f\<lparr>durable_entry := False\<rparr>) (bt_remove src (files d))\<rparr>))"

definition vfs_sync_data :: "path \<Rightarrow> unit vfs" where
  "vfs_sync_data p d =
     (case charge ''sync_data'' d of
        (Inl e, d') \<Rightarrow> (Inl e, d')
      | (Inr _, d') \<Rightarrow>
          (case bt_get (files d') p of
             None \<Rightarrow> (Inl (not_found p), d')
           | Some f \<Rightarrow> (Inr (), d'\<lparr>files := bt_insert p (f\<lparr>durable := live f\<rparr>) (files d')\<rparr>)))"

definition vfs_sync_dir :: "path \<Rightarrow> unit vfs" where
  "vfs_sync_dir dir d =
     (case charge ''sync_dir'' d of
        (Inl e, d') \<Rightarrow> (Inl e, d')
      | (Inr _, d') \<Rightarrow>
          (Inr (), d'\<lparr>files := map (\<lambda>(p, f). (p, if parent p = Some dir then f\<lparr>durable_entry := True\<rparr> else f))
                               (files d')\<rparr>))"

definition vfs_remove_file :: "path \<Rightarrow> unit vfs" where
  "vfs_remove_file p d =
     (if bt_get (files d) p = None then (Inl (not_found p), d)
      else charge ''remove_file'' (d\<lparr>files := bt_remove p (files d)\<rparr>))"

definition vfs_exists :: "path \<Rightarrow> disk \<Rightarrow> bool" where
  "vfs_exists p d \<longleftrightarrow> bt_get (files d) p \<noteq> None"

section \<open>What survives\<close>

lemma settle_entry [simp]: "durable_entry (settle t f) = durable_entry f"
  by (simp add: settle_def Let_def)

lemma cut_get: "bt_ok (files d) \<Longrightarrow>
  bt_get (files (cut d)) p =
    (case bt_get (files d) p of
       None \<Rightarrow> None
     | Some f \<Rightarrow> if durable_entry f then Some (settle (torn (plan d)) f) else None)"
proof -
  have "bt_ok m \<Longrightarrow> bt_get (map (\<lambda>(p, f). (p, settle t f)) (filter (\<lambda>(_, f). durable_entry f) m)) p =
      (case bt_get m p of None \<Rightarrow> None | Some f \<Rightarrow> if durable_entry f then Some (settle t f) else None)" for m t
  proof (induction m)
    case Nil
    then show ?case by (simp add: bt_get_def)
  next
    case (Cons kv m)
    obtain a f where kv: "kv = (a, f)" by (cases kv)
    have ok: "bt_ok m" and above: "\<forall>k \<in> set (bt_keys m). a < k"
      using Cons.prems by (auto simp: kv bt_ok_Cons)
    have "bt_get m a = None" using above by (auto simp: bt_get_None_iff)
    then show ?case using Cons.IH [OF ok] by (auto simp: kv bt_get_def)
  qed
  then show "bt_ok (files d) \<Longrightarrow> ?thesis" by (simp add: cut_def)
qed

lemma cut_ok: "bt_ok (files d) \<Longrightarrow> bt_ok (files (cut d))"
proof -
  have "bt_ok m \<Longrightarrow> bt_ok (map (\<lambda>(p, f). (p, settle t f)) (filter Q m))" for m t Q
  proof (induction m)
    case (Cons kv m)
    then show ?case by (cases kv) (fastforce simp: bt_ok_Cons bt_keys_def)
  qed simp
  then show "bt_ok (files d) \<Longrightarrow> ?thesis" by (simp add: cut_def)
qed

text \<open>Synced bytes under a synced entry survive any cut, with a prefix of what came after.\<close>

lemma settle_prefix: "prefix (durable f) (live f) \<Longrightarrow>
  prefix (durable f) (live (settle t f)) \<and> prefix (live (settle t f)) (live f) \<and>
  durable (settle t f) = live (settle t f)"
  by (auto simp: settle_def Let_def prefix_def append_eq_append_conv2 take_is_prefix
      intro: exI [of _ "drop k delta" for k delta])
     (metis append_take_drop_id)

lemma settle_synced: "durable f = live f \<Longrightarrow> live (settle t f) = live f"
  by (simp add: settle_def Let_def)

lemma settle_idem: "settle t (settle u f) = settle u f"
  by (simp add: settle_def Let_def)

end
