(* ===== verification/Acts.thy ===== *)
theory Acts
  imports Prelude
begin

text \<open>
  Fallible operations on a state: an operation takes the state and answers a result and the
  new state, also when it fails. Triples speak of them with one postcondition for a result
  and one for an error.
\<close>

section \<open>Operations\<close>

type_synonym ('e, 's, 'a) act = "'s \<Rightarrow> ('e, 'a) result \<times> 's"

definition ret :: "'a \<Rightarrow> ('e, 's, 'a) act" where
  "ret a d = (Inr a, d)"

definition fail_with :: "'e \<Rightarrow> ('e, 's, 'a) act" where
  "fail_with e d = (Inl e, d)"

text \<open>The question mark: go on with the result, or answer the error.\<close>

definition and_then :: "('e, 's, 'a) act \<Rightarrow> ('a \<Rightarrow> ('e, 's, 'b) act) \<Rightarrow> ('e, 's, 'b) act" where
  "and_then m f d = (case m d of (Inl e, d') \<Rightarrow> (Inl e, d') | (Inr a, d') \<Rightarrow> f a d')"

definition of_result :: "('e, 'a) result \<Rightarrow> ('e, 's, 'a) act" where
  "of_result r = (case r of Inl e \<Rightarrow> fail_with e | Inr a \<Rightarrow> ret a)"

fun for_each :: "('a \<Rightarrow> ('e, 's, unit) act) \<Rightarrow> 'a list \<Rightarrow> ('e, 's, unit) act" where
  "for_each f [] = ret ()"
| "for_each f (x # xs) = and_then (f x) (\<lambda>_. for_each f xs)"

section \<open>Triples\<close>

definition triple ::
  "('s \<Rightarrow> bool) \<Rightarrow> ('e, 's, 'a) act \<Rightarrow> ('a \<Rightarrow> 's \<Rightarrow> bool) \<Rightarrow> ('e \<Rightarrow> 's \<Rightarrow> bool) \<Rightarrow> bool" where
  "triple P m Q E \<longleftrightarrow>
     (\<forall>d. P d \<longrightarrow> (case m d of (Inl e, d') \<Rightarrow> E e d' | (Inr a, d') \<Rightarrow> Q a d'))"

lemma tripleI:
  assumes "\<And>d e d'. P d \<Longrightarrow> m d = (Inl e, d') \<Longrightarrow> E e d'" "\<And>d a d'. P d \<Longrightarrow> m d = (Inr a, d') \<Longrightarrow> Q a d'"
  shows "triple P m Q E"
  using assms by (auto simp: triple_def split: prod.split sum.split)

lemma tripleD:
  assumes "triple P m Q E" "P d"
  shows "m d = (Inl e, d') \<Longrightarrow> E e d'" "m d = (Inr a, d') \<Longrightarrow> Q a d'"
  using assms by (auto simp: triple_def split: prod.splits sum.splits)

lemma triple_ret: "(\<And>d. P d \<Longrightarrow> Q a d) \<Longrightarrow> triple P (ret a) Q E"
  by (simp add: triple_def ret_def)

lemma triple_fail: "(\<And>d. P d \<Longrightarrow> E e d) \<Longrightarrow> triple P (fail_with e) Q E"
  by (simp add: triple_def fail_with_def)

lemma triple_then:
  assumes "triple P m R E" "\<And>a. triple (R a) (f a) Q E"
  shows "triple P (and_then m f) Q E"
  using assms by (fastforce simp: triple_def and_then_def split: prod.splits sum.splits)

lemma and_then_ret [simp]: "and_then (ret a) f = f a"
  by (rule ext) (simp add: and_then_def ret_def)

lemma triple_weaken:
  assumes "triple P m Q E" "\<And>d. P' d \<Longrightarrow> P d" "\<And>a d. Q a d \<Longrightarrow> Q' a d" "\<And>e d. E e d \<Longrightarrow> E' e d"
  shows "triple P' m Q' E'"
  using assms by (fastforce simp: triple_def split: prod.splits sum.splits)

lemma triple_pre: "triple P m Q E \<Longrightarrow> (\<And>d. P' d \<Longrightarrow> P d) \<Longrightarrow> triple P' m Q E"
  by (rule triple_weaken)

lemma triple_assume: "(\<And>d. P d \<Longrightarrow> triple P m Q E) \<Longrightarrow> triple P m Q E"
  by (auto simp: triple_def)

lemma triple_for_each:
  assumes "\<And>before x after. xs = before @ x # after \<Longrightarrow> triple (I before) (f x) (\<lambda>_. I (before @ [x])) E"
  shows "triple (I []) (for_each f xs) (\<lambda>_. I xs) E"
proof -
  have "triple (I before) (for_each f rest) (\<lambda>_. I (before @ rest)) E" if "xs = before @ rest" for before rest
    using that
  proof (induction rest arbitrary: before)
    case Nil
    then show ?case by (simp add: triple_ret)
  next
    case (Cons x rest)
    have "triple (I (before @ [x])) (for_each f rest) (\<lambda>_. I ((before @ [x]) @ rest)) E"
      using Cons by simp
    then show ?case using assms [OF Cons.prems] by (auto intro: triple_then)
  qed
  from this [of "[]" xs] show ?thesis by simp
qed

lemma triple_of_result:
  "(\<And>e d. r = Inl e \<Longrightarrow> P d \<Longrightarrow> E e d) \<Longrightarrow> (\<And>a d. r = Inr a \<Longrightarrow> P d \<Longrightarrow> Q a d) \<Longrightarrow> triple P (of_result r) Q E"
  by (cases r) (simp_all add: of_result_def triple_ret triple_fail)

end
