(* ===== verification/Jsonl_Ledger.thy ===== *)
theory Jsonl_Ledger
  imports Events Fault_Disks Acts
begin

text \<open>
  The durable ledger (\<open>crates/memory/src/jsonl.rs\<close>) over the power-loss filesystem: opening
  a directory of segments, refusing a newer version, truncating a torn tail, and the group
  commit \<open>append_all\<close>. An operation takes the disk and answers a result and the new disk.
\<close>

section \<open>Errors and effects\<close>

text \<open>The failures of \<open>crates/memory/src/error.rs\<close>.\<close>

datatype memory_error =
    Io string path io_error
  | VersionAhead path u64
  | Envelope path u64 ax_error
  | Draft ax_error
  | CasMissing string
  | CasCorrupt string path
  | RangeOutOfBounds string
  | SeqMissing u64
  | Projection string string
  | Checkpoint string string
  | SecretEgress string
  | Bundle string string
  | Worktree string string
  | WorktreeBusy string string
  | MergeStale string string

fun io_text :: "io_error \<Rightarrow> string" where
  "io_text (IoOther s) = s"
| "io_text (IoNotFound s) = s"

fun into_ax :: "memory_error \<Rightarrow> ax_error" where
  "into_ax (Io opn p src) =
     with_recovery (''storage failed ('' @ io_text src @ ''); halt cleanly '' @ [CHR 0xE2, CHR 0x80, CHR 0x94] @
         '' reopening will tail-truncate'')
       (failure StorageFatal opn (display p))"
| "into_ax (VersionAhead p v) =
     with_recovery (''open this ledger with the sprawling that wrote it; original path: '' @ display p)
       (failure LogVersionUnsupported ''open ledger''
         (display p @ '' (written by a newer sprawling, v'' @ dec_of (unat v) @ '')''))"
| "into_ax (Envelope p line src) =
     with_recovery (''non-tail damage cannot be auto-repaired ('' @ show_error src @ ''); inspect the segment'')
       (failure LogVersionUnsupported ''open ledger'' (display p @ '':'' @ dec_of (unat line)))"
| "into_ax (Draft src) = src"
| "into_ax (Worktree opn detail) =
     with_recovery ''the repository or the filesystem refused; fix that, then claim again''
       (failure StorageFatal opn detail)"
| "into_ax (WorktreeBusy name detail) =
     with_recovery ''release a tree and claim again, or work on a node whose tree is free''
       (failure ax_code.WorktreeBusy ''open a worktree'' (name @ '': '' @ detail))"
| "into_ax (MergeStale name detail) =
     with_recovery ''rebuild this node's tree on the trunk as it stands, then have it verified again''
       (failure VersionConflict ''merge a node's work'' (name @ '': '' @ detail))"
| "into_ax (CasMissing hash) =
     with_recovery ''the locator outlived its object; re-materialize or drop it''
       (failure PathNotFound ''read cas object'' hash)"
| "into_ax (CasCorrupt hash p) =
     with_recovery ''bit rot or outside tampering; restore from export or drop the object''
       (failure ax_code.CasCorrupt ''read cas object'' (hash @ '' at '' @ display p))"
| "into_ax (RangeOutOfBounds hash) =
     with_recovery ''range exceeds the object; ask within its size''
       (failure InvalidArgs ''read cas range'' hash)"
| "into_ax (SeqMissing s) =
     with_recovery ''ask for a seq the ledger actually holds''
       (failure InvalidArgs ''read ledger line'' (dec_of (unat s)))"
| "into_ax (Projection opn detail) =
     with_recovery ''delete the projection file and replay the ledger to rebuild it''
       (failure StorageFatal opn detail)"
| "into_ax (Bundle opn detail) =
     with_recovery ''restore into an empty directory, and copy the bundle again if it is short''
       (failure ConfigInvalid opn detail)"
| "into_ax (Checkpoint opn detail) =
     with_recovery ''resolve the repository state, then retry the wave''
       (failure ax_code.WorktreeBusy opn detail)"
| "into_ax (SecretEgress locations) =
     with_recovery ''remove the secret from the staged files, then retry''
       (failure ax_code.SecretEgress ''commit checkpoint'' locations)"

type_synonym 'a effect = "(memory_error, disk, 'a) act"

text \<open>\<open>.map_err(io_err(op, path))\<close>\<close>

definition io :: "string \<Rightarrow> path \<Rightarrow> 'a vfs \<Rightarrow> 'a effect" where
  "io opn p v d = (case v d of (Inl e, d') \<Rightarrow> (Inl (Io opn p e), d') | (Inr a, d') \<Rightarrow> (Inr a, d'))"

section \<open>The ledger's state\<close>

text \<open>
  Third-party code the ledger calls: the JSON encoding of a record, its reader, BLAKE3, and
  the probe for the \<open>v\<close> field of a line.
\<close>

record third_party =
  to_line :: line_writer
  parse_line :: line_reader
  chain_hash :: hasher
  probe_v :: "string \<Rightarrow> u64 option"

record jsonl =
  l_dir :: path
  seg_path :: path
  seg_len :: u64
  next_seq :: seq
  l_prev :: b3_hash
  roll_bytes :: u64
  heard :: "event_record list option"

definition segment_roll_bytes :: u64 where
  "segment_roll_bytes = 67108864"

definition sat_u64 :: "nat \<Rightarrow> u64" where
  "sat_u64 n = (if n \<le> u64_max then of_nat n else - 1)"

definition segment_file_name :: "seq \<Rightarrow> string" where
  "segment_file_name s =
     (let digits = dec_of (unat s)
      in ''ledger-'' @ replicate (20 - length digits) CHR ''0'' @ digits @ ''.jsonl'')"

definition is_segment :: "path \<Rightarrow> bool" where
  "is_segment p =
     (case file_name p of
        None \<Rightarrow> False
      | Some name \<Rightarrow> starts_with ''ledger-'' name \<and> ends_with ''.jsonl'' name)"

text \<open>The lines a line feed ends, and how many bytes they take.\<close>

definition complete_lines :: "string \<Rightarrow> string list \<times> nat" where
  "complete_lines bytes =
     (let ps = split_on lf bytes in (butlast ps, length bytes - length (last ps)))"

definition terminated :: "string list \<Rightarrow> string" where
  "terminated lines = concat (map (\<lambda>l. l @ [lf]) lines)"

section \<open>Opening\<close>

definition probe_error :: "path \<Rightarrow> string \<Rightarrow> memory_error" where
  "probe_error p why = Envelope p 1 (failure InvalidArgs ''probe ledger version'' why)"

definition probe_version :: "third_party \<Rightarrow> path list \<Rightarrow> unit effect" where
  "probe_version ext segments =
     (case segments of
        [] \<Rightarrow> ret ()
      | first # _ \<Rightarrow>
          and_then (io ''read segment'' first (vfs_read first)) (\<lambda>bytes.
            case fst (complete_lines bytes) of
              [] \<Rightarrow> ret ()
            | first_line # _ \<Rightarrow>
                (case probe_v ext first_line of
                   None \<Rightarrow>
                     if 1 < length segments
                     then fail_with (probe_error first ''first line is not a version-bearing record'')
                     else ret ()
                 | Some v \<Rightarrow>
                     if ucast event_log_v < v then fail_with (VersionAhead first v)
                     else if v < 1 then fail_with (probe_error first ''v < 1'')
                     else ret ())))"

record tail_boundary =
  b_prev :: b3_hash
  b_next_seq :: seq
  b_prior :: "(path \<times> u64) option"

definition boundary :: "third_party \<Rightarrow> path list \<Rightarrow> path \<Rightarrow> tail_boundary effect" where
  "boundary ext segments final =
     (let before = takeWhile (\<lambda>seg. seg \<noteq> final) segments in
      if before = [] then ret \<lparr>b_prev = genesis_prev, b_next_seq = seq_first, b_prior = None\<rparr>
      else (let prior = last before in
        and_then (io ''read segment'' prior (vfs_read prior)) (\<lambda>bytes.
          let lines = fst (complete_lines bytes) in
          if lines = []
          then fail_with (Envelope prior 0 (failure InvalidArgs ''read prior segment'' ''empty''))
          else (let last_line = last lines in
            case parse_line ext last_line of
              Inl source \<Rightarrow> fail_with (Envelope prior (sat_u64 (length lines)) source)
            | Inr r \<Rightarrow>
                (case seq_next (r_seq r) of
                   Inl source \<Rightarrow> fail_with (Draft source)
                 | Inr nxt \<Rightarrow>
                     ret \<lparr>b_prev = chain_hash ext last_line, b_next_seq = nxt,
                          b_prior = Some (prior, sat_u64 (length bytes))\<rparr>)))))"

fun tail_scan ::
  "third_party \<Rightarrow> path \<Rightarrow> nat \<Rightarrow> string list \<Rightarrow> b3_hash \<Rightarrow> seq \<Rightarrow> nat \<Rightarrow>
   (memory_error, b3_hash \<times> seq \<times> nat) result" where
  "tail_scan ext final i [] p s valid_len = Inr (p, s, valid_len)"
| "tail_scan ext final i (line # rest) p s valid_len =
     (if continues_chain (parse_line ext) p s line
      then (case seq_next s of
              Inl source \<Rightarrow> Inl (Draft source)
            | Inr s' \<Rightarrow> tail_scan ext final (Suc i) rest (chain_hash ext line) s' (valid_len + length line + 1))
      else if i = 0 \<and> (is_ok (parse_line ext line) \<or> list_ex (\<lambda>l. is_ok (parse_line ext l)) rest)
      then Inl (Envelope final 1
             (failure InvalidArgs ''verify chain root'' ''first line does not continue the chain''))
      else Inr (p, s, valid_len))"

definition drop_segment :: "path \<Rightarrow> path \<Rightarrow> unit effect" where
  "drop_segment dir final =
     and_then (io ''truncate segment'' final (vfs_truncate final 0)) (\<lambda>_.
     and_then (io ''sync segment'' final (vfs_sync_data final)) (\<lambda>_.
     and_then (io ''remove empty segment'' final (vfs_remove_file final)) (\<lambda>_.
       io ''sync ledger dir'' dir (vfs_sync_dir dir))))"

definition cut_segment :: "path \<Rightarrow> u64 \<Rightarrow> unit effect" where
  "cut_segment final keep =
     and_then (io ''truncate segment'' final (vfs_truncate final keep)) (\<lambda>_.
       io ''sync segment'' final (vfs_sync_data final))"

definition recover_tail :: "third_party \<Rightarrow> path list \<Rightarrow> path \<Rightarrow> jsonl \<Rightarrow> (jsonl \<times> u64) effect" where
  "recover_tail ext segments final l =
     and_then (boundary ext segments final) (\<lambda>b.
     and_then (io ''read segment'' final (vfs_read final)) (\<lambda>bytes.
     and_then (of_result (tail_scan ext final 0 (fst (complete_lines bytes)) (b_prev b) (b_next_seq b) 0))
       (\<lambda>(run_prev, run_seq, valid_len).
       let total = length bytes;
           dropped = sat_u64 (total - valid_len);
           l = l\<lparr>l_prev := run_prev, next_seq := run_seq\<rparr>
       in if 0 < dropped
          then if valid_len = 0
               then and_then (drop_segment (l_dir l) final) (\<lambda>_.
                      ret (case b_prior b of
                             Some (p, len) \<Rightarrow> l\<lparr>seg_path := p, seg_len := len\<rparr>
                           | None \<Rightarrow> l\<lparr>seg_path := join_path (l_dir l) (segment_file_name seq_first),
                                       seg_len := 0\<rparr>, dropped))
               else and_then (cut_segment final (sat_u64 valid_len)) (\<lambda>_.
                      ret (l\<lparr>seg_path := final, seg_len := sat_u64 valid_len\<rparr>, dropped))
          else ret (l\<lparr>seg_path := final, seg_len := sat_u64 total\<rparr>, dropped))))"

section \<open>Group commit\<close>

record wave =
  w_seq :: seq
  w_prev :: b3_hash
  w_path :: path
  w_len :: u64
  w_writes :: "(path \<times> string) list"
  w_created :: "path list"
  w_records :: "event_record list"

text \<open>Adds a terminated line to the buffer of the segment being written, or starts one.\<close>

definition add_write :: "path \<Rightarrow> string \<Rightarrow> (path \<times> string) list \<Rightarrow> (path \<times> string) list" where
  "add_write p bytes writes =
     (if writes \<noteq> [] \<and> fst (last writes) = p
      then butlast writes @ [(p, snd (last writes) @ bytes)]
      else writes @ [(p, bytes)])"

definition wave_step :: "third_party \<Rightarrow> path \<Rightarrow> u64 \<Rightarrow> event_draft \<Rightarrow> wave \<Rightarrow> (memory_error, wave) result" where
  "wave_step ext dir roll draft w =
     (let r = from_draft draft (w_seq w) (w_prev w) in
      case to_line ext r of
        Inl source \<Rightarrow> Inl (Draft source)
      | Inr line \<Rightarrow>
          (let line_len = saturating_add (sat_u64 (length line)) 1;
               rolled = (0 < w_len w \<and> roll < saturating_add (w_len w) line_len);
               cur_path = (if rolled then join_path dir (segment_file_name (w_seq w)) else w_path w);
               cur_len = (if rolled then 0 else w_len w);
               created = (if rolled then w_created w @ [cur_path] else w_created w)
           in case seq_next (w_seq w) of
                Inl source \<Rightarrow> Inl (Draft source)
              | Inr s \<Rightarrow>
                  Inr \<lparr>w_seq = s, w_prev = chain_hash ext line, w_path = cur_path,
                       w_len = saturating_add cur_len line_len,
                       w_writes = add_write cur_path (line @ [lf]) (w_writes w),
                       w_created = created, w_records = w_records w @ [r]\<rparr>))"

fun wave_plan :: "third_party \<Rightarrow> path \<Rightarrow> u64 \<Rightarrow> event_draft list \<Rightarrow> wave \<Rightarrow> (memory_error, wave) result" where
  "wave_plan ext dir roll [] w = Inr w"
| "wave_plan ext dir roll (d # ds) w =
     bind_r (wave_step ext dir roll d w) (wave_plan ext dir roll ds)"

definition wave_start :: "jsonl \<Rightarrow> disk \<Rightarrow> wave" where
  "wave_start l d =
     \<lparr>w_seq = next_seq l, w_prev = l_prev l, w_path = seg_path l, w_len = seg_len l, w_writes = [],
      w_created = (if seg_len l = 0 \<and> \<not> vfs_exists (seg_path l) d then [seg_path l] else []),
      w_records = []\<rparr>"

definition commit_wave :: "path \<Rightarrow> wave \<Rightarrow> unit effect" where
  "commit_wave dir w =
     and_then (for_each (\<lambda>(p, bytes). io ''append event line'' p (vfs_append p bytes)) (w_writes w)) (\<lambda>_.
     and_then (for_each (\<lambda>(p, _). io ''sync segment'' p (vfs_sync_data p)) (w_writes w)) (\<lambda>_.
       if w_created w \<noteq> [] then io ''sync ledger dir'' dir (vfs_sync_dir dir) else ret ()))"

text \<open>The ledger's state is replaced only when every byte of the wave is durable.\<close>

definition append_all ::
  "third_party \<Rightarrow> jsonl \<Rightarrow> event_draft list \<Rightarrow> (jsonl \<times> event_ref list) effect" where
  "append_all ext l drafts =
     (\<lambda>d. if drafts = [] then ret (l, []) d
          else (case wave_plan ext (l_dir l) (roll_bytes l) drafts (wave_start l d) of
                  Inl e \<Rightarrow> (Inl e, d)
                | Inr w \<Rightarrow>
                    and_then (commit_wave (l_dir l) w) (\<lambda>_.
                      ret (l\<lparr>seg_path := w_path w, seg_len := w_len w, next_seq := w_seq w, l_prev := w_prev w,
                             heard := map_option (\<lambda>told. told @ w_records w) (heard l)\<rparr>,
                           map to_ref (w_records w))) d))"

definition append :: "third_party \<Rightarrow> jsonl \<Rightarrow> event_draft \<Rightarrow> disk \<Rightarrow>
    (ax_error, jsonl \<times> event_ref) result \<times> disk" where
  "append ext l draft d =
     (case append_all ext l [draft] d of
        (Inl e, d') \<Rightarrow> (Inl (into_ax e), d')
      | (Inr (l', refs), d') \<Rightarrow>
          (case refs of
             [] \<Rightarrow> (Inl (failure InvalidArgs ''append event'' ''empty wave echo''), d')
           | r # _ \<Rightarrow> (Inr (l', r), d')))"

definition truncated_draft :: "time_ms \<Rightarrow> payload \<Rightarrow> event_draft" where
  "truncated_draft now data =
     \<lparr>d_run = run_city, d_t = now, d_who = ''system'', d_addr = None, d_kind = LogTruncated,
      d_data = data, d_ig = False\<rparr>"

definition append_log_truncated :: "third_party \<Rightarrow> time_ms \<Rightarrow> u64 \<Rightarrow> jsonl \<Rightarrow> jsonl effect" where
  "append_log_truncated ext now dropped l =
     (case payload_new [(''dropped_bytes'', JNumber (PosInt dropped))] of
        Inl source \<Rightarrow> fail_with (Draft source)
      | Inr data \<Rightarrow> and_then (append_all ext l [truncated_draft now data]) (\<lambda>(l', _). ret l'))"

definition fresh_ledger :: "path \<Rightarrow> jsonl" where
  "fresh_ledger dir =
     \<lparr>l_dir = dir, seg_path = join_path dir (segment_file_name seq_first), seg_len = 0,
      next_seq = seq_first, l_prev = genesis_prev, roll_bytes = segment_roll_bytes, heard = None\<rparr>"

text \<open>What open answers: the ledger, and how many bytes of a torn tail it dropped.\<close>

definition open_with :: "third_party \<Rightarrow> path \<Rightarrow> time_ms \<Rightarrow> (jsonl \<times> u64 option) effect" where
  "open_with ext dir now =
     and_then (io ''create ledger dir'' dir (vfs_create_dir_all dir)) (\<lambda>_.
     and_then (io ''list ledger dir'' dir (vfs_list dir)) (\<lambda>found.
       let segments = filter is_segment found in
       if segments = [] then ret (fresh_ledger dir, None)
       else and_then (probe_version ext segments) (\<lambda>_.
            and_then (recover_tail ext segments (last segments) (fresh_ledger dir)) (\<lambda>(l, dropped).
              if 0 < dropped
              then if next_seq l \<noteq> seq_first
                   then and_then (append_log_truncated ext now dropped l) (\<lambda>l. ret (l, Some dropped))
                   else ret (l, Some dropped)
              else ret (l, None)))))"

definition observe :: "jsonl \<Rightarrow> jsonl" where
  "observe l = l\<lparr>heard := Some []\<rparr>"

fun read_segments :: "path list \<Rightarrow> string list effect" where
  "read_segments [] = ret []"
| "read_segments (seg # others) =
     and_then (io ''read segment'' seg (vfs_read seg)) (\<lambda>bytes.
     and_then (read_segments others) (\<lambda>rest.
       ret (filter (\<lambda>line. line \<noteq> []) (fst (complete_lines bytes)) @ rest)))"

definition read_raw_lines :: "jsonl \<Rightarrow> string list effect" where
  "read_raw_lines l =
     and_then (io ''list ledger dir'' (l_dir l) (vfs_list (l_dir l))) (\<lambda>found.
       read_segments (filter is_segment found))"

end
