(* ===== verification/Segments.thy ===== *)
theory Segments
  imports Jsonl_Ledger
begin

text \<open>
  The layout of a ledger directory: segment names sort as their first numbers do, a
  directory of segments is read back in order, and a torn tail is told from whole lines.
\<close>

section \<open>Names sort as numbers\<close>

lemma dec_val_Cons: "dec_val (c # s) = digit_val c * 10 ^ length s + dec_val s"
proof (induction s rule: rev_induct)
  case (snoc d s)
  have "dec_val (c # s @ [d]) = 10 * dec_val (c # s) + digit_val d"
    using dec_val_snoc [of "c # s" d] by simp
  also have "\<dots> = digit_val c * 10 ^ length (s @ [d]) + dec_val (s @ [d])"
    using snoc by (simp add: dec_val_snoc)
  finally show ?case by simp
qed (simp add: dec_val_def)

lemma dec_val_bound: "list_all is_digit s \<Longrightarrow> dec_val s < 10 ^ length s"
proof (induction s)
  case (Cons c s)
  then have "digit_val c \<le> 9" using digit_val_less [of c] by simp
  then have "digit_val c * 10 ^ length s \<le> 9 * 10 ^ length s" by (rule mult_le_mono1)
  moreover have "dec_val s < 10 ^ length s" using Cons by simp
  moreover have "(10::nat) ^ length (c # s) = 9 * 10 ^ length s + 10 ^ length s" by simp
  ultimately show ?case unfolding dec_val_Cons by linarith
qed (simp add: dec_val_def)

lemma digit_less: "is_digit c \<Longrightarrow> is_digit d \<Longrightarrow> digit_val c < digit_val d \<Longrightarrow> c < d"
  by (auto simp: is_digit_def digit_val_def less_char_def)

lemma digit_val_inj: "is_digit c \<Longrightarrow> is_digit d \<Longrightarrow> digit_val c = digit_val d \<Longrightarrow> c = d"
  by (metis digit_char_val)

lemma digits_less:
  "length s = length t \<Longrightarrow> list_all is_digit s \<Longrightarrow> list_all is_digit t \<Longrightarrow> dec_val s < dec_val t \<Longrightarrow> s < t"
proof (induction s t rule: list_induct2)
  case (Cons c s d t)
  have b: "dec_val s < 10 ^ length s" "dec_val t < 10 ^ length s"
    using Cons dec_val_bound [of s] dec_val_bound [of t] by auto
  consider "digit_val c < digit_val d" | "digit_val c = digit_val d" | "digit_val d < digit_val c" by linarith
  then show ?case
  proof cases
    case 1
    then show ?thesis using Cons digit_less by simp
  next
    case 2
    then have "c = d" using Cons digit_val_inj by simp
    then show ?thesis using Cons by (simp add: dec_val_Cons)
  next
    case 3
    then have "Suc (digit_val d) * 10 ^ length s \<le> digit_val c * 10 ^ length s"
      by (intro mult_right_mono) simp_all
    then have "digit_val d * 10 ^ length s + 10 ^ length s \<le> digit_val c * 10 ^ length s" by simp
    moreover have "digit_val c * 10 ^ length s + dec_val s < digit_val d * 10 ^ length s + dec_val t"
      using Cons.prems(3) Cons.hyps by (simp add: dec_val_Cons)
    ultimately have False using b by linarith
    then show ?thesis ..
  qed
qed simp

definition padded :: "nat \<Rightarrow> string" where
  "padded n = replicate (20 - length (dec_of n)) CHR ''0'' @ dec_of n"

lemma zero_digit: "is_digit CHR ''0''" "digit_val CHR ''0'' = 0"
  by (simp_all add: is_digit_def digit_val_def)

lemma dec_val_zeros: "dec_val (replicate k CHR ''0'' @ s) = dec_val s"
  by (induction k) (simp_all add: dec_val_Cons zero_digit)

lemma dec_of_length: "0 < k \<Longrightarrow> n < 10 ^ k \<Longrightarrow> length (dec_of n) \<le> k"
proof (induction k arbitrary: n)
  case (Suc k)
  show ?case
  proof (cases "n < 10")
    case True
    then show ?thesis by (simp add: dec_of.simps [of n])
  next
    case False
    then have "k \<noteq> 0" using Suc.prems by (cases k) auto
    moreover have "n div 10 < 10 ^ k" using Suc.prems(2) by (simp add: div_less_iff_less_mult mult.commute)
    ultimately have "length (dec_of (n div 10)) \<le> k" using Suc.IH by simp
    with False show ?thesis by (simp add: dec_of.simps [of n])
  qed
qed simp

lemma padded_facts:
  assumes "n < 18446744073709551616"
  shows "length (padded n) = 20" "list_all is_digit (padded n)" "dec_val (padded n) = n"
proof -
  have "n < 10 ^ 20" using assms by simp
  then have "length (dec_of n) \<le> 20" by (intro dec_of_length) simp_all
  then show "length (padded n) = 20" by (simp add: padded_def)
  show "list_all is_digit (padded n)"
    using dec_of_digits [of n] by (auto simp: padded_def list_all_iff zero_digit)
  show "dec_val (padded n) = n" by (simp add: padded_def dec_val_zeros dec_val_of)
qed

lemma segment_file_name_padded: "segment_file_name s = ''ledger-'' @ padded (unat s) @ ''.jsonl''"
  by (simp add: segment_file_name_def padded_def Let_def)

lemma append_less_same_length: "length s = length t \<Longrightarrow> s < t \<Longrightarrow> s @ u < t @ (v :: 'a::linorder list)"
  by (induction s t rule: list_induct2) auto

lemma append_less_left: "s < t \<Longrightarrow> u @ s < u @ (t :: 'a::linorder list)"
  by (induction u) auto

lemma segment_name_less: "unat a < unat b \<Longrightarrow> segment_file_name a < segment_file_name b"
proof -
  assume "unat a < unat b"
  moreover have "unat a < 18446744073709551616" "unat b < 18446744073709551616" by simp_all
  ultimately have "padded (unat a) < padded (unat b)"
    using padded_facts by (intro digits_less) simp_all
  moreover have "length (padded (unat a)) = length (padded (unat b))"
    using padded_facts by simp
  ultimately have "padded (unat a) @ ''.jsonl'' < padded (unat b) @ ''.jsonl''"
    by (intro append_less_same_length)
  then show ?thesis unfolding segment_file_name_padded by (rule append_less_left)
qed

lemma segment_name_is_segment: "is_segment (join_path dir (segment_file_name s))"
  by (auto simp: is_segment_def file_name_def join_path_def segment_file_name_padded starts_with_iff
      ends_with_iff)

lemma parent_join [simp]: "parent (join_path dir n) = Some dir"
  by (simp add: parent_def join_path_def)

definition seg_at :: "path \<Rightarrow> seq \<Rightarrow> path" where
  "seg_at dir s = join_path dir (segment_file_name s)"

lemma seg_at_less: "unat a < unat b \<Longrightarrow> seg_at dir a < seg_at dir b"
  using segment_name_less append_less_left [of "[segment_file_name a]" "[segment_file_name b]" dir]
  by (simp add: seg_at_def join_path_def)

lemma seg_at_inj: "seg_at dir a = seg_at dir b \<Longrightarrow> a = b"
  by (metis seg_at_less less_irrefl linorder_neqE_nat word_unat_eq_iff)

section \<open>Whole lines and torn bytes\<close>

lemma split_terminated:
  "\<forall>l \<in> set ls. lf \<notin> set l \<Longrightarrow> lf \<notin> set t \<Longrightarrow> split_on lf (terminated ls @ t) = ls @ [t]"
  by (induction ls) (simp_all add: terminated_def split_on_no_sep split_on_append_sep)

lemma terminated_append: "terminated (xs @ ys) = terminated xs @ terminated ys"
  by (simp add: terminated_def)

lemma terminated_Nil_iff [simp]: "terminated ls = [] \<longleftrightarrow> ls = []"
  by (cases ls) (simp_all add: terminated_def)

lemma complete_terminated:
  "\<forall>l \<in> set ls. lf \<notin> set l \<Longrightarrow> lf \<notin> set t \<Longrightarrow>
   complete_lines (terminated ls @ t) = (ls, length (terminated ls))"
  by (simp add: complete_lines_def split_terminated)

text \<open>A prefix of terminated lines is some of them whole and a piece of the next.\<close>

lemma terminated_prefix:
  assumes "prefix t (terminated ls)" "\<forall>l \<in> set ls. lf \<notin> set l"
  shows "\<exists>k u. k \<le> length ls \<and> t = terminated (take k ls) @ u \<and> lf \<notin> set u"
  using assms
proof (induction ls arbitrary: t)
  case Nil
  then show ?case by (auto simp: terminated_def)
next
  case (Cons l ls)
  have t: "prefix t ((l @ [lf]) @ terminated ls)" using Cons.prems(1) by (simp add: terminated_def)
  then consider "prefix t (l @ [lf])" "t \<noteq> l @ [lf]" | s where "t = (l @ [lf]) @ s" "prefix s (terminated ls)"
    unfolding prefix_append [of t "l @ [lf]"] by (metis append_Nil2 Nil_prefix)
  then show ?case
  proof cases
    case 1
    then have "prefix t l" by (auto simp: prefix_snoc)
    then have "lf \<notin> set t" using Cons.prems(2) by (auto simp: prefix_def)
    then have "0 \<le> length (l # ls) \<and> t = terminated (take 0 (l # ls)) @ t \<and> lf \<notin> set t"
      by (simp add: terminated_def)
    then show ?thesis by blast
  next
    case 2
    then obtain k u where "k \<le> length ls" "s = terminated (take k ls) @ u" "lf \<notin> set u"
      using Cons.IH [of s] Cons.prems(2) by auto
    then have "Suc k \<le> length (l # ls) \<and> t = terminated (take (Suc k) (l # ls)) @ u \<and> lf \<notin> set u"
      using 2 by (simp add: terminated_def)
    then show ?thesis by blast
  qed
qed

section \<open>The layout of a directory\<close>

type_synonym segment = "seq \<times> string list"

definition lines_in :: "segment list \<Rightarrow> string list" where
  "lines_in sgs = concat (map snd sgs)"

fun layout :: "nat \<Rightarrow> segment list \<Rightarrow> bool" where
  "layout n [] \<longleftrightarrow> True"
| "layout n ((s, ls) # rest) \<longleftrightarrow> unat s = n \<and> ls \<noteq> [] \<and> layout (n + length ls) rest"

definition seg_map :: "path \<Rightarrow> segment list \<Rightarrow> path \<Rightarrow> string list option" where
  "seg_map dir sgs = map_of (map (\<lambda>(s, ls). (seg_at dir s, ls)) sgs)"

definition seg_bytes :: "path \<Rightarrow> segment list \<Rightarrow> path \<Rightarrow> string" where
  "seg_bytes dir sgs p = (case seg_map dir sgs p of None \<Rightarrow> [] | Some ls \<Rightarrow> terminated ls)"

lemma layout_append:
  "layout n (xs @ ys) \<longleftrightarrow> layout n xs \<and> layout (n + length (lines_in xs)) ys"
  by (induction n xs rule: layout.induct) (auto simp: lines_in_def add.assoc)

lemma layout_starts: "layout n sgs \<Longrightarrow> (s, ls) \<in> set sgs \<Longrightarrow> n \<le> unat s \<and> unat s < n + length (lines_in sgs)"
proof (induction n sgs rule: layout.induct)
  case (2 n a as rest)
  then show ?case by (cases as) (fastforce simp: lines_in_def)+
qed simp

lemma layout_ascending: "layout n sgs \<Longrightarrow> sorted_wrt (<) (map (\<lambda>(s, ls). seg_at dir s) sgs)"
proof (induction n sgs rule: layout.induct)
  case (2 n s ls rest)
  have "seg_at dir s < seg_at dir s'" if "(s', ls') \<in> set rest" for s' ls'
  proof (rule seg_at_less)
    have "n + length ls \<le> unat s'" using layout_starts [OF _ that] 2 by auto
    moreover have "0 < length ls" "unat s = n" using 2 by simp_all
    ultimately show "unat s < unat s'" by linarith
  qed
  with 2 show ?case by auto
qed simp

lemma layout_distinct: "layout n sgs \<Longrightarrow> distinct (map (\<lambda>(s, ls). seg_at dir s) sgs)"
  using layout_ascending strict_sorted_iff by blast

lemma seg_map_iff: "layout n sgs \<Longrightarrow> seg_map dir sgs p = Some ls \<longleftrightarrow> (\<exists>s. p = seg_at dir s \<and> (s, ls) \<in> set sgs)"
proof -
  assume "layout n sgs"
  then have "distinct (map fst (map (\<lambda>(s, ls). (seg_at dir s, ls)) sgs))"
    using layout_distinct [of n sgs dir] by (simp add: comp_def case_prod_unfold)
  then show ?thesis
    by (auto simp: seg_map_def map_of_eq_Some_iff)
qed

lemma seg_map_dom: "dom (seg_map dir sgs) = (\<lambda>(s, ls). seg_at dir s) ` set sgs"
  by (auto simp: seg_map_def dom_map_of_conv_image_fst image_image case_prod_unfold)

lemma seg_map_parent: "seg_map dir sgs p \<noteq> None \<Longrightarrow> parent p = Some dir"
proof -
  assume "seg_map dir sgs p \<noteq> None"
  then have "p \<in> dom (seg_map dir sgs)" by blast
  then show ?thesis by (auto simp: seg_map_dom seg_at_def)
qed

text \<open>
  The directory holds the segments, and the last of them carries \<open>t\<close> after its whole
  lines; everything is durable.
\<close>

definition holds :: "path \<Rightarrow> segment list \<Rightarrow> string \<Rightarrow> disk \<Rightarrow> bool" where
  "holds dir sgs t d \<longleftrightarrow>
     bt_ok (files d) \<and> layout 0 sgs \<and> (sgs = [] \<longrightarrow> t = []) \<and>
     (\<forall>p. parent p = Some dir \<longrightarrow>
        bt_get (files d) p =
          (case seg_map dir sgs p of
             None \<Rightarrow> None
           | Some ls \<Rightarrow>
               (let bytes = terminated ls @ (if p = seg_at dir (fst (last sgs)) then t else [])
                in Some \<lparr>durable = bytes, live = bytes, durable_entry = True\<rparr>)))"

lemma holds_list:
  assumes "holds dir sgs t d"
  shows "filter (\<lambda>p. parent p = Some dir) (bt_keys (files d)) = map (\<lambda>(s, ls). seg_at dir s) sgs"
proof (rule strict_sorted_equal)
  have ok: "bt_ok (files d)" and lay: "layout 0 sgs" using assms by (auto simp: holds_def)
  show "sorted_wrt (<) (filter (\<lambda>p. parent p = Some dir) (bt_keys (files d)))"
    using bt.keys_ascending [OF ok] by (simp add: sorted_wrt_filter)
  show "sorted_wrt (<) (map (\<lambda>(s, ls). seg_at dir s) sgs)" using layout_ascending [OF lay] .
  have "p \<in> set (bt_keys (files d)) \<longleftrightarrow> p \<in> dom (seg_map dir sgs)" if "parent p = Some dir" for p
    using assms that by (cases "seg_map dir sgs p") (auto simp: holds_def bt_keys_dom Let_def)
  moreover have "p \<in> dom (seg_map dir sgs) \<Longrightarrow> parent p = Some dir" for p
    using seg_map_parent by blast
  ultimately have "{p \<in> set (bt_keys (files d)). parent p = Some dir} = dom (seg_map dir sgs)" by blast
  then show "set (filter (\<lambda>p. parent p = Some dir) (bt_keys (files d))) = set (map (\<lambda>(s, ls). seg_at dir s) sgs)"
    by (simp add: seg_map_dom)
qed

lemma holds_get:
  assumes "holds dir sgs t d" "(s, ls) \<in> set sgs"
  shows "bt_get (files d) (seg_at dir s) =
    (let bytes = terminated ls @ (if s = fst (last sgs) then t else [])
     in Some \<lparr>durable = bytes, live = bytes, durable_entry = True\<rparr>)"
proof -
  have lay: "layout 0 sgs" using assms(1) by (simp add: holds_def)
  have "seg_map dir sgs (seg_at dir s) = Some ls" using seg_map_iff [OF lay] assms(2) by blast
  moreover have "parent (seg_at dir s) = Some dir" by (simp add: seg_at_def)
  moreover have "seg_at dir s = seg_at dir (fst (last sgs)) \<longleftrightarrow> s = fst (last sgs)" using seg_at_inj by auto
  ultimately show ?thesis using assms(1) by (simp add: holds_def)
qed

end
