(* ===== verification/Waves.thy ===== *)
theory Waves
  imports Segments
begin

text \<open>
  What a group commit plans: the lines of a wave laid out behind the segments a directory
  already holds, some in its last segment and the rest in new ones, chained to what is there.
\<close>

section \<open>Logs\<close>

text \<open>What the ledger relies on of third-party code.\<close>

definition sound_parts :: "third_party \<Rightarrow> bool" where
  "sound_parts ext \<longleftrightarrow>
     line_codec (to_line ext) (parse_line ext) \<and> \<not> is_ok (parse_line ext []) \<and>
     (\<forall>line r. parse_line ext line = Inr r \<longrightarrow> probe_v ext line = Some (ucast (r_v r)))"

definition log_ok :: "third_party \<Rightarrow> string list \<Rightarrow> bool" where
  "log_ok ext lines \<longleftrightarrow>
     chained (parse_line ext) (chain_hash ext) genesis_prev seq_first lines \<and>
     (\<forall>l \<in> set lines. lf \<notin> set l) \<and> length lines \<le> u64_max"

definition chain_head :: "third_party \<Rightarrow> string list \<Rightarrow> b3_hash" where
  "chain_head ext lines = chain_end (chain_hash ext) genesis_prev lines"

lemma log_ok_prefix: "log_ok ext (xs @ ys) \<Longrightarrow> log_ok ext xs"
  unfolding log_ok_def chained_append by simp

lemma log_ok_take: "log_ok ext (xs @ ys) \<Longrightarrow> log_ok ext (xs @ take k ys)"
  by (metis append.assoc append_take_drop_id log_ok_prefix)

lemma log_ok_snoc:
  assumes "log_ok ext lines" "lf \<notin> set line" "length lines < u64_max"
    and "continues_chain (parse_line ext) (chain_head ext lines) (of_nat (length lines)) line"
  shows "log_ok ext (lines @ [line])"
  using assms unfolding log_ok_def chained_append chain_head_def by (simp add: seq_first_def)

lemma chain_head_snoc: "chain_head ext (lines @ [line]) = chain_hash ext line"
  by (simp add: chain_head_def chain_end_append)

section \<open>Segments that grow\<close>

definition extend :: "segment list \<Rightarrow> string list \<Rightarrow> segment list" where
  "extend sgs gain = (if sgs = [] then [] else butlast sgs @ [(fst (last sgs), snd (last sgs) @ gain)])"

lemma extend_Nil [simp]: "extend sgs [] = sgs"
  by (cases sgs rule: rev_cases) (simp_all add: extend_def)

lemma extend_empty [simp]: "extend [] gain = []"
  by (simp add: extend_def)

lemma extend_snoc [simp]: "extend (sgs @ [(s, ls)]) gain = sgs @ [(s, ls @ gain)]"
  by (simp add: extend_def)

lemma extend_eq_Nil [simp]: "extend sgs gain = [] \<longleftrightarrow> sgs = []"
  by (simp add: extend_def)

lemma fst_last_extend: "sgs \<noteq> [] \<Longrightarrow> fst (last (extend sgs gain)) = fst (last sgs)"
  by (simp add: extend_def)

lemma lines_in_append [simp]: "lines_in (xs @ ys) = lines_in xs @ lines_in ys"
  by (simp add: lines_in_def)

lemma lines_in_simps [simp]: "lines_in [] = []" "lines_in ((s, ls) # sgs) = ls @ lines_in sgs"
  by (simp_all add: lines_in_def)

lemma lines_extend: "sgs \<noteq> [] \<Longrightarrow> lines_in (extend sgs gain) = lines_in sgs @ gain"
  by (cases sgs rule: rev_cases) auto

lemma layout_extend: "layout n sgs \<Longrightarrow> layout n (extend sgs gain)"
  by (cases sgs rule: rev_cases) (auto simp: layout_append)

lemma layout_lines_Nil: "layout n sgs \<Longrightarrow> lines_in sgs = [] \<longleftrightarrow> sgs = []"
  by (cases sgs rule: rev_cases) (auto simp: layout_append)

section \<open>The wave's own invariant\<close>

definition cur_seg :: "segment list \<Rightarrow> seq" where
  "cur_seg sgs = (if sgs = [] then seq_first else fst (last sgs))"

definition wave_writes :: "path \<Rightarrow> segment list \<Rightarrow> string list \<Rightarrow> segment list \<Rightarrow> (path \<times> string) list" where
  "wave_writes dir sgs gain news =
     (if gain = [] then [] else [(seg_at dir (cur_seg sgs), terminated gain)]) @
     map (\<lambda>(s, ls). (seg_at dir s, terminated ls)) news"

definition wave_created :: "path \<Rightarrow> segment list \<Rightarrow> segment list \<Rightarrow> path list" where
  "wave_created dir sgs news =
     (if sgs @ news = [] then [seg_at dir seq_first] else map (\<lambda>(s, _). seg_at dir s) news)"

definition wave_ok ::
  "third_party \<Rightarrow> path \<Rightarrow> segment list \<Rightarrow> string list \<Rightarrow> segment list \<Rightarrow> wave \<Rightarrow> bool" where
  "wave_ok ext dir sgs gain news w \<longleftrightarrow>
     (let lines = lines_in sgs @ gain @ lines_in news in
      (sgs = [] \<longrightarrow> gain = []) \<and> layout 0 (extend sgs gain @ news) \<and> log_ok ext lines \<and>
      unat (w_seq w) = length lines \<and> w_prev w = chain_head ext lines \<and>
      w_path w = seg_at dir (cur_seg (sgs @ news)) \<and> (w_len w = 0 \<longleftrightarrow> sgs @ news = []) \<and>
      w_writes w = wave_writes dir sgs gain news \<and> w_created w = wave_created dir sgs news \<and>
      map (parse_line ext) (gain @ lines_in news) = map Inr (w_records w))"

lemma saturating_zero: "saturating_add a b = 0 \<longleftrightarrow> a = 0 \<and> b = (0 :: u64)"
proof -
  have "saturating_add a b = 0 \<longleftrightarrow> unat (saturating_add a b) = 0" by (metis unat_0 word_unat_eq_iff)
  also have "\<dots> \<longleftrightarrow> unat a = 0 \<and> unat b = 0" by (auto simp: unat_saturating_add)
  finally show ?thesis by (metis unat_0 word_unat_eq_iff)
qed

lemma add_write_fresh: "\<forall>e \<in> set writes. fst e \<noteq> p \<Longrightarrow> add_write p b writes = writes @ [(p, b)]"
  by (auto simp: add_write_def)

lemma add_write_last: "add_write p b (writes @ [(p, a)]) = writes @ [(p, a @ b)]"
  by (simp add: add_write_def)

lemma terminated_snoc: "terminated (ls @ [l]) = terminated ls @ l @ [lf]"
  by (simp add: terminated_def)

text \<open>One line more in the segment that is being written.\<close>

lemma writes_same:
  assumes "sgs @ news \<noteq> []"
  shows "\<exists>gain' news'.
    add_write (seg_at dir (cur_seg (sgs @ news))) (line @ [lf]) (wave_writes dir sgs gain news) =
      wave_writes dir sgs gain' news' \<and>
    gain' @ lines_in news' = gain @ lines_in news @ [line] \<and>
    (sgs = [] \<longrightarrow> gain = [] \<longrightarrow> gain' = []) \<and>
    (layout 0 (extend sgs gain @ news) \<longrightarrow> layout 0 (extend sgs gain' @ news')) \<and>
    wave_created dir sgs news' = wave_created dir sgs news \<and>
    cur_seg (sgs @ news') = cur_seg (sgs @ news) \<and> sgs @ news' \<noteq> []"
proof (cases news rule: rev_cases)
  case Nil
  then have sgs: "sgs \<noteq> []" using assms by simp
  have "add_write (seg_at dir (cur_seg (sgs @ news))) (line @ [lf]) (wave_writes dir sgs gain news) =
      wave_writes dir sgs (gain @ [line]) []"
    using Nil by (auto simp: wave_writes_def add_write_def terminated_snoc)
  moreover have "layout 0 (extend sgs (gain @ [line]))" if "layout 0 (extend sgs gain)"
    using that sgs by (cases sgs rule: rev_cases) (auto simp: layout_append)
  ultimately show ?thesis using Nil sgs by (intro exI [of _ "gain @ [line]"] exI [of _ "[]"]) auto
next
  case (snoc ns n)
  obtain s ls where n: "n = (s, ls)" by (cases n)
  have "add_write (seg_at dir (cur_seg (sgs @ news))) (line @ [lf]) (wave_writes dir sgs gain news) =
      wave_writes dir sgs gain (ns @ [(s, ls @ [line])])"
    using snoc n add_write_last [of "seg_at dir s" "line @ [lf]" _ "terminated ls"]
    by (simp add: wave_writes_def cur_seg_def terminated_snoc append_assoc [symmetric] del: append_assoc)
  moreover have "layout 0 (extend sgs gain @ ns @ [(s, ls @ [line])])" if "layout 0 (extend sgs gain @ news)"
    using that snoc n by (auto simp: layout_append)
  ultimately show ?thesis using snoc n
    by (intro exI [of _ gain] exI [of _ "ns @ [(s, ls @ [line])]"])
      (auto simp: wave_created_def cur_seg_def)
qed

text \<open>One line more in a segment of its own.\<close>

lemma writes_paths:
  assumes "sgs = [] \<longrightarrow> gain = []" "e \<in> set (wave_writes dir sgs gain news)"
  shows "\<exists>s ls. fst e = seg_at dir s \<and> (s, ls) \<in> set (extend sgs gain @ news)"
proof (cases sgs rule: rev_cases)
  case Nil
  then show ?thesis using assms by (auto simp: wave_writes_def)
next
  case (snoc ss x)
  obtain s ls where "x = (s, ls)" by (cases x)
  then show ?thesis using assms snoc by (auto simp: wave_writes_def cur_seg_def split: if_splits)
qed

lemma writes_rolled:
  assumes "layout 0 (extend sgs gain @ news)" "unat s = length (lines_in (extend sgs gain @ news))" "sgs = [] \<longrightarrow> gain = []"
  shows "add_write (seg_at dir s) (line @ [lf]) (wave_writes dir sgs gain news) =
      wave_writes dir sgs gain (news @ [(s, [line])])"
    and "layout 0 (extend sgs gain @ news @ [(s, [line])])"
proof -
  have fresh: "seg_at dir s \<noteq> fst e" if e: "e \<in> set (wave_writes dir sgs gain news)" for e
  proof
    assume same: "seg_at dir s = fst e"
    obtain s' ls' where s': "fst e = seg_at dir s'" "(s', ls') \<in> set (extend sgs gain @ news)"
      using writes_paths [OF assms(3) e] by blast
    then have "unat s' < unat s" using layout_starts [OF assms(1) s'(2)] assms(2) by simp
    then show False using seg_at_inj [of dir s s'] same s'(1) by simp
  qed
  then have "\<forall>e \<in> set (wave_writes dir sgs gain news). fst e \<noteq> seg_at dir s" by metis
  then have "add_write (seg_at dir s) (line @ [lf]) (wave_writes dir sgs gain news) =
      wave_writes dir sgs gain news @ [(seg_at dir s, line @ [lf])]" by (rule add_write_fresh)
  then show "add_write (seg_at dir s) (line @ [lf]) (wave_writes dir sgs gain news) =
      wave_writes dir sgs gain (news @ [(s, [line])])"
    by (simp add: wave_writes_def terminated_def)
  show "layout 0 (extend sgs gain @ news @ [(s, [line])])"
    using assms(1,2) layout_append [of 0 "extend sgs gain @ news" "[(s, [line])]"] by simp
qed

section \<open>Planning a wave\<close>

lemma line_continues:
  assumes ext: "sound_parts ext" and line: "to_line ext (from_draft draft s p) = Inr line"
  shows "continues_chain (parse_line ext) p s line" "lf \<notin> set line"
    "parse_line ext line = Inr (from_draft draft s p)"
proof -
  show read: "parse_line ext line = Inr (from_draft draft s p)" and "lf \<notin> set line"
    using ext line by (auto simp: sound_parts_def line_codec_def)
  show "continues_chain (parse_line ext) p s line"
    using read by (simp add: continues_chain_def from_draft_def)
qed

lemma wave_step_ok:
  assumes ext: "sound_parts ext" and ok: "wave_ok ext dir sgs gain news w"
    and step: "wave_step ext dir roll draft w = Inr w'"
  shows "\<exists>gain' news' line. wave_ok ext dir sgs gain' news' w' \<and>
    gain' @ lines_in news' = gain @ lines_in news @ [line] \<and>
    w_records w' = w_records w @ [from_draft draft (w_seq w) (w_prev w)]"
proof -
  let ?r = "from_draft draft (w_seq w) (w_prev w)"
  let ?lines = "lines_in sgs @ gain @ lines_in news"
  have inv: "sgs = [] \<longrightarrow> gain = []" "layout 0 (extend sgs gain @ news)" "log_ok ext ?lines"
    "unat (w_seq w) = length ?lines" "w_prev w = chain_head ext ?lines"
    "w_path w = seg_at dir (cur_seg (sgs @ news))" "w_len w = 0 \<longleftrightarrow> sgs @ news = []"
    "w_writes w = wave_writes dir sgs gain news" "w_created w = wave_created dir sgs news"
    "map (parse_line ext) (gain @ lines_in news) = map Inr (w_records w)"
    using ok unfolding wave_ok_def Let_def by blast+
  obtain line where line: "to_line ext ?r = Inr line"
    using step by (cases "to_line ext ?r") (auto simp: wave_step_def)
  note cont = line_continues [OF ext line]
  obtain s where s: "seq_next (w_seq w) = Inr s"
    using step line by (cases "seq_next (w_seq w)") (auto simp: wave_step_def Let_def)
  define len where "len = saturating_add (sat_u64 (length line)) (1 :: u64)"
  define rolled where "rolled = (0 < w_len w \<and> roll < saturating_add (w_len w) len)"
  define cur where "cur = (if rolled then seg_at dir (w_seq w) else w_path w)"
  have w': "w' = \<lparr>w_seq = s, w_prev = chain_hash ext line, w_path = cur,
      w_len = saturating_add (if rolled then 0 else w_len w) len,
      w_writes = add_write cur (line @ [lf]) (w_writes w),
      w_created = (if rolled then w_created w @ [cur] else w_created w), w_records = w_records w @ [?r]\<rparr>"
    using step [symmetric] by (simp add: wave_step_def line s Let_def rolled_def cur_def len_def seg_at_def)
  have len: "w_len w' \<noteq> 0" by (simp add: w' saturating_zero len_def)
  have seq: "unat s = Suc (length ?lines)" using s inv(4) by (simp add: seq_next_iff)
  have "unat s \<le> u64_max" using unat_less_64 [of s] unfolding u64_max_def by linarith
  then have few: "length ?lines < u64_max" using seq by linarith
  have "w_seq w = of_nat (length ?lines)" unfolding inv(4) [symmetric] by simp
  then have log: "log_ok ext (?lines @ [line])"
    using log_ok_snoc [OF inv(3) cont(2) few] cont(1) inv(5) by simp
  have built: "wave_ok ext dir sgs gain' news' w'"
    if "gain' @ lines_in news' = gain @ lines_in news @ [line]" "sgs = [] \<longrightarrow> gain' = []"
      "layout 0 (extend sgs gain' @ news')" "cur = seg_at dir (cur_seg (sgs @ news'))" "sgs @ news' \<noteq> []"
      "w_writes w' = wave_writes dir sgs gain' news'" "w_created w' = wave_created dir sgs news'" for gain' news'
  proof -
    have "lines_in sgs @ gain' @ lines_in news' = ?lines @ [line]" using that(1) by simp
    moreover have "w_prev w' = chain_head ext (?lines @ [line])" by (simp add: w' chain_head_def chain_end_append)
    moreover have "map (parse_line ext) (gain' @ lines_in news') = map Inr (w_records w')"
      using inv(10) cont(3) unfolding that(1) by (simp add: w')
    ultimately show ?thesis
      using that log seq len unfolding wave_ok_def Let_def by (simp add: w')
  qed
  have "\<exists>gain' news'. wave_ok ext dir sgs gain' news' w' \<and> gain' @ lines_in news' = gain @ lines_in news @ [line]"
  proof (cases rolled)
    case True
    then have ne: "sgs @ news \<noteq> []" using inv(7) by (simp add: rolled_def word_gt_0)
    have "length (lines_in (extend sgs gain @ news)) = length ?lines"
      using inv(1) by (cases "sgs = []") (simp_all add: lines_extend)
    then have at: "unat (w_seq w) = length (lines_in (extend sgs gain @ news))" using inv(4) by simp
    note new = writes_rolled [OF inv(2) at inv(1)]
    have "wave_ok ext dir sgs gain (news @ [(w_seq w, [line])]) w'"
      using True new inv ne by (intro built) (simp_all add: cur_def cur_seg_def w' wave_created_def)
    then show ?thesis by (intro exI [of _ gain] exI [of _ "news @ [(w_seq w, [line])]"]) simp
  next
    case False
    show ?thesis
    proof (cases "sgs @ news = []")
      case True
      have "wave_ok ext dir sgs [] [(seq_first, [line])] w'"
        using True False inv
        by (intro built) (simp_all add: cur_def cur_seg_def w' wave_created_def wave_writes_def
          add_write_def terminated_def seq_first_def)
      then show ?thesis using True inv(1)
        by (intro exI [of _ "[]"] exI [of _ "[(seq_first, [line])]"]) simp
    next
      case ne: False
      obtain gain' news' where g: "add_write (seg_at dir (cur_seg (sgs @ news))) (line @ [lf]) (wave_writes dir sgs gain news) =
          wave_writes dir sgs gain' news'"
        "gain' @ lines_in news' = gain @ lines_in news @ [line]" "sgs = [] \<longrightarrow> gain = [] \<longrightarrow> gain' = []"
        "layout 0 (extend sgs gain @ news) \<longrightarrow> layout 0 (extend sgs gain' @ news')"
        "wave_created dir sgs news' = wave_created dir sgs news"
        "cur_seg (sgs @ news') = cur_seg (sgs @ news)" "sgs @ news' \<noteq> []"
        using writes_same [OF ne, of dir line gain] by blast
      have "wave_ok ext dir sgs gain' news' w'"
        using g inv False by (intro built) (simp_all add: cur_def w')
      then show ?thesis using g(2) by blast
    qed
  qed
  then show ?thesis by (force simp: w')
qed

text \<open>The records a wave makes of its drafts.\<close>

definition records_of :: "event_draft list \<Rightarrow> event_record list \<Rightarrow> bool" where
  "records_of drafts records \<longleftrightarrow>
     length records = length drafts \<and>
     (\<forall>i < length drafts. \<exists>s p. records ! i = from_draft (drafts ! i) s p)"

lemma wave_plan_ok:
  assumes ext: "sound_parts ext"
  shows "wave_ok ext dir sgs gain news w \<Longrightarrow> wave_plan ext dir roll drafts w = Inr w' \<Longrightarrow>
    \<exists>gain' news' new. wave_ok ext dir sgs gain' news' w' \<and> gain' @ lines_in news' = gain @ lines_in news @ new \<and>
      length new = length drafts \<and> (\<exists>rs. w_records w' = w_records w @ rs \<and> records_of drafts rs)"
proof (induction drafts arbitrary: gain news w)
  case Nil
  then show ?case by (intro exI [of _ gain] exI [of _ news] exI [of _ "[]"]) (simp add: records_of_def)
next
  case (Cons draft drafts)
  obtain w1 where w1: "wave_step ext dir roll draft w = Inr w1" "wave_plan ext dir roll drafts w1 = Inr w'"
    using Cons.prems(2) by (auto simp: bind_r_Inr_iff)
  obtain gain1 news1 line where g1: "wave_ok ext dir sgs gain1 news1 w1"
    "gain1 @ lines_in news1 = gain @ lines_in news @ [line]"
    "w_records w1 = w_records w @ [from_draft draft (w_seq w) (w_prev w)]"
    using wave_step_ok [OF ext Cons.prems(1) w1(1)] by blast
  obtain gain2 news2 new rs where g2: "wave_ok ext dir sgs gain2 news2 w'"
    "gain2 @ lines_in news2 = gain1 @ lines_in news1 @ new" "length new = length drafts"
    "w_records w' = w_records w1 @ rs" "records_of drafts rs"
    using Cons.IH [OF g1(1) w1(2)] by blast
  have "records_of (draft # drafts) (from_draft draft (w_seq w) (w_prev w) # rs)"
    using g2(5) by (auto simp: records_of_def less_Suc_eq_0_disj)
  moreover have "gain2 @ lines_in news2 = gain @ lines_in news @ line # new" using g1(2) g2(2) by simp
  ultimately show ?case using g1(3) g2
    by (intro exI [of _ gain2] exI [of _ news2] exI [of _ "line # new"]) auto
qed

lemma wave_plan_error: "wave_plan ext dir roll drafts w = Inl e \<Longrightarrow> \<exists>src. e = Draft src"
proof (induction drafts arbitrary: w)
  case (Cons draft drafts)
  then show ?case
    by (cases "wave_step ext dir roll draft w")
      (auto simp: wave_step_def Let_def split: sum.splits)
qed simp

end
