(* ===== verification/Effects.thy ===== *)
theory Effects
  imports Jsonl_Ledger
begin

text \<open>
  Triples for operations on the disk. A disk predicate is split into the pending plan and the files: an operation that
  succeeds leaves the plan as it was, and one that dies answers the cut of the files, which
  can only happen when the plan was not quiet.
\<close>

section \<open>Plans and files\<close>

type_synonym disk_files = "(path, file_state) btree"

definition quiet :: "fault_plan \<Rightarrow> bool" where
  "quiet pl \<longleftrightarrow> cut_at_op pl = None \<and> cut_on_write pl = None"

definition on :: "fault_plan \<Rightarrow> (disk_files \<Rightarrow> bool) \<Rightarrow> disk \<Rightarrow> bool" where
  "on pl I d \<longleftrightarrow> plan d = pl \<and> I (files d)"

definition cut_files :: "torn_tail \<Rightarrow> disk_files \<Rightarrow> disk_files" where
  "cut_files t m = map (\<lambda>(p, f). (p, settle t f)) (filter (\<lambda>(_, f). durable_entry f) m)"

definition lost :: "fault_plan \<Rightarrow> (disk_files \<Rightarrow> bool) \<Rightarrow> memory_error \<Rightarrow> disk \<Rightarrow> bool" where
  "lost pl J e d \<longleftrightarrow> \<not> quiet pl \<and> J (files d)"

lemma files_cut [simp]: "files (cut d) = cut_files (torn (plan d)) (files d)"
  by (simp add: cut_def cut_files_def)

lemma cut_files_get:
  "bt_ok m \<Longrightarrow> bt_get (cut_files t m) p =
    (case bt_get m p of None \<Rightarrow> None | Some f \<Rightarrow> if durable_entry f then Some (settle t f) else None)"
  using cut_get [of "\<lparr>files = m, dirs = [], op = 0, plan = \<lparr>cut_at_op = None, cut_on_write = None, torn = t\<rparr>\<rparr>" p]
  by (cases "bt_get m p") simp_all

lemma cut_files_ok: "bt_ok m \<Longrightarrow> bt_ok (cut_files t m)"
  using cut_ok [of "\<lparr>files = m, dirs = [], op = 0, plan = \<lparr>cut_at_op = None, cut_on_write = None, torn = t\<rparr>\<rparr>"]
  by simp

lemma triple_exact:
  assumes "\<And>m. I m \<Longrightarrow> triple (on pl (\<lambda>m'. m' = m)) c Q E"
  shows "triple (on pl I) c Q E"
  using assms by (fastforce simp: triple_def on_def)

text \<open>Asking whether a file exists changes nothing.\<close>

lemma triple_exists:
  assumes "triple (on pl (\<lambda>m. I m \<and> bt_get m p \<noteq> None)) a Q E"
    and "triple (on pl (\<lambda>m. I m \<and> bt_get m p = None)) b Q E"
  shows "triple (on pl I) (\<lambda>d. if vfs_exists p d then a d else b d) Q E"
  using assms by (auto simp: triple_def on_def vfs_exists_def)

lemma onI: "plan d = pl \<Longrightarrow> I (files d) \<Longrightarrow> on pl I d"
  by (simp add: on_def)

lemma charge_cases:
  obtains (dies) e d' where "charge n d = (Inl e, d')" "files d' = cut_files (torn (plan d)) (files d)"
      "\<not> quiet (plan d)"
  | (lives) d' where "charge n d = (Inr (), d')" "files d' = files d" "plan d' = plan d"
proof (cases "cut_at_op (plan d) = Some (saturating_add (op d) 1)")
  case True
  then show ?thesis by (intro dies) (auto simp: charge_def Let_def quiet_def)
next
  case False
  then show ?thesis
    by (intro lives [of "d\<lparr>op := saturating_add (op d) 1\<rparr>"]) (simp_all add: charge_def Let_def)
qed

text \<open>Power may go as an operation starts, or with a change to the files just made.\<close>

lemma triple_change:
  assumes "\<And>d. on pl I d \<Longrightarrow> v d = charge n (later d) \<and> plan (later d) = pl \<and> I' (files (later d)) \<and>
    J (cut_files (torn pl) (files (later d)))"
  shows "triple (on pl I) (io m q v) (\<lambda>_. on pl I') (lost pl J)"
proof (rule tripleI)
  fix d e d' assume d: "on pl I d" and r: "io m q v d = (Inl e, d')"
  show "lost pl J e d'"
    by (cases rule: charge_cases [of n "later d"]) (use r assms [OF d] in \<open>auto simp: io_def lost_def\<close>)
next
  fix d a d' assume d: "on pl I d" and r: "io m q v d = (Inr a, d')"
  show "on pl I' d'"
    by (cases rule: charge_cases [of n "later d"]) (use r assms [OF d] in \<open>auto simp: io_def on_def\<close>)
qed

section \<open>The operations the ledger uses\<close>

definition grown :: "disk_files \<Rightarrow> path \<Rightarrow> string \<Rightarrow> disk_files" where
  "grown m p bytes =
     bt_insert p
       (case bt_get m p of
          None \<Rightarrow> \<lparr>durable = [], live = bytes, durable_entry = False\<rparr>
        | Some f \<Rightarrow> f\<lparr>live := live f @ bytes\<rparr>) m"

definition shortened :: "disk_files \<Rightarrow> path \<Rightarrow> u64 \<Rightarrow> disk_files" where
  "shortened m p len =
     (case bt_get m p of None \<Rightarrow> m | Some f \<Rightarrow> bt_insert p (f\<lparr>live := take (unat len) (live f)\<rparr>) m)"

definition synced :: "disk_files \<Rightarrow> path \<Rightarrow> disk_files" where
  "synced m p = (case bt_get m p of None \<Rightarrow> m | Some f \<Rightarrow> bt_insert p (f\<lparr>durable := live f\<rparr>) m)"

definition entered :: "disk_files \<Rightarrow> path \<Rightarrow> disk_files" where
  "entered m dir = map (\<lambda>(p, f). (p, if parent p = Some dir then f\<lparr>durable_entry := True\<rparr> else f)) m"

text \<open>Every operation on files is a charge with a change before or after it.\<close>

lemma triple_append:
  assumes "\<And>m. I m \<Longrightarrow> I' (grown m p bytes)" "\<And>m. I m \<Longrightarrow> J (cut_files (torn pl) (grown m p bytes))"
  shows "triple (on pl I) (io n q (vfs_append p bytes)) (\<lambda>_. on pl I') (lost pl J)"
proof -
  define later where "later d = d\<lparr>files := grown (files d) p bytes\<rparr>" for d :: disk
  have step: "vfs_append p bytes d =
      (case cut_on_write (plan d) of
         Some needle \<Rightarrow> if contains bytes needle
           then (fst (vfs_append p bytes d), cut (later d\<lparr>plan := (plan d)\<lparr>cut_on_write := None\<rparr>, op := saturating_add (op d) 1\<rparr>))
           else charge ''append'' (later d)
       | None \<Rightarrow> charge ''append'' (later d))" for d
    by (auto simp: vfs_append_def later_def grown_def Let_def split: option.split)
  show ?thesis
  proof (rule tripleI)
    fix d e d' assume d: "on pl I d" and r: "io n q (vfs_append p bytes) d = (Inl e, d')"
    show "lost pl J e d'"
    proof (cases "\<exists>needle. cut_on_write (plan d) = Some needle \<and> contains bytes needle")
      case True
      then have "d' = snd (vfs_append p bytes d)" "\<not> quiet pl"
        using r d by (auto simp: io_def quiet_def on_def split: prod.splits sum.splits)
      moreover have "files (snd (vfs_append p bytes d)) = cut_files (torn pl) (grown (files d) p bytes)"
        using True d by (subst step) (auto simp: later_def on_def)
      ultimately show ?thesis using assms(2) d by (simp add: lost_def on_def)
    next
      case False
      then have "vfs_append p bytes d = charge ''append'' (later d)"
        by (subst step) (auto split: option.split)
      then show ?thesis using r d assms
        by (cases rule: charge_cases [of "''append''" "later d"]) (auto simp: io_def lost_def on_def later_def)
    qed
  next
    fix d a d' assume d: "on pl I d" and r: "io n q (vfs_append p bytes) d = (Inr a, d')"
    have "\<not> (\<exists>needle. cut_on_write (plan d) = Some needle \<and> contains bytes needle)"
      using r by (auto simp: io_def vfs_append_def Let_def split: prod.splits sum.splits)
    then have "vfs_append p bytes d = charge ''append'' (later d)"
      by (subst step) (auto split: option.split)
    then show "on pl I' d'" using r d assms
      by (cases rule: charge_cases [of "''append''" "later d"]) (auto simp: io_def on_def later_def)
  qed
qed

lemma triple_truncate:
  assumes "\<And>m. I m \<Longrightarrow> bt_get m p \<noteq> None \<and> I' (shortened m p len) \<and> J (cut_files (torn pl) (shortened m p len))"
  shows "triple (on pl I) (io n q (vfs_truncate p len)) (\<lambda>_. on pl I') (lost pl J)"
proof (rule triple_change)
  fix d assume "on pl I d"
  then have "plan d = pl" "bt_get (files d) p \<noteq> None" "I' (shortened (files d) p len)"
    "J (cut_files (torn pl) (shortened (files d) p len))" using assms by (auto simp: on_def)
  then show "vfs_truncate p len d = charge ''truncate'' (d\<lparr>files := shortened (files d) p len\<rparr>) \<and>
      plan (d\<lparr>files := shortened (files d) p len\<rparr>) = pl \<and>
      I' (files (d\<lparr>files := shortened (files d) p len\<rparr>)) \<and>
      J (cut_files (torn pl) (files (d\<lparr>files := shortened (files d) p len\<rparr>)))"
    by (auto simp: vfs_truncate_def shortened_def)
qed

lemma triple_remove:
  assumes "\<And>m. I m \<Longrightarrow> bt_get m p \<noteq> None \<and> I' (bt_remove p m) \<and> J (cut_files (torn pl) (bt_remove p m))"
  shows "triple (on pl I) (io n q (vfs_remove_file p)) (\<lambda>_. on pl I') (lost pl J)"
proof (rule triple_change)
  fix d assume "on pl I d"
  then have "plan d = pl" "bt_get (files d) p \<noteq> None" "I' (bt_remove p (files d))"
    "J (cut_files (torn pl) (bt_remove p (files d)))" using assms by (auto simp: on_def)
  then show "vfs_remove_file p d = charge ''remove_file'' (d\<lparr>files := bt_remove p (files d)\<rparr>) \<and>
      plan (d\<lparr>files := bt_remove p (files d)\<rparr>) = pl \<and>
      I' (files (d\<lparr>files := bt_remove p (files d)\<rparr>)) \<and>
      J (cut_files (torn pl) (files (d\<lparr>files := bt_remove p (files d)\<rparr>)))"
    by (auto simp: vfs_remove_file_def)
qed

definition renamed :: "disk_files \<Rightarrow> path \<Rightarrow> path \<Rightarrow> disk_files" where
  "renamed m src dst =
     (case bt_get m src of None \<Rightarrow> m | Some f \<Rightarrow> bt_insert dst (f\<lparr>durable_entry := False\<rparr>) (bt_remove src m))"

lemma triple_rename:
  assumes "\<And>m. I m \<Longrightarrow> bt_get m src \<noteq> None \<and> I' (renamed m src dst) \<and> J (cut_files (torn pl) (renamed m src dst))"
  shows "triple (on pl I) (io n q (vfs_rename src dst)) (\<lambda>_. on pl I') (lost pl J)"
proof (rule triple_change)
  fix d assume "on pl I d"
  then have "plan d = pl" "bt_get (files d) src \<noteq> None" "I' (renamed (files d) src dst)"
    "J (cut_files (torn pl) (renamed (files d) src dst))" using assms by (auto simp: on_def)
  then show "vfs_rename src dst d = charge ''rename'' (d\<lparr>files := renamed (files d) src dst\<rparr>) \<and>
      plan (d\<lparr>files := renamed (files d) src dst\<rparr>) = pl \<and>
      I' (files (d\<lparr>files := renamed (files d) src dst\<rparr>)) \<and>
      J (cut_files (torn pl) (files (d\<lparr>files := renamed (files d) src dst\<rparr>)))"
    by (auto simp: vfs_rename_def renamed_def)
qed

lemma triple_create_dir:
  assumes "\<And>m. I m \<Longrightarrow> J (cut_files (torn pl) m)"
  shows "triple (on pl I) (io n q (vfs_create_dir_all dir)) (\<lambda>_. on pl I) (lost pl J)"
  using assms
  by (intro triple_change [where n = "''create_dir_all''" and later = "\<lambda>d. d\<lparr>dirs := bs_insert dir (dirs d)\<rparr>"])
    (simp add: vfs_create_dir_all_def on_def)

lemma triple_sync_data:
  assumes "\<And>m. I m \<Longrightarrow> bt_get m p \<noteq> None \<and> I' (synced m p) \<and> J (cut_files (torn pl) m)"
  shows "triple (on pl I) (io n q (vfs_sync_data p)) (\<lambda>_. on pl I') (lost pl J)"
proof (rule tripleI)
  fix d e d' assume d: "on pl I d" and r: "io n q (vfs_sync_data p) d = (Inl e, d')"
  show "lost pl J e d'"
    by (cases rule: charge_cases [of "''sync_data''" d])
      (use r d assms [of "files d"] in \<open>auto simp: io_def lost_def on_def vfs_sync_data_def\<close>)
next
  fix d a d' assume d: "on pl I d" and r: "io n q (vfs_sync_data p) d = (Inr a, d')"
  show "on pl I' d'"
    by (cases rule: charge_cases [of "''sync_data''" d])
      (use r d assms [of "files d"] in \<open>auto simp: io_def on_def vfs_sync_data_def synced_def\<close>)
qed

lemma triple_sync_dir:
  assumes "\<And>m. I m \<Longrightarrow> I' (entered m dir) \<and> J (cut_files (torn pl) m)"
  shows "triple (on pl I) (io n q (vfs_sync_dir dir)) (\<lambda>_. on pl I') (lost pl J)"
proof (rule tripleI)
  fix d e d' assume d: "on pl I d" and r: "io n q (vfs_sync_dir dir) d = (Inl e, d')"
  show "lost pl J e d'"
    by (cases rule: charge_cases [of "''sync_dir''" d])
      (use r d assms [of "files d"] in \<open>auto simp: io_def lost_def on_def vfs_sync_dir_def\<close>)
next
  fix d a d' assume d: "on pl I d" and r: "io n q (vfs_sync_dir dir) d = (Inr a, d')"
  show "on pl I' d'"
    by (cases rule: charge_cases [of "''sync_dir''" d])
      (use r d assms [of "files d"] in \<open>auto simp: io_def on_def vfs_sync_dir_def entered_def\<close>)
qed

lemma triple_read:
  assumes "\<And>m. I m \<Longrightarrow> J (cut_files (torn pl) m) \<and> (\<exists>f. bt_get m p = Some f \<and> live f = bytes)"
  shows "triple (on pl I) (io n q (vfs_read p)) (\<lambda>got d. got = bytes \<and> on pl I d) (lost pl J)"
proof (rule tripleI)
  fix d e d' assume d: "on pl I d" and r: "io n q (vfs_read p) d = (Inl e, d')"
  show "lost pl J e d'"
    by (cases rule: charge_cases [of "''read''" d])
      (use r d assms [of "files d"] in \<open>auto simp: io_def lost_def on_def vfs_read_def\<close>)
next
  fix d a d' assume d: "on pl I d" and r: "io n q (vfs_read p) d = (Inr a, d')"
  show "a = bytes \<and> on pl I d'"
    by (cases rule: charge_cases [of "''read''" d])
      (use r d assms [of "files d"] in \<open>auto simp: io_def on_def vfs_read_def\<close>)
qed

lemma triple_list:
  assumes "\<And>m. I m \<Longrightarrow> J (cut_files (torn pl) m) \<and> filter (\<lambda>p. parent p = Some dir) (bt_keys m) = paths"
  shows "triple (on pl I) (io n q (vfs_list dir)) (\<lambda>got d. got = paths \<and> on pl I d) (lost pl J)"
proof (rule tripleI)
  fix d e d' assume d: "on pl I d" and r: "io n q (vfs_list dir) d = (Inl e, d')"
  show "lost pl J e d'"
    by (cases rule: charge_cases [of "''list''" d])
      (use r d assms [of "files d"] in \<open>auto simp: io_def lost_def on_def vfs_list_def charged_def\<close>)
next
  fix d a d' assume d: "on pl I d" and r: "io n q (vfs_list dir) d = (Inr a, d')"
  show "a = paths \<and> on pl I d'"
    by (cases rule: charge_cases [of "''list''" d])
      (use r d assms [of "files d"] in \<open>auto simp: io_def on_def vfs_list_def charged_def\<close>)
qed

end
