(* ===== verification/Ledger_Crash.thy ===== *)
theory Ledger_Crash
  imports Waves Effects
begin

text \<open>
  A group commit against a disk that may lose power in any of its operations: either every
  line of the wave is durable, or the disk settles to the old lines, some first lines of the
  wave that went to the old segment, and at most one torn line behind them.
\<close>

section \<open>The files of a directory\<close>

definition holds_files :: "path \<Rightarrow> segment list \<Rightarrow> string \<Rightarrow> disk_files \<Rightarrow> bool" where
  "holds_files dir sgs t m \<longleftrightarrow>
     bt_ok m \<and> layout 0 sgs \<and> (sgs = [] \<longrightarrow> t = []) \<and>
     (\<forall>p. parent p = Some dir \<longrightarrow>
        bt_get m p =
          (case seg_map dir sgs p of
             None \<Rightarrow> None
           | Some ls \<Rightarrow>
               (let bytes = terminated ls @ (if p = seg_at dir (cur_seg sgs) then t else [])
                in Some \<lparr>durable = bytes, live = bytes, durable_entry = True\<rparr>)))"

lemma holds_files_iff: "holds dir sgs t d \<longleftrightarrow> holds_files dir sgs t (files d)"
  by (cases "sgs = []") (simp_all add: holds_def holds_files_def cur_seg_def seg_map_def)

lemma seg_map_append: "seg_map dir (xs @ ys) p = (case seg_map dir xs p of None \<Rightarrow> seg_map dir ys p | Some ls \<Rightarrow> Some ls)"
  by (simp add: seg_map_def map_add_def split: option.split)

lemma seg_map_single: "seg_map dir [(s, ls)] p = (if p = seg_at dir s then Some ls else None)"
  by (simp add: seg_map_def)

lemma seg_map_apart:
  assumes "layout 0 (xs @ ys)" "seg_map dir xs p = Some ls"
  shows "seg_map dir ys p = None"
proof (rule ccontr)
  assume "seg_map dir ys p \<noteq> None"
  then obtain ls' where y: "seg_map dir ys p = Some ls'" by blast
  have lay: "layout 0 xs" "layout (0 + length (lines_in xs)) ys" using assms(1) by (simp_all only: layout_append)
  obtain s where s: "p = seg_at dir s" "(s, ls) \<in> set xs" using seg_map_iff [OF lay(1)] assms(2) by blast
  obtain s' where s': "p = seg_at dir s'" "(s', ls') \<in> set ys" using seg_map_iff [OF lay(2)] y by blast
  have "s = s'" using seg_at_inj s(1) s'(1) by metis
  then show False using layout_starts [OF lay(1) s(2)] layout_starts [OF lay(2) s'(2)] by simp
qed

lemma seg_map_cur:
  assumes "layout 0 sgs" "sgs \<noteq> []"
  shows "seg_map dir sgs (seg_at dir (cur_seg sgs)) = Some (snd (last sgs))"
proof -
  have "(cur_seg sgs, snd (last sgs)) \<in> set sgs" using assms(2) by (simp add: cur_seg_def)
  then show ?thesis using seg_map_iff [OF assms(1)] by blast
qed

lemma seg_map_extend:
  assumes "layout 0 sgs"
  shows "seg_map dir (extend sgs gain) p =
    (if p = seg_at dir (cur_seg sgs) then map_option (\<lambda>ls. ls @ gain) (seg_map dir sgs p) else seg_map dir sgs p)"
proof (cases sgs rule: rev_cases)
  case Nil
  then show ?thesis by (simp add: seg_map_def)
next
  case (snoc ss x)
  obtain s ls where x: "x = (s, ls)" by (cases x)
  have "seg_map dir ss (seg_at dir s) = None"
    using seg_map_apart [of ss "[(s, ls)]" dir "seg_at dir s"] assms snoc x
    by (cases "seg_map dir ss (seg_at dir s)") (auto simp: seg_map_single)
  then show ?thesis using snoc x
    by (auto simp: seg_map_append seg_map_single cur_seg_def split: option.split)
qed

lemma cur_seg_extend [simp]: "cur_seg (extend sgs gain) = cur_seg sgs"
  by (simp add: cur_seg_def fst_last_extend)

lemma cur_seg_behind [simp]: "cur_seg (extend sgs gain @ news) = cur_seg (sgs @ news)"
  by (cases news) (simp_all add: cur_seg_def fst_last_extend)

section \<open>Midway through a commit\<close>

text \<open>The bytes of \<open>A\<close> have been appended, those of \<open>S\<close> synced as well.\<close>

definition file_at ::
  "path \<Rightarrow> segment list \<Rightarrow> string list \<Rightarrow> segment list \<Rightarrow> path set \<Rightarrow> path set \<Rightarrow> path \<Rightarrow> file_state option" where
  "file_at dir sgs gain news A S p =
     (case seg_map dir sgs p of
        Some ls \<Rightarrow>
          (let new = (if p = seg_at dir (cur_seg sgs) then terminated gain else [])
           in Some \<lparr>durable = terminated ls @ (if p \<in> S then new else []),
                    live = terminated ls @ (if p \<in> A then new else []), durable_entry = True\<rparr>)
      | None \<Rightarrow>
          (case seg_map dir news p of
             Some ls \<Rightarrow>
               if p \<in> A
               then Some \<lparr>durable = (if p \<in> S then terminated ls else []), live = terminated ls, durable_entry = False\<rparr>
               else None
           | None \<Rightarrow> None))"

definition midway ::
  "path \<Rightarrow> segment list \<Rightarrow> string list \<Rightarrow> segment list \<Rightarrow> path set \<Rightarrow> path set \<Rightarrow> disk_files \<Rightarrow> bool" where
  "midway dir sgs gain news A S m \<longleftrightarrow>
     bt_ok m \<and> S \<subseteq> A \<and> (\<forall>p. parent p = Some dir \<longrightarrow> bt_get m p = file_at dir sgs gain news A S p)"

lemma midway_start: "holds_files dir sgs [] m \<Longrightarrow> midway dir sgs gain news {} {} m"
  by (auto simp: holds_files_def midway_def file_at_def Let_def split: option.split)

lemma news_apart:
  assumes "layout 0 sgs" "layout 0 (extend sgs gain @ news)" "seg_map dir news p \<noteq> None"
  shows "seg_map dir sgs p = None"
proof (rule ccontr)
  assume "seg_map dir sgs p \<noteq> None"
  then obtain ls where "seg_map dir (extend sgs gain) p = Some ls"
    by (cases "p = seg_at dir (cur_seg sgs)") (auto simp: seg_map_extend [OF assms(1)])
  then have "seg_map dir news p = None" by (rule seg_map_apart [OF assms(2)])
  then show False using assms(3) by simp
qed

lemma writes_cases:
  assumes lay: "layout 0 sgs" "layout 0 (extend sgs gain @ news)" and "sgs = [] \<longrightarrow> gain = []"
    and w: "(p, b) \<in> set (wave_writes dir sgs gain news)"
  shows "parent p = Some dir"
    and "(\<exists>ls. seg_map dir sgs p = Some ls \<and> p = seg_at dir (cur_seg sgs) \<and> b = terminated gain) \<or>
     (\<exists>ls. seg_map dir sgs p = None \<and> seg_map dir news p = Some ls \<and> b = terminated ls)"
proof -
  show "parent p = Some dir" using w by (auto simp: wave_writes_def seg_at_def split: if_splits)
  consider "gain \<noteq> []" "p = seg_at dir (cur_seg sgs)" "b = terminated gain"
    | s ls where "(s, ls) \<in> set news" "p = seg_at dir s" "b = terminated ls"
    using w by (auto simp: wave_writes_def split: if_splits)
  then show "(\<exists>ls. seg_map dir sgs p = Some ls \<and> p = seg_at dir (cur_seg sgs) \<and> b = terminated gain) \<or>
     (\<exists>ls. seg_map dir sgs p = None \<and> seg_map dir news p = Some ls \<and> b = terminated ls)"
  proof cases
    case 1
    then show ?thesis using seg_map_cur [OF lay(1)] assms(3) by blast
  next
    case 2
    have "layout (0 + length (lines_in (extend sgs gain))) news" using lay(2) by (simp only: layout_append)
    then have "seg_map dir news p = Some ls" using seg_map_iff 2 by blast
    then show ?thesis using news_apart [OF lay] 2(3) by blast
  qed
qed

lemma writes_distinct:
  assumes "layout 0 sgs" "layout 0 (extend sgs gain @ news)" "sgs = [] \<longrightarrow> gain = []"
  shows "distinct (map fst (wave_writes dir sgs gain news))"
proof -
  have lay: "layout (0 + length (lines_in (extend sgs gain))) news" using assms(2) by (simp only: layout_append)
  have "distinct (map (\<lambda>(s, ls). seg_at dir s) news)" by (rule layout_distinct [OF lay])
  moreover have "seg_at dir (cur_seg sgs) \<notin> set (map (\<lambda>(s, ls). seg_at dir s) news)" if "gain \<noteq> []"
  proof
    assume "seg_at dir (cur_seg sgs) \<in> set (map (\<lambda>(s, ls). seg_at dir s) news)"
    then have "seg_map dir news (seg_at dir (cur_seg sgs)) \<noteq> None"
      using seg_map_dom [of dir news] by force
    then show False using news_apart [OF assms(1,2)] seg_map_cur [OF assms(1)] assms(3) that by fastforce
  qed
  ultimately show ?thesis by (auto simp: wave_writes_def comp_def case_prod_unfold)
qed

lemma file_at_other:
  assumes "q \<noteq> p"
  shows "file_at dir sgs gain news (insert p A) S q = file_at dir sgs gain news A S q"
    "file_at dir sgs gain news A (insert p S) q = file_at dir sgs gain news A S q"
proof -
  have other: "q \<in> insert p X \<longleftrightarrow> q \<in> X" for X using assms by blast
  show "file_at dir sgs gain news (insert p A) S q = file_at dir sgs gain news A S q"
    "file_at dir sgs gain news A (insert p S) q = file_at dir sgs gain news A S q"
    unfolding file_at_def other by (rule refl)+
qed

lemma midway_append:
  assumes mid: "midway dir sgs gain news A S m" and new: "p \<notin> A"
    and par: "parent p = Some dir"
    and w: "(\<exists>ls. seg_map dir sgs p = Some ls \<and> p = seg_at dir (cur_seg sgs) \<and> b = terminated gain) \<or>
     (\<exists>ls. seg_map dir sgs p = None \<and> seg_map dir news p = Some ls \<and> b = terminated ls)"
  shows "midway dir sgs gain news (insert p A) S (grown m p b)"
proof -
  have get: "bt_get m p = file_at dir sgs gain news A S p" and "p \<notin> S" and ok: "bt_ok m"
    using mid par new by (auto simp: midway_def)
  have "bt_get (grown m p b) p = file_at dir sgs gain news (insert p A) S p"
    using w get new \<open>p \<notin> S\<close> by (auto simp: grown_def file_at_def map_laws)
  moreover have "bt_get (grown m p b) q = bt_get m q" if "q \<noteq> p" for q
    using that by (simp add: grown_def map_laws)
  moreover have "file_at dir sgs gain news (insert p A) S q = file_at dir sgs gain news A S q" if "q \<noteq> p" for q
    using that by (rule file_at_other)
  moreover have "bt_ok (grown m p b)" using ok by (simp add: grown_def map_laws)
  ultimately show ?thesis using mid unfolding midway_def by (metis subset_insertI2)
qed

lemma midway_sync:
  assumes mid: "midway dir sgs gain news A S m" and "p \<in> A" and par: "parent p = Some dir"
    and there: "seg_map dir sgs p \<noteq> None \<or> seg_map dir news p \<noteq> None"
  shows "bt_get m p \<noteq> None \<and> midway dir sgs gain news A (insert p S) (synced m p)"
proof -
  have get: "bt_get m p = file_at dir sgs gain news A S p" and ok: "bt_ok m"
    using mid par by (auto simp: midway_def)
  have some: "bt_get m p \<noteq> None" using get there assms(2) by (auto simp: file_at_def Let_def split: option.split)
  have "bt_get (synced m p) p = file_at dir sgs gain news A (insert p S) p"
    using get there assms(2) by (auto simp: synced_def file_at_def map_laws Let_def split: option.split)
  moreover have "bt_get (synced m p) q = bt_get m q" if "q \<noteq> p" for q
    using that by (simp add: synced_def map_laws split: option.split)
  moreover have "file_at dir sgs gain news A (insert p S) q = file_at dir sgs gain news A S q" if "q \<noteq> p" for q
    using that by (rule file_at_other)
  moreover have "bt_ok (synced m p)" using ok by (simp add: synced_def map_laws split: option.split)
  ultimately show ?thesis using mid assms(2) some unfolding midway_def by (metis insert_subset)
qed

section \<open>Where a cut leaves the directory\<close>

lemma settle_between:
  assumes "prefix x y"
  shows "\<exists>u. prefix u y \<and> settle t \<lparr>durable = old @ x, live = old @ y, durable_entry = e\<rparr> =
    \<lparr>durable = old @ u, live = old @ u, durable_entry = e\<rparr>"
proof -
  obtain z where y: "y = x @ z" using assms by (auto simp: prefix_def)
  then have "prefix (x @ take n z) y" for n by (simp add: take_is_prefix)
  then show ?thesis using y
    by (intro exI [of _ "x @ take (torn_keep t z) z"]) (simp add: settle_def Let_def)
qed

lemma settle_even [simp]:
  "settle t \<lparr>durable = x, live = x, durable_entry = e\<rparr> = \<lparr>durable = x, live = x, durable_entry = e\<rparr>"
  by (simp add: settle_def)

definition crashed :: "path \<Rightarrow> segment list \<Rightarrow> string list \<Rightarrow> disk_files \<Rightarrow> bool" where
  "crashed dir sgs gain m \<longleftrightarrow> (\<exists>k t. lf \<notin> set t \<and> holds_files dir (extend sgs (take k gain)) t m)"

lemma midway_cut:
  assumes mid: "midway dir sgs gain news A S m" and lay: "layout 0 sgs"
    and some: "sgs = [] \<longrightarrow> gain = []" and plain: "\<forall>l \<in> set gain. lf \<notin> set l"
  shows "crashed dir sgs gain (cut_files tr m)"
proof -
  let ?q = "seg_at dir (cur_seg sgs)"
  have ok: "bt_ok m" and get: "\<And>p. parent p = Some dir \<Longrightarrow> bt_get m p = file_at dir sgs gain news A S p"
    using mid by (auto simp: midway_def)
  have "prefix (if ?q \<in> S then terminated gain else []) (if ?q \<in> A then terminated gain else [])"
    using mid by (auto simp: midway_def)
  then obtain u where u: "prefix u (if ?q \<in> A then terminated gain else [])"
    "\<And>ls. ls = snd (last sgs) \<Longrightarrow>
      settle tr \<lparr>durable = terminated ls @ (if ?q \<in> S then terminated gain else []),
        live = terminated ls @ (if ?q \<in> A then terminated gain else []), durable_entry = True\<rparr> =
      \<lparr>durable = terminated ls @ u, live = terminated ls @ u, durable_entry = True\<rparr>"
    using settle_between [of _ _ tr "terminated (snd (last sgs))" True] by metis
  have "prefix u (terminated gain)" using u(1) by (auto split: if_splits)
  then obtain k t where k: "u = terminated (take k gain) @ t" "lf \<notin> set t"
    using terminated_prefix [OF _ plain] by blast
  have t: "sgs = [] \<Longrightarrow> t = []" using k(1) \<open>prefix u (terminated gain)\<close> some by (auto simp: terminated_def)
  have "bt_get (cut_files tr m) p =
      (case seg_map dir (extend sgs (take k gain)) p of
         None \<Rightarrow> None
       | Some ls \<Rightarrow>
           (let bytes = terminated ls @ (if p = seg_at dir (cur_seg (extend sgs (take k gain))) then t else [])
            in Some \<lparr>durable = bytes, live = bytes, durable_entry = True\<rparr>))" if p: "parent p = Some dir" for p
  proof (cases "seg_map dir sgs p")
    case None
    then show ?thesis
      by (auto simp: cut_files_get [OF ok] get [OF p] file_at_def seg_map_extend [OF lay] split: option.split)
  next
    case (Some ls)
    show ?thesis
    proof (cases "p = ?q")
      case True
      have "sgs \<noteq> []" using Some by (auto simp: seg_map_def)
      then have "ls = snd (last sgs)" using Some seg_map_cur [OF lay] True by simp
      then have ls: "settle tr \<lparr>durable = terminated ls @ (if p \<in> S then terminated gain else []),
          live = terminated ls @ (if p \<in> A then terminated gain else []), durable_entry = True\<rparr> =
        \<lparr>durable = terminated ls @ u, live = terminated ls @ u, durable_entry = True\<rparr>"
        using u(2) True by simp
      have "bt_get m p = Some \<lparr>durable = terminated ls @ (if p \<in> S then terminated gain else []),
          live = terminated ls @ (if p \<in> A then terminated gain else []), durable_entry = True\<rparr>"
        unfolding get [OF p] file_at_def Some using True by (simp add: Let_def)
      then have "bt_get (cut_files tr m) p =
          Some \<lparr>durable = terminated ls @ u, live = terminated ls @ u, durable_entry = True\<rparr>"
        using ls by (simp add: cut_files_get [OF ok])
      moreover have "seg_map dir (extend sgs (take k gain)) p = Some (ls @ take k gain)"
        using Some True by (simp add: seg_map_extend [OF lay])
      ultimately show ?thesis using True k(1) by (simp add: terminated_append Let_def)
    next
      case False
      then show ?thesis using Some
        by (simp add: cut_files_get [OF ok] get [OF p] file_at_def seg_map_extend [OF lay] Let_def)
    qed
  qed
  then have "holds_files dir (extend sgs (take k gain)) t (cut_files tr m)"
    using t cut_files_ok [OF ok] layout_extend [OF lay] by (auto simp: holds_files_def)
  then show ?thesis using k(2) unfolding crashed_def by blast
qed

section \<open>Where a commit leaves the directory\<close>

lemma seg_map_in_writes:
  assumes "layout 0 (extend sgs gain @ news)" "seg_map dir news p = Some ls"
  shows "p \<in> fst ` set (wave_writes dir sgs gain news)"
proof -
  have "layout (0 + length (lines_in (extend sgs gain))) news" using assms(1) by (simp only: layout_append)
  then obtain s where "p = seg_at dir s" "(s, ls) \<in> set news" using seg_map_iff assms(2) by blast
  then show ?thesis by (force simp: wave_writes_def)
qed

lemma file_at_whole:
  assumes lay: "layout 0 sgs" "layout 0 (extend sgs gain @ news)"
    and X: "X = fst ` set (wave_writes dir sgs gain news)"
  shows "file_at dir sgs gain news X X p =
    map_option (\<lambda>ls. \<lparr>durable = terminated ls, live = terminated ls, durable_entry = (seg_map dir sgs p \<noteq> None)\<rparr>)
      (seg_map dir (extend sgs gain @ news) p)"
proof (cases "seg_map dir sgs p")
  case None
  then have "p \<in> X" if "seg_map dir news p = Some ls" for ls
    using seg_map_in_writes [OF lay(2)] that X by blast
  then show ?thesis using None
    by (auto simp: file_at_def seg_map_append seg_map_extend [OF lay(1)] split: option.split)
next
  case (Some ls)
  have "p \<in> X" if "p = seg_at dir (cur_seg sgs)" "gain \<noteq> []" using that X by (simp add: wave_writes_def)
  then show ?thesis using Some
    by (cases "gain = []")
      (auto simp: file_at_def seg_map_append seg_map_extend [OF lay(1)] terminated_append Let_def)
qed

lemma whole_entered:
  assumes lay: "layout 0 sgs" "layout 0 (extend sgs gain @ news)"
    and X: "X = fst ` set (wave_writes dir sgs gain news)"
    and mid: "midway dir sgs gain news X X m"
  shows "holds_files dir (extend sgs gain @ news) [] (entered m dir)"
proof -
  have ok: "bt_ok m" and get: "\<And>p. parent p = Some dir \<Longrightarrow> bt_get m p = file_at dir sgs gain news X X p"
    using mid by (auto simp: midway_def)
  have keys: "bt_keys (entered m dir) = bt_keys m" by (simp add: entered_def bt_keys_def case_prod_unfold)
  have "bt_ok (entered m dir)" using ok keys by (simp add: bt_ok_def)
  moreover have "bt_get (entered n dir) p = map_option (\<lambda>f. f\<lparr>durable_entry := True\<rparr>) (bt_get n p)"
    if "parent p = Some dir" for n p
    using that by (induction n) (auto simp: entered_def bt_get_def)
  ultimately show ?thesis
    using lay(2) by (auto simp: holds_files_def get file_at_whole [OF lay X] Let_def split: option.split)
qed

lemma whole_old:
  assumes lay: "layout 0 sgs" "layout 0 (extend sgs gain)"
    and X: "X = fst ` set (wave_writes dir sgs gain [])"
    and mid: "midway dir sgs gain [] X X m"
  shows "holds_files dir (extend sgs gain) [] m"
proof -
  have ok: "bt_ok m" and get: "\<And>p. parent p = Some dir \<Longrightarrow> bt_get m p = file_at dir sgs gain [] X X p"
    using mid by (auto simp: midway_def)
  have lay2: "layout 0 (extend sgs gain @ [])" using lay(2) by simp
  show ?thesis
    using lay(2) ok
    by (auto simp: holds_files_def get file_at_whole [OF lay(1) lay2 X] seg_map_extend [OF lay(1)] Let_def split: option.split)
qed

text \<open>The barrier: appends, syncs, and the directory when a segment is new.\<close>

lemma commit_triple:
  assumes lay: "layout 0 sgs" "layout 0 (extend sgs gain @ news)" and some: "sgs = [] \<longrightarrow> gain = []"
    and plain: "\<forall>l \<in> set gain. lf \<notin> set l" and ne: "sgs @ news \<noteq> []"
    and w: "w_writes w = wave_writes dir sgs gain news" "w_created w = wave_created dir sgs news"
  shows "triple (on pl (holds_files dir sgs [])) (commit_wave dir w)
    (\<lambda>_. on pl (holds_files dir (extend sgs gain @ news) [])) (lost pl (crashed dir sgs gain))"
proof -
  let ?W = "wave_writes dir sgs gain news"
  let ?X = "fst ` set ?W"
  let ?mid = "midway dir sgs gain news"
  note cut = midway_cut [OF _ lay(1) some plain]
  note cases = writes_cases [OF lay some]
  have "triple (on pl (?mid (fst ` set ([] :: (path \<times> string) list)) {})) (for_each (\<lambda>(p, bytes). io ''append event line'' p (vfs_append p bytes)) ?W)
      (\<lambda>_. on pl (?mid (fst ` set ?W) {})) (lost pl (crashed dir sgs gain))"
  proof (rule triple_for_each [where I = "\<lambda>before. on pl (?mid (fst ` set before) {})"])
    fix before x after assume split: "?W = before @ x # after"
    obtain p b where x: "x = (p, b)" by (cases x)
    have "(p, b) \<in> set ?W" using split x by simp
    note here = cases [OF this]
    have "distinct (map fst ?W)" by (rule writes_distinct [OF lay some])
    then have fresh: "p \<notin> fst ` set before" using split x by auto
    have grow: "?mid (fst ` set (before @ [x])) {} (grown m p b)" if "?mid (fst ` set before) {} m" for m
      using midway_append [OF that fresh here] x by simp
    show "triple (on pl (?mid (fst ` set before) {}))
        (case x of (p, bytes) \<Rightarrow> io ''append event line'' p (vfs_append p bytes))
        (\<lambda>_. on pl (?mid (fst ` set (before @ [x])) {})) (lost pl (crashed dir sgs gain))"
      unfolding x prod.case
    proof (rule triple_append)
      fix m assume m: "?mid (fst ` set before) {} m"
      show "?mid (fst ` set (before @ [(p, b)])) {} (grown m p b)" using grow [OF m] x by simp
      show "crashed dir sgs gain (cut_files (torn pl) (grown m p b))" by (rule cut [OF grow [OF m]])
    qed
  qed
  then have appends: "triple (on pl (holds_files dir sgs [])) (for_each (\<lambda>(p, bytes). io ''append event line'' p (vfs_append p bytes)) ?W)
      (\<lambda>_. on pl (?mid ?X (fst ` set ([] :: (path \<times> string) list)))) (lost pl (crashed dir sgs gain))"
    by (rule triple_weaken) (use midway_start in \<open>auto simp: on_def\<close>)
  have syncs: "triple (on pl (?mid ?X (fst ` set ([] :: (path \<times> string) list)))) (for_each (\<lambda>(p, _). io ''sync segment'' p (vfs_sync_data p)) ?W)
      (\<lambda>_. on pl (?mid ?X (fst ` set ?W))) (lost pl (crashed dir sgs gain))"
  proof (rule triple_for_each [where I = "\<lambda>before. on pl (?mid ?X (fst ` set before))"])
    fix before x after assume split: "?W = before @ x # after"
    obtain p b where x: "x = (p, b)" by (cases x)
    have mem: "(p, b) \<in> set ?W" using split x by simp
    note here = cases [OF this]
    have there: "seg_map dir sgs p \<noteq> None \<or> seg_map dir news p \<noteq> None" using here(2) by auto
    have "p \<in> ?X" using mem by force
    then have sync: "bt_get m p \<noteq> None \<and> ?mid ?X (fst ` set (before @ [x])) (synced m p)"
      if "?mid ?X (fst ` set before) m" for m
      using midway_sync [OF that _ here(1) there] x by simp
    show "triple (on pl (?mid ?X (fst ` set before))) (case x of (p, _) \<Rightarrow> io ''sync segment'' p (vfs_sync_data p))
        (\<lambda>_. on pl (?mid ?X (fst ` set (before @ [x])))) (lost pl (crashed dir sgs gain))"
      unfolding x prod.case
    proof (rule triple_sync_data)
      fix m assume m: "?mid ?X (fst ` set before) m"
      show "bt_get m p \<noteq> None \<and> ?mid ?X (fst ` set (before @ [(p, b)])) (synced m p) \<and>
          crashed dir sgs gain (cut_files (torn pl) m)"
        using sync [OF m] cut [OF m] x by blast
    qed
  qed
  have dirs: "triple (on pl (?mid ?X ?X))
      (if w_created w \<noteq> [] then io ''sync ledger dir'' dir (vfs_sync_dir dir) else ret ())
      (\<lambda>_. on pl (holds_files dir (extend sgs gain @ news) [])) (lost pl (crashed dir sgs gain))"
  proof (cases "w_created w = []")
    case True
    then have "news = []" using ne w(2) by (auto simp: wave_created_def split: if_splits)
    then show ?thesis using True whole_old [OF lay(1) _ refl, of gain dir] lay(2)
      by (auto intro!: triple_ret simp: on_def)
  next
    case False
    have "triple (on pl (?mid ?X ?X)) (io ''sync ledger dir'' dir (vfs_sync_dir dir))
        (\<lambda>_. on pl (holds_files dir (extend sgs gain @ news) [])) (lost pl (crashed dir sgs gain))"
      using whole_entered [OF lay refl] cut by (intro triple_sync_dir) blast
    then show ?thesis using False by simp
  qed
  show ?thesis
    unfolding commit_wave_def w(1)
    by (rule triple_then [OF appends], rule triple_then [OF syncs], rule dirs)
qed

end
