(* ===== verification/Ledger_Recovery.thy ===== *)
theory Ledger_Recovery
  imports Ledger_Crash
begin

text \<open>
  The two operations of a durable ledger against a disk that may lose power: a group commit
  either makes the whole wave durable or leaves a prefix of it, and opening finds every whole
  line again, drops a torn one and says so in the log.
\<close>

section \<open>Up and down\<close>

definition at_rest :: "third_party \<Rightarrow> path \<Rightarrow> segment list \<Rightarrow> jsonl \<Rightarrow> bool" where
  "at_rest ext dir sgs l \<longleftrightarrow>
     l_dir l = dir \<and> unat (next_seq l) = length (lines_in sgs) \<and> l_prev l = chain_head ext (lines_in sgs) \<and>
     seg_path l = seg_at dir (cur_seg sgs) \<and> (seg_len l = 0 \<longleftrightarrow> sgs = []) \<and> log_ok ext (lines_in sgs)"

text \<open>The ledger is open on these lines; or they are what a disk holds, torn bytes apart.\<close>

definition open_on :: "third_party \<Rightarrow> path \<Rightarrow> string list \<Rightarrow> jsonl \<Rightarrow> disk \<Rightarrow> bool" where
  "open_on ext dir lines l d \<longleftrightarrow>
     (\<exists>sgs. at_rest ext dir sgs l \<and> holds_files dir sgs [] (files d) \<and> lines_in sgs = lines)"

definition survived :: "third_party \<Rightarrow> path \<Rightarrow> string list \<Rightarrow> disk_files \<Rightarrow> bool" where
  "survived ext dir lines m \<longleftrightarrow>
     (\<exists>sgs t. holds_files dir sgs t m \<and> lf \<notin> set t \<and> lines_in sgs = lines \<and> log_ok ext lines)"

lemma open_survives: "open_on ext dir lines l d \<Longrightarrow> survived ext dir lines (files d)"
  unfolding open_on_def survived_def at_rest_def by (metis empty_iff list.set(1))

section \<open>The group commit\<close>

lemma wave_start_ok:
  assumes rest: "at_rest ext dir sgs l" and hold: "holds_files dir sgs [] (files d)"
  shows "wave_ok ext dir sgs [] [] (wave_start l d)"
proof -
  have "\<not> vfs_exists (seg_path l) d" if "sgs = []"
    using hold rest that by (auto simp: holds_files_def at_rest_def vfs_exists_def seg_map_def cur_seg_def seg_at_def)
  then show ?thesis using rest hold
    unfolding wave_ok_def Let_def wave_start_def at_rest_def holds_files_def
    by (auto simp: wave_writes_def wave_created_def cur_seg_def)
qed

lemma append_all_outcome:
  assumes ext: "sound_parts ext" and up: "open_on ext dir lines l d"
  shows "append_all ext l drafts d = (Inr (l', refs), d') \<Longrightarrow>
      \<exists>new rs. open_on ext dir (lines @ new) l' d' \<and> plan d' = plan d \<and>
        map (parse_line ext) new = map Inr rs \<and> records_of drafts rs \<and> refs = map to_ref rs"
    and "append_all ext l drafts d = (Inl e, d') \<Longrightarrow>
      (d' = d \<and> (\<exists>src. e = Draft src)) \<or>
      (\<not> quiet (plan d) \<and> (\<exists>new k. length new = length drafts \<and> log_ok ext (lines @ new) \<and>
        survived ext dir (lines @ take k new) (files d')))"
proof -
  obtain sgs where rest: "at_rest ext dir sgs l" and hold: "holds_files dir sgs [] (files d)"
    and lines: "lines_in sgs = lines" using up unfolding open_on_def by blast
  have dir: "l_dir l = dir" using rest by (simp add: at_rest_def)
  have planned: "\<exists>gain news new rs. wave_ok ext dir sgs gain news w \<and> gain @ lines_in news = new \<and>
      length new = length drafts \<and> w_records w = rs \<and> records_of drafts rs"
    if "wave_plan ext (l_dir l) (roll_bytes l) drafts (wave_start l d) = Inr w" for w
    using wave_plan_ok [OF ext wave_start_ok [OF rest hold] that [unfolded dir]]
    by (auto simp: wave_start_def)
  have committed: "triple (on (plan d) (holds_files dir sgs [])) (commit_wave dir w)
      (\<lambda>_. on (plan d) (holds_files dir (extend sgs gain @ news) [])) (lost (plan d) (crashed dir sgs gain))"
    if "wave_ok ext dir sgs gain news w" "drafts \<noteq> []" "gain @ lines_in news = new" "length new = length drafts"
    for gain news w new
  proof (rule commit_triple)
    show "layout 0 sgs" using hold by (simp add: holds_files_def)
    show "layout 0 (extend sgs gain @ news)" "sgs = [] \<longrightarrow> gain = []"
      "w_writes w = wave_writes dir sgs gain news" "w_created w = wave_created dir sgs news"
      using that(1) unfolding wave_ok_def Let_def by blast+
    show "\<forall>l \<in> set gain. lf \<notin> set l" using that(1) unfolding wave_ok_def Let_def log_ok_def by auto
    show "sgs @ news \<noteq> []"
    proof
      assume "sgs @ news = []"
      then have "new = []" using that(1,3) by (auto simp: wave_ok_def Let_def)
      then show False using that(2,4) by simp
    qed
  qed
  have on: "on (plan d) (holds_files dir sgs []) d" using hold by (simp add: on_def)
  { assume r: "append_all ext l drafts d = (Inr (l', refs), d')"
    show "\<exists>new rs. open_on ext dir (lines @ new) l' d' \<and> plan d' = plan d \<and>
        map (parse_line ext) new = map Inr rs \<and> records_of drafts rs \<and> refs = map to_ref rs"
    proof (cases "drafts = []")
      case True
      then have "l' = l \<and> refs = [] \<and> d' = d" using r by (simp add: append_all_def ret_def)
      then show ?thesis using up True by (intro exI [of _ "[]"]) (simp add: records_of_def)
    next
      case False
      then obtain w where w: "wave_plan ext (l_dir l) (roll_bytes l) drafts (wave_start l d) = Inr w"
        and c: "commit_wave dir w d = (Inr (), d')"
        and l': "l' = l\<lparr>seg_path := w_path w, seg_len := w_len w, next_seq := w_seq w, l_prev := w_prev w,
             heard := map_option (\<lambda>told. told @ w_records w) (heard l)\<rparr>" "refs = map to_ref (w_records w)"
        using r dir by (auto simp: append_all_def and_then_def ret_def split: sum.splits prod.splits)
      obtain gain news new rs where g: "wave_ok ext dir sgs gain news w" "gain @ lines_in news = new"
        "length new = length drafts" "w_records w = rs" "records_of drafts rs" using planned [OF w] by blast
      have "on (plan d) (holds_files dir (extend sgs gain @ news) []) d'"
        using tripleD(2) [OF committed [OF g(1) False g(2,3)] on c] .
      moreover have li: "lines_in (extend sgs gain @ news) = lines @ new"
        using g(1,2) lines by (cases "sgs = []") (auto simp: wave_ok_def Let_def lines_extend)
      have ne: "sgs @ news \<noteq> []" using g(1-3) False by (auto simp: wave_ok_def Let_def)
      have "at_rest ext dir (extend sgs gain @ news) l'"
        using g(1,2) lines rest ne unfolding at_rest_def li wave_ok_def Let_def l'
        by auto
      ultimately have "open_on ext dir (lines @ new) l' d' \<and> plan d' = plan d"
        using li unfolding open_on_def on_def by blast
      moreover have "map (parse_line ext) new = map Inr rs"
        using g(1,2,4) unfolding wave_ok_def Let_def by auto
      ultimately show ?thesis using g(4,5) l'(2) by blast
    qed }
  { assume r: "append_all ext l drafts d = (Inl e, d')"
    have ne: "drafts \<noteq> []" using r by (auto simp: append_all_def ret_def)
    show "(d' = d \<and> (\<exists>src. e = Draft src)) \<or>
      (\<not> quiet (plan d) \<and> (\<exists>new k. length new = length drafts \<and> log_ok ext (lines @ new) \<and>
        survived ext dir (lines @ take k new) (files d')))"
    proof (cases "wave_plan ext (l_dir l) (roll_bytes l) drafts (wave_start l d)")
      case (Inl e')
      then have "e = e' \<and> d' = d" using r ne by (simp add: append_all_def)
      then show ?thesis using Inl wave_plan_error by blast
    next
      case (Inr w)
      then have c: "commit_wave dir w d = (Inl e, d')"
        using r ne dir by (auto simp: append_all_def and_then_def ret_def split: sum.splits prod.splits)
      obtain gain news new rs where g: "wave_ok ext dir sgs gain news w" "gain @ lines_in news = new"
        "length new = length drafts" "w_records w = rs" "records_of drafts rs" using planned [OF Inr] by blast
      have lost: "lost (plan d) (crashed dir sgs gain) e d'"
        using tripleD(1) [OF committed [OF g(1) ne g(2,3)] on c] .
      have all: "log_ok ext (lines @ new)" using g(1,2) lines unfolding wave_ok_def Let_def by auto
      obtain k t where k: "lf \<notin> set t" "holds_files dir (extend sgs (take k gain)) t (files d')"
        using lost unfolding lost_def crashed_def by blast
      have "lines_in (extend sgs (take k gain)) = lines @ take (min k (length gain)) new"
        using g(1,2) lines by (cases "sgs = []") (auto simp: wave_ok_def Let_def lines_extend min_def)
      then have "survived ext dir (lines @ take (min k (length gain)) new) (files d')"
        using k log_ok_take [OF all] unfolding survived_def by metis
      then show ?thesis using lost g(3) all unfolding lost_def by blast
    qed }
qed

end
