(* ===== verification/Ledger_Opening.thy ===== *)
theory Ledger_Opening
  imports Ledger_Recovery
begin

text \<open>
  Opening a directory after a cut: every whole line is found and checked against the chain,
  torn bytes behind the last of them are truncated, and the log is told that they were.
  A cut while opening leaves what the cut before it left.
\<close>

section \<open>Reading along the chain\<close>

lemma triple_value: "triple (on pl I) (f v) Q E \<Longrightarrow> triple (\<lambda>d. a = v \<and> on pl I d) (f a) Q E"
  by (auto simp: triple_def)

lemma tail_scan_chained:
  "chained (parse_line ext) (chain_hash ext) p s lines \<Longrightarrow> unat s + length lines \<le> u64_max \<Longrightarrow>
   tail_scan ext final i lines p s v =
     Inr (chain_end (chain_hash ext) p lines, s + of_nat (length lines), v + length (terminated lines))"
proof (induction lines arbitrary: i p s v)
  case Nil
  then show ?case by (simp add: terminated_def)
next
  case (Cons line lines)
  have less: "unat s + 1 < 2 ^ 64" using Cons.prems(2) by (simp add: u64_max_def)
  have next1: "unat (s + 1) = unat s + 1" using less by (subst unat_add_no_wrap) simp_all
  then have "seq_next s = Inr (s + 1)" by (simp add: seq_next_iff)
  moreover have "tail_scan ext final (Suc i) lines (chain_hash ext line) (s + 1) (v + length line + 1) =
      Inr (chain_end (chain_hash ext) (chain_hash ext line) lines, s + 1 + of_nat (length lines),
        v + length line + 1 + length (terminated lines))"
    using Cons.prems next1 by (intro Cons.IH) simp_all
  ultimately show ?case using Cons.prems(1) by (simp add: terminated_def algebra_simps)
qed

lemma log_ok_end:
  assumes "log_ok ext (lines @ [line])"
  shows "continues_chain (parse_line ext) (chain_head ext lines) (of_nat (length lines)) line"
  using assms unfolding log_ok_def chained_append chain_head_def by (simp add: seq_first_def)

lemma continues_reads: "continues_chain parse p s line \<Longrightarrow> \<exists>r. parse line = Inr r \<and> r_seq r = s \<and> r_v r = event_log_v"
  by (auto simp: continues_chain_def split: sum.splits)

lemma log_ok_reads: "log_ok ext (line # lines) \<Longrightarrow> \<exists>r. parse_line ext line = Inr r \<and> r_v r = event_log_v"
  using continues_reads by (fastforce simp: log_ok_def)

lemma unat_sat_u64: "n \<le> u64_max \<Longrightarrow> unat (sat_u64 n) = n"
proof -
  assume n: "n \<le> u64_max"
  then have "n < 2 ^ LENGTH(64)" unfolding u64_max_def by simp
  then have "take_bit LENGTH(64) n = n" by (rule take_bit_nat_eq_self)
  then show ?thesis using n by (simp only: sat_u64_def if_True unsigned_of_nat of_nat_id)
qed

lemma sat_u64_zero [simp]: "sat_u64 n = 0 \<longleftrightarrow> n = 0"
proof (cases "n \<le> u64_max")
  case True
  then show ?thesis using unat_sat_u64 [OF True] by (metis unat_0 word_unat_eq_iff)
next
  case False
  then have "sat_u64 n = - 1" by (simp only: sat_u64_def if_False)
  moreover have "n \<noteq> 0" using False by (intro notI) simp
  ultimately show ?thesis by simp
qed

section \<open>The directory found\<close>

text \<open>No file is longer than a 64-bit length can say.\<close>

definition fits_disk :: "disk_files \<Rightarrow> bool" where
  "fits_disk m \<longleftrightarrow> (\<forall>p f. bt_get m p = Some f \<longrightarrow> length (live f) \<le> u64_max)"

definition seg_paths :: "path \<Rightarrow> segment list \<Rightarrow> path list" where
  "seg_paths dir sgs = map (\<lambda>(s, _). seg_at dir s) sgs"

lemma found_segments:
  assumes "holds_files dir sgs t m"
  shows "filter (\<lambda>p. parent p = Some dir) (bt_keys m) = seg_paths dir sgs"
    "filter is_segment (seg_paths dir sgs) = seg_paths dir sgs"
proof -
  have "holds dir sgs t \<lparr>files = m, dirs = [], op = 0, plan = undefined\<rparr>"
    using assms by (simp add: holds_files_iff)
  from holds_list [OF this] show "filter (\<lambda>p. parent p = Some dir) (bt_keys m) = seg_paths dir sgs"
    by (simp add: seg_paths_def)
  show "filter is_segment (seg_paths dir sgs) = seg_paths dir sgs"
    using segment_name_is_segment by (auto simp: seg_paths_def seg_at_def filter_id_conv)
qed

lemma holds_cut:
  assumes "holds_files dir sgs t m"
  shows "holds_files dir sgs t (cut_files tr m)"
  using assms cut_files_ok [of m tr]
  by (auto simp: holds_files_def cut_files_get Let_def split: option.split)

lemma holds_live:
  assumes "holds_files dir sgs t m" "(s, ls) \<in> set sgs"
  shows "\<exists>f. bt_get m (seg_at dir s) = Some f \<and> live f = terminated ls @ (if s = cur_seg sgs then t else [])"
proof -
  have "layout 0 sgs" using assms(1) by (simp add: holds_files_def)
  then have "seg_map dir sgs (seg_at dir s) = Some ls" using seg_map_iff assms(2) by blast
  moreover have "parent (seg_at dir s) = Some dir" by (simp add: seg_at_def)
  moreover have "seg_at dir s = seg_at dir (cur_seg sgs) \<longleftrightarrow> s = cur_seg sgs" using seg_at_inj by auto
  ultimately show ?thesis using assms(1) by (simp add: holds_files_def Let_def)
qed

text \<open>The last segment's live plane already shortened, its durable one not.\<close>

definition trimmed :: "path \<Rightarrow> segment list \<Rightarrow> string \<Rightarrow> disk_files \<Rightarrow> bool" where
  "trimmed dir sgs t m \<longleftrightarrow>
     bt_ok m \<and> layout 0 sgs \<and>
     (\<forall>p. parent p = Some dir \<longrightarrow>
        bt_get m p =
          (case seg_map dir sgs p of
             None \<Rightarrow> None
           | Some ls \<Rightarrow> Some \<lparr>durable = terminated ls @ (if p = seg_at dir (cur_seg sgs) then t else []),
                             live = terminated ls, durable_entry = True\<rparr>))"

lemma holds_trimmed:
  assumes hold: "holds_files dir sgs t m" and ne: "sgs \<noteq> []"
    and small: "length (terminated (snd (last sgs))) \<le> u64_max"
  shows "trimmed dir sgs t (shortened m (seg_at dir (cur_seg sgs)) (sat_u64 (length (terminated (snd (last sgs))))))"
proof -
  let ?q = "seg_at dir (cur_seg sgs)"
  have lay: "layout 0 sgs" and ok: "bt_ok m" using hold by (auto simp: holds_files_def)
  have "seg_map dir sgs ?q = Some (snd (last sgs))" by (rule seg_map_cur [OF lay ne])
  moreover have "parent ?q = Some dir" by (simp add: seg_at_def)
  ultimately have q: "bt_get m ?q = Some \<lparr>durable = terminated (snd (last sgs)) @ t,
      live = terminated (snd (last sgs)) @ t, durable_entry = True\<rparr>"
    using hold by (simp add: holds_files_def Let_def)
  then show ?thesis
    using hold seg_map_cur [OF lay ne, of dir]
    by (auto simp: trimmed_def holds_files_def shortened_def map_laws unat_sat_u64 [OF small] Let_def
        split: option.split)
qed

lemma trimmed_cut:
  assumes "trimmed dir sgs t m" "sgs \<noteq> []"
  shows "holds_files dir sgs t (cut_files tr m)"
  using assms cut_files_ok [of m tr]
  by (auto simp: trimmed_def holds_files_def cut_files_get settle_def Let_def split: option.split)

lemma trimmed_synced:
  assumes "trimmed dir sgs t m" "sgs \<noteq> []"
  shows "bt_get m (seg_at dir (cur_seg sgs)) \<noteq> None \<and> holds_files dir sgs [] (synced m (seg_at dir (cur_seg sgs)))"
proof -
  let ?q = "seg_at dir (cur_seg sgs)"
  have lay: "layout 0 sgs" and ok: "bt_ok m" using assms(1) by (auto simp: trimmed_def)
  have "parent ?q = Some dir" by (simp add: seg_at_def)
  then have "bt_get m ?q = Some \<lparr>durable = terminated (snd (last sgs)) @ t, live = terminated (snd (last sgs)), durable_entry = True\<rparr>"
    using assms seg_map_cur [OF lay assms(2), of dir] by (simp add: trimmed_def)
  then show ?thesis
    using assms(1) seg_map_cur [OF lay assms(2), of dir]
    by (auto simp: trimmed_def holds_files_def synced_def map_laws Let_def split: option.split)
qed

section \<open>Opening\<close>

text \<open>What an opening that failed leaves: the lines, with at most the note of a truncation.\<close>

definition shut :: "third_party \<Rightarrow> path \<Rightarrow> string list \<Rightarrow> fault_plan \<Rightarrow> memory_error \<Rightarrow> disk \<Rightarrow> bool" where
  "shut ext dir lines pl e d \<longleftrightarrow>
     (\<not> quiet pl \<or> (\<exists>src. e = Draft src)) \<and>
     (\<exists>extra. length extra \<le> 1 \<and> survived ext dir (lines @ extra) (files d))"

definition reopened ::
  "third_party \<Rightarrow> path \<Rightarrow> string list \<Rightarrow> fault_plan \<Rightarrow> jsonl \<times> u64 option \<Rightarrow> disk \<Rightarrow> bool" where
  "reopened ext dir lines pl res d \<longleftrightarrow>
     plan d = pl \<and>
     (\<exists>extra. length extra \<le> 1 \<and> (snd res = None \<longrightarrow> extra = []) \<and> open_on ext dir (lines @ extra) (fst res) d)"

lemma lost_shut: "lost pl (survived ext dir lines) e d \<Longrightarrow> shut ext dir lines pl e d"
  unfolding lost_def shut_def by (metis append_Nil2 le0 list.size(3))

text \<open>The directory under recovery: its last segment, what is before it, and the torn bytes.\<close>

definition recovers ::
  "third_party \<Rightarrow> segment list \<Rightarrow> string \<Rightarrow> seq \<Rightarrow> string list \<Rightarrow> segment list \<Rightarrow> bool" where
  "recovers ext sgs t s0 ls0 before \<longleftrightarrow>
     sound_parts ext \<and> sgs = before @ [(s0, ls0)] \<and> layout 0 sgs \<and> log_ok ext (lines_in sgs) \<and> lf \<notin> set t"

lemma recoversD:
  assumes "recovers ext sgs t s0 ls0 before"
  shows "sound_parts ext" "sgs = before @ [(s0, ls0)]" "layout 0 sgs" "log_ok ext (lines_in sgs)" "lf \<notin> set t"
    "ls0 \<noteq> []" "sgs \<noteq> []" "cur_seg sgs = s0" "snd (last sgs) = ls0"
    "last (seg_paths dir sgs) = seg_at dir s0"
  using assms by (auto simp: recovers_def layout_append cur_seg_def seg_paths_def)

lemma recovering_cut:
  assumes "recovers ext sgs t s0 ls0 before" "holds_files dir sgs t m"
  shows "survived ext dir (lines_in sgs) (cut_files tr m)"
  using holds_cut [OF assms(2)] recoversD [OF assms(1)] unfolding survived_def by blast

lemma recovering_lines:
  assumes R: "recovers ext sgs t s0 ls0 before" and mem: "(s, ls) \<in> set sgs"
  shows "complete_lines (terminated ls @ (if s = cur_seg sgs then t else [])) = (ls, length (terminated ls))"
proof -
  have "\<forall>l \<in> set ls. lf \<notin> set l" using recoversD(4) [OF R] mem unfolding log_ok_def lines_in_def by force
  then show ?thesis using complete_terminated recoversD(5) [OF R] by simp
qed

lemma recovering_read:
  assumes R: "recovers ext sgs t s0 ls0 before" and mem: "(s, ls) \<in> set sgs"
  shows "triple (on pl (holds_files dir sgs t)) (io n p (vfs_read (seg_at dir s)))
    (\<lambda>got d. got = terminated ls @ (if s = cur_seg sgs then t else []) \<and> on pl (holds_files dir sgs t) d)
    (lost pl (survived ext dir (lines_in sgs)))"
  using recovering_cut [OF R] holds_live [OF _ mem] by (intro triple_read) blast

lemma probe_passes:
  assumes R: "recovers ext sgs t s0 ls0 before"
  shows "triple (on pl (holds_files dir sgs t)) (probe_version ext (seg_paths dir sgs))
    (\<lambda>_. on pl (holds_files dir sgs t)) (lost pl (survived ext dir (lines_in sgs)))"
proof (cases sgs)
  case Nil
  then show ?thesis using recoversD(7) [OF R] by simp
next
  case (Cons x rest)
  note ext = recoversD(1) [OF R] and lay = recoversD(3) [OF R] and log = recoversD(4) [OF R]
  obtain s ls where x: "x = (s, ls)" by (cases x)
  then obtain line more_lines where ls: "ls = line # more_lines"
    using lay Cons by (cases ls) auto
  have mem: "(s, ls) \<in> set sgs" using Cons x by simp
  have "log_ok ext (line # more_lines @ lines_in rest)" using log Cons x ls by simp
  then obtain r where "parse_line ext line = Inr r" "r_v r = event_log_v" using log_ok_reads by blast
  then have v: "probe_v ext line = Some (ucast event_log_v)" using ext unfolding sound_parts_def by metis
  let ?rest = "\<lambda>bytes. (case fst (complete_lines bytes) of
              [] \<Rightarrow> ret ()
            | first_line # _ \<Rightarrow>
                (case probe_v ext first_line of
                   None \<Rightarrow>
                     if 1 < length (seg_paths dir sgs)
                     then fail_with (probe_error (seg_at dir s) ''first line is not a version-bearing record'')
                     else ret ()
                 | Some v \<Rightarrow>
                     if ucast event_log_v < v then fail_with (VersionAhead (seg_at dir s) v)
                     else if v < 1 then fail_with (probe_error (seg_at dir s) ''v < 1'')
                     else ret ())) :: unit effect"
  have "?rest (terminated ls @ (if s = cur_seg sgs then t else [])) = ret ()"
    using recovering_lines [OF R mem] ls v by (simp add: event_log_v_def)
  then have "triple (on pl (holds_files dir sgs t)) (?rest (terminated ls @ (if s = cur_seg sgs then t else [])))
      (\<lambda>_. on pl (holds_files dir sgs t)) (lost pl (survived ext dir (lines_in sgs)))"
    by (simp add: triple_ret)
  from triple_then [OF recovering_read [OF R mem] triple_value [where f = ?rest, OF this]]
  have "triple (on pl (holds_files dir sgs t))
      (and_then (io ''read segment'' (seg_at dir s) (vfs_read (seg_at dir s))) ?rest)
      (\<lambda>_. on pl (holds_files dir sgs t)) (lost pl (survived ext dir (lines_in sgs)))" .
  then show ?thesis unfolding probe_version_def using Cons x by (simp add: seg_paths_def)
qed

lemma before_final:
  assumes R: "recovers ext sgs t s0 ls0 before"
  shows "takeWhile (\<lambda>seg. seg \<noteq> seg_at dir s0) (seg_paths dir sgs) = seg_paths dir before"
proof -
  note split = recoversD(2) [OF R] and lay = recoversD(3) [OF R]
  have "distinct (seg_paths dir sgs)"
    using layout_distinct [OF lay, of dir] by (simp add: seg_paths_def case_prod_unfold)
  moreover have whole: "seg_paths dir sgs = seg_paths dir before @ [seg_at dir s0]"
    using split by (simp add: seg_paths_def)
  ultimately have "p \<noteq> seg_at dir s0" if "p \<in> set (seg_paths dir before)" for p using that by auto
  then show ?thesis unfolding whole by (subst takeWhile_append2) auto
qed

lemma finds_boundary:
  assumes R: "recovers ext sgs t s0 ls0 before"
  shows "triple (on pl (holds_files dir sgs t)) (boundary ext (seg_paths dir sgs) (seg_at dir s0))
    (\<lambda>b d. (b_prev b = chain_head ext (lines_in before) \<and>
           b_next_seq b = of_nat (length (lines_in before))) \<and> on pl (holds_files dir sgs t) d)
    (lost pl (survived ext dir (lines_in sgs)))"
proof (cases before rule: rev_cases)
  case Nil
  then show ?thesis
    unfolding boundary_def before_final [OF R] Let_def
    by (auto simp: seg_paths_def chain_head_def seq_first_def intro: triple_ret)
next
  case (snoc bs x)
  note split = recoversD(2) [OF R] and lay = recoversD(3) [OF R] and log = recoversD(4) [OF R]
    and cur = recoversD(8,9) [OF R]
  obtain s ls where x: "x = (s, ls)" by (cases x)
  have mem: "(s, ls) \<in> set sgs" using split snoc x by simp
  have "layout 0 before" using lay split by (simp add: layout_append)
  then have "ls \<noteq> []" using snoc x by (auto simp: layout_append)
  then obtain init line where ls: "ls = init @ [line]" by (cases ls rule: rev_cases) auto
  let ?pre = "lines_in bs @ init"
  have "unat s < unat s0" using lay split snoc x \<open>ls \<noteq> []\<close> by (auto simp: layout_append)
  then have other: "s \<noteq> cur_seg sgs" using cur by auto
  have whole: "lines_in before = ?pre @ [line]" using snoc x ls by simp
  have "log_ok ext (?pre @ [line])" using log split whole log_ok_prefix by simp
  from continues_reads [OF log_ok_end [OF this]] obtain r
    where r: "parse_line ext line = Inr r" "r_seq r = of_nat (length ?pre)" by blast
  have "Suc (length ?pre) \<le> u64_max" using log split whole by (simp add: log_ok_def)
  then have less: "Suc (length ?pre) < 2 ^ 64" unfolding u64_max_def by simp
  then have "take_bit LENGTH(64) (length ?pre) = length ?pre" by (intro take_bit_nat_eq_self) simp
  then have un: "unat (of_nat (length ?pre) :: seq) = length ?pre" by (simp only: unsigned_of_nat of_nat_id)
  have "take_bit LENGTH(64) (Suc (length ?pre)) = Suc (length ?pre)" using less by (intro take_bit_nat_eq_self) simp
  then have "unat (of_nat (Suc (length ?pre)) :: seq) = Suc (length ?pre)" by (simp only: unsigned_of_nat of_nat_id)
  then have nxt: "seq_next (of_nat (length ?pre)) = Inr (of_nat (Suc (length ?pre)))"
    unfolding seq_next_iff un by simp
  have path: "last (seg_paths dir before) = seg_at dir s" "seg_paths dir before \<noteq> []"
    using snoc x by (simp_all add: seg_paths_def)
  let ?rest = "\<lambda>bytes. let lines = fst (complete_lines bytes) in
          if lines = []
          then fail_with (Envelope (seg_at dir s) 0 (failure InvalidArgs ''read prior segment'' ''empty''))
          else (let last_line = last lines in
            case parse_line ext last_line of
              Inl source \<Rightarrow> fail_with (Envelope (seg_at dir s) (sat_u64 (length lines)) source)
            | Inr r \<Rightarrow>
                (case seq_next (r_seq r) of
                   Inl source \<Rightarrow> fail_with (Draft source)
                 | Inr nxt \<Rightarrow>
                     ret \<lparr>b_prev = chain_hash ext last_line, b_next_seq = nxt,
                          b_prior = Some (seg_at dir s, sat_u64 (length bytes))\<rparr>))"
  let ?bytes = "terminated ls @ (if s = cur_seg sgs then t else [])"
  have final_ret: "?rest ?bytes = ret \<lparr>b_prev = chain_hash ext line, b_next_seq = of_nat (Suc (length ?pre)),
      b_prior = Some (seg_at dir s, sat_u64 (length ?bytes))\<rparr>"
    unfolding Let_def recovering_lines [OF R mem] using r nxt ls by simp
  have "triple (on pl (holds_files dir sgs t)) (?rest ?bytes)
      (\<lambda>b d. (b_prev b = chain_head ext (lines_in before) \<and>
           b_next_seq b = of_nat (length (lines_in before))) \<and> on pl (holds_files dir sgs t) d)
      (lost pl (survived ext dir (lines_in sgs)))"
    unfolding final_ret whole chain_head_snoc by (rule triple_ret) simp
  note read = triple_then [OF recovering_read [OF R mem] triple_value [where f = ?rest, OF this]]
  have "boundary ext (seg_paths dir sgs) (seg_at dir s0) =
      and_then (io ''read segment'' (seg_at dir s) (vfs_read (seg_at dir s))) ?rest"
    unfolding boundary_def before_final [OF R] using path by (simp add: Let_def)
  then show ?thesis using read by (simp only:)
qed

end
