(* ===== verification/Ledger_Reopens.thy ===== *)
theory Ledger_Reopens
  imports Ledger_Opening
begin

text \<open>
  Recovery of the last segment and the whole of opening, with every way power may go in
  between.
\<close>

lemma cutting_segment:
  assumes R: "recovers ext sgs t s0 ls0 before" and small: "length (terminated ls0) \<le> u64_max"
  shows "triple (on pl (holds_files dir sgs t)) (cut_segment (seg_at dir s0) (sat_u64 (length (terminated ls0))))
    (\<lambda>_. on pl (holds_files dir sgs [])) (lost pl (survived ext dir (lines_in sgs)))"
proof -
  note facts = recoversD [OF R]
  have small': "length (terminated (snd (last sgs))) \<le> u64_max" using small facts by simp
  have "triple (on pl (holds_files dir sgs t))
      (io ''truncate segment'' (seg_at dir s0) (vfs_truncate (seg_at dir s0) (sat_u64 (length (terminated ls0)))))
      (\<lambda>_. on pl (trimmed dir sgs t)) (lost pl (survived ext dir (lines_in sgs)))"
  proof (rule triple_truncate)
    fix m assume m: "holds_files dir sgs t m"
    have cut: "trimmed dir sgs t (shortened m (seg_at dir s0) (sat_u64 (length (terminated ls0))))"
      using holds_trimmed [OF m facts(7) small'] facts(8,9) by simp
    have "(s0, ls0) \<in> set sgs" using facts(2) by simp
    then have "bt_get m (seg_at dir s0) \<noteq> None" using holds_live [OF m] by fastforce
    moreover have "survived ext dir (lines_in sgs)
        (cut_files (torn pl) (shortened m (seg_at dir s0) (sat_u64 (length (terminated ls0)))))"
      using trimmed_cut [OF cut facts(7)] facts unfolding survived_def by blast
    ultimately show "bt_get m (seg_at dir s0) \<noteq> None \<and>
        trimmed dir sgs t (shortened m (seg_at dir s0) (sat_u64 (length (terminated ls0)))) \<and>
        survived ext dir (lines_in sgs)
          (cut_files (torn pl) (shortened m (seg_at dir s0) (sat_u64 (length (terminated ls0)))))"
      using cut by blast
  qed
  moreover have "triple (on pl (trimmed dir sgs t)) (io ''sync segment'' (seg_at dir s0) (vfs_sync_data (seg_at dir s0)))
      (\<lambda>_. on pl (holds_files dir sgs [])) (lost pl (survived ext dir (lines_in sgs)))"
  proof (rule triple_sync_data)
    fix m assume m: "trimmed dir sgs t m"
    have "survived ext dir (lines_in sgs) (cut_files (torn pl) m)"
      using trimmed_cut [OF m facts(7)] facts unfolding survived_def by blast
    then show "bt_get m (seg_at dir s0) \<noteq> None \<and> holds_files dir sgs [] (synced m (seg_at dir s0)) \<and>
        survived ext dir (lines_in sgs) (cut_files (torn pl) m)"
      using trimmed_synced [OF m facts(7)] facts(8) by simp
  qed
  ultimately show ?thesis unfolding cut_segment_def by (rule triple_then)
qed

lemma recovering:
  assumes R: "recovers ext sgs t s0 ls0 before" and fits: "length (terminated ls0 @ t) \<le> u64_max"
    and l0: "l_dir l0 = dir"
  shows "triple (on pl (holds_files dir sgs t)) (recover_tail ext (seg_paths dir sgs) (seg_at dir s0) l0)
    (\<lambda>res d. (at_rest ext dir sgs (fst res) \<and> (snd res = 0 \<longleftrightarrow> t = [])) \<and> on pl (holds_files dir sgs []) d)
    (lost pl (survived ext dir (lines_in sgs)))"
proof -
  note facts = recoversD [OF R]
  let ?H = "on pl (holds_files dir sgs t)"
  let ?E = "lost pl (survived ext dir (lines_in sgs))"
  let ?bytes = "terminated ls0 @ t"
  let ?l = "l0\<lparr>l_prev := chain_head ext (lines_in sgs), next_seq := of_nat (length (lines_in sgs))\<rparr>"
  have mem: "(s0, ls0) \<in> set sgs" using facts(2) by simp
  have log: "log_ok ext (lines_in before @ ls0)" using facts(2,4) by simp
  have count: "length (lines_in before) + length ls0 \<le> u64_max" using log by (simp add: log_ok_def)
  have un: "unat (of_nat n :: seq) = n" if "n \<le> u64_max" for n
  proof -
    have "n < 2 ^ LENGTH(64)" using that unfolding u64_max_def by simp
    then have "take_bit LENGTH(64) n = n" by (rule take_bit_nat_eq_self)
    then show ?thesis by (simp only: unsigned_of_nat of_nat_id)
  qed
  have "chained (parse_line ext) (chain_hash ext) (chain_head ext (lines_in before))
      (of_nat (length (lines_in before))) ls0"
    using log unfolding log_ok_def chained_append chain_head_def by (simp add: seq_first_def)
  moreover have "unat (of_nat (length (lines_in before)) :: seq) + length ls0 \<le> u64_max"
    using count un [of "length (lines_in before)"] by simp
  ultimately have scan: "tail_scan ext (seg_at dir s0) 0 ls0 (chain_head ext (lines_in before))
      (of_nat (length (lines_in before))) 0 =
      Inr (chain_head ext (lines_in sgs), of_nat (length (lines_in sgs)), length (terminated ls0))"
    using facts(2) by (simp add: tail_scan_chained chain_head_def chain_end_append)
  have rest: "at_rest ext dir sgs (?l\<lparr>seg_path := seg_at dir s0, seg_len := n\<rparr>)" if "n \<noteq> 0" for n
    using that facts l0 count un [of "length (lines_in sgs)"] by (auto simp: at_rest_def)
  have len0: "length (terminated ls0) \<noteq> 0" using facts(6) by simp
  let ?Q = "\<lambda>res d. (at_rest ext dir sgs (fst res) \<and> (snd res = 0 \<longleftrightarrow> t = [])) \<and> on pl (holds_files dir sgs []) d"
  let ?last = "\<lambda>bytes b (run_prev, run_seq, valid_len).
       let total = length bytes;
           dropped = sat_u64 (total - valid_len);
           l = l0\<lparr>l_prev := run_prev, next_seq := run_seq\<rparr>
       in if 0 < dropped
          then if valid_len = 0
               then and_then (drop_segment (l_dir l) (seg_at dir s0)) (\<lambda>_.
                      ret (case b_prior b of
                             Some (p, len) \<Rightarrow> l\<lparr>seg_path := p, seg_len := len\<rparr>
                           | None \<Rightarrow> l\<lparr>seg_path := join_path (l_dir l) (segment_file_name seq_first),
                                       seg_len := 0\<rparr>, dropped))
               else and_then (cut_segment (seg_at dir s0) (sat_u64 valid_len)) (\<lambda>_.
                      ret (l\<lparr>seg_path := seg_at dir s0, seg_len := sat_u64 valid_len\<rparr>, dropped))
          else ret (l\<lparr>seg_path := seg_at dir s0, seg_len := sat_u64 total\<rparr>, dropped)"
  have final: "triple ?H (?last ?bytes b (chain_head ext (lines_in sgs), of_nat (length (lines_in sgs)), length (terminated ls0))) ?Q ?E" for b
  proof (cases "t = []")
    case True
    have "?last ?bytes b (chain_head ext (lines_in sgs), of_nat (length (lines_in sgs)), length (terminated ls0)) =
        ret (?l\<lparr>seg_path := seg_at dir s0, seg_len := sat_u64 (length ?bytes)\<rparr>, 0)"
      using True by (simp add: Let_def sat_u64_def)
    moreover have "triple ?H (ret (?l\<lparr>seg_path := seg_at dir s0, seg_len := sat_u64 (length ?bytes)\<rparr>, 0)) ?Q ?E"
      using True rest [of "sat_u64 (length ?bytes)"] len0 by (intro triple_ret) (simp add: on_def)
    ultimately show ?thesis by (simp only:)
  next
    case False
    have "?last ?bytes b (chain_head ext (lines_in sgs), of_nat (length (lines_in sgs)), length (terminated ls0)) =
        and_then (cut_segment (seg_at dir s0) (sat_u64 (length (terminated ls0)))) (\<lambda>_.
          ret (?l\<lparr>seg_path := seg_at dir s0, seg_len := sat_u64 (length (terminated ls0))\<rparr>, sat_u64 (length t)))"
      using False len0 by (simp add: Let_def word_gt_0)
    moreover have "triple ?H (and_then (cut_segment (seg_at dir s0) (sat_u64 (length (terminated ls0)))) (\<lambda>_.
          ret (?l\<lparr>seg_path := seg_at dir s0, seg_len := sat_u64 (length (terminated ls0))\<rparr>, sat_u64 (length t)))) ?Q ?E"
      using fits False rest [of "sat_u64 (length (terminated ls0))"] len0
      by (intro triple_then [OF cutting_segment [OF R]] triple_ret) simp_all
    ultimately show ?thesis by (simp only:)
  qed
  have scanned: "triple (on pl (holds_files dir sgs t))
      (and_then (of_result (tail_scan ext (seg_at dir s0) 0 (fst (complete_lines ?bytes)) (b_prev b) (b_next_seq b) 0))
        (?last ?bytes b)) ?Q ?E"
    if "b_prev b = chain_head ext (lines_in before) \<and> b_next_seq b = of_nat (length (lines_in before))" for b
  proof -
    have "fst (complete_lines ?bytes) = ls0" using recovering_lines [OF R mem] facts(8) by simp
    then have "and_then (of_result (tail_scan ext (seg_at dir s0) 0 (fst (complete_lines ?bytes)) (b_prev b) (b_next_seq b) 0))
        (?last ?bytes b) = ?last ?bytes b (chain_head ext (lines_in sgs), of_nat (length (lines_in sgs)), length (terminated ls0))"
      using that scan by (simp add: of_result_def)
    then show ?thesis using final [of b] by (simp only:)
  qed
  have "triple (\<lambda>d. (b_prev b = chain_head ext (lines_in before) \<and> b_next_seq b = of_nat (length (lines_in before))) \<and> ?H d)
      (and_then (io ''read segment'' (seg_at dir s0) (vfs_read (seg_at dir s0))) (\<lambda>bytes.
       and_then (of_result (tail_scan ext (seg_at dir s0) 0 (fst (complete_lines bytes)) (b_prev b) (b_next_seq b) 0))
        (?last bytes b))) ?Q ?E" for b
  proof (rule triple_assume)
    fix d assume b: "(b_prev b = chain_head ext (lines_in before) \<and> b_next_seq b = of_nat (length (lines_in before))) \<and> ?H d"
    let ?f = "\<lambda>bytes. and_then (of_result (tail_scan ext (seg_at dir s0) 0 (fst (complete_lines bytes)) (b_prev b) (b_next_seq b) 0))
        (?last bytes b)"
    have "triple ?H (io ''read segment'' (seg_at dir s0) (vfs_read (seg_at dir s0)))
        (\<lambda>got d. got = ?bytes \<and> ?H d) ?E"
      using recovering_read [OF R mem] facts(8) by simp
    from triple_then [OF this triple_value [where f = ?f, OF scanned]] b
    show "triple (\<lambda>d. (b_prev b = chain_head ext (lines_in before) \<and> b_next_seq b = of_nat (length (lines_in before))) \<and> ?H d)
      (and_then (io ''read segment'' (seg_at dir s0) (vfs_read (seg_at dir s0))) ?f) ?Q ?E"
      by (auto intro: triple_pre)
  qed
  from triple_then [OF finds_boundary [OF R] this]
  show ?thesis unfolding recover_tail_def .
qed

section \<open>Opening, whatever the disk does\<close>

lemma noting_truncation:
  assumes ext: "sound_parts ext" and rest: "at_rest ext dir sgs l"
  shows "triple (on pl (holds_files dir sgs []))
    (and_then (append_log_truncated ext now dropped l) (\<lambda>l. ret (l, Some dropped)))
    (reopened ext dir (lines_in sgs) pl) (shut ext dir (lines_in sgs) pl)"
proof (rule tripleI)
  fix d e d' assume d: "on pl (holds_files dir sgs []) d"
    and r: "and_then (append_log_truncated ext now dropped l) (\<lambda>l. ret (l, Some dropped)) d = (Inl e, d')"
  have up: "open_on ext dir (lines_in sgs) l d" using d rest unfolding open_on_def on_def by blast
  show "shut ext dir (lines_in sgs) pl e d'"
  proof (cases "payload_new [(''dropped_bytes'', JNumber (PosInt dropped))]")
    case (Inl src)
    then have "d' = d \<and> e = Draft src"
      using r by (simp add: append_log_truncated_def fail_with_def and_then_def)
    then show ?thesis using open_survives [OF up] unfolding shut_def by (metis append_Nil2 le0 list.size(3))
  next
    case (Inr data)
    then have a: "append_all ext l [truncated_draft now data] d = (Inl e, d')"
      using r by (auto simp: append_log_truncated_def and_then_def ret_def split: prod.splits sum.splits)
    from append_all_outcome(2) [OF ext up a]
    show ?thesis
    proof (elim disjE conjE exE)
      fix src assume "d' = d" "e = Draft src"
      then show ?thesis using open_survives [OF up] unfolding shut_def by (metis append_Nil2 le0 list.size(3))
    next
      fix new k assume "\<not> quiet (plan d)" "length new = length [truncated_draft now data]"
        and s: "survived ext dir (lines_in sgs @ take k new) (files d')"
      then have "length (take k new) \<le> 1" "\<not> quiet pl" using d by (auto simp: on_def)
      then show ?thesis using s unfolding shut_def by blast
    qed
  qed
next
  fix d res d' assume d: "on pl (holds_files dir sgs []) d"
    and r: "and_then (append_log_truncated ext now dropped l) (\<lambda>l. ret (l, Some dropped)) d = (Inr res, d')"
  have up: "open_on ext dir (lines_in sgs) l d" using d rest unfolding open_on_def on_def by blast
  obtain data where data: "payload_new [(''dropped_bytes'', JNumber (PosInt dropped))] = Inr data"
    using r by (cases "payload_new [(''dropped_bytes'', JNumber (PosInt dropped))]")
      (auto simp: append_log_truncated_def fail_with_def and_then_def)
  obtain l' refs where a: "append_all ext l [truncated_draft now data] d = (Inr (l', refs), d')"
    and res: "res = (l', Some dropped)"
    using r data by (auto simp: append_log_truncated_def and_then_def ret_def split: prod.splits sum.splits)
  obtain new rs where new: "open_on ext dir (lines_in sgs @ new) l' d'" "plan d' = plan d"
      "map (parse_line ext) new = map Inr rs" "records_of [truncated_draft now data] rs"
    using append_all_outcome(1) [OF ext up a] by blast
  have "length new = length rs" using new(3) by (metis length_map)
  then have "length new \<le> 1" using new(4) by (simp add: records_of_def)
  then show "reopened ext dir (lines_in sgs) pl res d'"
    using new(1,2) d res unfolding reopened_def on_def by fastforce
qed

lemma open_with_outcome:
  assumes ext: "sound_parts ext" and plain: "lf \<notin> set t" and log: "log_ok ext (lines_in sgs)"
    and fits: "\<And>s ls. (s, ls) \<in> set sgs \<Longrightarrow> length (terminated ls @ (if s = cur_seg sgs then t else [])) \<le> u64_max"
  shows "triple (on pl (holds_files dir sgs t)) (open_with ext dir now)
    (reopened ext dir (lines_in sgs) pl) (shut ext dir (lines_in sgs) pl)"
proof (rule triple_assume)
  fix d0 assume "on pl (holds_files dir sgs t) d0"
  then have hold: "holds_files dir sgs t (files d0)" by (simp add: on_def)
  have lay: "layout 0 sgs" using hold by (simp add: holds_files_def)
  let ?H = "on pl (holds_files dir sgs t)"
  let ?Q = "reopened ext dir (lines_in sgs) pl"
  let ?E = "shut ext dir (lines_in sgs) pl"
  have keep: "survived ext dir (lines_in sgs) (cut_files tr m)" if "holds_files dir sgs t m" for m tr
    using holds_cut [OF that] plain log unfolding survived_def by blast
  have create: "triple ?H (io ''create ledger dir'' dir (vfs_create_dir_all dir)) (\<lambda>_. ?H) ?E"
    by (rule triple_weaken [OF triple_create_dir [where pl = pl and I = "holds_files dir sgs t"
            and J = "survived ext dir (lines_in sgs)"]])
      (use keep lost_shut in blast)+
  have found: "triple ?H (io ''list ledger dir'' dir (vfs_list dir)) (\<lambda>got d. got = seg_paths dir sgs \<and> ?H d) ?E"
    by (rule triple_weaken [OF triple_list [where pl = pl and I = "holds_files dir sgs t"
            and J = "survived ext dir (lines_in sgs)" and paths = "seg_paths dir sgs"]])
      (use keep found_segments(1) lost_shut in blast)+
  let ?then = "\<lambda>found. let segments = filter is_segment found in
       if segments = [] then ret (fresh_ledger dir, None)
       else and_then (probe_version ext segments) (\<lambda>_.
            and_then (recover_tail ext segments (last segments) (fresh_ledger dir)) (\<lambda>(l, dropped).
              if 0 < dropped
              then if next_seq l \<noteq> seq_first
                   then and_then (append_log_truncated ext now dropped l) (\<lambda>l. ret (l, Some dropped))
                   else ret (l, Some dropped)
              else ret (l, None)))"
  have "triple ?H (?then (seg_paths dir sgs)) ?Q ?E"
  proof (cases sgs rule: rev_cases)
    case Nil
    then have t: "t = []" using hold by (simp add: holds_files_def)
    have "at_rest ext dir sgs (fresh_ledger dir)"
      using Nil log by (simp add: at_rest_def fresh_ledger_def seq_first_def chain_head_def cur_seg_def seg_at_def)
    then have "open_on ext dir (lines_in sgs) (fresh_ledger dir) d" if "?H d" for d
      using that t unfolding open_on_def on_def by blast
    then have "?Q (fresh_ledger dir, None) d" if "?H d" for d
      using that unfolding reopened_def on_def by fastforce
    then have "triple ?H (ret (fresh_ledger dir, None)) ?Q ?E" by (rule triple_ret)
    moreover have "?then (seg_paths dir sgs) = ret (fresh_ledger dir, None)"
      using Nil by (simp add: seg_paths_def)
    ultimately show ?thesis by (simp only:)
  next
    case (snoc before x)
    obtain s0 ls0 where x: "x = (s0, ls0)" by (cases x)
    have R: "recovers ext sgs t s0 ls0 before"
      using ext snoc x lay log plain by (simp add: recovers_def)
    have probe: "triple ?H (probe_version ext (seg_paths dir sgs)) (\<lambda>_. ?H) ?E"
      by (rule triple_weaken [OF probe_passes [OF R]]) (use lost_shut in blast)+
    have small: "length (terminated ls0 @ t) \<le> u64_max"
      using fits [of s0 ls0] recoversD(2,8) [OF R] by simp
    have "l_dir (fresh_ledger dir) = dir" by (simp add: fresh_ledger_def)
    note found_tail = recovering [OF R small this]
    let ?A = "\<lambda>res d. (at_rest ext dir sgs (fst res) \<and> (snd res = 0 \<longleftrightarrow> t = [])) \<and> on pl (holds_files dir sgs []) d"
    have recover: "triple ?H (recover_tail ext (seg_paths dir sgs) (seg_at dir s0) (fresh_ledger dir)) ?A ?E"
      by (rule triple_weaken [OF found_tail]) (use lost_shut in blast)+
    have note_it: "triple (?A res)
        ((\<lambda>(l, dropped).
              if 0 < dropped
              then if next_seq l \<noteq> seq_first
                   then and_then (append_log_truncated ext now dropped l) (\<lambda>l. ret (l, Some dropped))
                   else ret (l, Some dropped)
              else ret (l, None)) res) ?Q ?E" for res
    proof (rule triple_assume)
      fix d assume A: "?A res d"
      obtain l dropped where res: "res = (l, dropped)" by (cases res)
      have rest: "at_rest ext dir sgs l" using A res by simp
      have "lines_in sgs \<noteq> []" using recoversD(2,6) [OF R] by simp
      then have "unat (next_seq l) \<noteq> 0" using rest by (simp add: at_rest_def)
      then have later: "next_seq l \<noteq> seq_first" by (auto simp: seq_first_def)
      show "triple (?A res)
        ((\<lambda>(l, dropped).
              if 0 < dropped
              then if next_seq l \<noteq> seq_first
                   then and_then (append_log_truncated ext now dropped l) (\<lambda>l. ret (l, Some dropped))
                   else ret (l, Some dropped)
              else ret (l, None)) res) ?Q ?E"
      proof (cases "0 < dropped")
        case True
        then show ?thesis using later res
          by (auto intro: triple_pre [OF noting_truncation [OF ext rest]])
      next
        case False
        have "?Q (l, None) d" if "on pl (holds_files dir sgs []) d" for d
          using that rest unfolding reopened_def open_on_def on_def by fastforce
        then show ?thesis using False res by (auto intro!: triple_ret)
      qed
    qed
    have "?then (seg_paths dir sgs) =
        and_then (probe_version ext (seg_paths dir sgs)) (\<lambda>_.
            and_then (recover_tail ext (seg_paths dir sgs) (seg_at dir s0) (fresh_ledger dir)) (\<lambda>(l, dropped).
              if 0 < dropped
              then if next_seq l \<noteq> seq_first
                   then and_then (append_log_truncated ext now dropped l) (\<lambda>l. ret (l, Some dropped))
                   else ret (l, Some dropped)
              else ret (l, None)))"
      using found_segments(2) [OF hold] recoversD(2) [OF R] recoversD(10) [OF R, of dir] by (simp add: Let_def seg_paths_def)
    then show ?thesis using triple_then [OF probe triple_then [OF recover note_it]] by (simp only:)
  qed
  from triple_then [OF create triple_then [OF found triple_value [where f = ?then, OF this]]]
  show "triple ?H (open_with ext dir now) ?Q ?E" unfolding open_with_def .
qed

end
