(* ===== verification/Ledger_Sessions.thy ===== *)
theory Ledger_Sessions
  imports Ledger_Reopens
begin

text \<open>
  The durable ledger as a machine: opened, appended to, closed, hit by power losses wherever
  its disk is touched and while idle, and opened again. Its abstraction is a log that only
  grows; the machine refines it, and every event it acknowledged is in the log for good.
\<close>

section \<open>The machine\<close>

datatype ledger_state = Closed disk | Opened jsonl disk

inductive ledger_step ::
  "third_party \<Rightarrow> path \<Rightarrow> ledger_state \<Rightarrow> event_ref list \<Rightarrow> ledger_state \<Rightarrow> bool"
  for ext dir where
  open_ok: "fits_disk (files d) \<Longrightarrow> open_with ext dir now d = (Inr (l, dropped), d') \<Longrightarrow>
      ledger_step ext dir (Closed d) [] (Opened l d')"
| open_failed: "fits_disk (files d) \<Longrightarrow> open_with ext dir now d = (Inl e, d') \<Longrightarrow>
      ledger_step ext dir (Closed d) [] (Closed d')"
| append_ok: "append_all ext l drafts d = (Inr (l', refs), d') \<Longrightarrow>
      ledger_step ext dir (Opened l d) refs (Opened l' d')"
| append_refused: "append_all ext l drafts d = (Inl (Draft src), d') \<Longrightarrow>
      ledger_step ext dir (Opened l d) [] (Opened l d')"
| append_lost: "append_all ext l drafts d = (Inl e, d') \<Longrightarrow> ledger_step ext dir (Opened l d) [] (Closed d')"
| power_lost: "ledger_step ext dir (Opened l d) [] (Closed (cut d))"
| closed: "ledger_step ext dir (Opened l d) [] (Closed d)"
| fault_set: "ledger_step ext dir (Closed d) [] (Closed (d\<lparr>plan := pl\<rparr>))"
| fault_set_open: "ledger_step ext dir (Opened l d) [] (Opened l (d\<lparr>plan := pl\<rparr>))"

section \<open>The abstract log\<close>

inductive log_step :: "third_party \<Rightarrow> string list \<Rightarrow> event_ref list \<Rightarrow> string list \<Rightarrow> bool" for ext where
  grows: "log_ok ext (lines @ new) \<Longrightarrow> log_step ext lines [] (lines @ new)"
| acknowledges: "log_ok ext (lines @ new) \<Longrightarrow> map (parse_line ext) new = map Inr rs \<Longrightarrow>
      log_step ext lines (map to_ref rs) (lines @ new)"

fun shows_log :: "third_party \<Rightarrow> path \<Rightarrow> ledger_state \<Rightarrow> string list \<Rightarrow> bool" where
  "shows_log ext dir (Closed d) lines \<longleftrightarrow> survived ext dir lines (files d)"
| "shows_log ext dir (Opened l d) lines \<longleftrightarrow> open_on ext dir lines l d"

lemma open_on_log: "open_on ext dir lines l d \<Longrightarrow> log_ok ext lines"
  by (auto simp: open_on_def at_rest_def)

lemma survived_log: "survived ext dir lines m \<Longrightarrow> log_ok ext lines"
  by (auto simp: survived_def)

lemma shows_log_ok: "shows_log ext dir st lines \<Longrightarrow> log_ok ext lines"
  by (cases st) (auto dest: open_on_log survived_log)

lemma stays: "log_ok ext lines \<Longrightarrow> log_step ext lines [] lines"
  using log_step.grows [of ext lines "[]"] by simp

lemma opening_outcome:
  assumes ext: "sound_parts ext" and s: "survived ext dir lines (files d)" and fits: "fits_disk (files d)"
  shows "open_with ext dir now d = (Inl e, d') \<Longrightarrow> shut ext dir lines (plan d) e d'"
    and "open_with ext dir now d = (Inr res, d') \<Longrightarrow> reopened ext dir lines (plan d) res d'"
proof -
  obtain sgs t where s: "holds_files dir sgs t (files d)" "lf \<notin> set t" "lines_in sgs = lines" "log_ok ext lines"
    using s unfolding survived_def by blast
  have small: "length (terminated ls @ (if s = cur_seg sgs then t else [])) \<le> u64_max" if m: "(s, ls) \<in> set sgs" for s ls
    using holds_live [OF s(1) m] fits unfolding fits_disk_def by metis
  have "log_ok ext (lines_in sgs)" using s(3,4) by simp
  note tr = open_with_outcome [where dir = dir and pl = "plan d" and now = now, OF ext s(2) this small]
  have on: "on (plan d) (holds_files dir sgs t) d" using s(1) by (simp add: on_def)
  show "open_with ext dir now d = (Inl e, d') \<Longrightarrow> shut ext dir lines (plan d) e d'"
    using tripleD(1) [OF tr on] s(3) by simp
  show "open_with ext dir now d = (Inr res, d') \<Longrightarrow> reopened ext dir lines (plan d) res d'"
    using tripleD(2) [OF tr on] s(3) by simp
qed

lemma survived_cut: "survived ext dir lines m \<Longrightarrow> survived ext dir lines (cut_files tr m)"
  unfolding survived_def using holds_cut by blast

text \<open>A draft is refused before anything is written.\<close>

lemma io_error: "io n p v d = (Inl e, d') \<Longrightarrow> e \<noteq> Draft src"
  by (auto simp: io_def split: prod.splits sum.splits)

lemma for_each_error:
  "(\<And>x d d'. f x d \<noteq> (Inl (Draft src), d')) \<Longrightarrow> for_each f xs d \<noteq> (Inl (Draft src), d')"
  by (induction xs arbitrary: d) (auto simp: ret_def and_then_def split: prod.splits sum.splits)

lemma commit_error: "commit_wave dir w d \<noteq> (Inl (Draft src), d')"
proof
  assume "commit_wave dir w d = (Inl (Draft src), d')"
  moreover have "for_each (\<lambda>(p, bytes). io ''append event line'' p (vfs_append p bytes)) ws d0 \<noteq> (Inl (Draft src), d1)"
    "for_each (\<lambda>(p, _). io ''sync segment'' p (vfs_sync_data p)) ws d0 \<noteq> (Inl (Draft src), d1)" for ws :: "(path \<times> string) list" and d0 d1
    using io_error by (intro for_each_error; fastforce)+
  ultimately show False using io_error
    by (fastforce simp: commit_wave_def and_then_def ret_def split: prod.splits sum.splits if_splits)
qed

lemma refused_unchanged: "append_all ext l drafts d = (Inl (Draft src), d') \<Longrightarrow> d' = d"
  using commit_error
  by (fastforce simp: append_all_def and_then_def ret_def split: prod.splits sum.splits if_splits)

section \<open>The machine refines the log\<close>

lemma machine_refines_log:
  assumes ext: "sound_parts ext" and step: "ledger_step ext dir st acks st'" and abs: "shows_log ext dir st lines"
  shows "\<exists>lines'. shows_log ext dir st' lines' \<and> log_step ext lines acks lines'"
  using step abs
proof cases
  case (open_ok d now l dropped d')
  then have "reopened ext dir lines (plan d) (l, dropped) d'"
    using opening_outcome(2) [OF ext] abs by auto
  then obtain extra where "open_on ext dir (lines @ extra) l d'" unfolding reopened_def by auto
  then show ?thesis using open_ok open_on_log log_step.grows by auto
next
  case (open_failed d now e d')
  then have "shut ext dir lines (plan d) e d'" using opening_outcome(1) [OF ext] abs by auto
  then obtain extra where "survived ext dir (lines @ extra) (files d')" unfolding shut_def by blast
  then show ?thesis using open_failed survived_log log_step.grows by auto
next
  case (append_ok l drafts d l' d')
  then have "open_on ext dir lines l d" using abs by simp
  from append_all_outcome(1) [OF ext this append_ok(3)] obtain new rs where
    "open_on ext dir (lines @ new) l' d'" "map (parse_line ext) new = map Inr rs" "acks = map to_ref rs" by blast
  then show ?thesis using append_ok open_on_log log_step.acknowledges by auto
next
  case (append_refused l drafts d src d')
  then have up: "open_on ext dir lines l d" using abs by simp
  moreover have "d' = d" by (rule refused_unchanged [OF append_refused(4)])
  ultimately show ?thesis using append_refused stays [OF open_on_log [OF up]] by auto
next
  case (append_lost l drafts d e d')
  then have up: "open_on ext dir lines l d" using abs by simp
  from append_all_outcome(2) [OF ext up append_lost(4)] show ?thesis
  proof (elim disjE conjE exE)
    fix src assume "d' = d"
    then show ?thesis using append_lost open_survives [OF up] stays [OF open_on_log [OF up]] by auto
  next
    fix new k assume "log_ok ext (lines @ new)" "survived ext dir (lines @ take k new) (files d')"
    then show ?thesis using append_lost log_ok_take log_step.grows by (metis shows_log.simps(1))
  qed
next
  case (power_lost l d)
  then have up: "open_on ext dir lines l d" using abs by simp
  then show ?thesis
    using power_lost survived_cut [OF open_survives [OF up]] stays [OF open_on_log [OF up]] by auto
next
  case (closed l d)
  then have up: "open_on ext dir lines l d" using abs by simp
  then show ?thesis using closed open_survives [OF up] stays [OF open_on_log [OF up]] by auto
next
  case (fault_set d pl)
  then show ?thesis using abs stays survived_log by auto
next
  case (fault_set_open l d pl)
  then have up: "open_on ext dir lines l (d\<lparr>plan := pl\<rparr>)" using abs by (simp add: open_on_def)
  then show ?thesis using fault_set_open stays open_on_log by auto
qed

section \<open>Nothing acknowledged is lost\<close>

inductive session ::
  "third_party \<Rightarrow> path \<Rightarrow> ledger_state \<Rightarrow> event_ref list \<Rightarrow> ledger_state \<Rightarrow> bool" for ext dir where
  begins: "session ext dir st [] st"
| goes_on: "session ext dir st acks st' \<Longrightarrow> ledger_step ext dir st' later st'' \<Longrightarrow>
      session ext dir st (acks @ later) st''"

inductive_cases log_step_cases: "log_step ext lines acks lines'"

lemma chained_reads: "chained parse h p s lines \<Longrightarrow> \<exists>rs. map parse lines = map Inr rs"
proof (induction lines arbitrary: p s)
  case (Cons line lines)
  then obtain rs where "map parse lines = map Inr rs" by auto
  moreover obtain r where "parse line = Inr r" using Cons.prems continues_reads by fastforce
  ultimately have "map parse (line # lines) = map Inr (r # rs)" by simp
  then show ?case by blast
qed simp

lemma log_ok_suffix_reads: "log_ok ext (lines @ new) \<Longrightarrow> \<exists>rs. map (parse_line ext) new = map Inr rs"
  using chained_reads unfolding log_ok_def chained_append by blast

lemma step_kept:
  assumes "log_step ext lines acks lines'"
  shows "\<exists>new rs. lines' = lines @ new \<and> map (parse_line ext) new = map Inr rs \<and> subseq acks (map to_ref rs)"
  using assms
proof cases
  case (grows new)
  then show ?thesis using log_ok_suffix_reads by auto
next
  case (acknowledges new rs)
  then show ?thesis by blast
qed

lemma session_kept:
  assumes ext: "sound_parts ext" and "session ext dir st acks st'" and "shows_log ext dir st lines"
  shows "\<exists>new rs. shows_log ext dir st' (lines @ new) \<and> map (parse_line ext) new = map Inr rs \<and>
    subseq acks (map to_ref rs)"
  using assms(2,3)
proof (induction rule: session.induct)
  case (begins st)
  then show ?case by (intro exI [of _ "[]"]) simp
next
  case (goes_on st acks st' later st'')
  then obtain new rs where new: "shows_log ext dir st' (lines @ new)"
    "map (parse_line ext) new = map Inr rs" "subseq acks (map to_ref rs)" by blast
  obtain lines' where l: "shows_log ext dir st'' lines'" "log_step ext (lines @ new) later lines'"
    using machine_refines_log [OF ext goes_on(2) new(1)] by blast
  obtain new2 rs2 where n2: "lines' = (lines @ new) @ new2" "map (parse_line ext) new2 = map Inr rs2"
    "subseq later (map to_ref rs2)" using step_kept [OF l(2)] by blast
  have "subseq (acks @ later) (map to_ref (rs @ rs2))"
    using list_emb_append_mono [OF new(3) n2(3)] by simp
  moreover have "map (parse_line ext) (new @ new2) = map Inr (rs @ rs2)" using new(2) n2(2) by simp
  ultimately show ?case using l(1) n2(1) by (metis append.assoc)
qed

section \<open>Reading back\<close>

lemma log_lines_full:
  assumes "sound_parts ext" "log_ok ext lines" "line \<in> set lines"
  shows "line \<noteq> []"
proof -
  obtain rs where rs: "map (parse_line ext) lines = map Inr rs"
    using log_ok_suffix_reads [of ext "[]" lines] assms(2) by auto
  have "parse_line ext line \<in> set (map (parse_line ext) lines)" using assms(3) by simp
  then have "is_ok (parse_line ext line)" unfolding rs by auto
  then show ?thesis using assms(1) by (auto simp: sound_parts_def)
qed

lemma reading_segments:
  assumes ext: "sound_parts ext" and log: "log_ok ext (lines_in sgs)"
    and keep: "\<And>m tr. holds_files dir sgs [] m \<Longrightarrow> J (cut_files tr m)"
  shows "set sub \<subseteq> set sgs \<Longrightarrow>
    triple (on pl (holds_files dir sgs [])) (read_segments (seg_paths dir sub))
      (\<lambda>got d. got = lines_in sub \<and> on pl (holds_files dir sgs []) d) (lost pl J)"
proof (induction sub)
  case Nil
  then show ?case by (simp add: seg_paths_def triple_ret)
next
  case (Cons x sub)
  obtain s ls where x: "x = (s, ls)" by (cases x)
  let ?H = "on pl (holds_files dir sgs [])"
  have mem: "(s, ls) \<in> set sgs" using Cons.prems x by simp
  have within: "set ls \<subseteq> set (lines_in sgs)" using mem by (force simp: lines_in_def)
  have whole: "filter (\<lambda>line. line \<noteq> []) (fst (complete_lines (terminated ls))) = ls"
  proof -
    have "\<forall>l \<in> set ls. lf \<notin> set l" using within log by (auto simp: log_ok_def)
    then have "fst (complete_lines (terminated ls)) = ls" using complete_terminated [of ls "[]"] by simp
    moreover have "\<forall>l \<in> set ls. l \<noteq> []" using within log_lines_full [OF ext log] by blast
    ultimately show ?thesis by (simp add: filter_id_conv)
  qed
  have read: "triple ?H (io ''read segment'' (seg_at dir s) (vfs_read (seg_at dir s)))
      (\<lambda>got d. got = terminated ls \<and> ?H d) (lost pl J)"
    using keep holds_live [OF _ mem] by (intro triple_read) fastforce
  let ?then = "\<lambda>bytes. and_then (read_segments (seg_paths dir sub)) (\<lambda>rest.
       ret (filter (\<lambda>line. line \<noteq> []) (fst (complete_lines bytes)) @ rest))"
  have "triple ?H (?then (terminated ls)) (\<lambda>got d. got = lines_in (x # sub) \<and> ?H d) (lost pl J)"
    using Cons by (intro triple_then [OF Cons.IH] triple_ret) (auto simp: whole x)
  from triple_then [OF read triple_value [where f = ?then, OF this]]
  show ?case by (simp add: seg_paths_def x)
qed

lemma reading_back:
  assumes ext: "sound_parts ext" and up: "open_on ext dir lines l d"
  shows "read_raw_lines l d = (Inr got, d') \<Longrightarrow> got = lines \<and> open_on ext dir lines l d'"
    and "read_raw_lines l d = (Inl e, d') \<Longrightarrow> \<not> quiet (plan d) \<and> survived ext dir lines (files d')"
proof -
  obtain sgs where rest: "at_rest ext dir sgs l" and hold: "holds_files dir sgs [] (files d)"
    and lines: "lines_in sgs = lines" using up unfolding open_on_def by blast
  have dir: "l_dir l = dir" and log: "log_ok ext (lines_in sgs)" using rest by (auto simp: at_rest_def)
  let ?H = "on (plan d) (holds_files dir sgs [])"
  let ?E = "lost (plan d) (survived ext dir lines)"
  have keep: "survived ext dir lines (cut_files tr m)" if "holds_files dir sgs [] m" for m tr
    using holds_cut [OF that] log lines unfolding survived_def by (metis empty_iff list.set(1))
  have list: "triple ?H (io ''list ledger dir'' dir (vfs_list dir)) (\<lambda>got d. got = seg_paths dir sgs \<and> ?H d) ?E"
    using keep found_segments(1) by (intro triple_list) blast
  have "triple ?H (read_segments (filter is_segment (seg_paths dir sgs))) (\<lambda>got d. got = lines \<and> ?H d) ?E"
    using reading_segments [where J = "survived ext dir lines", OF ext log _ subset_refl] keep found_segments(2) [OF hold] lines by simp
  from triple_then [OF list triple_value [where f = "\<lambda>found. read_segments (filter is_segment found)", OF this]]
  have tr: "triple ?H (read_raw_lines l) (\<lambda>got d. got = lines \<and> ?H d) ?E"
    unfolding read_raw_lines_def dir .
  have on: "?H d" using hold by (simp add: on_def)
  show "read_raw_lines l d = (Inr got, d') \<Longrightarrow> got = lines \<and> open_on ext dir lines l d'"
    using tripleD(2) [OF tr on] rest lines unfolding open_on_def on_def by blast
  show "read_raw_lines l d = (Inl e, d') \<Longrightarrow> \<not> quiet (plan d) \<and> survived ext dir lines (files d')"
    using tripleD(1) [OF tr on] unfolding lost_def by blast
qed

end
