(* ===== verification/Queues.thy ===== *)
theory Queues
  imports Budgets Idem_Keys Ordered_Maps "HOL-Library.Sublist"
begin

text \<open>
  The one queue behind three lanes (\<open>crates/memory/src/queue.rs\<close>): admission before storage,
  deduplication before consumption. Its contract is stated once, in the locale
  \<open>once_queue\<close>: items come out in the order they were admitted, and a key that was ever
  admitted is never admitted again.
\<close>

section \<open>The contract\<close>

fun fst_list :: "'i option \<Rightarrow> 'i list" where
  "fst_list None = []"
| "fst_list (Some i) = [i]"

text \<open>What a sequence of puts (\<open>Some\<close>) and takes (\<open>None\<close>) hands out.\<close>

fun served ::
    "('i \<Rightarrow> 'q \<Rightarrow> 'q) \<Rightarrow> ('q \<Rightarrow> 'i option \<times> 'q) \<Rightarrow> 'i option list \<Rightarrow> 'q \<Rightarrow> 'i list \<times> 'q" where
  "served put take_next [] q = ([], q)"
| "served put take_next (Some i # ops) q = served put take_next ops (put i q)"
| "served put take_next (None # ops) q =
     (case served put take_next ops (snd (take_next q)) of
        (out, q') \<Rightarrow> (fst_list (fst (take_next q)) @ out, q'))"

text \<open>\<open>left\<close> counts the admissions a queue can still number.\<close>

locale once_queue =
  fixes waiting :: "'q \<Rightarrow> 'i list"
    and known :: "'q \<Rightarrow> 'k set"
    and key_of :: "'i \<Rightarrow> 'k"
    and valid :: "'q \<Rightarrow> bool"
    and left :: "'q \<Rightarrow> nat"
    and put :: "'i \<Rightarrow> 'q \<Rightarrow> 'q"
    and take_next :: "'q \<Rightarrow> 'i option \<times> 'q"
  assumes known_waiting: "valid q \<Longrightarrow> key_of ` set (waiting q) \<subseteq> known q"
    and valid_put: "valid q \<Longrightarrow> 0 < left q \<Longrightarrow> valid (put i q)"
    and valid_take: "valid q \<Longrightarrow> valid (snd (take_next q))"
    and put_effect: "valid q \<Longrightarrow> 0 < left q \<Longrightarrow>
      waiting (put i q) = waiting q \<and> known (put i q) = known q \<or>
      key_of i \<notin> known q \<and> (\<exists>j. key_of j = key_of i \<and> waiting (put i q) = waiting q @ [j]) \<and>
        known (put i q) = insert (key_of i) (known q)"
    and put_left: "valid q \<Longrightarrow> 0 < left q \<Longrightarrow> left q \<le> Suc (left (put i q))"
    and take_effect: "valid q \<Longrightarrow> waiting q = fst_list (fst (take_next q)) @ waiting (snd (take_next q))"
    and take_none: "valid q \<Longrightarrow> fst (take_next q) = None \<longleftrightarrow> waiting q = []"
    and take_known: "valid q \<Longrightarrow> known (snd (take_next q)) = known q"
    and take_left: "valid q \<Longrightarrow> left (snd (take_next q)) = left q"
begin

text \<open>
  Everything handed out, then everything still waiting, is unique, and in the order in which
  it was put.
\<close>

lemma served_once:
  "valid q \<Longrightarrow> length ops \<le> left q \<Longrightarrow> distinct (map key_of (waiting q)) \<Longrightarrow> served put take_next ops q = (out, q') \<Longrightarrow>
   valid q' \<and> (\<exists>new. out @ waiting q' = waiting q @ new \<and> distinct (map key_of (waiting q @ new)) \<and>
     key_of ` set new \<inter> known q = {} \<and> known q' = known q \<union> key_of ` set new \<and>
     subseq (map key_of new) (map key_of (concat (map fst_list ops))))"
proof (induction ops arbitrary: q out)
  case Nil
  then show ?case by auto
next
  case (Cons op ops)
  have distinct: "distinct (map key_of (waiting q))" by fact
  show ?case
  proof (cases op)
    case (Some i)
    have spare: "0 < left q" using Cons.prems(2) by simp
    have ok: "valid (put i q)" "length ops \<le> left (put i q)"
      using Cons.prems valid_put [OF _ spare] put_left [OF Cons.prems(1) spare, of i] by auto
    from put_effect [OF Cons.prems(1) spare, of i] show ?thesis
    proof (elim disjE conjE exE)
      assume same: "waiting (put i q) = waiting q" "known (put i q) = known q"
      then obtain more where "valid q'" "out @ waiting q' = waiting q @ more"
        "distinct (map key_of (waiting q @ more))" "key_of ` set more \<inter> known q = {}"
        "known q' = known q \<union> key_of ` set more" "subseq (map key_of more) (map key_of (concat (map fst_list ops)))"
        using Cons.IH [OF ok] Cons.prems(3,4) Some by auto
      then show ?thesis using Some by (intro conjI exI [of _ more]) auto
    next
      fix j assume new: "key_of i \<notin> known q" "key_of j = key_of i" "waiting (put i q) = waiting q @ [j]"
        "known (put i q) = insert (key_of i) (known q)"
      have "distinct (map key_of (waiting (put i q)))"
        using distinct known_waiting [OF Cons.prems(1)] new by auto
      from Cons.IH [OF ok this] Cons.prems(4) Some obtain more where more: "valid q'"
        "out @ waiting q' = waiting (put i q) @ more" "distinct (map key_of (waiting (put i q) @ more))"
        "key_of ` set more \<inter> known (put i q) = {}" "known q' = known (put i q) \<union> key_of ` set more"
        "subseq (map key_of more) (map key_of (concat (map fst_list ops)))"
        by auto
      then show ?thesis using new Some by (intro conjI exI [of _ "j # more"]) auto
    qed
  next
    case None
    let ?q = "snd (take_next q)"
    obtain out1 where out1: "served put take_next ops ?q = (out1, q')" "out = fst_list (fst (take_next q)) @ out1"
      using Cons.prems(4) None by (auto split: prod.splits)
    have w: "waiting q = fst_list (fst (take_next q)) @ waiting ?q" by (rule take_effect [OF Cons.prems(1)])
    have "distinct (map key_of (waiting ?q))" using distinct by (subst (asm) w) simp
    then obtain new where new: "valid q'" "out1 @ waiting q' = waiting ?q @ new"
      "distinct (map key_of (waiting ?q @ new))" "key_of ` set new \<inter> known q = {}"
      "known q' = known q \<union> key_of ` set new" "subseq (map key_of new) (map key_of (concat (map fst_list ops)))"
      using Cons.IH [OF valid_take [OF Cons.prems(1)] _ _ out1(1)] Cons.prems(2)
        take_left [OF Cons.prems(1)] take_known [OF Cons.prems(1)] by auto
    have "distinct (map key_of (waiting q @ new))"
      using distinct new(4) known_waiting [OF Cons.prems(1)] new(3) by auto
    then show ?thesis using new out1(2) w None by (intro conjI exI [of _ new]) auto
  qed
qed

end

section \<open>The queue\<close>

datatype (plugins only: code size) queue_lane = SignalLane | ApprovalLane | RepairLane

definition lane_str :: "queue_lane \<Rightarrow> string" where
  "lane_str l = (case l of SignalLane \<Rightarrow> ''signal'' | ApprovalLane \<Rightarrow> ''approval'' | RepairLane \<Rightarrow> ''repair'')"

record queue_item =
  qi_id :: u64
  qi_key :: idem_key
  qi_payload :: payload
  qi_enqueued :: time_ms

record event_queue =
  eq_lane :: queue_lane
  eq_items :: "(u64, queue_item) btree"
  eq_next :: u64
  eq_seen :: "idem_key set"
  eq_capacity :: u64
  eq_shed :: u64
  eq_duplicates :: u64

definition queue_new :: "queue_lane \<Rightarrow> u64 \<Rightarrow> event_queue" where
  "queue_new l cap =
     \<lparr>eq_lane = l, eq_items = [], eq_next = 0, eq_seen = {}, eq_capacity = cap, eq_shed = 0, eq_duplicates = 0\<rparr>"

definition queue_len :: "event_queue \<Rightarrow> u64" where
  "queue_len q = (if length (eq_items q) \<le> u64_max then of_nat (length (eq_items q)) else - 1)"

definition stats_of :: "event_queue \<Rightarrow> queue_stats" where
  "stats_of q = \<lparr>queue_depth = queue_len q, queue_capacity = eq_capacity q\<rparr>"

definition enqueue :: "idem_key \<Rightarrow> payload \<Rightarrow> time_ms \<Rightarrow> event_queue \<Rightarrow> admission \<times> event_queue" where
  "enqueue key data now q =
     (if key \<in> eq_seen q then (QueueAdmit, q\<lparr>eq_duplicates := saturating_add (eq_duplicates q) 1\<rparr>)
      else (case admit_item (stats_of q) \<lparr>item_cost = 1\<rparr> of
              Shed why \<Rightarrow> (Shed why, q\<lparr>eq_shed := saturating_add (eq_shed q) 1\<rparr>)
            | QueueAdmit \<Rightarrow>
                (let i = eq_next q in
                 (QueueAdmit,
                  q\<lparr>eq_next := saturating_add i 1, eq_seen := insert key (eq_seen q),
                    eq_items := bt_insert i \<lparr>qi_id = i, qi_key = key, qi_payload = data, qi_enqueued = now\<rparr>
                      (eq_items q)\<rparr>))))"

definition consume :: "event_queue \<Rightarrow> queue_item option \<times> event_queue" where
  "consume q =
     (case bt_keys (eq_items q) of
        [] \<Rightarrow> (None, q)
      | i # _ \<Rightarrow> (bt_get (eq_items q) i, q\<lparr>eq_items := bt_remove i (eq_items q)\<rparr>))"

section \<open>The queue keeps the contract\<close>

definition queue_valid :: "event_queue \<Rightarrow> bool" where
  "queue_valid q \<longleftrightarrow> bt_ok (eq_items q) \<and>
     (\<forall>(i, x) \<in> set (eq_items q). i < eq_next q \<and> qi_id x = i \<and> qi_key x \<in> eq_seen q)"

definition queue_waiting :: "event_queue \<Rightarrow> queue_item list" where
  "queue_waiting q = bt_values (eq_items q)"

definition ids_left :: "event_queue \<Rightarrow> nat" where
  "ids_left q = u64_max - unat (eq_next q)"

definition queue_put :: "queue_item \<Rightarrow> event_queue \<Rightarrow> event_queue" where
  "queue_put x q = snd (enqueue (qi_key x) (qi_payload x) (qi_enqueued x) q)"

lemma bt_insert_last: "(\<forall>k' \<in> set (bt_keys m). k' < k) \<Longrightarrow> bt_insert k v m = m @ [(k, v)]"
  by (induction k v m rule: bt_insert.induct) (auto simp: bt_keys_def)

lemma queue_new_valid: "queue_valid (queue_new l cap)"
  by (simp add: queue_valid_def queue_new_def)

lemma new_lane_ids: "u64_max - 1 \<le> ids_left (queue_new l cap)"
  by (simp add: ids_left_def queue_new_def)

lemma new_lane_empty: "queue_waiting (queue_new l cap) = []" "eq_seen (queue_new l cap) = {}"
    "eq_items (queue_new l cap) = []" "eq_capacity (queue_new l cap) = cap"
  by (simp_all add: queue_waiting_def queue_new_def bt_values_def)

lemma enqueue_seen:
  "key \<in> eq_seen q \<Longrightarrow>
   enqueue key data now q = (QueueAdmit, q\<lparr>eq_duplicates := saturating_add (eq_duplicates q) 1\<rparr>)"
  by (simp add: enqueue_def)

lemma enqueue_shed:
  assumes "key \<notin> eq_seen q" "unat (eq_capacity q) \<le> unat (queue_len q)"
  shows "enqueue key data now q =
    (Shed CapacityExhausted, q\<lparr>eq_shed := saturating_add (eq_shed q) 1\<rparr>)"
proof -
  have "admit_item (stats_of q) \<lparr>item_cost = 1\<rparr> \<noteq> QueueAdmit"
    unfolding admit_item_iff using assms(2) by (simp add: stats_of_def)
  then have "admit_item (stats_of q) \<lparr>item_cost = 1\<rparr> = Shed CapacityExhausted" by (rule admit_item_other)
  then show ?thesis using assms(1) by (simp add: enqueue_def)
qed

lemma enqueue_stored:
  assumes "queue_valid q" "key \<notin> eq_seen q" "unat (queue_len q) < unat (eq_capacity q)"
  shows "enqueue key data now q =
    (QueueAdmit, q\<lparr>eq_next := saturating_add (eq_next q) 1, eq_seen := insert key (eq_seen q),
       eq_items := eq_items q @ [(eq_next q,
         \<lparr>qi_id = eq_next q, qi_key = key, qi_payload = data, qi_enqueued = now\<rparr>)]\<rparr>)"
proof -
  have "admit_item (stats_of q) \<lparr>item_cost = 1\<rparr> = QueueAdmit"
    unfolding admit_item_iff using assms(3) by (simp add: stats_of_def)
  moreover have "\<forall>k' \<in> set (bt_keys (eq_items q)). k' < eq_next q"
    using assms(1) by (auto simp: queue_valid_def bt_keys_def)
  ultimately show ?thesis using assms(2) by (simp add: enqueue_def bt_insert_last Let_def)
qed

lemma enqueue_cases:
  obtains (seen) "key \<in> eq_seen q"
    | (shed) "key \<notin> eq_seen q" "unat (eq_capacity q) \<le> unat (queue_len q)"
    | (stored) "key \<notin> eq_seen q" "unat (queue_len q) < unat (eq_capacity q)"
  by (meson not_le)

lemma consume_head:
  "consume q =
    (case eq_items q of [] \<Rightarrow> (None, q) | (i, x) # rest \<Rightarrow> (Some x, q\<lparr>eq_items := rest\<rparr>))"
  by (simp add: consume_def bt_keys_def bt_get_def split: list.splits prod.splits)

lemma next_id:
  "0 < ids_left q \<Longrightarrow> unat (saturating_add (eq_next q) 1) = Suc (unat (eq_next q))"
proof -
  assume "0 < ids_left q"
  then have "Suc (unat (eq_next q)) \<le> 2 ^ 64 - 1" by (simp add: ids_left_def u64_max_def)
  then show ?thesis by (simp add: unat_saturating_add min_absorb1)
qed

text \<open>\<open>enqueue\<close> once more, on all three branches at once.\<close>

lemma queue_put_valid:
  assumes "queue_valid q" "0 < ids_left q"
  shows "queue_valid (queue_put x q)"
  using assms(1)
proof (cases rule: enqueue_cases [of "qi_key x" q])
  case stored
  have "eq_next q < saturating_add (eq_next q) 1"
    using next_id [OF assms(2)] by (simp add: word_less_nat_alt)
  moreover have "i < saturating_add (eq_next q) 1" if "i < eq_next q" for i
    using that calculation by simp
  moreover have "bt_ok (eq_items q @ [(eq_next q, y)])" for y
    using assms(1) by (auto simp: queue_valid_def bt_ok_def bt_keys_def sorted_wrt_append)
  ultimately show ?thesis using assms(1)
    by (auto simp: queue_put_def enqueue_stored [OF assms(1) stored] queue_valid_def)
qed (use assms(1) in \<open>auto simp: queue_put_def enqueue_seen enqueue_shed queue_valid_def\<close>)

lemma queue_put_effect:
  assumes "queue_valid q"
  shows "queue_waiting (queue_put x q) = queue_waiting q \<and> eq_seen (queue_put x q) = eq_seen q \<or>
    qi_key x \<notin> eq_seen q \<and>
    (\<exists>y. qi_key y = qi_key x \<and> queue_waiting (queue_put x q) = queue_waiting q @ [y]) \<and>
    eq_seen (queue_put x q) = insert (qi_key x) (eq_seen q)"
  using assms
  by (cases rule: enqueue_cases [of "qi_key x" q])
    (auto simp: queue_put_def enqueue_seen enqueue_shed enqueue_stored queue_waiting_def bt_values_def)

lemma queue_put_left: "queue_valid q \<Longrightarrow> 0 < ids_left q \<Longrightarrow> ids_left q \<le> Suc (ids_left (queue_put x q))"
  by (cases rule: enqueue_cases [of "qi_key x" q])
    (auto simp: queue_put_def enqueue_seen enqueue_shed enqueue_stored ids_left_def next_id)

interpretation lane: once_queue queue_waiting eq_seen qi_key queue_valid ids_left queue_put consume
proof unfold_locales
  fix q :: event_queue
  assume ok: "queue_valid q"
  show "qi_key ` set (queue_waiting q) \<subseteq> eq_seen q"
    using ok by (auto simp: queue_waiting_def bt_values_def queue_valid_def)
  show "queue_valid (snd (consume q))"
    using ok by (auto simp: consume_head queue_valid_def bt_ok_Cons split: list.splits)
  show "queue_waiting q = fst_list (fst (consume q)) @ queue_waiting (snd (consume q))"
    by (auto simp: consume_head queue_waiting_def bt_values_def split: list.splits)
  show "(fst (consume q) = None) = (queue_waiting q = [])"
    by (auto simp: consume_head queue_waiting_def bt_values_def split: list.splits)
  show "eq_seen (snd (consume q)) = eq_seen q" "ids_left (snd (consume q)) = ids_left q"
    by (auto simp: consume_head ids_left_def split: list.splits)
qed (simp_all add: queue_put_valid queue_put_effect queue_put_left)

section \<open>Capacity\<close>

lemma unat_within_u64: "unat (w :: u64) \<le> u64_max"
proof -
  have "unat w < 2 ^ 64" using unsigned_less [of w, where 'a = nat] by (simp del: unsigned_less)
  then have "Suc (unat w) \<le> 18446744073709551616" by (simp only: Suc_le_eq) simp
  then show ?thesis unfolding u64_max_def by linarith
qed

lemma queue_len_bound: "unat (queue_len q) \<le> length (eq_items q)"
proof (cases "length (eq_items q) \<le> u64_max")
  case True
  then show ?thesis by (simp add: queue_len_def unat_of_nat take_bit_nat_less_eq_self)
next
  case False
  then show ?thesis
    using unat_within_u64 [of "queue_len q"] by linarith
qed

text \<open>No lane ever holds more than its capacity, and shedding leaves what is queued alone.\<close>

lemma queue_within_capacity:
  assumes "queue_valid q" "length (eq_items q) \<le> unat (eq_capacity q)"
  shows "length (eq_items (snd (enqueue key data now q))) \<le> unat (eq_capacity (snd (enqueue key data now q)))"
    and "length (eq_items (snd (consume q))) \<le> unat (eq_capacity (snd (consume q)))"
proof -
  have "length (eq_items q) \<le> u64_max"
    using assms(2) unat_within_u64 [of "eq_capacity q"] by linarith
  then have "unat (queue_len q) = length (eq_items q)"
    unfolding u64_max_def queue_len_def by (simp add: unsigned_of_nat take_bit_nat_eq_self)
  with assms show "length (eq_items (snd (enqueue key data now q))) \<le>
      unat (eq_capacity (snd (enqueue key data now q)))"
    by (cases rule: enqueue_cases [of key q])
      (auto simp: enqueue_seen enqueue_shed enqueue_stored)
  show "length (eq_items (snd (consume q))) \<le> unat (eq_capacity (snd (consume q)))"
    using assms(2) by (auto simp: consume_head split: list.splits)
qed

lemma served_within_capacity:
  "queue_valid q \<Longrightarrow> length ops \<le> ids_left q \<Longrightarrow> length (eq_items q) \<le> unat (eq_capacity q) \<Longrightarrow>
   length (queue_waiting (snd (served queue_put consume ops q))) \<le> unat (eq_capacity q)"
proof (induction ops arbitrary: q)
  case Nil
  then show ?case by (simp add: queue_waiting_def bt_values_def)
next
  case (Cons x ops)
  show ?case
  proof (cases x)
    case (Some i)
    have spare: "0 < ids_left q" using Cons.prems(2) by simp
    have "eq_capacity (queue_put i q) = eq_capacity q"
      using Cons.prems(1) by (cases rule: enqueue_cases [of "qi_key i" q])
        (auto simp: queue_put_def enqueue_seen enqueue_shed enqueue_stored)
    moreover have "length ops \<le> ids_left (queue_put i q)"
      using Cons.prems(2) queue_put_left [OF Cons.prems(1) spare, of i] by simp
    ultimately show ?thesis
      using Cons.IH [OF queue_put_valid [OF Cons.prems(1) spare], of i] Some
        queue_within_capacity(1) [OF Cons.prems(1,3), of "qi_key i" "qi_payload i" "qi_enqueued i"]
      by (simp add: queue_put_def)
  next
    case None
    have "eq_capacity (snd (consume q)) = eq_capacity q" by (simp add: consume_head split: list.splits)
    then show ?thesis
      using Cons.IH [OF lane.valid_take [OF Cons.prems(1)]] lane.take_left [OF Cons.prems(1)] Cons.prems None
        queue_within_capacity(2) [OF Cons.prems(1,3)]
      by (auto split: prod.splits)
  qed
qed

lemma queue_shed_untouched:
  assumes "queue_valid q" "fst (enqueue key data now q) = Shed why"
  shows "eq_items (snd (enqueue key data now q)) = eq_items q" "eq_seen (snd (enqueue key data now q)) = eq_seen q"
    "eq_duplicates (snd (enqueue key data now q)) = eq_duplicates q"
  using assms
  by (cases rule: enqueue_cases [of key q]; simp add: enqueue_seen enqueue_shed enqueue_stored)+

end
