(* ===== verification/Cas_Objects.thy ===== *)
theory Cas_Objects
  imports Effects
begin

text \<open>
  Content-addressed storage (\<open>crates/memory/src/cas.rs\<close>) over the power-loss filesystem. An
  object lives under \<open>b3/<shard>/<hash>\<close>; it is written under \<open>tmp\<close>, synced, renamed into
  place and its directory synced. BLAKE3 is the parameter \<open>dg\<close>.
\<close>

section \<open>The store\<close>

record cas_store =
  cas_dir :: path

definition objects_dir :: "path \<Rightarrow> path" where
  "objects_dir root = join_path root ''b3''"

definition cas_tmp_dir :: "path \<Rightarrow> path" where
  "cas_tmp_dir root = join_path root ''tmp''"

text \<open>The shard directory and the object's own path.\<close>

definition object_path :: "path \<Rightarrow> b3_hash \<Rightarrow> path \<times> path" where
  "object_path root hash =
     (let hex = b3_str hash;
          shard = (if 2 \<le> length hex then take 2 hex else ''00'');
          shard_dir = join_path (objects_dir root) shard
      in (shard_dir, join_path shard_dir hex))"

definition tmp_path :: "path \<Rightarrow> b3_hash \<Rightarrow> path" where
  "tmp_path root hash = join_path (cas_tmp_dir root) (b3_str hash @ ''.part'')"

definition cas_open :: "path \<Rightarrow> cas_store effect" where
  "cas_open root =
     (let objects = objects_dir root; tmp = cas_tmp_dir root in
      and_then (io ''create cas dir'' objects (vfs_create_dir_all objects)) (\<lambda>_.
      and_then (io ''create cas tmp dir'' tmp (vfs_create_dir_all tmp)) (\<lambda>_.
      and_then (io ''list cas tmp'' tmp (vfs_list tmp)) (\<lambda>leftovers.
      and_then (for_each (\<lambda>p. io ''sweep cas tmp'' p (vfs_remove_file p)) leftovers) (\<lambda>_.
      ret \<lparr>cas_dir = root\<rparr>)))))"

definition cas_put :: "hasher \<Rightarrow> cas_store \<Rightarrow> string \<Rightarrow> b3_hash effect" where
  "cas_put dg c bytes =
     (let hash = dg bytes; (shard_dir, p) = object_path (cas_dir c) hash; tmp = tmp_path (cas_dir c) hash in
      (\<lambda>d. if vfs_exists p d then ret hash d else
        and_then (io ''create cas shard'' shard_dir (vfs_create_dir_all shard_dir)) (\<lambda>_.
        and_then (\<lambda>d. if vfs_exists tmp d then io ''reset cas tmp'' tmp (vfs_truncate tmp 0) d else ret () d) (\<lambda>_.
        and_then (io ''write cas tmp'' tmp (vfs_append tmp bytes)) (\<lambda>_.
        and_then (io ''sync cas tmp'' tmp (vfs_sync_data tmp)) (\<lambda>_.
        and_then (io ''rename cas object'' p (vfs_rename tmp p)) (\<lambda>_.
        and_then (io ''sync cas shard'' shard_dir (vfs_sync_dir shard_dir)) (\<lambda>_.
        ret hash)))))) d))"

definition cas_contains :: "cas_store \<Rightarrow> b3_hash \<Rightarrow> disk \<Rightarrow> bool" where
  "cas_contains c hash d = vfs_exists (snd (object_path (cas_dir c) hash)) d"

definition cas_get :: "hasher \<Rightarrow> cas_store \<Rightarrow> b3_hash \<Rightarrow> string effect" where
  "cas_get dg c hash =
     (let p = snd (object_path (cas_dir c) hash) in
      (\<lambda>d. if \<not> vfs_exists p d then fail_with (CasMissing (b3_str hash)) d else
        and_then (io ''read cas object'' p (vfs_read p)) (\<lambda>bytes.
          if hash_bytes (dg bytes) \<noteq> hash_bytes hash then fail_with (CasCorrupt (b3_str hash) p)
          else ret bytes) d))"

text \<open>\<open>usize\<close> is 64 bits wide, so the conversions of the bounds do not fail.\<close>

definition slice :: "'a list \<Rightarrow> nat \<Rightarrow> nat \<Rightarrow> 'a list option" where
  "slice xs lo hi = (if lo \<le> hi \<and> hi \<le> length xs then Some (take (hi - lo) (drop lo xs)) else None)"

definition cut_range :: "b3_hash \<Rightarrow> string \<Rightarrow> range \<Rightarrow> (memory_error, string) result" where
  "cut_range hash bytes r =
     (let out_of_bounds = RangeOutOfBounds (b3_str hash) in
      case r of
        Bytes lo hi \<Rightarrow>
          (case checked_add hi 1 of
             None \<Rightarrow> Inl out_of_bounds
           | Some end \<Rightarrow>
               (case slice bytes (unat lo) (unat end) of None \<Rightarrow> Inl out_of_bounds | Some part \<Rightarrow> Inr part))
      | Lines lo hi \<Rightarrow>
          (let ls = split_on lf bytes;
               count = (if last ls = [] then length ls - 1 else length ls)
           in if lo = 0 \<or> count < unat hi then Inl out_of_bounds
              else (case slice ls (unat lo - 1) (unat hi) of
                      None \<Rightarrow> Inl out_of_bounds
                    | Some picked \<Rightarrow> Inr (join_with [lf] picked))))"

definition cas_get_range :: "hasher \<Rightarrow> cas_store \<Rightarrow> b3_hash \<Rightarrow> range \<Rightarrow> string effect" where
  "cas_get_range dg c hash r = and_then (cas_get dg c hash) (\<lambda>bytes. of_result (cut_range hash bytes r))"

section \<open>What a store holds\<close>

text \<open>
  A store is sound when every file under \<open>b3\<close> is entered, synced, and where its content's
  hash puts it; \<open>cas_view\<close> reads it as a map from hashes to contents.
\<close>

definition is_object :: "path \<Rightarrow> path \<Rightarrow> bool" where
  "is_object root p \<longleftrightarrow> prefix (objects_dir root) p"

definition well_placed :: "hasher \<Rightarrow> path \<Rightarrow> path \<Rightarrow> file_state \<Rightarrow> bool" where
  "well_placed dg root p f \<longleftrightarrow> durable f = live f \<and> p = snd (object_path root (dg (live f)))"

definition cas_sound :: "hasher \<Rightarrow> path \<Rightarrow> disk_files \<Rightarrow> bool" where
  "cas_sound dg root m \<longleftrightarrow> bt_ok m \<and>
     (\<forall>p f. bt_get m p = Some f \<longrightarrow> is_object root p \<longrightarrow> durable_entry f \<and> well_placed dg root p f)"

definition cas_view :: "path \<Rightarrow> disk_files \<Rightarrow> b3_hash \<Rightarrow> string option" where
  "cas_view root m hash = map_option live (bt_get m (snd (object_path root hash)))"

definition holds_view :: "hasher \<Rightarrow> path \<Rightarrow> (b3_hash \<Rightarrow> string option) \<Rightarrow> disk_files \<Rightarrow> bool" where
  "holds_view dg root v m \<longleftrightarrow> cas_sound dg root m \<and> cas_view root m = v"

lemma b3_str_inj: "b3_str h = b3_str h' \<longleftrightarrow> h = h'"
  using hex_pairs_iff [of "write_hex (hash_bytes h)"] by (metis b3_hash.expand b3_str_def hex_pairs_iff option.inject)

lemma object_path_inj: "snd (object_path root h) = snd (object_path root h') \<longleftrightarrow> h = h'"
  by (auto simp: object_path_def Let_def join_path_def b3_str_inj)

lemma object_path_is: "is_object root (snd (object_path root h))"
  by (simp add: object_path_def Let_def join_path_def is_object_def)

lemma object_path_parent: "parent (snd (object_path root h)) = Some (fst (object_path root h))"
  by (simp add: object_path_def Let_def join_path_def parent_def butlast_append)

lemma tmp_not_object: "parent p = Some (cas_tmp_dir root) \<Longrightarrow> \<not> is_object root p"
  by (cases p rule: rev_cases)
    (auto simp: parent_def is_object_def objects_dir_def cas_tmp_dir_def join_path_def prefix_def)

lemma tmp_path_parent: "parent (tmp_path root h) = Some (cas_tmp_dir root)"
  by (simp add: tmp_path_def join_path_def parent_def)

lemma tmp_path_not_object: "\<not> is_object root (tmp_path root h)"
  using tmp_not_object tmp_path_parent .

lemma view_elsewhere:
  assumes "bt_ok m'" "\<And>p. is_object root p \<Longrightarrow> bt_get m' p = bt_get m p" "holds_view dg root v m"
  shows "holds_view dg root v m'"
  using assms object_path_is by (fastforce simp: holds_view_def cas_sound_def cas_view_def)

lemma view_ok: "holds_view dg root v m \<Longrightarrow> bt_ok m"
  by (simp add: holds_view_def cas_sound_def)

lemma view_insert: "holds_view dg root v m \<Longrightarrow> \<not> is_object root p \<Longrightarrow> holds_view dg root v (bt_insert p f m)"
  by (rule view_elsewhere) (auto simp: map_laws dest: view_ok)

lemma view_remove: "holds_view dg root v m \<Longrightarrow> \<not> is_object root p \<Longrightarrow> holds_view dg root v (bt_remove p m)"
  by (rule view_elsewhere) (auto simp: map_laws dest: view_ok)

lemma view_tmp:
  assumes "holds_view dg root v m" "\<not> is_object root p"
  shows "holds_view dg root v (grown m p bytes)" "holds_view dg root v (shortened m p n)"
    "holds_view dg root v (synced m p)"
  using assms by (auto simp: grown_def shortened_def synced_def view_insert split: option.split)

lemma sound_cut_get:
  "cas_sound dg root m \<Longrightarrow> is_object root p \<Longrightarrow> map_option live (bt_get (cut_files t m) p) = map_option live (bt_get m p)"
  by (auto simp: cas_sound_def cut_files_get well_placed_def settle_synced split: option.split)

text \<open>Losing power leaves the objects as they were.\<close>

lemma view_cut: "holds_view dg root v m \<Longrightarrow> holds_view dg root v (cut_files t m)"
proof -
  assume v: "holds_view dg root v m"
  then have ok: "bt_ok m" and s: "cas_sound dg root m" by (auto simp: holds_view_def view_ok cas_sound_def)
  have "durable_entry f \<and> well_placed dg root p f"
    if "bt_get (cut_files t m) p = Some f" "is_object root p" for p f
    using that s by (auto simp: cut_files_get [OF ok] cas_sound_def well_placed_def settle_def
        split: option.splits if_splits)
  then have "cas_sound dg root (cut_files t m)" using cut_files_ok [OF ok] by (simp add: cas_sound_def)
  moreover have "cas_view root (cut_files t m) = cas_view root m"
    using sound_cut_get [OF s object_path_is] by (simp add: cas_view_def fun_eq_iff)
  ultimately show ?thesis using v by (simp add: holds_view_def)
qed

lemma view_none: "holds_view dg root v m \<Longrightarrow> bt_get m (snd (object_path root h)) = None \<longleftrightarrow> v h = None"
  by (auto simp: holds_view_def cas_view_def)

lemma view_some:
  assumes "holds_view dg root v m" "v h = Some bytes"
  shows "\<exists>f. bt_get m (snd (object_path root h)) = Some f \<and> live f = bytes \<and> dg bytes = h"
proof -
  obtain f where f: "bt_get m (snd (object_path root h)) = Some f" "live f = bytes"
    using assms by (auto simp: holds_view_def cas_view_def)
  then have "well_placed dg root (snd (object_path root h)) f"
    using assms(1) object_path_is by (auto simp: holds_view_def cas_sound_def)
  then show ?thesis using f by (auto simp: well_placed_def object_path_inj)
qed

section \<open>Opening and putting\<close>

lemma triple_cas_open:
  "triple (on pl (holds_view dg root v)) (cas_open root)
     (\<lambda>c d. c = \<lparr>cas_dir = root\<rparr> \<and>
        on pl (\<lambda>m. holds_view dg root v m \<and> (\<forall>p. parent p = Some (cas_tmp_dir root) \<longrightarrow> bt_get m p = None)) d)
     (lost pl (holds_view dg root v))"
proof (rule triple_exact)
  fix m assume v: "holds_view dg root v m"
  have ok: "bt_ok m" by (rule view_ok [OF v])
  define left where "left = filter (\<lambda>p. parent p = Some (cas_tmp_dir root)) (bt_keys m)"
  have left: "set left \<subseteq> set (bt_keys m)" "distinct left" "\<And>p. p \<in> set left \<Longrightarrow> \<not> is_object root p"
    using bt.keys_distinct [OF ok] tmp_not_object by (auto simp: left_def)
  define swept where "swept before m' \<longleftrightarrow>
    holds_view dg root v m' \<and> (\<forall>p. bt_get m' p = (if p \<in> set before then None else bt_get m p))" for before m'
  have "triple (on pl (swept before)) (io ''sweep cas tmp'' p (vfs_remove_file p))
      (\<lambda>_. on pl (swept (before @ [p]))) (lost pl (holds_view dg root v))"
    if split: "left = before @ p # after" for before p after
  proof (rule triple_remove)
    fix m' assume s: "swept before m'"
    then have v': "holds_view dg root v m'" and ok': "bt_ok m'" by (auto simp: swept_def view_ok)
    have p: "p \<in> set left" "p \<notin> set before" using split left(2) by auto
    have "bt_get m' p = bt_get m p" using s p by (simp add: swept_def)
    moreover have "bt_get m p \<noteq> None" using p(1) left(1) by (auto simp: bt_get_None_iff)
    moreover have "swept (before @ [p]) (bt_remove p m')"
      using s view_remove [OF v' left(3) [OF p(1)]] by (simp add: swept_def bt_get_remove [OF ok'])
    moreover have "holds_view dg root v (cut_files (torn pl) (bt_remove p m'))"
      by (intro view_cut view_remove v' left(3) p(1))
    ultimately show "bt_get m' p \<noteq> None \<and> swept (before @ [p]) (bt_remove p m') \<and>
        holds_view dg root v (cut_files (torn pl) (bt_remove p m'))" by simp
  qed
  then have sweep: "triple (on pl (swept [])) (for_each (\<lambda>p. io ''sweep cas tmp'' p (vfs_remove_file p)) left)
      (\<lambda>_. on pl (swept left)) (lost pl (holds_view dg root v))"
    by (rule triple_for_each)
  have start: "on pl (\<lambda>m'. m' = m) d \<Longrightarrow> on pl (swept []) d" for d by (simp add: on_def swept_def v)
  have finish: "swept left m' \<Longrightarrow> parent p = Some (cas_tmp_dir root) \<Longrightarrow> bt_get m' p = None" for m' p
    by (auto simp: swept_def left_def bt_get_None_iff)
  have kept: "swept left m' \<Longrightarrow> holds_view dg root v m'" for m' by (simp add: swept_def)
  have mkdir: "triple (on pl (\<lambda>m'. m' = m)) (io n q (vfs_create_dir_all dir))
      (\<lambda>_. on pl (\<lambda>m'. m' = m)) (lost pl (holds_view dg root v))" for n q dir
    by (rule triple_create_dir) (simp add: view_cut v)
  have listed: "triple (on pl (\<lambda>m'. m' = m)) (io n q (vfs_list (cas_tmp_dir root)))
      (\<lambda>got d. got = left \<and> on pl (\<lambda>m'. m' = m) d) (lost pl (holds_view dg root v))" for n q
    by (rule triple_list) (simp add: view_cut v left_def)
  have swept: "triple (\<lambda>d. got = left \<and> on pl (\<lambda>m'. m' = m) d)
      (for_each (\<lambda>p. io ''sweep cas tmp'' p (vfs_remove_file p)) got) (\<lambda>_. on pl (swept left))
      (lost pl (holds_view dg root v))" for got
  proof (cases "got = left")
    case True
    show ?thesis unfolding True by (rule triple_pre [OF sweep]) (rule start, rule conjunct2)
  next
    case False
    then show ?thesis by (simp add: triple_def)
  qed
  have opened: "triple (on pl (swept left)) (ret \<lparr>cas_dir = root\<rparr>)
      (\<lambda>c d. c = \<lparr>cas_dir = root\<rparr> \<and>
        on pl (\<lambda>m. holds_view dg root v m \<and> (\<forall>p. parent p = Some (cas_tmp_dir root) \<longrightarrow> bt_get m p = None)) d)
      (lost pl (holds_view dg root v))"
    by (rule triple_ret) (simp add: on_def kept finish)
  show "triple (on pl (\<lambda>m'. m' = m)) (cas_open root)
     (\<lambda>c d. c = \<lparr>cas_dir = root\<rparr> \<and>
        on pl (\<lambda>m. holds_view dg root v m \<and> (\<forall>p. parent p = Some (cas_tmp_dir root) \<longrightarrow> bt_get m p = None)) d)
     (lost pl (holds_view dg root v))"
    unfolding cas_open_def Let_def
    by (rule triple_then [OF mkdir], rule triple_then [OF mkdir], rule triple_then [OF listed],
        rule triple_then [OF swept], rule opened)
qed

text \<open>What the disk holds between the renaming of a new object and the entry of its name.\<close>

definition placing :: "hasher \<Rightarrow> path \<Rightarrow> (b3_hash \<Rightarrow> string option) \<Rightarrow> string \<Rightarrow> disk_files \<Rightarrow> bool" where
  "placing dg root v bytes m \<longleftrightarrow>
     (\<exists>m0 f. holds_view dg root v m0 \<and> durable f = bytes \<and> live f = bytes \<and> \<not> durable_entry f \<and>
        m = bt_insert (snd (object_path root (dg bytes))) f m0)"

definition with_object :: "hasher \<Rightarrow> (b3_hash \<Rightarrow> string option) \<Rightarrow> string \<Rightarrow> b3_hash \<Rightarrow> string option" where
  "with_object dg v bytes = (if v (dg bytes) = None then v(dg bytes \<mapsto> bytes) else v)"

lemma placing_cut:
  assumes "placing dg root v bytes m" "v (dg bytes) = None"
  shows "holds_view dg root v (cut_files t m)"
proof -
  let ?p = "snd (object_path root (dg bytes))"
  obtain m0 f where m: "holds_view dg root v m0" "\<not> durable_entry f" "m = bt_insert ?p f m0"
    using assms(1) by (auto simp: placing_def)
  have ok: "bt_ok m0" by (rule view_ok [OF m(1)])
  have gone: "bt_get m0 ?p = None" using view_none [OF m(1)] assms(2) by simp
  have "bt_get (cut_files t m) p = bt_get (cut_files t m0) p" for p
    using gone m(2) by (simp add: m(3) cut_files_get ok bt_ok_insert bt_get_insert)
  moreover have "bt_ok (cut_files t m)" by (simp add: m(3) cut_files_ok ok bt_ok_insert)
  ultimately show ?thesis by (intro view_elsewhere [OF _ _ view_cut [OF m(1)]])
qed

lemma entered_get: "bt_get (entered m dir) p =
    map_option (\<lambda>f. if parent p = Some dir then f\<lparr>durable_entry := True\<rparr> else f) (bt_get m p)"
  by (induction m) (auto simp: entered_def bt_get_def)

lemma entered_ok: "bt_ok (entered m dir) = bt_ok m"
  by (simp add: entered_def bt_ok_def bt_keys_def comp_def case_prod_beta)

lemma placing_entered:
  assumes "placing dg root v bytes m" "v (dg bytes) = None"
  shows "holds_view dg root (with_object dg v bytes) (entered m (fst (object_path root (dg bytes))))"
proof -
  let ?p = "snd (object_path root (dg bytes))" and ?m = "entered m (fst (object_path root (dg bytes)))"
  obtain m0 f where m: "holds_view dg root v m0" "durable f = bytes" "live f = bytes" "m = bt_insert ?p f m0"
    using assms(1) by (auto simp: placing_def)
  have ok: "bt_ok m0" by (rule view_ok [OF m(1)])
  have get: "bt_get ?m p = (if p = ?p then Some (f\<lparr>durable_entry := True\<rparr>)
      else map_option (\<lambda>f. if parent p = Some (fst (object_path root (dg bytes))) then f\<lparr>durable_entry := True\<rparr> else f)
        (bt_get m0 p))" for p
    by (simp add: entered_get m(4) bt_get_insert object_path_parent)
  have "durable_entry g \<and> well_placed dg root p g" if "bt_get ?m p = Some g" "is_object root p" for p g
    using that m(1-3) by (auto simp: get holds_view_def cas_sound_def well_placed_def split: if_splits)
  then have "cas_sound dg root ?m" by (simp add: cas_sound_def entered_ok m(4) bt_ok_insert ok)
  moreover have "cas_view root ?m h = with_object dg v bytes h" for h
    using m(1,3) assms(2) by (auto simp: cas_view_def get with_object_def object_path_inj holds_view_def
        option.map_comp comp_def intro!: option.map_cong)
  ultimately show ?thesis by (simp add: holds_view_def fun_eq_iff)
qed

text \<open>The temporary file with its bytes, before and after they are synced.\<close>

definition staged :: "hasher \<Rightarrow> path \<Rightarrow> (b3_hash \<Rightarrow> string option) \<Rightarrow> string \<Rightarrow> bool \<Rightarrow> disk_files \<Rightarrow> bool" where
  "staged dg root v bytes fixed m \<longleftrightarrow> holds_view dg root v m \<and>
     (\<exists>f. bt_get m (tmp_path root (dg bytes)) = Some f \<and> live f = bytes \<and> (fixed \<longrightarrow> durable f = bytes))"

lemma staged_grown:
  assumes "holds_view dg root v m"
    "bt_get m (tmp_path root (dg bytes)) = None \<or> (\<exists>f. bt_get m (tmp_path root (dg bytes)) = Some f \<and> live f = [])"
  shows "staged dg root v bytes False (grown m (tmp_path root (dg bytes)) bytes)"
  using assms view_tmp(1) [OF assms(1) tmp_path_not_object]
  by (auto simp: staged_def grown_def bt_get_insert split: option.splits)

lemma staged_synced:
  "staged dg root v bytes b m \<Longrightarrow> staged dg root v bytes True (synced m (tmp_path root (dg bytes)))"
  using view_tmp(3) [OF _ tmp_path_not_object]
  by (fastforce simp: staged_def synced_def bt_get_insert split: option.splits)

lemma staged_renamed:
  assumes "staged dg root v bytes True m"
  shows "placing dg root v bytes (renamed m (tmp_path root (dg bytes)) (snd (object_path root (dg bytes))))"
proof -
  obtain f where f: "bt_get m (tmp_path root (dg bytes)) = Some f" "live f = bytes" "durable f = bytes"
    and v: "holds_view dg root v m" using assms by (auto simp: staged_def)
  show ?thesis unfolding placing_def
    by (rule exI [of _ "bt_remove (tmp_path root (dg bytes)) m"], rule exI [of _ "f\<lparr>durable_entry := False\<rparr>"])
      (simp add: renamed_def f view_remove [OF v tmp_path_not_object])
qed

lemma triple_cas_put:
  "triple (on pl (holds_view dg root v)) (cas_put dg \<lparr>cas_dir = root\<rparr> bytes)
     (\<lambda>h d. h = dg bytes \<and> on pl (holds_view dg root (with_object dg v bytes)) d)
     (lost pl (holds_view dg root v))"
proof -
  let ?h = "dg bytes" and ?J = "lost pl (holds_view dg root v)"
  obtain shard p where path: "object_path root ?h = (shard, p)" by (cases "object_path root ?h")
  define tmp where "tmp = tmp_path root ?h"
  have key: "holds_view dg root v m \<Longrightarrow> bt_get m p = None \<longleftrightarrow> v ?h = None" for m
    using view_none [of dg root v m ?h] path by simp
  have no_tmp: "\<not> is_object root tmp" by (simp add: tmp_def tmp_path_not_object)
  show ?thesis
  proof (cases "v ?h = None")
    case True
    let ?I = "\<lambda>m. holds_view dg root v m \<and> bt_get m p = None"
    let ?empty = "\<lambda>m. holds_view dg root v m \<and> (bt_get m tmp = None \<or> (\<exists>f. bt_get m tmp = Some f \<and> live f = []))"
    have mkdir: "triple (on pl ?I) (io ''create cas shard'' shard (vfs_create_dir_all shard)) (\<lambda>_. on pl ?I) ?J"
      by (rule triple_create_dir) (simp add: view_cut)
    have trunc: "triple (on pl (\<lambda>m. ?I m \<and> bt_get m tmp \<noteq> None)) (io ''reset cas tmp'' tmp (vfs_truncate tmp 0))
        (\<lambda>_. on pl ?empty) ?J"
    proof (rule triple_truncate)
      fix m assume m: "?I m \<and> bt_get m tmp \<noteq> None"
      then have "holds_view dg root v (shortened m tmp 0)" using view_tmp(2) [OF _ no_tmp] by blast
      moreover have "\<exists>f. bt_get (shortened m tmp 0) tmp = Some f \<and> live f = []"
        using m by (auto simp: shortened_def bt_get_insert)
      ultimately show "bt_get m tmp \<noteq> None \<and> ?empty (shortened m tmp 0) \<and>
          holds_view dg root v (cut_files (torn pl) (shortened m tmp 0))"
        using m view_cut by blast
    qed
    have fresh: "triple (on pl (\<lambda>m. ?I m \<and> bt_get m tmp = None)) (ret ()) (\<lambda>_. on pl ?empty) ?J"
      by (rule triple_ret) (auto simp: on_def)
    have reset: "triple (on pl ?I)
        (\<lambda>d. if vfs_exists tmp d then io ''reset cas tmp'' tmp (vfs_truncate tmp 0) d else ret () d) (\<lambda>_. on pl ?empty) ?J"
      by (rule triple_exists [OF trunc fresh])
    have append: "triple (on pl ?empty) (io ''write cas tmp'' tmp (vfs_append tmp bytes))
        (\<lambda>_. on pl (staged dg root v bytes False)) ?J"
      by (rule triple_append)
        (use staged_grown view_tmp(1) [OF _ no_tmp] view_cut in \<open>auto simp: tmp_def\<close>)
    have sync: "triple (on pl (staged dg root v bytes False)) (io ''sync cas tmp'' tmp (vfs_sync_data tmp))
        (\<lambda>_. on pl (staged dg root v bytes True)) ?J"
      by (rule triple_sync_data)
        (use staged_synced in \<open>fastforce simp: tmp_def staged_def view_cut\<close>)
    have rename: "triple (on pl (staged dg root v bytes True)) (io ''rename cas object'' p (vfs_rename tmp p))
        (\<lambda>_. on pl (placing dg root v bytes)) ?J"
    proof (rule triple_rename)
      fix m assume s: "staged dg root v bytes True m"
      then have "placing dg root v bytes (renamed m tmp p)" using staged_renamed path by (fastforce simp: tmp_def)
      moreover from this have "holds_view dg root v (cut_files (torn pl) (renamed m tmp p))"
        using True by (rule placing_cut)
      moreover have "bt_get m tmp \<noteq> None" using s by (auto simp: staged_def tmp_def)
      ultimately show "bt_get m tmp \<noteq> None \<and> placing dg root v bytes (renamed m tmp p) \<and>
          holds_view dg root v (cut_files (torn pl) (renamed m tmp p))" by simp
    qed
    have entry: "triple (on pl (placing dg root v bytes)) (io ''sync cas shard'' shard (vfs_sync_dir shard))
        (\<lambda>_. on pl (holds_view dg root (with_object dg v bytes))) ?J"
      by (rule triple_sync_dir) (use placing_entered placing_cut True path in fastforce)
    have answer: "triple (on pl (holds_view dg root (with_object dg v bytes))) (ret ?h)
        (\<lambda>h d. h = ?h \<and> on pl (holds_view dg root (with_object dg v bytes)) d) ?J"
      by (rule triple_ret) simp
    have known: "triple (on pl (\<lambda>m. holds_view dg root v m \<and> bt_get m p \<noteq> None)) c Q E" for c Q E
      using key True by (auto simp: triple_def on_def)
    show ?thesis
      unfolding cas_put_def Let_def cas_store.select_convs path prod.case tmp_def [symmetric]
      by (rule triple_exists [OF known], rule triple_then [OF mkdir], rule triple_then [OF reset],
          rule triple_then [OF append], rule triple_then [OF sync], rule triple_then [OF rename],
          rule triple_then [OF entry], rule answer)
  next
    case False
    have known: "triple (on pl (\<lambda>m. holds_view dg root v m \<and> bt_get m p \<noteq> None)) (ret ?h)
        (\<lambda>h d. h = ?h \<and> on pl (holds_view dg root (with_object dg v bytes)) d) ?J"
      using False by (intro triple_ret) (auto simp: on_def with_object_def)
    have fresh: "triple (on pl (\<lambda>m. holds_view dg root v m \<and> bt_get m p = None)) c Q E" for c Q E
      by (simp add: triple_def on_def key False cong: conj_cong)
    show ?thesis
      unfolding cas_put_def Let_def cas_store.select_convs path prod.case tmp_def [symmetric]
      by (rule triple_exists [OF known fresh])
  qed
qed

section \<open>Reading\<close>

text \<open>A sound store never calls an object corrupt.\<close>

lemma cas_get_sound:
  assumes "holds_view dg root v (files d)"
  shows "case cas_get dg \<lparr>cas_dir = root\<rparr> hash d of
      (Inr bytes, d') \<Rightarrow> v hash = Some bytes \<and> files d' = files d \<and> plan d' = plan d
    | (Inl e, d') \<Rightarrow> e = CasMissing (b3_str hash) \<and> v hash = None \<and> d' = d \<or>
        \<not> quiet (plan d) \<and> holds_view dg root v (files d')"
proof (cases "v hash")
  case None
  then have "\<not> vfs_exists (snd (object_path root hash)) d"
    using view_none [OF assms] by (simp add: vfs_exists_def)
  then show ?thesis using None by (simp add: cas_get_def Let_def fail_with_def)
next
  case (Some bytes)
  then obtain f where f: "bt_get (files d) (snd (object_path root hash)) = Some f" "live f = bytes" "dg bytes = hash"
    using view_some [OF assms] by blast
  show ?thesis
    by (cases rule: charge_cases [of "''read''" d])
      (use f Some assms in \<open>auto simp: cas_get_def Let_def vfs_exists_def and_then_def io_def vfs_read_def ret_def view_cut\<close>)
qed

text \<open>A range is answered whole or refused; the last line's terminator is not part of a range.\<close>

lemma cut_bytes:
  assumes "unat lo \<le> unat hi"
  shows "cut_range hash bytes (Bytes lo hi) =
    (if unat hi < length bytes \<and> unat hi < u64_max then Inr (take (Suc (unat hi) - unat lo) (drop (unat lo) bytes))
     else Inl (RangeOutOfBounds (b3_str hash)))"
proof (cases "checked_add hi 1")
  case None
  then have "\<not> unat hi < u64_max" by (simp add: checked_add_None_iff u64_max_def)
  then show ?thesis using None by (simp add: cut_range_def)
next
  case (Some e)
  then have e: "unat e = Suc (unat hi)" by (simp add: checked_add_Some_iff)
  then have "unat hi < u64_max" using Some by (simp add: checked_add_def u64_max_def split: if_splits)
  with e show ?thesis using Some assms by (auto simp: cut_range_def slice_def)
qed

definition whole_lines :: "string \<Rightarrow> string list" where
  "whole_lines text = (let ls = split_on lf text in if last ls = [] then butlast ls else ls)"

lemma cut_lines:
  assumes "0 < lo" "unat lo \<le> unat hi"
  shows "cut_range hash bytes (Lines lo hi) =
    (if unat hi \<le> length (whole_lines bytes)
     then Inr (join_with [lf] (take (Suc (unat hi) - unat lo) (drop (unat lo - 1) (whole_lines bytes))))
     else Inl (RangeOutOfBounds (b3_str hash)))"
proof -
  have "lo \<noteq> 0" "0 < unat lo" using assms(1) by (auto simp: word_less_nat_alt)
  moreover have "Suc n - k = n - (k - 1)" if "0 < k" for n k :: nat using that by simp
  ultimately show ?thesis using assms(2)
    by (auto simp: cut_range_def Let_def slice_def whole_lines_def butlast_conv_take drop_take min_absorb1)
qed

section \<open>Lives of a store\<close>

text \<open>
  One life of the process: the store is opened under a plan, objects are put until one fails
  or none is left, and power may go while it is idle.
\<close>

record cas_life =
  life_plan :: fault_plan
  life_puts :: "string list"
  life_cut :: bool

fun put_each :: "hasher \<Rightarrow> cas_store \<Rightarrow> string list \<Rightarrow> disk \<Rightarrow> string list \<times> disk" where
  "put_each dg c [] d = ([], d)"
| "put_each dg c (b # bs) d =
     (case cas_put dg c b d of
        (Inl e, d1) \<Rightarrow> ([], d1)
      | (Inr h, d1) \<Rightarrow> (case put_each dg c bs d1 of (acks, d2) \<Rightarrow> (b # acks, d2)))"

definition live_once :: "hasher \<Rightarrow> path \<Rightarrow> cas_life \<Rightarrow> disk \<Rightarrow> string list \<times> disk" where
  "live_once dg root l d =
     (case (case cas_open root (d\<lparr>plan := life_plan l\<rparr>) of
              (Inl e, d1) \<Rightarrow> ([], d1)
            | (Inr c, d1) \<Rightarrow> put_each dg c (life_puts l) d1) of
        (acks, d2) \<Rightarrow> (acks, if life_cut l then cut d2 else d2))"

fun live_all :: "hasher \<Rightarrow> path \<Rightarrow> cas_life list \<Rightarrow> disk \<Rightarrow> string list \<times> disk" where
  "live_all dg root [] d = ([], d)"
| "live_all dg root (l # ls) d =
     (case live_once dg root l d of (acks, d1) \<Rightarrow>
        (case live_all dg root ls d1 of (more_acks, d2) \<Rightarrow> (acks @ more_acks, d2)))"

definition with_objects :: "hasher \<Rightarrow> string list \<Rightarrow> (b3_hash \<Rightarrow> string option) \<Rightarrow> b3_hash \<Rightarrow> string option" where
  "with_objects dg bs v = fold (\<lambda>b v. with_object dg v b) bs v"

lemma cas_put_step:
  assumes "holds_view dg root v (files d)"
  shows "case cas_put dg \<lparr>cas_dir = root\<rparr> b d of
      (Inr h, d') \<Rightarrow> h = dg b \<and> holds_view dg root (with_object dg v b) (files d') \<and> plan d' = plan d
    | (Inl e, d') \<Rightarrow> \<not> quiet (plan d) \<and> holds_view dg root v (files d')"
  using tripleD [OF triple_cas_put [of "plan d" dg root v b], of d] assms
  by (auto simp: on_def lost_def split: prod.split sum.split)

lemma cas_open_step:
  assumes "holds_view dg root v (files d)"
  shows "case cas_open root d of
      (Inr c, d') \<Rightarrow> c = \<lparr>cas_dir = root\<rparr> \<and> holds_view dg root v (files d') \<and> plan d' = plan d \<and>
        (\<forall>p. parent p = Some (cas_tmp_dir root) \<longrightarrow> \<not> vfs_exists p d')
    | (Inl e, d') \<Rightarrow> \<not> quiet (plan d) \<and> holds_view dg root v (files d')"
  using tripleD [OF triple_cas_open [of "plan d" dg root v], of d] assms
  by (auto simp: on_def lost_def vfs_exists_def split: prod.split sum.split)

lemma put_each_kept:
  "holds_view dg root v (files d) \<Longrightarrow> put_each dg \<lparr>cas_dir = root\<rparr> bs d = (acks, d') \<Longrightarrow>
   prefix acks bs \<and> holds_view dg root (with_objects dg acks v) (files d')"
proof (induction bs arbitrary: v d acks)
  case Nil
  then show ?case by (simp add: with_objects_def)
next
  case (Cons b bs)
  show ?case using cas_put_step [OF Cons.prems(1), of b] Cons.prems(2) Cons.IH
    by (fastforce simp: with_objects_def split: prod.splits sum.splits)
qed

text \<open>While the power lasts, every put is acknowledged.\<close>

lemma put_each_quiet:
  "holds_view dg root v (files d) \<Longrightarrow> quiet (plan d) \<Longrightarrow> fst (put_each dg \<lparr>cas_dir = root\<rparr> bs d) = bs"
proof (induction bs arbitrary: v d)
  case (Cons b bs)
  show ?case using cas_put_step [OF Cons.prems(1), of b] Cons.prems(2) Cons.IH
    by (fastforce split: prod.splits sum.splits)
qed simp

lemma live_once_quiet:
  assumes "holds_view dg root v (files d)" "quiet (life_plan l)"
  shows "fst (live_once dg root l d) = life_puts l"
proof -
  obtain r d1 where o: "cas_open root (d\<lparr>plan := life_plan l\<rparr>) = (r, d1)"
    by (cases "cas_open root (d\<lparr>plan := life_plan l\<rparr>)")
  have "r = Inr \<lparr>cas_dir = root\<rparr> \<and> holds_view dg root v (files d1) \<and> quiet (plan d1)"
    using cas_open_step [of dg root v "d\<lparr>plan := life_plan l\<rparr>"] assms o by (cases r) auto
  then show ?thesis using put_each_quiet [of dg root v d1 "life_puts l"] o
    by (auto simp: live_once_def split: prod.splits)
qed

lemma live_once_kept:
  assumes "holds_view dg root v (files d)" "live_once dg root l d = (acks, d')"
  shows "holds_view dg root (with_objects dg acks v) (files d')"
proof -
  obtain r d1 where o: "cas_open root (d\<lparr>plan := life_plan l\<rparr>) = (r, d1)"
    by (cases "cas_open root (d\<lparr>plan := life_plan l\<rparr>)")
  have step: "case cas_open root (d\<lparr>plan := life_plan l\<rparr>) of
      (Inr c, d') \<Rightarrow> c = \<lparr>cas_dir = root\<rparr> \<and> holds_view dg root v (files d') \<and> plan d' = life_plan l \<and>
        (\<forall>p. parent p = Some (cas_tmp_dir root) \<longrightarrow> \<not> vfs_exists p d')
    | (Inl e, d') \<Rightarrow> \<not> quiet (life_plan l) \<and> holds_view dg root v (files d')"
    using cas_open_step [of dg root v "d\<lparr>plan := life_plan l\<rparr>"] assms(1) by (simp cong: sum.case_cong prod.case_cong)
  show ?thesis
  proof (cases r)
    case (Inl e)
    then show ?thesis using step assms(2)
      by (auto simp: o live_once_def with_objects_def view_cut split: if_splits)
  next
    case (Inr c)
    then have c: "c = \<lparr>cas_dir = root\<rparr>" "holds_view dg root v (files d1)" using step o by auto
    obtain a d2 where p: "put_each dg c (life_puts l) d1 = (a, d2)" by (cases "put_each dg c (life_puts l) d1")
    then show ?thesis using put_each_kept [OF c(2)] c(1) assms(2) Inr
      by (auto simp: o p live_once_def view_cut split: if_splits)
  qed
qed

lemma live_all_kept:
  "holds_view dg root v (files d) \<Longrightarrow> live_all dg root ls d = (acks, d') \<Longrightarrow>
   holds_view dg root (with_objects dg acks v) (files d')"
proof (induction ls arbitrary: v d acks d')
  case Nil
  then show ?case by (simp add: with_objects_def)
next
  case (Cons l ls)
  obtain a d1 where once: "live_once dg root l d = (a, d1)" by (cases "live_once dg root l d")
  obtain b d2 where rest: "live_all dg root ls d1 = (b, d2)" by (cases "live_all dg root ls d1")
  have "holds_view dg root (with_objects dg b (with_objects dg a v)) (files d2)"
    using Cons.IH [OF live_once_kept [OF Cons.prems(1) once] rest] .
  then show ?case using Cons.prems(2) by (simp add: once rest with_objects_def) (metis fold_append comp_apply)
qed

text \<open>The map holds, under each hash, the first acknowledged content that has it.\<close>

lemma with_objects_find:
  "with_objects dg bs v h = (case v h of None \<Rightarrow> List.find (\<lambda>b. dg b = h) bs | Some x \<Rightarrow> Some x)"
proof (induction bs arbitrary: v)
  case (Cons b bs)
  have "with_objects dg (b # bs) v h = with_objects dg bs (with_object dg v b) h" by (simp add: with_objects_def)
  then show ?case using Cons.IH by (auto simp: with_object_def split: option.splits)
qed (simp add: with_objects_def split: option.splits)

lemma store_after_lives:
  assumes "files d = []" "live_all dg root ls d = (acks, d')"
  shows "holds_view dg root (\<lambda>h. List.find (\<lambda>b. dg b = h) acks) (files d')"
proof -
  have "holds_view dg root Map.empty (files d)"
    using assms(1) by (auto simp: holds_view_def cas_sound_def cas_view_def bt_get_def)
  from live_all_kept [OF this assms(2)] show ?thesis
    by (simp add: with_objects_find [abs_def] cong: option.case_cong)
qed

lemma cas_get_quiet:
  assumes "holds_view dg root v (files d)" "quiet (plan d)"
  shows "fst (cas_get dg \<lparr>cas_dir = root\<rparr> h d) =
    (case v h of None \<Rightarrow> Inl (CasMissing (b3_str h)) | Some bytes \<Rightarrow> Inr bytes)"
  using cas_get_sound [OF assms(1), of h] assms(2) by (auto split: prod.splits sum.splits)

text \<open>
  A process killed between the renaming and the entry of the name leaves an object that a
  later put takes for durable: it answers success and a power loss then takes the object.
\<close>

lemma unentered_object_is_trusted:
  assumes "placing dg root v bytes (files d)"
  shows "cas_put dg \<lparr>cas_dir = root\<rparr> bytes d = (Inr (dg bytes), d) \<and>
    \<not> cas_contains \<lparr>cas_dir = root\<rparr> (dg bytes) (cut d)"
proof -
  let ?p = "snd (object_path root (dg bytes))"
  obtain m0 f where m: "holds_view dg root v m0" "\<not> durable_entry f" "files d = bt_insert ?p f m0"
    using assms by (auto simp: placing_def)
  have get: "bt_get (files d) ?p = Some f" "bt_ok (files d)"
    using m view_ok [OF m(1)] by (simp_all add: bt_get_insert bt_ok_insert)
  then have "bt_get (cut_files (torn (plan d)) (files d)) ?p = None" using m(2) by (simp add: cut_files_get)
  then show ?thesis using get
    by (simp add: cas_put_def Let_def case_prod_beta vfs_exists_def ret_def cas_contains_def)
qed

end
