(* ===== verification/Hot_Views.thy ===== *)
theory Hot_Views
  imports Events Ordered_Maps
begin

text \<open>
  The hot view of the runs (\<open>crates/memory/src/hot.rs\<close>): a fold over the ledger's records in
  which sequence numbers only move forward, so that replaying from any point is harmless.
\<close>

section \<open>The view\<close>

datatype (plugins only: code size) run_phase = RunActive | RunSettled

record run_hot =
  hot_phase :: run_phase
  hot_last_seq :: seq
  hot_last_kind :: event_kind
  hot_who :: string

type_synonym hot_view = "(run_id, run_hot) btree"

definition hot_apply :: "event_record \<Rightarrow> hot_view \<Rightarrow> hot_view" where
  "hot_apply record v =
     (let run = r_run record; s = r_seq record; kind = r_kind record in
      if run = run_city then v
      else (case bt_get v run of
              Some hot \<Rightarrow>
                if s \<le> hot_last_seq hot then v
                else (let hot = hot\<lparr>hot_last_seq := s, hot_last_kind := kind\<rparr>;
                          hot = (if kind = RunFrozen then hot\<lparr>hot_phase := RunSettled\<rparr> else hot)
                      in bt_insert run hot v)
            | None \<Rightarrow>
                bt_insert run
                  \<lparr>hot_phase = (if kind = RunFrozen then RunSettled else RunActive), hot_last_seq = s,
                   hot_last_kind = kind, hot_who = r_who record\<rparr> v))"

definition hot_runs :: "hot_view \<Rightarrow> (run_id \<times> run_hot) list" where
  "hot_runs v = v"

definition hot_get :: "hot_view \<Rightarrow> run_id \<Rightarrow> run_hot option" where
  "hot_get v run = bt_get v run"

definition count_phase :: "run_phase \<Rightarrow> hot_view \<Rightarrow> u64" where
  "count_phase phase v =
     (let n = length (filter (\<lambda>h. hot_phase h = phase) (bt_values v))
      in if n \<le> u64_max then of_nat n else - 1)"

definition active_count :: "hot_view \<Rightarrow> u64" where
  "active_count = count_phase RunActive"

definition frozen_count :: "hot_view \<Rightarrow> u64" where
  "frozen_count = count_phase RunSettled"

definition hot_feed :: "event_record list \<Rightarrow> hot_view \<Rightarrow> hot_view" where
  "hot_feed rs v = fold hot_apply rs v"

section \<open>The view of one run\<close>

lemma hot_feed_Nil [simp]: "hot_feed [] v = v"
  and hot_feed_Cons [simp]: "hot_feed (r # rs) v = hot_feed rs (hot_apply r v)"
  and hot_feed_append: "hot_feed (rs @ rs') v = hot_feed rs' (hot_feed rs v)"
  by (simp_all add: hot_feed_def)

lemma hot_apply_ok: "bt_ok v \<Longrightarrow> bt_ok (hot_apply r v)"
  by (simp add: hot_apply_def Let_def bt_ok_insert split: option.split)

lemma hot_feed_ok: "bt_ok v \<Longrightarrow> bt_ok (hot_feed rs v)"
  by (induction rs arbitrary: v) (simp_all add: hot_apply_ok)

text \<open>What a run's records, oldest first, make of it.\<close>

definition run_summary :: "event_record list \<Rightarrow> run_hot option" where
  "run_summary rs =
     (if rs = [] then None
      else Some \<lparr>hot_phase = (if list_ex (\<lambda>r. r_kind r = RunFrozen) rs then RunSettled else RunActive),
                 hot_last_seq = r_seq (last rs), hot_last_kind = r_kind (last rs), hot_who = r_who (hd rs)\<rparr>)"

definition records_of_run :: "run_id \<Rightarrow> event_record list \<Rightarrow> event_record list" where
  "records_of_run run rs = (if run = run_city then [] else filter (\<lambda>r. r_run r = run) rs)"

lemma hot_apply_get:
  assumes "bt_get v (r_run r) = run_summary before" "\<forall>r' \<in> set before. r_seq r' < r_seq r"
  shows "bt_get (hot_apply r v) run =
    (if run = r_run r \<and> run \<noteq> run_city then run_summary (before @ [r]) else bt_get v run)"
proof (cases "before = []")
  case True
  then show ?thesis using assms(1) by (auto simp: hot_apply_def Let_def run_summary_def bt_get_insert)
next
  case False
  then have "\<not> r_seq r \<le> r_seq (last before)" using assms(2) last_in_set by fastforce
  then show ?thesis using False assms(1)
    by (auto simp: hot_apply_def Let_def run_summary_def bt_get_insert)
qed

lemma hot_feed_get:
  assumes "sorted_wrt (<) (map r_seq rs)"
  shows "hot_get (hot_feed rs []) run = run_summary (records_of_run run rs)"
  using assms
proof (induction rs arbitrary: run rule: rev_induct)
  case Nil
  then show ?case by (simp add: hot_get_def bt_get_def records_of_run_def run_summary_def)
next
  case (snoc r rs)
  have before: "sorted_wrt (<) (map r_seq rs)" "\<forall>r' \<in> set rs. r_seq r' < r_seq r"
    using snoc.prems by (auto simp: sorted_wrt_append)
  have get: "bt_get (hot_feed rs []) run = run_summary (records_of_run run rs)" for run
    using snoc.IH [OF before(1)] by (simp add: hot_get_def)
  have "bt_get (hot_apply r (hot_feed rs [])) run =
      (if run = r_run r \<and> run \<noteq> run_city then run_summary (records_of_run (r_run r) rs @ [r])
       else bt_get (hot_feed rs []) run)"
    by (rule hot_apply_get [OF get]) (use before(2) in \<open>auto simp: records_of_run_def\<close>)
  then show ?case using get by (auto simp: hot_get_def hot_feed_append records_of_run_def)
qed

section \<open>Replaying\<close>

lemma hot_apply_known:
  assumes "r_run r \<noteq> run_city \<longrightarrow> (\<exists>h. bt_get v (r_run r) = Some h \<and> r_seq r \<le> hot_last_seq h)"
  shows "hot_apply r v = v"
  using assms by (auto simp: hot_apply_def Let_def)

lemma hot_feed_known:
  assumes "\<forall>r \<in> set rs. r_run r \<noteq> run_city \<longrightarrow> (\<exists>h. bt_get v (r_run r) = Some h \<and> r_seq r \<le> hot_last_seq h)"
  shows "hot_feed rs v = v"
  using assms by (induction rs) (simp_all add: hot_apply_known)

lemma hot_feed_again:
  assumes "sorted_wrt (<) (map r_seq rs)" "set rs' \<subseteq> set rs"
  shows "hot_feed rs' (hot_feed rs []) = hot_feed rs []"
proof (intro hot_feed_known ballI impI)
  fix r assume r: "r \<in> set rs'" "r_run r \<noteq> run_city"
  let ?mine = "records_of_run (r_run r) rs"
  have mine: "r \<in> set ?mine" using r assms(2) by (auto simp: records_of_run_def)
  have "sorted_wrt (<) (map r_seq ?mine)"
    using assms(1) by (simp add: records_of_run_def sorted_wrt_map sorted_wrt_filter)
  then have "sorted (map r_seq ?mine)" by (simp add: strict_sorted_iff)
  then have "r_seq r \<le> r_seq (last ?mine)"
    using mine by (cases ?mine rule: rev_cases) (auto simp: sorted_append)
  then show "\<exists>h. bt_get (hot_feed rs []) (r_run r) = Some h \<and> r_seq r \<le> hot_last_seq h"
    using hot_feed_get [OF assms(1), of "r_run r"] mine by (auto simp: hot_get_def run_summary_def)
qed

text \<open>Nothing is lost or doubled by replaying from any point at or before where the view stands.\<close>

lemma hot_replay:
  assumes "sorted_wrt (<) (map r_seq rs)" "k \<le> n"
  shows "hot_feed (drop k rs) (hot_feed (take n rs) []) = hot_feed rs []"
proof -
  have split: "drop k rs = take (n - k) (drop k rs) @ drop n rs"
    using assms(2) by (metis append_take_drop_id drop_drop le_add_diff_inverse2)
  have "sorted_wrt (<) (map r_seq (take n rs))"
    using assms(1) by (metis sorted_wrt_take take_map)
  moreover have "set (take (n - k) (drop k rs)) \<subseteq> set (take n rs)"
    using assms(2) by (metis drop_take set_drop_subset)
  ultimately have "hot_feed (take (n - k) (drop k rs)) (hot_feed (take n rs) []) = hot_feed (take n rs) []"
    by (rule hot_feed_again)
  then have "hot_feed (drop k rs) (hot_feed (take n rs) []) = hot_feed (drop n rs) (hot_feed (take n rs) [])"
    by (subst split) (simp only: hot_feed_append)
  also have "\<dots> = hot_feed rs []" by (simp only: hot_feed_append [symmetric] append_take_drop_id)
  finally show ?thesis .
qed

text \<open>A settled run stays settled.\<close>

lemma hot_settled: "bt_get v run = Some h \<Longrightarrow> hot_phase h = RunSettled \<Longrightarrow>
  \<exists>h'. bt_get (hot_apply r v) run = Some h' \<and> hot_phase h' = RunSettled"
  by (auto simp: hot_apply_def Let_def bt_get_insert split: option.split)

end
