(* ===== verification/Provider_Admissions.thy ===== *)
theory Provider_Admissions
  imports Events
begin

text \<open>
  Admission of calls to one provider (\<open>crates/gateway/src/admission.rs\<close>): a concurrency cap
  and a least interval between launches that doubles when the provider pushes back.
\<close>

section \<open>State\<close>

definition admission_max_in_flight :: u32 where
  "admission_max_in_flight = 4"

definition admission_min_interval_ms :: u64 where
  "admission_min_interval_ms = 250"

definition admission_max_interval_ms :: u64 where
  "admission_max_interval_ms = 60000"

definition admission_ok_streak :: u32 where
  "admission_ok_streak = 8"

record admission_state =
  in_flight :: u32
  interval_ms :: u64
  consecutive_ok :: u32
  next_allowed_at :: time_ms

definition admission_new :: admission_state where
  "admission_new =
     \<lparr>in_flight = 0, interval_ms = admission_min_interval_ms, consecutive_ok = 0, next_allowed_at = 0\<rparr>"

datatype admission_verdict = AdmitCall | HoldUntil time_ms

datatype provider_outcome = OutcomeOk | RateLimited "u64 option" | OutcomeFailed

definition admit_call :: "admission_state \<Rightarrow> time_ms \<Rightarrow> admission_verdict" where
  "admit_call a now =
     (if admission_max_in_flight \<le> in_flight a \<or> now < next_allowed_at a
      then HoldUntil (next_allowed_at a) else AdmitCall)"

definition on_dispatch :: "time_ms \<Rightarrow> admission_state \<Rightarrow> (ax_error, unit) result \<times> admission_state" where
  "on_dispatch now a =
     (case admit_call a now of
        HoldUntil t \<Rightarrow>
          (Inl (with_recovery ''wait for the interval or an in-flight slot''
             (failure BudgetExhausted ''dispatch provider call'' (''admission holds until '' @ dec_of (unat t)))), a)
      | AdmitCall \<Rightarrow>
          (Inr (), a\<lparr>in_flight := saturating_add (in_flight a) 1,
                     next_allowed_at := saturating_add now (interval_ms a)\<rparr>))"

definition on_outcome :: "provider_outcome \<Rightarrow> time_ms \<Rightarrow> admission_state \<Rightarrow> admission_state" where
  "on_outcome oc now a0 =
     (let a = a0\<lparr>in_flight := saturating_sub (in_flight a0) 1\<rparr> in
      case oc of
        OutcomeOk \<Rightarrow>
          (let a = a\<lparr>consecutive_ok := saturating_add (consecutive_ok a) 1\<rparr> in
           if admission_ok_streak \<le> consecutive_ok a
           then a\<lparr>consecutive_ok := 0, interval_ms := max (interval_ms a div 2) admission_min_interval_ms\<rparr>
           else a)
      | RateLimited retry_after \<Rightarrow>
          (let doubled = min (saturating_mul (interval_ms a) 2) admission_max_interval_ms;
               interval = max doubled (case retry_after of None \<Rightarrow> 0 | Some r \<Rightarrow> r)
           in a\<lparr>consecutive_ok := 0, interval_ms := interval, next_allowed_at := saturating_add now interval\<rparr>)
      | OutcomeFailed \<Rightarrow> a\<lparr>consecutive_ok := 0\<rparr>)"

section \<open>The cap and the interval\<close>

text \<open>\<open>since\<close> is when the last call was launched: nothing may launch within the least interval.\<close>

definition admission_ok :: "nat option \<Rightarrow> admission_state \<Rightarrow> bool" where
  "admission_ok since a \<longleftrightarrow> in_flight a \<le> admission_max_in_flight \<and> admission_min_interval_ms \<le> interval_ms a \<and>
     consecutive_ok a < admission_ok_streak \<and>
     (\<forall>t. since = Some t \<longrightarrow> min (t + 250) u64_max \<le> unat (next_allowed_at a))"

lemma admission_new_ok: "admission_ok None admission_new"
  by (simp add: admission_ok_def admission_new_def admission_max_in_flight_def admission_min_interval_ms_def
      admission_ok_streak_def)

lemma spaced_next:
  assumes "admission_min_interval_ms \<le> i" "s \<le> unat now"
  shows "min (s + 250) u64_max \<le> unat (saturating_add now i)"
proof -
  have "250 \<le> unat i" using assms(1) by (simp add: admission_min_interval_ms_def word_le_nat_alt)
  then show ?thesis using assms(2) by (simp add: unat_saturating_add u64_max_def)
qed

lemma saturating_add_mono_one: "a < n \<Longrightarrow> saturating_add a 1 \<le> n" for a n :: u32
  by (simp add: word_less_nat_alt word_le_nat_alt unat_saturating_add)

lemma on_dispatch_ok:
  assumes "admission_ok since a" "on_dispatch now a = (Inr (), a')"
  shows "admission_ok (Some (unat now)) a'" "\<forall>t. since = Some t \<longrightarrow> min (t + 250) u64_max \<le> unat now"
    "in_flight a < admission_max_in_flight"
proof -
  have admitted: "in_flight a < admission_max_in_flight" "next_allowed_at a \<le> now"
    and a': "a' = a\<lparr>in_flight := saturating_add (in_flight a) 1, next_allowed_at := saturating_add now (interval_ms a)\<rparr>"
    using assms(2) by (auto simp: on_dispatch_def admit_call_def split: admission_verdict.splits if_splits)
  then show "admission_ok (Some (unat now)) a'"
    using assms(1) spaced_next [of "interval_ms a" "unat now" now]
    by (simp add: admission_ok_def saturating_add_mono_one)
  show "\<forall>t. since = Some t \<longrightarrow> min (t + 250) u64_max \<le> unat now" "in_flight a < admission_max_in_flight"
    using assms(1) admitted by (auto simp: admission_ok_def word_le_nat_alt)
qed

lemma on_dispatch_refused: "on_dispatch now a = (Inl e, a') \<Longrightarrow> a' = a"
  by (auto simp: on_dispatch_def split: admission_verdict.splits)

lemma doubled_floor: "admission_min_interval_ms \<le> i \<Longrightarrow>
  admission_min_interval_ms \<le> max (min (saturating_mul i 2) admission_max_interval_ms) r"
  by (rule max.coboundedI1)
    (simp add: admission_min_interval_ms_def admission_max_interval_ms_def word_le_nat_alt unat_saturating_mul min_def)

lemma on_outcome_ok:
  assumes "admission_ok since a" "\<forall>t. since = Some t \<longrightarrow> t \<le> unat now"
  shows "admission_ok since (on_outcome oc now a)"
proof -
  have less: "saturating_sub (in_flight a) 1 \<le> admission_max_in_flight"
    using assms(1) by (auto simp: admission_ok_def word_le_nat_alt unat_saturating_sub intro: le_trans [OF diff_le_self])
  show ?thesis
  proof (cases oc)
    case OutcomeOk
    then show ?thesis using assms(1) less
      by (auto simp: on_outcome_def Let_def admission_ok_def admission_ok_streak_def)
  next
    case (RateLimited r)
    let ?i = "max (min (saturating_mul (interval_ms a) 2) admission_max_interval_ms) (case r of None \<Rightarrow> 0 | Some r \<Rightarrow> r)"
    have "admission_min_interval_ms \<le> ?i" using assms(1) by (intro doubled_floor) (simp add: admission_ok_def)
    then show ?thesis using assms less spaced_next [of ?i _ now] RateLimited
      by (simp add: on_outcome_def Let_def admission_ok_def admission_ok_streak_def)
  next
    case OutcomeFailed
    then show ?thesis using assms(1) less
      by (simp add: on_outcome_def Let_def admission_ok_def admission_ok_streak_def)
  qed
qed

section \<open>A stream of attempts and outcomes\<close>

datatype admission_op = Launch time_ms | Settled provider_outcome time_ms

fun op_time :: "admission_op \<Rightarrow> time_ms" where
  "op_time (Launch t) = t"
| "op_time (Settled _ t) = t"

fun launches :: "admission_op list \<Rightarrow> admission_state \<Rightarrow> time_ms list" where
  "launches [] a = []"
| "launches (Launch t # ops) a =
     (case on_dispatch t a of (Inr _, a') \<Rightarrow> t # launches ops a' | (Inl _, a') \<Rightarrow> launches ops a')"
| "launches (Settled oc t # ops) a = launches ops (on_outcome oc t a)"

definition spaced :: "time_ms list \<Rightarrow> bool" where
  "spaced ts \<longleftrightarrow> sorted_wrt (\<lambda>s t. min (unat s + 250) u64_max \<le> unat t) ts"

lemma launches_after:
  assumes "admission_ok since a" "sorted (map op_time ops)" "\<forall>op \<in> set ops. \<forall>t. since = Some t \<longrightarrow> t \<le> unat (op_time op)"
  shows "spaced (launches ops a) \<and> (\<forall>s \<in> set (launches ops a). \<forall>t. since = Some t \<longrightarrow> min (t + 250) u64_max \<le> unat s)"
  using assms
proof (induction ops a arbitrary: since rule: launches.induct)
  case (1 a)
  then show ?case by (simp add: spaced_def)
next
  case (2 t ops a)
  obtain r a' where d: "on_dispatch t a = (r, a')" by (cases "on_dispatch t a")
  show ?case
  proof (cases r)
    case (Inl e)
    then show ?thesis using "2.IH"(1) [OF d [symmetric] Inl, of since] "2.prems" on_dispatch_refused [of t a e a'] d by simp
  next
    case (Inr u)
    then have ok: "admission_ok (Some (unat t)) a'" "\<forall>s. since = Some s \<longrightarrow> min (s + 250) u64_max \<le> unat t"
      using on_dispatch_ok [OF "2.prems"(1), of t a'] d by auto
    have later: "\<forall>op \<in> set ops. t \<le> op_time op" using "2.prems"(2) by simp
    have rest: "spaced (launches ops a') \<and> (\<forall>s \<in> set (launches ops a'). min (unat t + 250) u64_max \<le> unat s)"
      using "2.IH"(2) [OF d [symmetric] Inr ok(1)] "2.prems"(2) later by (simp add: word_le_nat_alt)
    moreover have "min (s + 250) u64_max \<le> unat x"
      if "since = Some s" "x \<in> set (launches ops a')" for s x
      using ok(2) rest that by (auto simp: min_def split: if_splits)
    ultimately show ?thesis using d Inr ok(2) by (auto simp: spaced_def)
  qed
next
  case (3 oc t ops a)
  have "admission_ok since (on_outcome oc t a)" using on_outcome_ok [OF "3.prems"(1)] "3.prems"(3) by simp
  from "3.IH" [OF this] "3.prems"(2,3) show ?case by simp
qed

text \<open>However a provider answers, launches are at least the least interval apart.\<close>

lemma launches_spaced: "sorted (map op_time ops) \<Longrightarrow> spaced (launches ops admission_new)"
  using launches_after [OF admission_new_ok] by simp

section \<open>A rate limit that shortens the wait\<close>

text \<open>
  A provider asks for ten minutes, then a second call that was in flight comes back limited
  with no figure: the interval falls to one minute and the next launch moves forward.
\<close>

definition asked_to_wait :: admission_state where
  "asked_to_wait = on_outcome (RateLimited (Some 600000)) 1000 (admission_new\<lparr>in_flight := 2\<rparr>)"

lemma limit_shortens_wait:
  "next_allowed_at asked_to_wait = 601000 \<and>
   next_allowed_at (on_outcome (RateLimited None) 1001 asked_to_wait) = 61001 \<and>
   interval_ms (on_outcome (RateLimited None) 1001 asked_to_wait) < interval_ms asked_to_wait"
proof -
  have first: "asked_to_wait = \<lparr>in_flight = 1, interval_ms = 600000, consecutive_ok = 0, next_allowed_at = 601000\<rparr>"
    by (simp add: asked_to_wait_def on_outcome_def admission_new_def saturating_add_def saturating_mul_def
        saturating_sub_def admission_min_interval_ms_def admission_max_interval_ms_def Let_def)
  show ?thesis unfolding first
    by (simp add: on_outcome_def saturating_add_def saturating_mul_def saturating_sub_def
        admission_max_interval_ms_def Let_def)
qed

text \<open>However a provider answers, as long as time does not run backwards, any two calls admitted to it are at least a quarter of a second apart, until the clock saturates.\<close>

lemma launches_keep_apart:
  assumes "sorted (map op_time ops)"
  shows "sorted_wrt (\<lambda>s t. min (unat s + 250) u64_max \<le> unat t) (launches ops admission_new)"
  using launches_spaced [OF assms] by (simp add: spaced_def)

end
