(* ===== verification/Utf8.thy ===== *)
theory Utf8
  imports Prelude
begin

text \<open>
  What the code uses of Rust's strings as bytes: \<open>str::from_utf8\<close>'s check, character
  boundaries and \<open>str::get(..n)\<close>.
\<close>

definition byte :: "char \<Rightarrow> nat" where
  "byte c = of_char c"

definition cont_byte :: "char \<Rightarrow> bool" where
  "cont_byte c \<longleftrightarrow> 128 \<le> byte c \<and> byte c < 192"

definition byte_in :: "nat \<Rightarrow> nat \<Rightarrow> char \<Rightarrow> bool" where
  "byte_in lo hi c \<longleftrightarrow> lo \<le> byte c \<and> byte c \<le> hi"

text \<open>How many bytes the code point at the head takes, when it is well formed.\<close>

definition lead_len :: "char \<Rightarrow> nat" where
  "lead_len a =
     (if byte a < 128 then 1
      else if byte_in 0xC2 0xDF a then 2
      else if byte_in 0xE0 0xEF a then 3
      else if byte_in 0xF0 0xF4 a then 4
      else 0)"

definition second_ok :: "char \<Rightarrow> char \<Rightarrow> bool" where
  "second_ok a b \<longleftrightarrow> cont_byte b \<and> (byte a = 0xE0 \<longrightarrow> 0xA0 \<le> byte b) \<and> (byte a = 0xED \<longrightarrow> byte b < 0xA0) \<and>
     (byte a = 0xF0 \<longrightarrow> 0x90 \<le> byte b) \<and> (byte a = 0xF4 \<longrightarrow> byte b < 0x90)"

definition code_point_len :: "string \<Rightarrow> nat option" where
  "code_point_len s =
     (if s = [] then None
      else (let n = lead_len (hd s) in
            if n = 0 \<or> length s < n \<or> 1 < n \<and> \<not> second_ok (hd s) (s ! 1) \<or>
               \<not> list_all (\<lambda>k. cont_byte (s ! k)) [2..<n]
            then None else Some n))"

lemma code_point_len_iff:
  "code_point_len s = Some n \<longleftrightarrow>
   s \<noteq> [] \<and> n = lead_len (hd s) \<and> 0 < n \<and> n \<le> length s \<and> (1 < n \<longrightarrow> second_ok (hd s) (s ! 1)) \<and>
   (\<forall>k. 2 \<le> k \<and> k < n \<longrightarrow> cont_byte (s ! k))"
  by (auto simp: code_point_len_def Let_def list_all_iff)

lemma code_point_len_pos: "code_point_len s = Some n \<Longrightarrow> 0 < n \<and> n \<le> length s"
  by (simp add: code_point_len_iff)

function utf8_ok :: "string \<Rightarrow> bool" where
  "utf8_ok s =
     (if s = [] then True
      else (case code_point_len s of None \<Rightarrow> False | Some n \<Rightarrow> utf8_ok (drop n s)))"
  by pat_completeness auto

termination
  by (relation "measure length") (use code_point_len_pos in fastforce)+

declare utf8_ok.simps [simp del]

lemma utf8_ok_Nil [simp]: "utf8_ok []"
  by (simp add: utf8_ok.simps)

definition from_utf8 :: "string \<Rightarrow> string option" where
  "from_utf8 bytes = (if utf8_ok bytes then Some bytes else None)"

definition is_char_boundary :: "string \<Rightarrow> nat \<Rightarrow> bool" where
  "is_char_boundary s n \<longleftrightarrow> n = 0 \<or> n = length s \<or> n < length s \<and> \<not> cont_byte (s ! n)"

definition get_to :: "string \<Rightarrow> nat \<Rightarrow> string option" where
  "get_to s n = (if is_char_boundary s n then Some (take n s) else None)"

section \<open>Whole code points\<close>

lemma code_point_len_append: "code_point_len s = Some n \<Longrightarrow> code_point_len (s @ t) = Some n"
  by (auto simp: code_point_len_iff nth_append)

lemma utf8_ok_step: "code_point_len s = Some n \<Longrightarrow> utf8_ok s \<longleftrightarrow> utf8_ok (drop n s)"
  using code_point_len_pos [of s n] by (subst utf8_ok.simps) auto

lemma utf8_ok_point: "s \<noteq> [] \<Longrightarrow> utf8_ok s \<Longrightarrow> \<exists>n. code_point_len s = Some n"
  by (subst (asm) utf8_ok.simps) (auto split: option.splits)

lemma utf8_ok_append: "utf8_ok s \<Longrightarrow> utf8_ok (s @ t) = utf8_ok t"
proof (induction s rule: utf8_ok.induct)
  case (1 s)
  show ?case
  proof (cases "s = []")
    case False
    then obtain n where n: "code_point_len s = Some n" using utf8_ok_point "1.prems" by blast
    then have "utf8_ok (drop n s)" using "1.prems" utf8_ok_step by blast
    then have "utf8_ok (drop n s @ t) = utf8_ok t" using "1.IH" [OF False n] by blast
    then show ?thesis
      using utf8_ok_step [OF code_point_len_append [OF n, of t]] code_point_len_pos [OF n] by simp
  qed simp
qed

text \<open>A code point's own bytes but the first continue it.\<close>

lemma code_point_inner:
  assumes "code_point_len s = Some n" "0 < k" "k < n"
  shows "cont_byte (s ! k)"
proof (cases "k = 1")
  case True
  then have "second_ok (hd s) (s ! k)" using assms by (simp add: code_point_len_iff)
  then show ?thesis by (simp add: second_ok_def)
next
  case False
  then have "2 \<le> k" using assms(2) by simp
  then show ?thesis using assms by (simp add: code_point_len_iff)
qed

lemma utf8_ok_take: "utf8_ok s \<Longrightarrow> is_char_boundary s k \<Longrightarrow> utf8_ok (take k s)"
proof (induction s arbitrary: k rule: utf8_ok.induct)
  case (1 s)
  show ?case
  proof (cases "s = [] \<or> k = 0 \<or> k = length s")
    case True
    then show ?thesis using "1.prems"(1) by (elim disjE) simp_all
  next
    case False
    then have k: "0 < k" "k < length s" "\<not> cont_byte (s ! k)" and ne: "s \<noteq> []"
      using "1.prems"(2) by (auto simp: is_char_boundary_def)
    obtain n where n: "code_point_len s = Some n" using utf8_ok_point [OF ne] "1.prems"(1) by blast
    have le: "n \<le> k" using code_point_inner [OF n k(1)] k(3) by (meson not_le)
    have rest: "utf8_ok (drop n s)" using "1.prems"(1) utf8_ok_step [OF n] by blast
    have "is_char_boundary (drop n s) (k - n)" using k le by (auto simp: is_char_boundary_def)
    then have tail: "utf8_ok (take (k - n) (drop n s))" using "1.IH" [OF ne n rest] by blast
    have head: "code_point_len (take n s) = Some n"
      using n by (auto simp: code_point_len_iff)
    then have "utf8_ok (take n s)" using utf8_ok_step [OF head] by simp
    then have "utf8_ok (take n s @ take (k - n) (drop n s))" using tail utf8_ok_append by blast
    moreover have "take n s @ take (k - n) (drop n s) = take k s"
      using le by (metis le_add_diff_inverse take_add)
    ultimately show ?thesis by simp
  qed
qed

lemma utf8_ok_ascii: "list_all (\<lambda>c. byte c < 128) s \<Longrightarrow> utf8_ok s"
proof (induction s)
  case (Cons c s)
  then have "code_point_len (c # s) = Some 1" by (simp add: code_point_len_iff lead_len_def)
  then show ?case using Cons utf8_ok_step [of "c # s" 1] by simp
qed simp

end
