(* ===== verification/Json_Objects.thy ===== *)
theory Json_Objects
  imports Events Ordered_Maps
begin

text \<open>
  JSON objects as the code builds and reads them: \<open>serde_json\<close>'s map keeps its keys sorted,
  so inserting is inserting into a \<open>BTreeMap\<close>.
\<close>

section \<open>Building and reading\<close>

definition obj :: "(string \<times> json) list \<Rightarrow> (string \<times> json) list" where
  "obj kvs = fold (\<lambda>(k, v) m. bt_insert k v m) kvs []"

definition jstr :: "string \<Rightarrow> json" where
  "jstr s = JString s"

definition jnat :: "nat \<Rightarrow> json" where
  "jnat n = JNumber (PosInt (of_nat n))"

text \<open>\<open>Value::get\<close> and the \<open>as_\<close> readers.\<close>

definition json_get :: "string \<Rightarrow> json \<Rightarrow> json option" where
  "json_get k v = (case v of JObject m \<Rightarrow> bt_get m k | _ \<Rightarrow> None)"

definition as_array :: "json \<Rightarrow> json list option" where
  "as_array v = (case v of JArray xs \<Rightarrow> Some xs | _ \<Rightarrow> None)"

definition as_string :: "json \<Rightarrow> string option" where
  "as_string v = (case v of JString s \<Rightarrow> Some s | _ \<Rightarrow> None)"

definition as_u64 :: "json \<Rightarrow> u64 option" where
  "as_u64 v = (case v of JNumber (PosInt n) \<Rightarrow> Some n | _ \<Rightarrow> None)"

definition as_bool :: "json \<Rightarrow> bool option" where
  "as_bool v = (case v of JBool b \<Rightarrow> Some b | _ \<Rightarrow> None)"

definition unwrap_or :: "'a \<Rightarrow> 'a option \<Rightarrow> 'a" where
  "unwrap_or d x = (case x of None \<Rightarrow> d | Some a \<Rightarrow> a)"

section \<open>What is read back\<close>

lemma obj_get: "bt_get (obj kvs) k = map_of (rev kvs) k"
proof -
  have "fold (\<lambda>(k, v) m. bt_insert k v m) kvs [] = fold (\<lambda>(k, v). bt_insert k v) kvs []" ..
  then show ?thesis
    using bt.get_fold [OF bt.ok_empty, of kvs] by (simp add: obj_def bt.get_empty fun_eq_iff)
qed

lemma payload_new_ok: "payload_new kvs = Inr p \<longleftrightarrow> p = Payload kvs \<and> float_free (JObject kvs)"
proof (cases "reject_fields kvs")
  case None
  then show ?thesis by (auto simp: payload_new_def reject_floats_None(3) [symmetric])
next
  case (Some e)
  then have "\<not> float_free (JObject kvs)" by (simp add: reject_floats_None(3) [symmetric])
  then show ?thesis using Some by (simp only: payload_new_def option.case) blast
qed

lemma obj_fields: "set (obj kvs) \<subseteq> set kvs"
proof -
  have "set (bt_insert k v m) \<subseteq> insert (k, v) (set m)" for k :: string and v :: json and m
    by (induction k v m rule: bt_insert.induct) auto
  then have "set (fold (\<lambda>(k, v) m. bt_insert k v m) kvs m) \<subseteq> set m \<union> set kvs" for m :: "(string \<times> json) list"
    by (induction kvs arbitrary: m) fastforce+
  then show ?thesis by (force simp: obj_def)
qed

lemma obj_float_free: "\<forall>kv \<in> set kvs. float_free (snd kv) \<Longrightarrow> float_free (JObject (obj kvs))"
  using obj_fields by fastforce

lemma json_get_obj [simp]: "json_get k (JObject (obj kvs)) = map_of (rev kvs) k"
  by (simp add: json_get_def obj_get)

lemma json_readers [simp]:
  "as_string (jstr s) = Some s" "as_bool (JBool b) = Some b" "as_array (JArray xs) = Some xs"
  "as_u64 (jnat n) = Some (of_nat n)" "float_free (jstr s)" "float_free (jnat n)"
  by (simp_all add: as_string_def jstr_def as_bool_def as_array_def as_u64_def jnat_def is_float_def)

lemma unwrap_or_simps [simp]: "unwrap_or d (Some a) = a" "unwrap_or d None = d"
  by (simp_all add: unwrap_or_def)

lemma unat_len: "n \<le> u64_max \<Longrightarrow> unat (of_nat n :: u64) = n"
proof -
  assume "n \<le> u64_max"
  then have "n < 2 ^ LENGTH(64)" unfolding u64_max_def by simp
  then show ?thesis by (simp only: unsigned_of_nat take_bit_nat_eq_self of_nat_id)
qed

end
