(* ===== verification/Chats.thy ===== *)
theory Chats
  imports Json_Objects Verdicts
begin

text \<open>
  The conversation a provider is called with and what it answers (\<open>crates/kernel/src/model.rs\<close>),
  and the run's window onto it (\<open>crates/runtime/src/window.rs\<close>). How serde reads content
  blocks back from JSON is a parameter; how it writes them follows the derive attributes.
\<close>

section \<open>The canonical shapes\<close>

record building_policy =
  confidential :: bool

datatype (plugins only: code size) role = User | Assistant

datatype (plugins only: code size) stop_reason = EndTurn | ToolUseStop | MaxTokens

definition stop_str :: "stop_reason \<Rightarrow> string" where
  "stop_str s = (case s of EndTurn \<Rightarrow> ''end_turn'' | ToolUseStop \<Rightarrow> ''tool_use'' | MaxTokens \<Rightarrow> ''max_tokens'')"

record system_block =
  sys_text :: string
  sys_cache :: bool

datatype content_block =
    TextBlock string
  | Thinking string string
  | RedactedThinking string
  | ToolUse string tool_name payload
  | ToolResultBlock string string bool

record chat_message =
  msg_role :: role
  msg_content :: "content_block list"

record tool_def =
  def_name :: tool_name
  def_description :: string
  def_input_schema :: payload

record chat_request =
  chat_model :: string
  chat_max_tokens :: u64
  chat_system :: "system_block list"
  chat_messages :: "chat_message list"
  chat_tools :: "tool_def list"
  chat_effort :: "effort option"

record model_usage =
  input_tokens :: tokens
  output_tokens :: tokens
  cache_read_tokens :: tokens
  cache_write_tokens :: tokens

record chat_response =
  resp_content :: "content_block list"
  resp_stop :: stop_reason
  resp_usage :: model_usage

record model_request =
  req_policy :: building_policy
  req_segments :: "b3_hash list"
  req_chat :: chat_request

record model_return =
  ret_message :: payload
  ret_calls :: "tool_call list"
  ret_usage :: "model_usage option"
  ret_stop :: "stop_reason option"
  ret_billed :: "usd_micros option"

section \<open>Content as JSON\<close>

definition payload_json :: "payload \<Rightarrow> json" where
  "payload_json p = JObject (payload_fields p)"

definition block_json :: "content_block \<Rightarrow> json" where
  "block_json b = JObject (obj (case b of
       TextBlock t \<Rightarrow> [(''kind'', jstr ''text''), (''text'', jstr t)]
     | Thinking t s \<Rightarrow> [(''kind'', jstr ''thinking''), (''thinking'', jstr t), (''signature'', jstr s)]
     | RedactedThinking d \<Rightarrow> [(''kind'', jstr ''redacted_thinking''), (''data'', jstr d)]
     | ToolUse i n p \<Rightarrow>
         [(''kind'', jstr ''tool_use''), (''id'', jstr i), (''name'', jstr (tool_str n)), (''input'', payload_json p)]
     | ToolResultBlock i c e \<Rightarrow>
         [(''kind'', jstr ''tool_result''), (''tool_use_id'', jstr i), (''content'', jstr c), (''is_error'', JBool e)]))"

definition usage_json :: "model_usage \<Rightarrow> json" where
  "usage_json u = JObject (obj
     [(''input_tokens'', JNumber (PosInt (tokens_get (input_tokens u)))),
      (''output_tokens'', JNumber (PosInt (tokens_get (output_tokens u)))),
      (''cache_read_tokens'', JNumber (PosInt (tokens_get (cache_read_tokens u)))),
      (''cache_write_tokens'', JNumber (PosInt (tokens_get (cache_write_tokens u))))])"

definition message_payload :: "content_block list \<Rightarrow> (ax_error, payload) result" where
  "message_payload content = payload_new (obj [(''content'', JArray (map block_json content))])"

type_synonym block_reader = "json \<Rightarrow> (string, content_block list) result"

definition content_from_message :: "block_reader \<Rightarrow> payload \<Rightarrow> (ax_error, content_block list) result" where
  "content_from_message read_blocks message =
     (case bt_get (payload_fields message) ''content'' of
        None \<Rightarrow> Inr []
      | Some value \<Rightarrow>
          (case read_blocks value of
             Inr blocks \<Rightarrow> Inr blocks
           | Inl err \<Rightarrow>
               Inl (with_recovery (''this build cannot read a block kind the ledger holds; replay with the build that '' @
                     ''wrote it, or extend ContentBlock'')
                 (failure WireMismatch ''read assistant content'' err))))"

definition model_return_bare :: "payload \<Rightarrow> tool_call list \<Rightarrow> model_return" where
  "model_return_bare message calls =
     \<lparr>ret_message = message, ret_calls = calls, ret_usage = None, ret_stop = None, ret_billed = None\<rparr>"

fun calls_in :: "content_block list \<Rightarrow> tool_call list" where
  "calls_in [] = []"
| "calls_in (ToolUse i n p # bs) = \<lparr>call_id = i, call_name = n, call_args = p\<rparr> # calls_in bs"
| "calls_in (_ # bs) = calls_in bs"

definition from_response :: "chat_response \<Rightarrow> usd_micros option \<Rightarrow> (ax_error, model_return) result" where
  "from_response resp billed =
     bind_r (message_payload (resp_content resp)) (\<lambda>message.
     Inr \<lparr>ret_message = message, ret_calls = calls_in (resp_content resp), ret_usage = Some (resp_usage resp),
          ret_stop = Some (resp_stop resp), ret_billed = billed\<rparr>)"

fun value_has_float :: "json \<Rightarrow> bool" where
  "value_has_float (JNumber n) = is_float n"
| "value_has_float (JArray items) = list_ex value_has_float items"
| "value_has_float (JObject m) = list_ex (\<lambda>kv. value_has_float (snd kv)) m"
| "value_has_float JNull = False"
| "value_has_float (JBool _) = False"
| "value_has_float (JString _) = False"

section \<open>The message of a response reads back\<close>

definition payload_ok :: "payload \<Rightarrow> bool" where
  "payload_ok p \<longleftrightarrow> float_free (payload_json p)"

fun block_ok :: "content_block \<Rightarrow> bool" where
  "block_ok (ToolUse i n p) \<longleftrightarrow> tool_name_ok n \<and> payload_ok p"
| "block_ok _ \<longleftrightarrow> True"

text \<open>Serde's round trip: the derived reader gives back what the derived writer wrote.\<close>

definition reads_blocks :: "block_reader \<Rightarrow> bool" where
  "reads_blocks read_blocks \<longleftrightarrow>
     (\<forall>blocks. list_all block_ok blocks \<longrightarrow> read_blocks (JArray (map block_json blocks)) = Inr blocks)"

lemma has_float_iff: "value_has_float v \<longleftrightarrow> \<not> float_free v"
  by (induction v rule: value_has_float.induct) (auto simp: list_ex_iff)

lemma payload_new_valid: "payload_new kvs = Inr p \<Longrightarrow> payload_ok p"
  by (auto simp: payload_new_ok payload_ok_def payload_json_def)

lemma block_float_free: "block_ok b \<Longrightarrow> float_free (block_json b)"
  unfolding block_json_def by (rule obj_float_free) (cases b; simp add: payload_ok_def)

lemma message_read_back:
  assumes "reads_blocks read_blocks" "list_all block_ok content"
  shows "\<exists>m. message_payload content = Inr m \<and> payload_ok m \<and> content_from_message read_blocks m = Inr content"
proof -
  have "\<forall>b \<in> set content. float_free (block_json b)" using assms(2) block_float_free by (simp add: list_all_iff)
  then have "float_free (JObject (obj [(''content'', JArray (map block_json content))]))"
    by (intro obj_float_free) simp
  then have p: "message_payload content = Inr (Payload (obj [(''content'', JArray (map block_json content))]))"
    by (simp add: message_payload_def payload_new_ok)
  moreover have "content_from_message read_blocks (Payload (obj [(''content'', JArray (map block_json content))])) = Inr content"
    using assms by (simp add: content_from_message_def obj_get reads_blocks_def)
  ultimately show ?thesis using payload_new_valid by (fastforce simp: message_payload_def)
qed

text \<open>A response becomes a wave of exactly its tool uses, in order, and keeps its content.\<close>

lemma calls_in_map: "calls_in bs = map (\<lambda>b. case b of ToolUse i n p \<Rightarrow> \<lparr>call_id = i, call_name = n, call_args = p\<rparr>)
    (filter (\<lambda>b. \<exists>i n p. b = ToolUse i n p) bs)"
  by (induction bs rule: calls_in.induct) auto

lemma from_response_kept:
  assumes "reads_blocks read_blocks" "list_all block_ok (resp_content resp)"
  shows "\<exists>r. from_response resp billed = Inr r \<and> ret_calls r = calls_in (resp_content resp) \<and>
    content_from_message read_blocks (ret_message r) = Inr (resp_content resp) \<and> ret_billed r = billed"
  using message_read_back [OF assms] by (auto simp: from_response_def)

section \<open>The window\<close>

datatype (plugins only: code size) first_words = FromJob | WithPerson

type_synonym window = "chat_message list"

definition window_new :: window where
  "window_new = []"

text \<open>Content of the user joins the message already open, or opens one.\<close>

definition push_user :: "content_block list \<Rightarrow> window \<Rightarrow> window" where
  "push_user blocks w =
     (if w \<noteq> [] \<and> msg_role (last w) = User
      then butlast w @ [(last w)\<lparr>msg_content := msg_content (last w) @ blocks\<rparr>]
      else w @ [\<lparr>msg_role = User, msg_content = blocks\<rparr>])"

definition push_user_text :: "string \<Rightarrow> window \<Rightarrow> window" where
  "push_user_text text w = push_user [TextBlock text] w"

definition push_task_lines :: "string \<Rightarrow> string \<Rightarrow> first_words \<Rightarrow> window \<Rightarrow> window" where
  "push_task_lines task goal o1 w =
     push_user_text (case o1 of FromJob \<Rightarrow> ''Task: '' @ task @ [lf] @ ''Goal: '' @ goal | WithPerson \<Rightarrow> task) w"

definition push_steer :: "string \<Rightarrow> string \<Rightarrow> window \<Rightarrow> window" where
  "push_steer source text w = push_user_text (source @ '': '' @ text) w"

definition push_assistant :: "content_block list \<Rightarrow> window \<Rightarrow> window" where
  "push_assistant content w =
     (if content \<noteq> [] then w @ [\<lparr>msg_role = Assistant, msg_content = content\<rparr>] else w)"

definition push_tool_results :: "content_block list \<Rightarrow> window \<Rightarrow> window" where
  "push_tool_results results w = (if results = [] then w else push_user results w)"

text \<open>A conversation a provider takes: it opens with the user and the roles alternate.\<close>

definition role_at :: "nat \<Rightarrow> role" where
  "role_at i = (if even i then User else Assistant)"

definition alternates :: "window \<Rightarrow> bool" where
  "alternates w \<longleftrightarrow> (\<forall>i < length w. msg_role (w ! i) = role_at i \<and> msg_content (w ! i) \<noteq> [])"

definition users_turn :: "window \<Rightarrow> bool" where
  "users_turn w \<longleftrightarrow> alternates w \<and> odd (length w)"

lemma alternates_snoc:
  "alternates (w @ [m]) \<longleftrightarrow> alternates w \<and> msg_role m = role_at (length w) \<and> msg_content m \<noteq> []"
  by (auto simp: alternates_def nth_append less_Suc_eq)

lemma push_user_turn: "alternates w \<Longrightarrow> blocks \<noteq> [] \<Longrightarrow> users_turn (push_user blocks w)"
proof (cases w rule: rev_cases)
  case (snoc u m)
  assume "alternates w" "blocks \<noteq> []"
  then show ?thesis
    using alternates_snoc [of "u @ [m]" "\<lparr>msg_role = User, msg_content = blocks\<rparr>"]
    by (auto simp: snoc push_user_def users_turn_def alternates_snoc role_at_def split: if_splits)
qed (simp add: push_user_def users_turn_def alternates_def role_at_def)

lemma push_assistant_alternates: "users_turn w \<Longrightarrow> alternates (push_assistant content w)"
  by (simp add: push_assistant_def users_turn_def alternates_snoc role_at_def)

lemma opening_turn: "users_turn (push_task_lines task goal o1 window_new)"
  by (simp add: push_task_lines_def push_user_text_def push_user_turn window_new_def alternates_def)

lemma steer_turn: "users_turn w \<Longrightarrow> users_turn (push_steer source t w)"
  using push_user_turn [of w] by (simp add: push_steer_def push_user_text_def users_turn_def)

lemma wave_turn: "users_turn w \<Longrightarrow> results \<noteq> [] \<Longrightarrow> users_turn (push_tool_results results (push_assistant content w))"
  by (simp add: push_tool_results_def push_user_turn push_assistant_alternates)

text \<open>Nothing pushed is lost: the window's blocks are what was pushed, in order.\<close>

lemma push_user_blocks: "concat (map msg_content (push_user blocks w)) = concat (map msg_content w) @ blocks"
  by (cases w rule: rev_cases) (auto simp: push_user_def)

lemma push_assistant_blocks:
  "concat (map msg_content (push_assistant content w)) = concat (map msg_content w) @ content"
  by (simp add: push_assistant_def)

lemma push_tool_results_blocks:
  "concat (map msg_content (push_tool_results results w)) = concat (map msg_content w) @ results"
  by (simp add: push_tool_results_def push_user_blocks)

end
