(* ===== verification/Prefixes.thy ===== *)
theory Prefixes
  imports Utf8 Chats
begin

text \<open>
  The frozen prefix of a run (\<open>crates/runtime/src/prefix.rs\<close>): four segments built from source
  documents under byte caps, with notes of what was kept, cut and skipped; and the offline
  rebuilding of the segments from those notes (\<open>rebuild_prefix\<close> of
  \<open>crates/runtime/src/replay.rs\<close>). BLAKE3 is the parameter \<open>dg\<close>; \<open>usize\<close> is 64 bits wide, so
  the conversions between lengths and \<open>u64\<close> do not fail.
\<close>

section \<open>Segments\<close>

definition doc_join :: string where
  "doc_join = [lf, lf]"

definition truncation_marker :: "u64 \<Rightarrow> string" where
  "truncation_marker dropped = ''[truncated: '' @ dec_of (unat dropped) @ '' bytes]''"

datatype (plugins only: code size) segment_slot = CitySlot | BuildingSlot | ResidentSlot | RunSlot

definition slot_str :: "segment_slot \<Rightarrow> string" where
  "slot_str s =
     (case s of CitySlot \<Rightarrow> ''city'' | BuildingSlot \<Rightarrow> ''building'' | ResidentSlot \<Rightarrow> ''resident'' | RunSlot \<Rightarrow> ''run'')"

record frozen_segment =
  fs_slot :: segment_slot
  fs_bytes :: string
  fs_hash :: b3_hash

definition segment_new :: "hasher \<Rightarrow> segment_slot \<Rightarrow> string \<Rightarrow> frozen_segment" where
  "segment_new dg slot bytes = \<lparr>fs_slot = slot, fs_bytes = bytes, fs_hash = dg bytes\<rparr>"

record source_doc =
  doc_addr :: address
  doc_bytes :: "string option"

record segment_caps =
  caps_city :: u64
  caps_building :: u64
  caps_resident :: u64
  caps_run :: u64

definition startup_budget_tokens :: u64 where
  "startup_budget_tokens = 2000"

definition caps_startup_default :: segment_caps where
  "caps_startup_default =
     (let per_slot = startup_budget_tokens
      in \<lparr>caps_city = per_slot, caps_building = per_slot, caps_resident = per_slot, caps_run = per_slot\<rparr>)"

record prefix_plan =
  plan_city :: "source_doc list"
  plan_building :: "source_doc list"
  plan_resident :: "source_doc list"
  plan_run :: "source_doc list"
  plan_caps :: segment_caps

record segment_note =
  note_sources :: "json list"
  note_skipped :: "json list"

function floor_char_boundary :: "string \<Rightarrow> nat \<Rightarrow> nat" where
  "floor_char_boundary s n =
     (if length s \<le> n then length s
      else if 0 < n \<and> \<not> is_char_boundary s n then floor_char_boundary s (n - 1) else n)"
  by pat_completeness auto

termination by (relation "measure snd") auto

declare floor_char_boundary.simps [simp del]

record segment_build =
  sb_text :: string
  sb_note :: segment_note
  sb_seen :: "string set"

definition skip_doc :: "string \<Rightarrow> string \<Rightarrow> segment_build \<Rightarrow> segment_build" where
  "skip_doc addr reason b =
     b\<lparr>sb_note := (sb_note b)\<lparr>note_skipped :=
         note_skipped (sb_note b) @ [JObject (obj [(''addr'', jstr addr), (''reason'', jstr reason)])]\<rparr>\<rparr>"

definition keep_doc :: "string \<Rightarrow> string \<Rightarrow> nat \<Rightarrow> bool \<Rightarrow> nat \<Rightarrow> segment_build \<Rightarrow> segment_build" where
  "keep_doc addr text kept marker dropped b =
     b\<lparr>sb_text := text, sb_seen := insert addr (sb_seen b),
       sb_note := (sb_note b)\<lparr>note_sources := note_sources (sb_note b) @
         [JObject (obj [(''addr'', jstr addr), (''kept'', jnat kept), (''marker'', JBool marker),
                        (''dropped'', jnat dropped)])]\<rparr>\<rparr>"

definition add_doc :: "nat \<Rightarrow> source_doc \<Rightarrow> segment_build \<Rightarrow> segment_build" where
  "add_doc cap doc b =
     (let addr = addr_str (doc_addr doc) in
      if addr \<in> sb_seen b then skip_doc addr ''duplicate'' b
      else (case doc_bytes doc of
              None \<Rightarrow> skip_doc addr ''unreadable'' b
            | Some bytes \<Rightarrow>
                (case from_utf8 bytes of
                   None \<Rightarrow> skip_doc addr ''not_utf8'' b
                 | Some body \<Rightarrow>
                     (let joiner = (if sb_text b = [] then 0 else length doc_join);
                          used = length (sb_text b) + joiner;
                          remaining = cap - used;
                          joined = (if 0 < joiner then sb_text b @ doc_join else sb_text b)
                      in if length body \<le> remaining
                         then keep_doc addr (joined @ body) (length body) False 0 b
                         else (let worst_marker = length (truncation_marker (of_nat (length body))) in
                               if remaining \<le> worst_marker then skip_doc addr ''no_budget'' b
                               else (let kept = floor_char_boundary body (remaining - worst_marker);
                                         dropped = length body - kept
                                     in keep_doc addr
                                          (joined @ unwrap_or [] (get_to body kept) @ truncation_marker (of_nat dropped))
                                          kept True dropped b))))))"

definition build_segment ::
  "hasher \<Rightarrow> segment_slot \<Rightarrow> source_doc list \<Rightarrow> u64 \<Rightarrow> string set \<Rightarrow> (frozen_segment \<times> segment_note) \<times> string set" where
  "build_segment dg slot docs cap seen =
     (let b = fold (add_doc (unat cap)) docs
                \<lparr>sb_text = [], sb_note = \<lparr>note_sources = [], note_skipped = []\<rparr>, sb_seen = seen\<rparr>
      in ((segment_new dg slot (sb_text b), sb_note b), sb_seen b))"

section \<open>The prefix\<close>

record frozen_prefix =
  fp_city :: frozen_segment
  fp_building :: frozen_segment
  fp_resident :: frozen_segment
  fp_run :: frozen_segment
  fp_notes :: "json option"

definition prefix_segments :: "frozen_prefix \<Rightarrow> frozen_segment list" where
  "prefix_segments p = [fp_city p, fp_building p, fp_resident p, fp_run p]"

definition segment_hashes :: "frozen_prefix \<Rightarrow> b3_hash list" where
  "segment_hashes p = map fs_hash (prefix_segments p)"

definition prefix_assemble ::
  "frozen_segment \<Rightarrow> frozen_segment \<Rightarrow> frozen_segment \<Rightarrow> frozen_segment \<Rightarrow> (ax_error, frozen_prefix) result" where
  "prefix_assemble city building resident run =
     (case find (\<lambda>(want, got). want \<noteq> got)
             [(CitySlot, fs_slot city), (BuildingSlot, fs_slot building),
              (ResidentSlot, fs_slot resident), (RunSlot, fs_slot run)] of
        Some (want, got) \<Rightarrow>
          Inl (with_recovery ''pass segments in slot order: city, building, resident, run''
            (failure InvalidArgs ''assemble frozen prefix''
              (''slot '' @ slot_str want @ '' holds a '' @ slot_str got @ '' segment'')))
      | None \<Rightarrow>
          Inr \<lparr>fp_city = city, fp_building = building, fp_resident = resident, fp_run = run, fp_notes = None\<rparr>)"

definition segment_row :: "frozen_segment \<Rightarrow> segment_note \<Rightarrow> json" where
  "segment_row segment note =
     JObject (obj
       [(''slot'', jstr (slot_str (fs_slot segment))), (''hash'', jstr (b3_str (fs_hash segment))),
        (''len'', jnat (length (fs_bytes segment))), (''sources'', JArray (note_sources note)),
        (''skipped'', JArray (note_skipped note))])"

definition build_prefix :: "hasher \<Rightarrow> prefix_plan \<Rightarrow> (ax_error, frozen_prefix) result" where
  "build_prefix dg p =
     (let ((city, n1), seen) = build_segment dg CitySlot (plan_city p) (caps_city (plan_caps p)) {};
          ((building, n2), seen) = build_segment dg BuildingSlot (plan_building p) (caps_building (plan_caps p)) seen;
          ((resident, n3), seen) = build_segment dg ResidentSlot (plan_resident p) (caps_resident (plan_caps p)) seen;
          ((run, n4), seen) = build_segment dg RunSlot (plan_run p) (caps_run (plan_caps p)) seen
      in bind_r (prefix_assemble city building resident run) (\<lambda>prefix.
         Inr (prefix\<lparr>fp_notes := Some (JObject (obj
           [(''segments'', JArray (map2 segment_row (prefix_segments prefix) [n1, n2, n3, n4])),
            (''breakpoints'', JArray [jstr ''city'', jstr ''building'', jstr ''resident'', jstr ''run''])]))\<rparr>)))"

fun render_blocks :: "frozen_segment list \<Rightarrow> (ax_error, system_block list) result" where
  "render_blocks [] = Inr []"
| "render_blocks (s # ss) =
     (case from_utf8 (fs_bytes s) of
        None \<Rightarrow> Inl (failure InvalidArgs ''render system blocks'' (slot_str (fs_slot s) @ '' segment is not utf-8''))
      | Some text \<Rightarrow>
          bind_r (render_blocks ss) (\<lambda>rest. Inr (\<lparr>sys_text = text, sys_cache = True\<rparr> # rest)))"

definition system_blocks :: "frozen_prefix \<Rightarrow> (ax_error, system_block list) result" where
  "system_blocks p = render_blocks (prefix_segments p)"

definition prompt_payload :: "frozen_prefix \<Rightarrow> (ax_error, payload) result" where
  "prompt_payload p =
     (case fp_notes p of
        Some (JObject m) \<Rightarrow> payload_new m
      | Some _ \<Rightarrow> Inl (failure InvalidArgs ''encode prompt payload'' ''prefix notes are not an object'')
      | None \<Rightarrow>
          payload_new (obj [(''segments'', JArray (map (\<lambda>s. JObject (obj
            [(''slot'', jstr (slot_str (fs_slot s))), (''hash'', jstr (b3_str (fs_hash s))),
             (''len'', jnat (length (fs_bytes s)))])) (prefix_segments p)))]))"

section \<open>Rebuilding from the notes\<close>

definition rebuild_error :: "string \<Rightarrow> ax_error" where
  "rebuild_error what = failure InvalidArgs ''rebuild prefix'' what"

definition rebuild_source :: "(address \<Rightarrow> string option) \<Rightarrow> json \<Rightarrow> string \<Rightarrow> (ax_error, string) result" where
  "rebuild_source resolver source text =
     (case Option.bind (json_get ''addr'' source) as_string of
        None \<Rightarrow> Inl (rebuild_error ''source without addr'')
      | Some addr_raw \<Rightarrow>
          bind_r (address_parse addr_raw) (\<lambda>addr.
          case resolver addr of
            None \<Rightarrow> Inl (with_recovery ''supply the source document at its recorded address''
                      (failure PathNotFound ''rebuild prefix'' addr_raw))
          | Some bytes \<Rightarrow>
              (case from_utf8 bytes of
                 None \<Rightarrow> Inl (rebuild_error (addr_raw @ '': not utf-8''))
               | Some body \<Rightarrow>
                   (let kept = unat (unwrap_or 0 (Option.bind (json_get ''kept'' source) as_u64));
                        marker = unwrap_or False (Option.bind (json_get ''marker'' source) as_bool);
                        dropped = unwrap_or 0 (Option.bind (json_get ''dropped'' source) as_u64)
                    in case get_to body kept of
                         None \<Rightarrow> Inl (rebuild_error (addr_raw @ '': kept span exceeds the document''))
                       | Some piece \<Rightarrow>
                           Inr ((if text \<noteq> [] then text @ doc_join else text) @ piece @
                             (if marker then truncation_marker dropped else []))))))"

fun rebuild_sources :: "(address \<Rightarrow> string option) \<Rightarrow> json list \<Rightarrow> string \<Rightarrow> (ax_error, string) result" where
  "rebuild_sources resolver [] text = Inr text"
| "rebuild_sources resolver (s # ss) text = bind_r (rebuild_source resolver s text) (rebuild_sources resolver ss)"

definition rebuild_segment :: "hasher \<Rightarrow> (address \<Rightarrow> string option) \<Rightarrow> json \<Rightarrow> (ax_error, b3_hash) result" where
  "rebuild_segment dg resolver segment =
     (let slot = unwrap_or ''?'' (Option.bind (json_get ''slot'' segment) as_string) in
      case Option.bind (json_get ''sources'' segment) as_array of
        None \<Rightarrow> Inl (rebuild_error (slot @ '': payload lacks source notes (hand-assembled prefix?)''))
      | Some sources \<Rightarrow>
          bind_r (rebuild_sources resolver sources []) (\<lambda>text.
            let rebuilt = dg text in
            case Option.bind (json_get ''hash'' segment) as_string of
              Some recorded \<Rightarrow>
                if recorded \<noteq> b3_str rebuilt
                then Inl (with_recovery ''the source documents no longer match the recorded assembly''
                       (failure CasCorrupt ''rebuild prefix'' (slot @ '': rebuilt hash differs from the recorded one'')))
                else Inr rebuilt
            | None \<Rightarrow> Inr rebuilt))"

fun rebuild_segments :: "hasher \<Rightarrow> (address \<Rightarrow> string option) \<Rightarrow> json list \<Rightarrow> (ax_error, b3_hash list) result" where
  "rebuild_segments dg resolver [] = Inr []"
| "rebuild_segments dg resolver (s # ss) =
     bind_r (rebuild_segment dg resolver s) (\<lambda>h.
     bind_r (rebuild_segments dg resolver ss) (\<lambda>hs. Inr (h # hs)))"

definition rebuild_prefix :: "hasher \<Rightarrow> json \<Rightarrow> (address \<Rightarrow> string option) \<Rightarrow> (ax_error, b3_hash list) result" where
  "rebuild_prefix dg data resolver =
     (case Option.bind (json_get ''segments'' data) as_array of
        None \<Rightarrow> Inl (rebuild_error ''payload has no segments'')
      | Some segments \<Rightarrow>
          if length segments \<noteq> 4
          then Inl (rebuild_error (''expected 4 segments, found '' @ dec_of (length segments)))
          else rebuild_segments dg resolver segments)"

section \<open>What a built segment is\<close>

lemma floor_boundary:
  "is_char_boundary s (floor_char_boundary s n) \<and> floor_char_boundary s n \<le> n \<and>
   floor_char_boundary s n \<le> length s \<or> length s \<le> n \<and> floor_char_boundary s n = length s"
proof (induction s n rule: floor_char_boundary.induct)
  case (1 s n)
  then show ?case
    by (subst (1 2 3 4) floor_char_boundary.simps) (auto simp: is_char_boundary_def)
qed

lemma floor_facts:
  "is_char_boundary s (floor_char_boundary s n)" "floor_char_boundary s n \<le> length s"
  "n \<le> length s \<Longrightarrow> floor_char_boundary s n \<le> n"
  using floor_boundary [of s n] by (auto simp: is_char_boundary_def)

lemma digits_mono: "m \<le> n \<Longrightarrow> length (dec_of m) \<le> length (dec_of n)"
proof (induction n arbitrary: m rule: dec_of.induct)
  case (1 n)
  show ?case
  proof (cases "n < 10")
    case True
    then show ?thesis using "1.prems" by (simp add: dec_of.simps [of m] dec_of.simps [of n])
  next
    case False
    have "m div 10 \<le> n div 10" using "1.prems" by (rule div_le_mono)
    then have "length (dec_of (m div 10)) \<le> length (dec_of (n div 10))" using "1.IH" False by blast
    then show ?thesis using False by (simp add: dec_of.simps [of m] dec_of.simps [of n])
  qed
qed

lemma marker_len: "m \<le> n \<Longrightarrow> n \<le> u64_max \<Longrightarrow>
  length (truncation_marker (of_nat m)) \<le> length (truncation_marker (of_nat n))"
  using digits_mono [of m n] by (simp add: truncation_marker_def unat_len)

lemma utf8_marker: "utf8_ok (truncation_marker w)"
proof (rule utf8_ok_ascii)
  have "byte c < 128" if "is_digit c" for c using that by (simp add: is_digit_def byte_def)
  then have "\<forall>c \<in> set (dec_of n). byte c < 128" for n using dec_of_digits [of n] by (auto simp: list_all_iff)
  then show "list_all (\<lambda>c. byte c < 128) (truncation_marker w)"
    by (auto simp: truncation_marker_def list_all_iff byte_def)
qed

lemma utf8_join: "utf8_ok s \<Longrightarrow> utf8_ok t \<Longrightarrow> utf8_ok (s @ t)"
  by (simp add: utf8_ok_append)

lemma utf8_doc_join: "utf8_ok doc_join"
  by (rule utf8_ok_ascii) (simp add: doc_join_def lf_def byte_def)

text \<open>Four ways to treat a document: skip it, take it whole, or cut it at a code point.\<close>

definition joined :: "segment_build \<Rightarrow> string" where
  "joined b = (if sb_text b = [] then [] else sb_text b @ doc_join)"

lemma add_doc_cases:
  obtains (skip) reason where "add_doc cap doc b = skip_doc (addr_str (doc_addr doc)) reason b"
  | (whole) body where "doc_bytes doc = Some body" "utf8_ok body"
      "length body \<le> cap - length (joined b)"
      "add_doc cap doc b = keep_doc (addr_str (doc_addr doc)) (joined b @ body) (length body) False 0 b"
  | (cut) body kept where "doc_bytes doc = Some body" "utf8_ok body" "is_char_boundary body kept"
      "kept \<le> length body" "cap - length (joined b) < length body"
      "kept + length (truncation_marker (of_nat (length body))) \<le> cap - length (joined b)"
      "add_doc cap doc b = keep_doc (addr_str (doc_addr doc))
         (joined b @ take kept body @ truncation_marker (of_nat (length body - kept))) kept True (length body - kept) b"
proof (cases "addr_str (doc_addr doc) \<in> sb_seen b")
  case True
  then show ?thesis by (intro skip) (simp add: add_doc_def)
next
  case unseen: False
  show ?thesis
  proof (cases "doc_bytes doc")
    case None
    then show ?thesis using unseen by (intro skip) (simp add: add_doc_def)
  next
    case (Some body)
    have len: "length (sb_text b) + (if sb_text b = [] then 0 else length doc_join) = length (joined b)"
      by (simp add: joined_def)
    have sofar: "(if 0 < (if sb_text b = [] then 0 else length doc_join) then sb_text b @ doc_join else sb_text b) = joined b"
      by (simp add: joined_def doc_join_def)
    let ?room = "cap - length (joined b)" and ?w = "length (truncation_marker (of_nat (length body)))"
    show ?thesis
    proof (cases "utf8_ok body")
      case False
      then show ?thesis using unseen Some by (intro skip) (simp add: add_doc_def from_utf8_def)
    next
      case ok: True
      note unfolded = add_doc_def Let_def Some from_utf8_def ok unseen len sofar
      show ?thesis
      proof (cases "length body \<le> ?room")
        case True
        then show ?thesis using ok Some by (intro whole) (simp_all only: unfolded if_True if_False option.case)
      next
        case big: False
        show ?thesis
        proof (cases "?room \<le> ?w")
          case True
          then show ?thesis using big by (intro skip) (simp only: unfolded if_True if_False option.case)
        next
          case False
          let ?k = "floor_char_boundary body (?room - ?w)"
          have k: "is_char_boundary body ?k" "?k \<le> length body" "?k \<le> ?room - ?w"
            using floor_facts [where s = body and n = "?room - ?w"] big by auto
          then have "unwrap_or [] (get_to body ?k) = take ?k body" by (simp add: get_to_def)
          then show ?thesis using big False ok Some k
            by (intro cut [where body = body and kept = ?k]) (simp_all only: unfolded if_True if_False option.case, linarith+)
        qed
      qed
    qed
  qed
qed

text \<open>
  A segment under construction is valid UTF-8, its notes hold no float, and its sources read
  back to its text.
\<close>

definition build_sound :: "(address \<Rightarrow> string option) \<Rightarrow> segment_build \<Rightarrow> bool" where
  "build_sound resolver b \<longleftrightarrow> utf8_ok (sb_text b) \<and>
     rebuild_sources resolver (note_sources (sb_note b)) [] = Inr (sb_text b) \<and>
     (\<forall>v \<in> set (note_sources (sb_note b)) \<union> set (note_skipped (sb_note b)). float_free v)"

definition doc_stands :: "(address \<Rightarrow> string option) \<Rightarrow> source_doc \<Rightarrow> bool" where
  "doc_stands resolver doc \<longleftrightarrow> address_ok (doc_addr doc) \<and>
     (\<forall>body. doc_bytes doc = Some body \<longrightarrow> resolver (doc_addr doc) = Some body \<and> length body \<le> u64_max)"

lemma rebuild_sources_snoc:
  "rebuild_sources resolver (ss @ [s]) sofar = bind_r (rebuild_sources resolver ss sofar) (rebuild_source resolver s)"
proof (induction ss arbitrary: sofar)
  case Nil
  then show ?case by (cases "rebuild_source resolver s sofar") simp_all
next
  case (Cons a ss)
  then show ?case by (cases "rebuild_source resolver a sofar") simp_all
qed

lemma rebuild_source_kept:
  assumes "address_ok a" "resolver a = Some body" "utf8_ok body" "is_char_boundary body kept"
    "kept \<le> u64_max" "dropped \<le> u64_max"
  shows "rebuild_source resolver (JObject (obj [(''addr'', jstr (addr_str a)), (''kept'', jnat kept),
      (''marker'', JBool marker), (''dropped'', jnat dropped)])) text =
    Inr ((if text \<noteq> [] then text @ doc_join else text) @ take kept body @
      (if marker then truncation_marker (of_nat dropped) else []))"
  using assms by (simp add: rebuild_source_def address.parse_spell from_utf8_def get_to_def unat_len Let_def)

lemma joined_if: "(if text \<noteq> [] then text @ doc_join else text) = (if text = [] then [] else text @ doc_join)"
  by simp

lemma add_doc_sound:
  assumes b: "build_sound resolver b" and doc: "doc_stands resolver doc"
  shows "build_sound resolver (add_doc cap doc b)"
proof (cases cap doc b rule: add_doc_cases)
  case (skip reason)
  have "float_free (JObject (obj [(''addr'', jstr x), (''reason'', jstr reason)]))" for x
    by (rule obj_float_free) simp
  then show ?thesis using b by (simp add: skip skip_doc_def build_sound_def)
next
  case (whole body)
  let ?row = "JObject (obj [(''addr'', jstr (addr_str (doc_addr doc))), (''kept'', jnat (length body)),
      (''marker'', JBool False), (''dropped'', jnat 0)])"
  have reread: "rebuild_source resolver ?row (sb_text b) = Inr (joined b @ body)"
    using doc whole(1,2) rebuild_source_kept [of "doc_addr doc" resolver body "length body" 0 False "sb_text b"]
    by (simp add: doc_stands_def is_char_boundary_def joined_def u64_max_def)
  have "float_free ?row" by (rule obj_float_free) simp
  moreover have "utf8_ok (joined b @ body)"
    using b whole(2) utf8_doc_join by (auto simp: build_sound_def joined_def intro!: utf8_join)
  ultimately show ?thesis using b reread
    by (simp add: whole(4) keep_doc_def build_sound_def rebuild_sources_snoc)
next
  case (cut body kept)
  let ?d = "length body - kept"
  let ?row = "JObject (obj [(''addr'', jstr (addr_str (doc_addr doc))), (''kept'', jnat kept),
      (''marker'', JBool True), (''dropped'', jnat ?d)])"
  have fits: "kept \<le> u64_max" "?d \<le> u64_max" "resolver (doc_addr doc) = Some body" "address_ok (doc_addr doc)"
    using doc cut(1,4) by (auto simp: doc_stands_def)
  have reread: "rebuild_source resolver ?row (sb_text b) = Inr (joined b @ take kept body @ truncation_marker (of_nat ?d))"
    using rebuild_source_kept [of "doc_addr doc" resolver body kept ?d True "sb_text b"] fits cut(2,3)
    by (simp add: joined_def)
  have "float_free ?row" by (rule obj_float_free) simp
  moreover have "utf8_ok (joined b @ take kept body @ truncation_marker (of_nat ?d))"
    using b utf8_doc_join utf8_ok_take [OF cut(2,3)] utf8_marker
    by (auto simp: build_sound_def joined_def intro!: utf8_join)
  ultimately show ?thesis using b reread
    by (simp add: cut(7) keep_doc_def build_sound_def rebuild_sources_snoc)
qed

lemma build_docs_sound:
  "build_sound resolver b \<Longrightarrow> \<forall>doc \<in> set docs. doc_stands resolver doc \<Longrightarrow>
   build_sound resolver (fold (add_doc cap) docs b)"
  by (induction docs arbitrary: b) (simp_all add: add_doc_sound)

lemma build_segment_sound:
  assumes "\<forall>doc \<in> set docs. doc_stands resolver doc" "build_segment dg slot docs cap seen = ((s, note), seen')"
  shows "fs_slot s = slot" "fs_hash s = dg (fs_bytes s)" "utf8_ok (fs_bytes s)"
    "float_free (segment_row s note)" "rebuild_segment dg resolver (segment_row s note) = Inr (fs_hash s)"
proof -
  let ?b = "fold (add_doc (unat cap)) docs
      \<lparr>sb_text = [], sb_note = \<lparr>note_sources = [], note_skipped = []\<rparr>, sb_seen = seen\<rparr>"
  have s: "s = segment_new dg slot (sb_text ?b)" "note = sb_note ?b"
    using assms(2) by (auto simp: build_segment_def Let_def)
  have b: "build_sound resolver ?b"
    by (rule build_docs_sound [OF _ assms(1)]) (simp add: build_sound_def)
  then show "fs_slot s = slot" "fs_hash s = dg (fs_bytes s)" "utf8_ok (fs_bytes s)"
    by (simp_all add: s segment_new_def build_sound_def)
  show "float_free (segment_row s note)"
    unfolding segment_row_def by (rule obj_float_free) (use b in \<open>simp add: s build_sound_def\<close>)
  show "rebuild_segment dg resolver (segment_row s note) = Inr (fs_hash s)"
    using b by (simp add: rebuild_segment_def segment_row_def s segment_new_def build_sound_def Let_def)
qed

definition plan_docs :: "prefix_plan \<Rightarrow> source_doc list" where
  "plan_docs p = plan_city p @ plan_building p @ plan_resident p @ plan_run p"

text \<open>A plan of standing documents always builds, renders, and rebuilds from its payload.\<close>

lemma built_prefix:
  assumes "\<forall>doc \<in> set (plan_docs p). doc_stands resolver doc"
  shows "\<exists>prefix m. build_prefix dg p = Inr prefix \<and> prompt_payload prefix = Inr (Payload m) \<and>
    rebuild_prefix dg (JObject m) resolver = Inr (segment_hashes prefix) \<and>
    (\<exists>blocks. system_blocks prefix = Inr blocks \<and> map sys_text blocks = map fs_bytes (prefix_segments prefix) \<and>
       list_all sys_cache blocks) \<and>
    segment_hashes prefix = map dg (map fs_bytes (prefix_segments prefix))"
proof -
  obtain s1 n1 e1 where b1: "build_segment dg CitySlot (plan_city p) (caps_city (plan_caps p)) {} = ((s1, n1), e1)"
    by (metis prod.exhaust)
  obtain s2 n2 e2 where b2: "build_segment dg BuildingSlot (plan_building p) (caps_building (plan_caps p)) e1 = ((s2, n2), e2)"
    by (metis prod.exhaust)
  obtain s3 n3 e3 where b3: "build_segment dg ResidentSlot (plan_resident p) (caps_resident (plan_caps p)) e2 = ((s3, n3), e3)"
    by (metis prod.exhaust)
  obtain s4 n4 e4 where b4: "build_segment dg RunSlot (plan_run p) (caps_run (plan_caps p)) e3 = ((s4, n4), e4)"
    by (metis prod.exhaust)
  have docs: "\<forall>doc \<in> set (plan_city p). doc_stands resolver doc" "\<forall>doc \<in> set (plan_building p). doc_stands resolver doc"
    "\<forall>doc \<in> set (plan_resident p). doc_stands resolver doc" "\<forall>doc \<in> set (plan_run p). doc_stands resolver doc"
    using assms by (auto simp: plan_docs_def)
  note f1 = build_segment_sound [OF docs(1) b1] and f2 = build_segment_sound [OF docs(2) b2]
    and f3 = build_segment_sound [OF docs(3) b3] and f4 = build_segment_sound [OF docs(4) b4]
  let ?kvs = "[(''segments'', JArray [segment_row s1 n1, segment_row s2 n2, segment_row s3 n3, segment_row s4 n4]),
      (''breakpoints'', JArray [jstr ''city'', jstr ''building'', jstr ''resident'', jstr ''run''])]"
  let ?p = "\<lparr>fp_city = s1, fp_building = s2, fp_resident = s3, fp_run = s4, fp_notes = Some (JObject (obj ?kvs))\<rparr>"
  have "build_prefix dg p = Inr ?p"
    by (simp add: build_prefix_def b1 b2 b3 b4 prefix_assemble_def f1(1) f2(1) f3(1) f4(1) prefix_segments_def)
  moreover have "float_free (JObject (obj ?kvs))"
    by (rule obj_float_free) (simp add: f1(4) f2(4) f3(4) f4(4))
  then have "prompt_payload ?p = Inr (Payload (obj ?kvs))"
    by (simp add: prompt_payload_def payload_new_def reject_floats_None(3) [THEN iffD2])
  moreover have "rebuild_prefix dg (JObject (obj ?kvs)) resolver = Inr (segment_hashes ?p)"
    by (simp add: rebuild_prefix_def f1(5) f2(5) f3(5) f4(5) segment_hashes_def prefix_segments_def)
  moreover have "\<exists>blocks. system_blocks ?p = Inr blocks \<and> map sys_text blocks = map fs_bytes (prefix_segments ?p) \<and>
      list_all sys_cache blocks"
    by (simp add: system_blocks_def prefix_segments_def from_utf8_def f1(3) f2(3) f3(3) f4(3))
  moreover have "segment_hashes ?p = map dg (map fs_bytes (prefix_segments ?p))"
    by (simp add: segment_hashes_def prefix_segments_def f1(2) f2(2) f3(2) f4(2))
  ultimately show ?thesis by blast
qed

section \<open>The cap\<close>

lemma add_doc_within:
  assumes "length (sb_text b) \<le> cap" "doc_bytes doc \<noteq> Some []"
    "\<forall>body. doc_bytes doc = Some body \<longrightarrow> length body \<le> u64_max"
  shows "length (sb_text (add_doc cap doc b)) \<le> cap"
proof (cases cap doc b rule: add_doc_cases)
  case (skip reason)
  then show ?thesis using assms(1) by (simp add: skip_doc_def)
next
  case (whole body)
  then have "0 < length body" using assms(2) by auto
  then have "length (joined b) + length body \<le> cap" using whole(3) by linarith
  then show ?thesis by (simp add: whole(4) keep_doc_def)
next
  case (cut body kept)
  have "length (truncation_marker (of_nat (length body - kept))) \<le> length (truncation_marker (of_nat (length body)))"
    using assms(3) cut(1) by (intro marker_len) auto
  moreover have "0 < length (truncation_marker (of_nat (length body)))" by (simp add: truncation_marker_def)
  ultimately have "length (joined b) + (kept + length (truncation_marker (of_nat (length body - kept)))) \<le> cap"
    using cut(6) by linarith
  then show ?thesis by (simp add: cut(7) keep_doc_def del: of_nat_diff)
qed

text \<open>Documents with something in them never take a segment past its cap; empty ones can.\<close>

lemma segment_within_cap:
  assumes "\<forall>doc \<in> set docs. doc_bytes doc \<noteq> Some [] \<and> (\<forall>body. doc_bytes doc = Some body \<longrightarrow> length body \<le> u64_max)"
  shows "length (fs_bytes (fst (fst (build_segment dg slot docs cap seen)))) \<le> unat cap"
proof -
  have "length (sb_text b) \<le> n \<Longrightarrow> length (sb_text (fold (add_doc n) docs b)) \<le> n" for b n
    using assms by (induction docs arbitrary: b) (simp_all add: add_doc_within)
  then show ?thesis by (simp add: build_segment_def Let_def segment_new_def)
qed

lemma empty_document_overruns_cap:
  "fs_bytes (fst (fst (build_segment dg CitySlot
     [\<lparr>doc_addr = Address ''a'', doc_bytes = Some ''x''\<rparr>, \<lparr>doc_addr = Address ''b'', doc_bytes = Some []\<rparr>] 1 {}))) =
   ''x'' @ doc_join"
proof -
  have "code_point_len ''x'' = Some 1" by (simp add: code_point_len_iff lead_len_def byte_def)
  then have "utf8_ok ''x''" using utf8_ok_step [of "''x''" 1] by simp
  then show ?thesis
    by (simp add: build_segment_def add_doc_def Let_def from_utf8_def keep_doc_def segment_new_def doc_join_def)
qed

end
