(* ===== verification/Redactions.thy ===== *)
theory Redactions
  imports Secret_Scans Utf8 Chats
begin

text \<open>
  What a model said on its way into history (\<open>crates/runtime/src/redact.rs\<close>): every
  secret-shaped span of every string becomes a marker naming its hash, and the count of
  replaced spans is kept. BLAKE3 is the parameter \<open>dg\<close>.
\<close>

section \<open>One text\<close>

definition redaction_marker :: "hasher \<Rightarrow> string \<Rightarrow> string" where
  "redaction_marker dg found =
     (let digest = b3_str (dg found); short = (if 16 \<le> length digest then take 16 digest else digest)
      in ''secret:redacted/'' @ short)"

text \<open>The spans still to treat, where the pass stands, what it wrote and how many it replaced.\<close>

fun redact_spans ::
  "hasher \<Rightarrow> string \<Rightarrow> secret_span list \<Rightarrow> nat \<Rightarrow> string \<Rightarrow> u32 \<Rightarrow> string \<times> u32" where
  "redact_spans dg bytes [] at out hits = (out @ unwrap_or [] (from_utf8 (drop at bytes)), hits)"
| "redact_spans dg bytes (span # spans) at out hits =
     (let start = span_start span; end = start + span_len span in
      if start < at \<or> length bytes < end then redact_spans dg bytes spans at out hits
      else (case from_utf8 (take (start - at) (drop at bytes)) of
              None \<Rightarrow> redact_spans dg bytes spans at out hits
            | Some before \<Rightarrow>
                redact_spans dg bytes spans end
                  (out @ before @ redaction_marker dg (take (span_len span) (drop start bytes)))
                  (saturating_add hits 1)))"

definition redact_text :: "hasher \<Rightarrow> string \<Rightarrow> string \<times> u32" where
  "redact_text dg text =
     (let spans = scan_secrets text in
      if spans = [] then (text, 0) else redact_spans dg text spans 0 [] 0)"

section \<open>A payload\<close>

fun redact_value :: "hasher \<Rightarrow> json \<Rightarrow> u32 \<Rightarrow> json \<times> u32"
  and redact_items :: "hasher \<Rightarrow> json list \<Rightarrow> u32 \<Rightarrow> json list \<times> u32"
  and redact_fields :: "hasher \<Rightarrow> (string \<times> json) list \<Rightarrow> u32 \<Rightarrow> (string \<times> json) list \<times> u32"
where
  "redact_value dg (JString t) hits =
     (let (replaced, found) = redact_text dg t in (JString replaced, saturating_add hits found))"
| "redact_value dg (JArray items) hits = (let (vs, hits) = redact_items dg items hits in (JArray vs, hits))"
| "redact_value dg (JObject m) hits = (let (m', hits) = redact_fields dg m hits in (JObject m', hits))"
| "redact_value dg JNull hits = (JNull, hits)"
| "redact_value dg (JBool b) hits = (JBool b, hits)"
| "redact_value dg (JNumber n) hits = (JNumber n, hits)"
| "redact_items dg [] hits = ([], hits)"
| "redact_items dg (v # vs) hits =
     (let (v', hits) = redact_value dg v hits; (vs', hits) = redact_items dg vs hits in (v' # vs', hits))"
| "redact_fields dg [] hits = ([], hits)"
| "redact_fields dg ((k, v) # m) hits =
     (let (v', hits) = redact_value dg v hits; (m', hits) = redact_fields dg m hits in ((k, v') # m', hits))"

definition redact :: "hasher \<Rightarrow> (string \<times> json) list \<Rightarrow> (string \<times> json) list \<times> u32" where
  "redact dg data = redact_fields dg data 0"

section \<open>What redaction keeps\<close>

text \<open>The keys, the shape and the absence of floats are kept; only strings change.\<close>

lemma redact_kept:
  shows "float_free (fst (redact_value dg v hits)) = float_free v"
    and "(\<forall>x \<in> set (fst (redact_items dg vs hits)). float_free x) = (\<forall>x \<in> set vs. float_free x)"
    and "map fst (fst (redact_fields dg m hits)) = map fst m \<and>
      (\<forall>kv \<in> set (fst (redact_fields dg m hits)). float_free (snd kv)) = (\<forall>kv \<in> set m. float_free (snd kv))"
  by (induction dg v hits and dg vs hits and dg m hits rule: redact_value_redact_items_redact_fields.induct)
    (auto simp: Let_def split: prod.splits, (metis snd_conv)+)

lemma redact_keys: "map fst (fst (redact dg data)) = map fst data"
  using redact_kept(3) by (simp add: redact_def)

lemma redact_float_free: "float_free (JObject (fst (redact dg data))) = float_free (JObject data)"
  using redact_kept(3) by (simp add: redact_def)

section \<open>What a redacted text holds\<close>

text \<open>
  The spans a pass replaces are disjoint and ascending; what it writes is the text outside
  them with a marker in place of each. A span that starts inside a replaced one is passed
  over.
\<close>

fun weave :: "hasher \<Rightarrow> string \<Rightarrow> secret_span list \<Rightarrow> nat \<Rightarrow> string" where
  "weave dg bytes [] at = drop at bytes"
| "weave dg bytes (span # spans) at =
     take (span_start span - at) (drop at bytes) @
     redaction_marker dg (take (span_len span) (drop (span_start span) bytes)) @
     weave dg bytes spans (span_start span + span_len span)"

fun ascending :: "nat \<Rightarrow> secret_span list \<Rightarrow> bool" where
  "ascending at [] = True"
| "ascending at (span # spans) \<longleftrightarrow> at \<le> span_start span \<and> ascending (span_start span + span_len span) spans"

text \<open>A pass over well-formed text whose spans start and end at code points.\<close>

definition whole_spans :: "string \<Rightarrow> secret_span list \<Rightarrow> bool" where
  "whole_spans bytes spans \<longleftrightarrow>
     (\<forall>span \<in> set spans. span_start span + span_len span \<le> length bytes \<and>
        is_char_boundary bytes (span_start span) \<and> is_char_boundary bytes (span_start span + span_len span))"

lemma utf8_between:
  assumes "utf8_ok bytes" "is_char_boundary bytes at" "is_char_boundary bytes k" "at \<le> k"
  shows "utf8_ok (take (k - at) (drop at bytes))"
proof -
  have "utf8_ok (take k bytes)" by (rule utf8_ok_take [OF assms(1,3)])
  moreover have "take k bytes = take at bytes @ take (k - at) (drop at bytes)"
    using assms(4) by (metis le_add_diff_inverse take_add)
  ultimately show ?thesis using utf8_ok_append [OF utf8_ok_take [OF assms(1,2)]] by simp
qed

lemma redact_spans_woven:
  assumes "utf8_ok bytes" "whole_spans bytes spans" "is_char_boundary bytes at" "at \<le> length bytes"
    "sorted (map span_start spans)"
  shows "\<exists>chosen. set chosen \<subseteq> set spans \<and> ascending at chosen \<and>
    redact_spans dg bytes spans at out hits =
      (out @ weave dg bytes chosen at, ((\<lambda>h. saturating_add h 1) ^^ length chosen) hits) \<and>
    (\<forall>span \<in> set spans. span \<in> set chosen \<or> span_start span < at \<or>
       (\<exists>c \<in> set chosen. span_start c \<le> span_start span \<and> span_start span < span_start c + span_len c))"
  using assms
proof (induction spans arbitrary: at out hits)
  case Nil
  have "utf8_ok (drop at bytes)"
    using utf8_between [OF Nil.prems(1,3), of "length bytes"] Nil.prems(4) by (simp add: is_char_boundary_def)
  then show ?case by (intro exI [of _ "[]"]) (simp add: from_utf8_def)
next
  case (Cons span spans)
  have rest: "whole_spans bytes spans" and asc: "sorted (map span_start spans)"
    using Cons.prems(2,5) by (simp_all add: whole_spans_def)
  have span: "span_start span + span_len span \<le> length bytes" "is_char_boundary bytes (span_start span)"
    "is_char_boundary bytes (span_start span + span_len span)"
    using Cons.prems(2) by (auto simp: whole_spans_def)
  show ?case
  proof (cases "span_start span < at")
    case True
    obtain chosen where c: "set chosen \<subseteq> set spans" "ascending at chosen"
      "redact_spans dg bytes spans at out hits =
        (out @ weave dg bytes chosen at, ((\<lambda>h. saturating_add h 1) ^^ length chosen) hits)"
      "\<forall>span \<in> set spans. span \<in> set chosen \<or> span_start span < at \<or>
         (\<exists>c \<in> set chosen. span_start c \<le> span_start span \<and> span_start span < span_start c + span_len c)"
      using Cons.IH [OF Cons.prems(1) rest Cons.prems(3,4) asc, of out hits] by blast
    show ?thesis by (intro exI [of _ chosen]) (use c True in auto)
  next
    case False
    let ?stop = "span_start span + span_len span"
    let ?out = "out @ take (span_start span - at) (drop at bytes) @
      redaction_marker dg (take (span_len span) (drop (span_start span) bytes))"
    obtain chosen where c: "set chosen \<subseteq> set spans" "ascending ?stop chosen"
      "redact_spans dg bytes spans ?stop ?out (saturating_add hits 1) =
        (?out @ weave dg bytes chosen ?stop, ((\<lambda>h. saturating_add h 1) ^^ length chosen) (saturating_add hits 1))"
      "\<forall>span \<in> set spans. span \<in> set chosen \<or> span_start span < ?stop \<or>
         (\<exists>c \<in> set chosen. span_start c \<le> span_start span \<and> span_start span < span_start c + span_len c)"
      using Cons.IH [OF Cons.prems(1) rest span(3,1) asc, of ?out "saturating_add hits 1"] by blast
    have "utf8_ok (take (span_start span - at) (drop at bytes))"
      using utf8_between [OF Cons.prems(1,3) span(2)] False by simp
    then have step: "redact_spans dg bytes (span # spans) at out hits =
        redact_spans dg bytes spans ?stop ?out (saturating_add hits 1)"
      using False span(1) by (simp add: from_utf8_def Let_def)
    have seen: "\<forall>s \<in> set (span # spans). s \<in> set (span # chosen) \<or> span_start s < at \<or>
        (\<exists>c \<in> set (span # chosen). span_start c \<le> span_start s \<and> span_start s < span_start c + span_len c)"
    proof
      fix s assume s: "s \<in> set (span # spans)"
      then have "s = span \<or> s \<in> set spans \<and> span_start span \<le> span_start s" using Cons.prems(5) by auto
      then show "s \<in> set (span # chosen) \<or> span_start s < at \<or>
          (\<exists>c \<in> set (span # chosen). span_start c \<le> span_start s \<and> span_start s < span_start c + span_len c)"
        using c(4) by auto
    qed
    have swap: "((\<lambda>h. saturating_add h 1) ^^ n) (saturating_add hits 1) =
        saturating_add (((\<lambda>h. saturating_add h 1) ^^ n) hits) 1" for n
      by (induction n) simp_all
    show ?thesis unfolding step c(3)
      by (intro exI [of _ "span # chosen"]) (use c(1,2) False seen in \<open>auto simp: swap\<close>)
  qed
qed

lemma redact_clean: "scan_secrets text = [] \<Longrightarrow> redact_text dg text = (text, 0)"
  by (simp add: redact_text_def)

text \<open>
  The detector's spans are sorted, within the text and made of bytes below 128, so they start
  and end at code points: what is written is the text with a marker for every span but those
  that start inside another.
\<close>

lemma boundary_ascii:
  assumes "k < length bytes" "byte (bytes ! k) < 128"
  shows "is_char_boundary bytes k"
  using assms by (simp add: is_char_boundary_def cont_byte_def)

lemma boundary_after_ascii:
  assumes "utf8_ok bytes" "k < length bytes" "byte (bytes ! k) < 128" "is_char_boundary bytes k"
  shows "is_char_boundary bytes (Suc k)"
proof (cases "Suc k = length bytes")
  case False
  then have k: "Suc k < length bytes" using assms(2) by simp
  have "utf8_ok (take k bytes)" by (rule utf8_ok_take [OF assms(1,4)])
  then have "utf8_ok (drop k bytes)" using utf8_ok_append [of "take k bytes" "drop k bytes"] assms(1) by simp
  moreover have d: "drop k bytes = bytes ! k # drop (Suc k) bytes" using assms(2) by (simp add: Cons_nth_drop_Suc)
  moreover have "code_point_len (drop k bytes) = Some 1"
    using assms(3) by (simp add: d code_point_len_iff lead_len_def)
  ultimately have "utf8_ok (drop (Suc k) bytes)" using utf8_ok_step by fastforce
  then obtain n where "code_point_len (drop (Suc k) bytes) = Some n"
    using utf8_ok_point [of "drop (Suc k) bytes"] k by auto
  then have "0 < lead_len (bytes ! Suc k)" using k by (simp add: code_point_len_iff hd_drop_conv_nth)
  then have "\<not> cont_byte (bytes ! Suc k)"
    by (auto simp: lead_len_def cont_byte_def byte_in_def split: if_splits)
  then show ?thesis using k by (simp add: is_char_boundary_def)
qed (simp add: is_char_boundary_def)

lemma boundary_run:
  assumes "utf8_ok bytes" "is_char_boundary bytes k"
  shows "k + n \<le> length bytes \<Longrightarrow> \<forall>i < n. byte (bytes ! (k + i)) < 128 \<Longrightarrow> is_char_boundary bytes (k + n)"
proof (induction n)
  case (Suc n)
  then have "is_char_boundary bytes (k + n)" "k + n < length bytes" "byte (bytes ! (k + n)) < 128" by auto
  from boundary_after_ascii [OF assms(1) this(2,3,1)] show ?case by simp
qed (use assms(2) in simp)

lemma ascii_char: "is_ascii_alphanumeric c \<Longrightarrow> byte c < 128"
  by (auto simp: is_ascii_alphanumeric_def is_ascii_lower_def is_ascii_upper_def is_digit_def byte_def less_eq_char_def)

lemma charset_ascii: "charset_admits cs c \<Longrightarrow> byte c < 128"
  by (cases cs)
    (auto simp: charset_admits_def is_ascii_upper_def is_digit_def byte_def less_eq_char_def dest: ascii_char)

lemma token_ascii: "token_byte c \<Longrightarrow> byte c < 128"
  by (auto simp: token_byte_def byte_def dest: ascii_char)

lemma shapes_ascii:
  "list_all (\<lambda>sh. list_all (\<lambda>c. of_char c < (128 :: nat)) (shape_prefix sh) \<and> 0 < len_max sh) secret_shapes"
  by code_simp

lemma shaped_ascii:
  assumes "sh \<in> set secret_shapes" "prefix (shape_prefix sh) (drop i bytes)" "k < token_length sh bytes i"
  shows "byte (bytes ! (i + k)) < 128"
proof -
  let ?p = "shape_prefix sh" and ?rest = "drop (i + length (shape_prefix sh)) bytes"
  have ascii: "\<forall>c \<in> set ?p. byte c < 128" using shapes_ascii assms(1) by (auto simp: list_all_iff byte_def)
  obtain r where r: "drop i bytes = ?p @ r" using assms(2) by (auto simp: prefix_def)
  then have rest: "?rest = r" by (metis add.commute append_eq_conv_conj drop_drop)
  have len: "i < length bytes" 
  proof (rule ccontr)
    assume "\<not> i < length bytes"
    then have "?p = []" using r by simp
    then show False using shapes_resume_safely assms(1) by (auto simp: list_all_iff)
  qed
  have at: "bytes ! (i + k) = (?p @ r) ! k"
    using len r by (metis less_imp_le nth_drop)
  show ?thesis
  proof (cases "k < length ?p")
    case True
    then show ?thesis using ascii by (simp add: at nth_append)
  next
    case False
    then have k: "k - length ?p < length (takeWhile (charset_admits (charset sh)) r)"
      using assms(3) by (simp add: token_length_def run_length_def rest)
    then have "charset_admits (charset sh) (takeWhile (charset_admits (charset sh)) r ! (k - length ?p))"
      using nth_mem set_takeWhileD by fast
    then show ?thesis using False k charset_ascii by (simp add: at nth_append takeWhile_nth)
  qed
qed

lemma scan_span_ascii:
  assumes "h \<in> set (scan_secrets bytes)"
  shows "0 < span_len h" "\<forall>k < span_len h. byte (bytes ! (span_start h + k)) < 128"
proof -
  have "0 < span_len h \<and> (\<forall>k < span_len h. byte (bytes ! (span_start h + k)) < 128)"
    using scan_secrets_sound [OF assms]
  proof (elim disjE bexE exE)
    fix sh i assume sh: "sh \<in> set secret_shapes" and hit: "real_hit sh bytes h i"
    have "shape_prefix sh \<noteq> []" "0 < len_max sh"
      using shapes_resume_safely shapes_ascii sh by (auto simp: list_all_iff)
    then show ?thesis using hit shaped_ascii [OF sh, of i bytes]
      by (auto simp: real_hit_def hit_of_def token_length_def)
  next
    assume "entropy_span bytes h \<and> (\<forall>g \<in> set (find_shape_hits bytes). \<not> span_overlaps g (span_start h) (span_len h))"
    then have e: "span_start h + span_len h \<le> length bytes" "20 \<le> span_len h"
      "list_all token_byte (take (span_len h) (drop (span_start h) bytes))"
      by (auto simp: entropy_span_def Let_def)
    then show ?thesis using token_ascii by (auto simp: list_all_length)
  qed
  then show "0 < span_len h" "\<forall>k < span_len h. byte (bytes ! (span_start h + k)) < 128" by auto
qed

lemma scan_whole_spans: "utf8_ok bytes \<Longrightarrow> whole_spans bytes (scan_secrets bytes)"
  unfolding whole_spans_def
proof (intro ballI conjI)
  fix h assume ok: "utf8_ok bytes" and h: "h \<in> set (scan_secrets bytes)"
  show within: "span_start h + span_len h \<le> length bytes" by (rule scan_secrets_within [OF h])
  note ascii = scan_span_ascii [OF h]
  show start: "is_char_boundary bytes (span_start h)"
    using ascii within by (intro boundary_ascii) (auto dest: spec [of _ 0])
  show "is_char_boundary bytes (span_start h + span_len h)"
    by (rule boundary_run [OF ok start within ascii(2)])
qed

lemma redact_text_woven:
  assumes "utf8_ok text"
  shows "\<exists>chosen. set chosen \<subseteq> set (scan_secrets text) \<and> ascending 0 chosen \<and>
    fst (redact_text dg text) = weave dg text chosen 0 \<and>
    (\<forall>span \<in> set (scan_secrets text). \<exists>c \<in> set chosen.
       span_start c \<le> span_start span \<and> span_start span < span_start c + span_len c)"
proof (cases "scan_secrets text = []")
  case True
  then show ?thesis by (intro exI [of _ "[]"]) (simp add: redact_clean)
next
  case False
  have "sorted (map fst (map span_key (scan_secrets text)))"
    using scan_secrets_sorted by (auto simp: sorted_iff_nth_mono less_eq_prod_def dest: less_imp_le)
  then have asc: "sorted (map span_start (scan_secrets text))" by (simp add: comp_def span_key_def)
  have start: "is_char_boundary text 0" by (simp add: is_char_boundary_def)
  obtain chosen where c: "set chosen \<subseteq> set (scan_secrets text)" "ascending 0 chosen"
    "redact_spans dg text (scan_secrets text) 0 [] 0 =
      ([] @ weave dg text chosen 0, ((\<lambda>h. saturating_add h 1) ^^ length chosen) 0)"
    "\<forall>span \<in> set (scan_secrets text). span \<in> set chosen \<or> span_start span < 0 \<or>
       (\<exists>c \<in> set chosen. span_start c \<le> span_start span \<and> span_start span < span_start c + span_len c)"
    using redact_spans_woven [OF assms scan_whole_spans [OF assms] start le0 asc, of dg "[]" 0] by blast
  have "\<exists>c \<in> set chosen. span_start c \<le> span_start span \<and> span_start span < span_start c + span_len c"
    if "span \<in> set (scan_secrets text)" for span
    using c(4) that scan_span_ascii(1) [OF that] by fastforce
  then show ?thesis using c(1-3) False
    by (intro exI [of _ chosen]) (simp add: redact_text_def Let_def)
qed

end
