(* ===== verification/Turns.thy ===== *)
theory Turns
  imports Prefixes Redactions Acts
begin

text \<open>
  One turn of a run (\<open>crates/runtime/src/turn.rs\<close>): assemble, call, execute, record, with an
  interrupt consumed only between the phases. The ledger is anything with an append
  operation; the model, the tools and the clock are operations of the caller's own state.
  How serde encodes a kind, reads blocks and prints JSON text are parameters.
\<close>

section \<open>What a turn works with\<close>

datatype interrupt = NoInterrupt | CancelNow | Steer string string

record call_shape =
  shape_model :: string
  shape_max_tokens :: u64
  shape_effort :: "effort option"

record serde =
  sd_blocks :: block_reader
  sd_kind :: "event_kind \<Rightarrow> (string, json) result"
  sd_kind_debug :: "event_kind \<Rightarrow> string"
  sd_text :: "json \<Rightarrow> string"
  sd_run_text :: "run_id \<Rightarrow> string"
  sd_digest :: hasher

type_synonym 'l appender = "event_draft \<Rightarrow> (ax_error, 'l, event_ref) act"

record 'o model_port =
  model_call :: "model_request \<Rightarrow> (ax_error, 'o, model_return) act"
  model_stream :: "model_request \<Rightarrow> (string \<Rightarrow> 'o \<Rightarrow> 'o) \<Rightarrow> (ax_error, 'o, model_return) act"

text \<open>
  A ledger is borrowed exclusively while a turn runs, so the caller's operations work on a
  state of their own.
\<close>

record ('l, 'o) world =
  the_ledger :: 'l
  outside :: 'o

definition on_ledger :: "(ax_error, 'l, 'a) act \<Rightarrow> (ax_error, ('l, 'o, 'z) world_scheme, 'a) act" where
  "on_ledger m w = (case m (the_ledger w) of (r, l) \<Rightarrow> (r, w\<lparr>the_ledger := l\<rparr>))"

definition on_outside :: "(ax_error, 'o, 'a) act \<Rightarrow> (ax_error, ('l, 'o, 'z) world_scheme, 'a) act" where
  "on_outside m w = (case m (outside w) of (r, s) \<Rightarrow> (r, w\<lparr>outside := s\<rparr>))"

text \<open>A phase advances or the turn ends at its boundary.\<close>

datatype 'n phase_outcome = Advanced 'n | TurnCancelled "event_ref list"

record 's turn =
  turn_run :: run_id
  turn_who :: string
  turn_t :: time_ms
  turn_refs :: "event_ref list"
  turn_state :: 's

record calling =
  calling_segments :: "b3_hash list"
  calling_chat :: chat_request

record tool_wave =
  wave_calls :: "tool_call list"
  wave_returned :: event_ref
  wave_assistant :: "content_block list"

record recording =
  rec_returned :: event_ref
  rec_calls_made :: nat
  rec_assistant :: "content_block list"
  rec_wave_results :: "content_block list"

record turn_report =
  report_refs :: "event_ref list"
  report_returned :: event_ref
  report_calls_made :: nat
  report_assistant :: "content_block list"
  report_wave_results :: "content_block list"

section \<open>The error shape as JSON\<close>

definition gate_json :: "gate_refusal \<Rightarrow> json" where
  "gate_json g = JObject (obj [(''rule'', jstr (rule g)), (''violation'', jstr (violation g)),
     (''alternative'', jstr (alternative g))])"

definition error_fields :: "ax_error \<Rightarrow> (string \<times> json) list" where
  "error_fields e = obj
     ([(''code'', jstr (as_str (code e))), (''action'', jstr (action e)), (''subject'', jstr (subject e)),
       (''nearby'', JArray (map jstr (nearby e))), (''recovery'', jstr (recovery e)),
       (''retriable'', JBool (retriable e))] @
      (case gate e of None \<Rightarrow> [] | Some g \<Rightarrow> [(''gate'', gate_json g)]))"

lemma error_fields_free: "float_free (JObject (error_fields e))"
proof -
  have "float_free (gate_json g)" for g
    unfolding gate_json_def by (rule obj_float_free) (simp add: jstr_def)
  then show ?thesis unfolding error_fields_def
    by (intro obj_float_free) (auto simp: jstr_def split: option.splits)
qed

section \<open>The phases\<close>

definition turn_begin :: "run_id \<Rightarrow> string \<Rightarrow> time_ms \<Rightarrow> unit turn" where
  "turn_begin run who t = \<lparr>turn_run = run, turn_who = who, turn_t = t, turn_refs = [], turn_state = ()\<rparr>"

definition turn_draft :: "('s, 'z) turn_scheme \<Rightarrow> event_kind \<Rightarrow> payload \<Rightarrow> event_draft" where
  "turn_draft turn kind data =
     \<lparr>d_run = turn_run turn, d_t = turn_t turn, d_who = turn_who turn, d_addr = None, d_kind = kind,
      d_data = data, d_ig = False\<rparr>"

text \<open>The same turn in another phase.\<close>

definition next_phase :: "'s turn \<Rightarrow> 'n \<Rightarrow> 'n turn" where
  "next_phase turn s =
     \<lparr>turn_run = turn_run turn, turn_who = turn_who turn, turn_t = turn_t turn, turn_refs = turn_refs turn, turn_state = s\<rparr>"

definition noted :: "event_ref \<Rightarrow> 's turn \<Rightarrow> 's turn" where
  "noted r turn = turn\<lparr>turn_refs := turn_refs turn @ [r]\<rparr>"

definition tell :: "'l appender \<Rightarrow> 's turn \<Rightarrow> event_kind \<Rightarrow> (ax_error, payload) result \<Rightarrow>
    (ax_error, ('l, 'o, 'z) world_scheme, event_ref) act" where
  "tell app turn kind data = and_then (of_result data) (\<lambda>p. on_ledger (app (turn_draft turn kind p)))"

definition consume_boundary :: "'l appender \<Rightarrow> interrupt \<Rightarrow> 's turn \<Rightarrow>
    (ax_error, ('l, 'o, 'z) world_scheme, 's turn phase_outcome) act" where
  "consume_boundary app i turn =
     (case i of
        NoInterrupt \<Rightarrow> ret (Advanced turn)
      | CancelNow \<Rightarrow>
          and_then (tell app turn CancelReceived (Inr payload_empty)) (\<lambda>echo.
            ret (TurnCancelled (turn_refs (noted echo turn))))
      | Steer source txt \<Rightarrow>
          and_then (tell app turn SteerReceived (payload_new (obj [(''source'', jstr source), (''text'', jstr txt)])))
            (\<lambda>echo. ret (Advanced (noted echo turn))))"

text \<open>What a phase does once its boundary was passed.\<close>

definition past_boundary :: "'l appender \<Rightarrow> interrupt \<Rightarrow> 's turn \<Rightarrow>
    ('s turn \<Rightarrow> (ax_error, ('l, 'o, 'z) world_scheme, 'n phase_outcome) act) \<Rightarrow>
    (ax_error, ('l, 'o, 'z) world_scheme, 'n phase_outcome) act" where
  "past_boundary app i turn body =
     and_then (consume_boundary app i turn) (\<lambda>passed.
       case passed of TurnCancelled refs \<Rightarrow> ret (TurnCancelled refs) | Advanced turn \<Rightarrow> body turn)"

definition turn_assemble :: "'l appender \<Rightarrow> interrupt \<Rightarrow> frozen_prefix \<Rightarrow> window \<Rightarrow> tool_def list \<Rightarrow> call_shape \<Rightarrow>
    unit turn \<Rightarrow> (ax_error, ('l, 'o, 'z) world_scheme, calling turn phase_outcome) act" where
  "turn_assemble app i pre w tools shape turn =
     past_boundary app i turn (\<lambda>turn.
       and_then (tell app turn PromptAssembled (prompt_payload pre)) (\<lambda>echo.
       and_then (of_result (system_blocks pre)) (\<lambda>system.
       ret (Advanced (next_phase (noted echo turn)
         \<lparr>calling_segments = segment_hashes pre,
          calling_chat = \<lparr>chat_model = shape_model shape, chat_max_tokens = shape_max_tokens shape,
            chat_system = system, chat_messages = w, chat_tools = tools, chat_effort = shape_effort shape\<rparr>\<rparr>)))))"

definition called_payload :: "model_request \<Rightarrow> (ax_error, payload) result" where
  "called_payload req = payload_new (obj
     [(''segments'', JArray (map (\<lambda>h. jstr (b3_str h)) (req_segments req))),
      (''model'', jstr (chat_model (req_chat req)))])"

definition returned_fields :: "model_return \<Rightarrow> (string \<times> json) list" where
  "returned_fields r = obj
     ([(''message'', payload_json (ret_message r)), (''calls'', jnat (length (ret_calls r)))] @
      (case ret_usage r of None \<Rightarrow> [] | Some u \<Rightarrow> [(''usage'', usage_json u)]) @
      (case ret_stop r of None \<Rightarrow> [] | Some s \<Rightarrow> [(''stop'', jstr (stop_str s))]) @
      (case ret_billed r of None \<Rightarrow> [] | Some b \<Rightarrow> [(''billed_usd_micros'', JNumber (PosInt (usd_get b)))]))"

definition ask_model :: "'o model_port \<Rightarrow> (string \<Rightarrow> 'o \<Rightarrow> 'o) option \<Rightarrow> model_request \<Rightarrow> (ax_error, 'o, model_return) act" where
  "ask_model model deltas req =
     (case deltas of Some onto \<Rightarrow> model_stream model req onto | None \<Rightarrow> model_call model req)"

definition turn_call :: "serde \<Rightarrow> 'l appender \<Rightarrow> interrupt \<Rightarrow> 'o model_port \<Rightarrow> building_policy \<Rightarrow>
    (string \<Rightarrow> 'o \<Rightarrow> 'o) option \<Rightarrow> calling turn \<Rightarrow>
    (ax_error, ('l, 'o, 'z) world_scheme, tool_wave turn phase_outcome) act" where
  "turn_call sd app i model policy deltas turn =
     past_boundary app i turn (\<lambda>turn.
       let req = \<lparr>req_policy = policy, req_segments = calling_segments (turn_state turn),
                  req_chat = calling_chat (turn_state turn)\<rparr> in
       and_then (tell app turn ModelCalled (called_payload req)) (\<lambda>echo.
       and_then (on_outside (ask_model model deltas req)) (\<lambda>back.
       and_then (of_result (content_from_message (sd_blocks sd) (ret_message back))) (\<lambda>assistant.
       let turn = noted echo turn; (returned, redacted) = redact (sd_digest sd) (returned_fields back) in
       and_then (tell app turn ModelReturned (payload_new returned)) (\<lambda>echo.
       ret (Advanced (next_phase (noted echo turn)
         \<lparr>wave_calls = ret_calls back, wave_returned = echo, wave_assistant = assistant\<rparr>)))))))"

definition tool_called_payload :: "tool_call \<Rightarrow> (ax_error, payload) result" where
  "tool_called_payload c = payload_new (obj
     [(''id'', jstr (call_id c)), (''name'', jstr (tool_str (call_name c))), (''args'', payload_json (call_args c))])"

text \<open>What a tool answered, for the ledger and for the window.\<close>

definition tool_result_fields :: "tool_call \<Rightarrow> (ax_error, payload) result \<Rightarrow> (string \<times> json) list" where
  "tool_result_fields c answer = obj
     [(''tool_use_id'', jstr (call_id c)), (''name'', jstr (tool_str (call_name c))),
      (case answer of Inr outcome \<Rightarrow> (''result'', payload_json outcome)
                    | Inl err \<Rightarrow> (''error'', JObject (error_fields err)))]"

definition tool_result_block :: "serde \<Rightarrow> tool_call \<Rightarrow> (ax_error, payload) result \<Rightarrow> content_block" where
  "tool_result_block sd c answer =
     (case answer of
        Inr outcome \<Rightarrow> ToolResultBlock (call_id c) (sd_text sd (payload_json outcome)) False
      | Inl err \<Rightarrow> ToolResultBlock (call_id c) (sd_text sd (JObject (error_fields err))) True)"

text \<open>A tool's failure is its answer, not the turn's.\<close>

definition answered :: "(ax_error, 'o, payload) act \<Rightarrow> (ax_error, 'o, (ax_error, payload) result) act" where
  "answered m s = (case m s of (r, s') \<Rightarrow> (Inr r, s'))"

fun run_calls :: "serde \<Rightarrow> 'l appender \<Rightarrow> (tool_call \<Rightarrow> (ax_error, 'o, payload) act) \<Rightarrow> tool_call list \<Rightarrow>
    content_block list \<Rightarrow> tool_wave turn \<Rightarrow>
    (ax_error, ('l, 'o, 'z) world_scheme, tool_wave turn \<times> content_block list) act" where
  "run_calls sd app invoke [] results turn = ret (turn, results)"
| "run_calls sd app invoke (c # cs) results turn =
     and_then (tell app turn ToolCalled (tool_called_payload c)) (\<lambda>echo.
     and_then (on_outside (answered (invoke c))) (\<lambda>answer.
     let turn = noted echo turn in
     and_then (tell app turn ToolResult (payload_new (tool_result_fields c answer))) (\<lambda>echo.
     run_calls sd app invoke cs (results @ [tool_result_block sd c answer]) (noted echo turn))))"

definition turn_execute :: "serde \<Rightarrow> 'l appender \<Rightarrow> interrupt \<Rightarrow> (tool_call \<Rightarrow> (ax_error, 'o, payload) act) \<Rightarrow>
    tool_wave turn \<Rightarrow> (ax_error, ('l, 'o, 'z) world_scheme, recording turn phase_outcome) act" where
  "turn_execute sd app i invoke turn =
     past_boundary app i turn (\<lambda>turn.
       let calls = wave_calls (turn_state turn) in
       and_then (run_calls sd app invoke calls [] turn) (\<lambda>(turn, results).
       ret (Advanced (next_phase turn
         \<lparr>rec_returned = wave_returned (turn_state turn), rec_calls_made = length calls,
          rec_assistant = wave_assistant (turn_state turn), rec_wave_results = results\<rparr>))))"

definition turn_record :: "'l appender \<Rightarrow> interrupt \<Rightarrow> recording turn \<Rightarrow>
    (ax_error, ('l, 'o, 'z) world_scheme, turn_report phase_outcome) act" where
  "turn_record app i turn =
     past_boundary app i turn (\<lambda>turn.
       ret (Advanced
         \<lparr>report_refs = turn_refs turn, report_returned = rec_returned (turn_state turn),
          report_calls_made = rec_calls_made (turn_state turn), report_assistant = rec_assistant (turn_state turn),
          report_wave_results = rec_wave_results (turn_state turn)\<rparr>))"

end
