(* ===== verification/Handoffs.thy ===== *)
theory Handoffs
  imports Json_Objects
begin

text \<open>
  What a frozen run leaves its successor (\<open>crates/runtime/src/handoff.rs\<close>): five sections, the
  first of which is a non-empty list of locators, and the seed a successor starts from.
\<close>

record handoff =
  must_read :: "locator list"
  overview :: string
  progress_note :: string
  context_note :: string
  next_step :: string

definition handoff_new :: "locator list \<Rightarrow> string \<Rightarrow> string \<Rightarrow> string \<Rightarrow> string \<Rightarrow> (ax_error, handoff) result" where
  "handoff_new locs over prog ctx step =
     (if locs = []
      then Inl (with_recovery (''list the locators the successor must read before working; '' @
                  ''norms are machine-filled, add only this run's specifics'')
             (failure InvalidArgs ''construct handoff'' ''empty must-read list''))
      else Inr \<lparr>must_read = locs, overview = over, progress_note = prog, context_note = ctx, next_step = step\<rparr>)"

definition handoff_payload :: "handoff \<Rightarrow> (ax_error, payload) result" where
  "handoff_payload h = payload_new (obj
     [(''must_read'', JArray (map (\<lambda>l. jstr (locator_str l)) (must_read h))),
      (''overview'', jstr (overview h)), (''progress'', jstr (progress_note h)),
      (''context'', jstr (context_note h)), (''next_step'', jstr (next_step h))])"

record resume_seed =
  seed_run :: run_id
  seed_must_read :: "locator list"

definition resume :: "handoff \<Rightarrow> run_id \<Rightarrow> resume_seed" where
  "resume h new_run = \<lparr>seed_run = new_run, seed_must_read = must_read h\<rparr>"

section \<open>A handoff reads back\<close>

text \<open>How a successor reads the locators of a recorded handoff.\<close>

fun parse_all :: "json list \<Rightarrow> locator list option" where
  "parse_all [] = Some []"
| "parse_all (v # vs) =
     (case as_string v of
        None \<Rightarrow> None
      | Some raw \<Rightarrow>
          (case locator_parse raw of
             Inl _ \<Rightarrow> None
           | Inr l \<Rightarrow> map_option ((#) l) (parse_all vs)))"

lemma handoff_payload_total: "\<exists>p. handoff_payload h = Inr p"
proof -
  have "float_free (JObject (obj [(''must_read'', JArray (map (\<lambda>l. jstr (locator_str l)) (must_read h))),
      (''overview'', jstr (overview h)), (''progress'', jstr (progress_note h)),
      (''context'', jstr (context_note h)), (''next_step'', jstr (next_step h))]))"
    by (rule obj_float_free) (simp add: jstr_def)
  then show ?thesis by (simp add: handoff_payload_def payload_new_def reject_floats_None(3) [THEN iffD2])
qed

lemma parse_all_drawn: "list_all locator_ok ls \<Longrightarrow> parse_all (map (\<lambda>l. jstr (locator_str l)) ls) = Some ls"
proof (induction ls)
  case (Cons l ls)
  then have "locator_parse (locator_str l) = Inr l" by (simp add: locator_parse_iff)
  with Cons show ?case by simp
qed simp

lemma handoff_reads_back:
  assumes "handoff_payload h = Inr p" "list_all locator_ok (must_read h)"
  shows "\<exists>vs. bt_get (payload_fields p) ''must_read'' = Some (JArray vs) \<and>
    parse_all vs = Some (seed_must_read (resume h new_run))"
  using assms parse_all_drawn [OF assms(2)]
  by (auto simp: handoff_payload_def payload_new_def obj_get resume_def split: option.splits)

end
