(* ===== verification/Runs.thy ===== *)
theory Runs
  imports Turns Handoffs Verdicts Budgets
begin

text \<open>
  The run driver (\<open>crates/runtime/src/run.rs\<close>): dispatch, turns until an ending, freeze. What
  the driver cannot decide for itself are the hooks: the clock, what arrived at a safe point,
  the fence before a wave, and the tools.
\<close>

section \<open>The plan, the hooks and the run\<close>

record skill_pin =
  pin_name :: string
  pin_hash :: b3_hash

record run_plan =
  plan_run_id :: run_id
  plan_who :: string
  plan_addr :: address
  plan_task :: string
  plan_goal :: string
  plan_opening :: first_words
  plan_job :: locator
  plan_parent :: "run_id option"
  plan_budget_turns :: u32
  plan_budget :: budget_cap
  plan_shape :: call_shape
  plan_prefix :: frozen_prefix
  plan_policy :: building_policy
  plan_tools :: "tool_def list"
  plan_skills :: "skill_pin list"

datatype safe_point = BeforeAssemble u32 | BeforeCall u32 | BeforeWave u32 | BeforeSpawn u32

datatype advance_outcome = Turned | Concluded completion

record 'o run_hooks =
  hook_now :: "(ax_error, 'o, time_ms) act"
  hook_interrupt :: "safe_point \<Rightarrow> 'o \<Rightarrow> interrupt \<times> 'o"
  hook_fence :: "(time_ms \<Rightarrow> (ax_error, 'o, payload) act) option"
  hook_invoke :: "tool_call \<Rightarrow> time_ms \<Rightarrow> (ax_error, 'o, payload) act"
  hook_deltas :: "(string \<Rightarrow> 'o \<Rightarrow> 'o) option"

text \<open>An active run is part of the world its turns change; a failed turn leaves it changed.\<close>

record ('l, 'o) run_world = "('l, 'o) world" +
  run_window :: window
  run_turns :: u32
  run_last_t :: "time_ms option"

type_synonym ('l, 'o, 'a) run_act = "(ax_error, ('l, 'o) run_world, 'a) act"

record frozen_run =
  frozen_plan :: run_plan
  frozen_completion :: completion
  frozen_turns :: u32

definition fold_steer :: "window \<Rightarrow> interrupt \<Rightarrow> window" where
  "fold_steer w i = (case i of Steer source txt \<Rightarrow> push_steer source txt w | _ \<Rightarrow> w)"

section \<open>Dispatch\<close>

definition city_draft :: "run_id \<Rightarrow> address \<Rightarrow> time_ms \<Rightarrow> event_kind \<Rightarrow> payload \<Rightarrow> event_draft" where
  "city_draft run addr t kind data =
     \<lparr>d_run = run, d_t = t, d_who = ''city'', d_addr = Some addr, d_kind = kind, d_data = data, d_ig = False\<rparr>"

definition started_fields :: "serde \<Rightarrow> run_plan \<Rightarrow> (string \<times> json) list" where
  "started_fields sd p = obj
     ([(''task'', jstr (plan_task p)), (''goal'', jstr (plan_goal p)), (''job'', jstr (locator_str (plan_job p)))] @
      (case plan_parent p of None \<Rightarrow> [] | Some parent \<Rightarrow> [(''parent'', jstr (sd_run_text sd parent))]) @
      [(''usd_micros'', JNumber (PosInt (usd_get (cap_usd (plan_budget p))))),
       (''tokens'', JNumber (PosInt (tokens_get (cap_tokens (plan_budget p))))),
       (''skills'', JArray (map (\<lambda>pin. JObject (obj
          [(''name'', jstr (pin_name pin)), (''hash'', jstr (b3_str (pin_hash pin)))])) (plan_skills p)))])"

definition dispatch :: "serde \<Rightarrow> 'l appender \<Rightarrow> 'o run_hooks \<Rightarrow> run_plan \<Rightarrow> ('l, 'o, unit) run_act" where
  "dispatch sd app hooks p =
     and_then (on_outside (hook_now hooks)) (\<lambda>pin_t.
     and_then (of_result (payload_new (obj [(''job'', jstr (locator_str (plan_job p)))]))) (\<lambda>pin.
     and_then (on_ledger (app (city_draft run_city (plan_addr p) pin_t CheckpointCommitted pin))) (\<lambda>_.
     and_then (on_outside (hook_now hooks)) (\<lambda>start_t.
     and_then (of_result (payload_new (started_fields sd p))) (\<lambda>started.
     and_then (on_ledger (app (city_draft (plan_run_id p) (plan_addr p) start_t RunStarted started))) (\<lambda>_ w.
     (Inr (), w\<lparr>run_window := push_task_lines (plan_task p) (plan_goal p) (plan_opening p) window_new,
               run_turns := 0, run_last_t := None\<rparr>)))))))"

section \<open>One turn\<close>

text \<open>What arrived at a safe point, folded into the window.\<close>

definition at_safe_point :: "'o run_hooks \<Rightarrow> safe_point \<Rightarrow> ('l, 'o, interrupt) run_act" where
  "at_safe_point hooks sp w =
     (case hook_interrupt hooks sp (outside w) of
        (i, s) \<Rightarrow> (Inr i, w\<lparr>outside := s, run_window := fold_steer (run_window w) i\<rparr>))"

definition put_fence :: "'l appender \<Rightarrow> 'o run_hooks \<Rightarrow> run_plan \<Rightarrow> time_ms \<Rightarrow> ('l, 'o, unit) run_act" where
  "put_fence app hooks p t =
     (case hook_fence hooks of
        None \<Rightarrow> ret ()
      | Some fence \<Rightarrow>
          and_then (on_outside (fence t)) (\<lambda>committed.
          and_then (on_ledger (app
            \<lparr>d_run = plan_run_id p, d_t = t, d_who = plan_who p, d_addr = Some (plan_addr p),
             d_kind = CheckpointCommitted, d_data = committed, d_ig = False\<rparr>)) (\<lambda>_. ret ())))"

text \<open>A cancelled phase concludes the run; an advanced one goes on.\<close>

definition unless_cancelled :: "(ax_error, 'w, 'n phase_outcome) act \<Rightarrow> ('n \<Rightarrow> (ax_error, 'w, advance_outcome) act) \<Rightarrow>
    (ax_error, 'w, advance_outcome) act" where
  "unless_cancelled phase body =
     and_then phase (\<lambda>outcome.
       case outcome of TurnCancelled _ \<Rightarrow> ret (Concluded Cancelled) | Advanced n \<Rightarrow> body n)"

definition settle_turn :: "serde \<Rightarrow> turn_report \<Rightarrow> ('l, 'o, advance_outcome) run_act" where
  "settle_turn sd report w =
     (let w = w\<lparr>run_turns := saturating_add (run_turns w) 1,
                run_window := push_tool_results (report_wave_results report)
                  (push_assistant (report_assistant report) (run_window w))\<rparr> in
      if report_calls_made report = 0
      then (case evidence_new (sd_kind_debug sd) [report_returned report] of
              Inl e \<Rightarrow> (Inl e, w)
            | Inr ev \<Rightarrow> (Inr (Concluded (CompletedWith ev)), w))
      else (Inr Turned, w))"

definition take_turn :: "serde \<Rightarrow> 'l appender \<Rightarrow> 'o model_port \<Rightarrow> 'o run_hooks \<Rightarrow> run_plan \<Rightarrow> u32 \<Rightarrow>
    ('l, 'o, advance_outcome) run_act" where
  "take_turn sd app model hooks p index =
     and_then (on_outside (hook_now hooks)) (\<lambda>t.
     and_then (\<lambda>w. (Inr (), w\<lparr>run_last_t := Some t\<rparr>)) (\<lambda>_.
     and_then (at_safe_point hooks (BeforeAssemble index)) (\<lambda>opening.
     unless_cancelled
       (\<lambda>w. turn_assemble app opening (plan_prefix p) (run_window w) (plan_tools p) (plan_shape p)
         (turn_begin (plan_run_id p) (plan_who p) t) w) (\<lambda>turn.
     and_then (at_safe_point hooks (BeforeCall index)) (\<lambda>calling.
     unless_cancelled (turn_call sd app calling model (plan_policy p) (hook_deltas hooks) turn) (\<lambda>turn.
     and_then (put_fence app hooks p t) (\<lambda>_.
     and_then (at_safe_point hooks (BeforeWave index)) (\<lambda>wave.
     unless_cancelled (turn_execute sd app wave (\<lambda>c. hook_invoke hooks c t) turn) (\<lambda>turn.
     and_then (at_safe_point hooks (BeforeSpawn index)) (\<lambda>settling.
     unless_cancelled (turn_record app settling turn) (settle_turn sd)))))))))))"

definition advance :: "serde \<Rightarrow> 'l appender \<Rightarrow> 'o model_port \<Rightarrow> 'o run_hooks \<Rightarrow> run_plan \<Rightarrow>
    ('l, 'o, advance_outcome) run_act" where
  "advance sd app model hooks p w = take_turn sd app model hooks p (run_turns w) w"

section \<open>Freezing\<close>

definition run_freeze :: "serde \<Rightarrow> 'l appender \<Rightarrow> 'o run_hooks \<Rightarrow> run_plan \<Rightarrow> handoff \<Rightarrow> completion \<Rightarrow>
    ('l, 'o, frozen_run) run_act" where
  "run_freeze sd app hooks p h c w =
     and_then (case (c, run_last_t w) of
                 (Cancelled, Some stamp) \<Rightarrow> ret stamp
               | _ \<Rightarrow> on_outside (hook_now hooks)) (\<lambda>t.
     and_then (of_result (handoff_payload h)) (\<lambda>handed.
     and_then (on_ledger (app
       \<lparr>d_run = plan_run_id p, d_t = t, d_who = plan_who p, d_addr = None, d_kind = HandoffWritten,
        d_data = handed, d_ig = False\<rparr>)) (\<lambda>_.
     and_then (of_result (case checked_add t 1 of
         Some closing \<Rightarrow> Inr closing
       | None \<Rightarrow> Inl (with_recovery ''check the clock the caller injected''
                   (failure InvalidArgs ''stamp run_frozen'' ''u64 overflow'')))) (\<lambda>closing.
     and_then (of_result (bind_r (extend_payload (sd_kind sd) c []) payload_new)) (\<lambda>frozen.
     and_then (on_ledger (app
       \<lparr>d_run = plan_run_id p, d_t = closing, d_who = plan_who p, d_addr = None, d_kind = RunFrozen,
        d_data = frozen, d_ig = False\<rparr>)) (\<lambda>_ w.
     (Inr \<lparr>frozen_plan = p, frozen_completion = c, frozen_turns = run_turns w\<rparr>, w))))))) w"

section \<open>What an operation leaves alone\<close>

definition spares :: "('s \<Rightarrow> 'b) \<Rightarrow> ('e, 's, 'a) act \<Rightarrow> bool" where
  "spares f m \<longleftrightarrow> (\<forall>s. f (snd (m s)) = f s)"

named_theorems leaving \<open>operations that leave a part of the state alone\<close>

lemma spares_ret [leaving]: "spares f (ret a)"
  by (simp add: spares_def ret_def)

lemma spares_of_result [leaving]: "spares f (of_result r)"
  by (cases r) (simp_all add: spares_def of_result_def ret_def fail_with_def)

lemma spares_then [leaving]: "spares f m \<Longrightarrow> (\<And>a. spares f (g a)) \<Longrightarrow> spares f (and_then m g)"
  by (simp add: spares_def and_then_def split: prod.split sum.split) (metis snd_conv)

lemma spares_phase [leaving]:
  "(\<And>refs. spares f (a refs)) \<Longrightarrow> (\<And>n. spares f (b n)) \<Longrightarrow>
   spares f (case x of TurnCancelled refs \<Rightarrow> a refs | Advanced n \<Rightarrow> b n)"
  by (cases x) auto

text \<open>What a run keeps beyond the ledger and the outside is out of reach of both.\<close>

definition beyond :: "(('l, 'o, 'z) world_scheme \<Rightarrow> 'b) \<Rightarrow> bool" where
  "beyond f \<longleftrightarrow> (\<forall>w l. f (w\<lparr>the_ledger := l\<rparr>) = f w) \<and> (\<forall>w s. f (w\<lparr>outside := s\<rparr>) = f w)"

lemma beyond_parts [leaving]: "beyond run_turns" "beyond run_last_t" "beyond run_window"
  by (simp_all add: beyond_def)

lemma spares_sides [leaving]: "beyond f \<Longrightarrow> spares f (on_ledger m)" "beyond f \<Longrightarrow> spares f (on_outside m')"
  by (simp_all add: spares_def beyond_def on_ledger_def on_outside_def split: prod.split)

lemma spares_safe_point [leaving]:
  "spares run_turns (at_safe_point hooks sp)" "spares run_last_t (at_safe_point hooks sp)"
  by (simp_all add: spares_def at_safe_point_def split: prod.split)

lemma spares_tell [leaving]: "beyond f \<Longrightarrow> spares f (tell app turn k d)"
  unfolding tell_def by (intro leaving)

lemma spares_boundary [leaving]:
  "beyond f \<Longrightarrow> (\<And>turn. spares f (body turn)) \<Longrightarrow> spares f (past_boundary app i turn body)"
  unfolding past_boundary_def consume_boundary_def by (cases i) (auto intro!: leaving)

lemma spares_calls [leaving]: "beyond f \<Longrightarrow> spares f (run_calls sd app invoke cs results turn)"
  by (induction cs arbitrary: results turn) (auto simp: Let_def intro!: leaving)

text \<open>The phases of a turn touch the ledger and the outside only.\<close>

lemma spares_phases [leaving]:
  assumes "beyond f"
  shows "spares f (turn_assemble app i pre w tools shape t1)"
    and "spares f (turn_call sd app i model policy deltas t2)"
    and "spares f (turn_execute sd app i invoke t3)"
    and "spares f (turn_record app i t4)"
  unfolding turn_assemble_def turn_call_def turn_execute_def turn_record_def Let_def
  by (auto intro!: leaving assms split: prod.split)

lemma spares_fence [leaving]: "beyond f \<Longrightarrow> spares f (put_fence app hooks p t)"
  by (auto simp: put_fence_def intro!: leaving split: option.split)

lemma spares_pick: "(\<And>x. spares f (m x)) \<Longrightarrow> spares f (\<lambda>w. m (g w) w)"
  by (simp add: spares_def)

section \<open>The loop\<close>

lemma spares_triple: "spares f m \<Longrightarrow> triple (\<lambda>w. f w = n) m (\<lambda>_ w. f w = n) (\<lambda>_ _. True)"
  by (auto simp: triple_def spares_def split: prod.split sum.split) (metis snd_conv)

lemma steps_then:
  "spares f m \<Longrightarrow> (\<And>a. triple (\<lambda>w. f w = n) (g a) Q (\<lambda>_ _. True)) \<Longrightarrow>
   triple (\<lambda>w. f w = n) (and_then m g) Q (\<lambda>_ _. True)"
  by (rule triple_then [OF spares_triple])

lemma triple_unless:
  assumes "triple P phase R E" "\<And>refs w. R (TurnCancelled refs) w \<Longrightarrow> Q (Concluded Cancelled) w"
    "\<And>n. triple (R (Advanced n)) (body n) Q E"
  shows "triple P (unless_cancelled phase body) Q E"
  unfolding unless_cancelled_def
proof (rule triple_then [OF assms(1)])
  fix x show "triple (R x) (case x of TurnCancelled _ \<Rightarrow> ret (Concluded Cancelled) | Advanced n \<Rightarrow> body n) Q E"
    using assms(2,3) by (cases x) (auto intro: triple_ret)
qed

lemma steps_unless:
  "spares f phase \<Longrightarrow> (\<And>x. triple (\<lambda>w. f w = n) (body x) Q (\<lambda>_ _. True)) \<Longrightarrow>
   (\<And>w. f w = n \<Longrightarrow> Q (Concluded Cancelled) w) \<Longrightarrow>
   triple (\<lambda>w. f w = n) (unless_cancelled phase body) Q (\<lambda>_ _. True)"
  by (rule triple_unless [OF spares_triple])

text \<open>A turn that neither ends the run nor fails is counted.\<close>

lemma take_turn_counts:
  "triple (\<lambda>w. run_turns w = n) (take_turn sd app model hooks p index)
     (\<lambda>a w. a = Turned \<longrightarrow> run_turns w = saturating_add n 1) (\<lambda>_ _. True)"
proof -
  have stamp: "spares run_turns (\<lambda>w. (Inr (), w\<lparr>run_last_t := x\<rparr>))" for x by (simp add: spares_def)
  have settle: "triple (\<lambda>w. run_turns w = n) (settle_turn sd report)
      (\<lambda>a w. a = Turned \<longrightarrow> run_turns w = saturating_add n 1) (\<lambda>_ _. True)" for report
    by (auto simp: triple_def settle_turn_def Let_def split: sum.split)
  have here: "spares run_turns (\<lambda>w. turn_assemble app i pre (run_window w) tools shape turn w)"
    for i pre tools shape turn
    by (rule spares_pick) (intro leaving)
  show ?thesis
    unfolding take_turn_def
    by (intro steps_then [where f = run_turns] steps_unless [where f = run_turns] leaving stamp settle here) simp_all
qed

lemma advance_counts:
  "advance sd app model hooks p w = (Inr Turned, w') \<Longrightarrow> run_turns w' = saturating_add (run_turns w) 1"
  using tripleD(2) [OF take_turn_counts [of "run_turns w"]] by (fastforce simp: advance_def)

text \<open>The failure of a turn whose code has a carrier event goes into history under it.\<close>

definition carry_failure :: "'l appender \<Rightarrow> 'o run_hooks \<Rightarrow> run_plan \<Rightarrow> ax_error \<Rightarrow> ('l, 'o, completion) run_act" where
  "carry_failure app hooks p err =
     (case carrier_of (code err) of
        Loadtime \<Rightarrow> fail_with err
      | CarrierEvent kind \<Rightarrow>
          and_then (on_outside (hook_now hooks)) (\<lambda>t.
          and_then (of_result (payload_new (error_fields err))) (\<lambda>data.
          and_then (on_ledger (app
            \<lparr>d_run = plan_run_id p, d_t = t, d_who = plan_who p, d_addr = Some (plan_addr p), d_kind = kind,
             d_data = data, d_ig = False\<rparr>)) (\<lambda>_. ret Cancelled))))"

lemma one_turn_more: "n < b \<Longrightarrow> unat (saturating_add n 1) = Suc (unat n)" for n b :: u32
proof -
  assume "n < b"
  then have "unat n < unat b" by (simp add: word_less_nat_alt)
  moreover have "unat b < 4294967296" using unsigned_less [of b, where 'a = nat] by (simp del: unsigned_less)
  ultimately have "unat n \<le> 4294967294" by linarith
  then show ?thesis by (simp add: unat_saturating_add)
qed

text \<open>The loop ends: a turn that goes on is counted, and the budget is a bound of the count.\<close>

function turn_loop :: "serde \<Rightarrow> 'l appender \<Rightarrow> 'o model_port \<Rightarrow> 'o run_hooks \<Rightarrow> run_plan \<Rightarrow>
    ('l, 'o, completion) run_act" where
  "turn_loop sd app model hooks p w =
     (if run_turns w < plan_budget_turns p
      then (case advance sd app model hooks p w of
              (Inr Turned, w') \<Rightarrow> turn_loop sd app model hooks p w'
            | (Inr (Concluded c), w') \<Rightarrow> (Inr c, w')
            | (Inl err, w') \<Rightarrow> carry_failure app hooks p err w')
      else (Inr Limit, w))"
  by pat_completeness auto

termination
  by (relation "measure (\<lambda>(sd, app, model, hooks, p, w). unat (plan_budget_turns p) - unat (run_turns w))")
    (auto dest!: advance_counts [OF sym] simp: one_turn_more word_less_nat_alt)

declare turn_loop.simps [simp del]

definition drive :: "serde \<Rightarrow> 'l appender \<Rightarrow> 'o model_port \<Rightarrow> 'o run_hooks \<Rightarrow> run_plan \<Rightarrow> handoff \<Rightarrow>
    'l \<Rightarrow> 'o \<Rightarrow> (ax_error, frozen_run) result \<times> 'l \<times> 'o" where
  "drive sd app model hooks p h l s =
     (case and_then (dispatch sd app hooks p) (\<lambda>_.
             and_then (turn_loop sd app model hooks p) (\<lambda>ending.
             run_freeze sd app hooks p h ending))
         \<lparr>the_ledger = l, outside = s, run_window = window_new, run_turns = 0, run_last_t = None\<rparr> of
        (r, w) \<Rightarrow> (r, the_ledger w, outside w))"

end
