(* ===== verification/Ledger_Ports.thy ===== *)
theory Ledger_Ports
  imports Turns Ledger_Sessions
begin

text \<open>
  The one write entrance to history (\<open>crates/kernel/src/ledger.rs\<close>): what an append promises,
  as a locale, and its two adapters, the durable ledger over the power-loss filesystem and
  the simulator's ledger in memory (\<open>citysim/src/mem_ledger.rs\<close>).
\<close>

section \<open>The contract\<close>

definition draft_of :: "event_record \<Rightarrow> event_draft" where
  "draft_of r = \<lparr>d_run = r_run r, d_t = r_t r, d_who = r_who r, d_addr = r_addr r, d_kind = r_kind r,
     d_data = r_data r, d_ig = r_ig r\<rparr>"

lemma draft_of_from [simp]: "draft_of (from_draft d s p) = d"
  by (simp add: draft_of_def from_draft_def)

text \<open>
  A success extends history by the record of the draft; a failure leaves it as it was, unless
  storage itself failed, which no event can carry.
\<close>

locale ledger_port =
  fixes app :: "'l appender" and shows_history :: "'l \<Rightarrow> event_record list \<Rightarrow> bool"
  assumes append_ok: "shows_history l rs \<Longrightarrow> app d l = (Inr r, l') \<Longrightarrow>
      \<exists>rec. shows_history l' (rs @ [rec]) \<and> draft_of rec = d \<and> to_ref rec = r"
    and append_err: "shows_history l rs \<Longrightarrow> app d l = (Inl e, l') \<Longrightarrow>
      shows_history l' rs \<or> carrier_of (code e) = Loadtime"
    and numbered: "shows_history l rs \<Longrightarrow> sorted_wrt (<) (map r_seq rs)"
begin

text \<open>A reference names one record of the history.\<close>

lemma reference_unique:
  assumes "shows_history l rs" "r \<in> set rs" "r' \<in> set rs" "to_ref r = to_ref r'"
  shows "r = r'"
proof -
  have "distinct (map r_seq rs)" using numbered [OF assms(1)] by (simp add: strict_sorted_iff)
  moreover have "r_seq r = r_seq r'" using assms(4) by (simp add: to_ref_def)
  ultimately show ?thesis using assms(2,3) by (meson distinct_map inj_onD)
qed

end

section \<open>The durable adapter\<close>

definition jsonl_append :: "third_party \<Rightarrow> (jsonl \<times> disk) appender" where
  "jsonl_append ext draft = (\<lambda>(l, d).
     case append ext l draft d of
       (Inl e, d') \<Rightarrow> (Inl e, (l, d'))
     | (Inr (l', r), d') \<Rightarrow> (Inr r, (l', d')))"

definition jsonl_shows :: "third_party \<Rightarrow> path \<Rightarrow> jsonl \<times> disk \<Rightarrow> event_record list \<Rightarrow> bool" where
  "jsonl_shows ext dir = (\<lambda>(l, d) rs.
     sound_parts ext \<and> (\<exists>lines. open_on ext dir lines l d \<and> map (parse_line ext) lines = map Inr rs))"

lemma chain_numbers:
  "chained parse h p s lines \<Longrightarrow> map parse lines = map Inr rs \<Longrightarrow> i < length rs \<Longrightarrow>
   r_seq (rs ! i) = s + of_nat i"
proof (induction lines arbitrary: p s rs i)
  case (Cons line lines)
  then obtain r rest where rs: "rs = r # rest" "parse line = Inr r" "map parse lines = map Inr rest"
    by (cases rs) auto
  have "r_seq r = s" using Cons.prems(1) rs(2) by (auto simp: continues_chain_def)
  then show ?case
    using Cons.IH [OF _ rs(3), of "h line" "s + 1" "i - 1"] Cons.prems rs(1)
    by (cases i) (simp_all add: ac_simps)
qed simp

lemma log_numbered:
  assumes "log_ok ext lines" "map (parse_line ext) lines = map Inr rs"
  shows "sorted_wrt (<) (map r_seq rs)"
proof -
  have len: "length rs \<le> u64_max" using assms by (metis length_map log_ok_def)
  have "unat (r_seq (rs ! i)) = i" if "i < length rs" for i
  proof -
    have "r_seq (rs ! i) = of_nat i"
      using chain_numbers [of "parse_line ext"] assms that by (auto simp: log_ok_def seq_first_def)
    moreover have "i < 18446744073709551616" using that len unfolding u64_max_def by linarith
    ultimately show ?thesis by (simp add: unsigned_of_nat take_bit_nat_eq_self)
  qed
  then show ?thesis by (simp add: sorted_wrt_iff_nth_less word_less_nat_alt)
qed

lemma io_storage: "io n p v d = (Inl e, d') \<Longrightarrow> carrier_of (code (into_ax e)) = Loadtime"
  by (auto simp: io_def split: prod.splits sum.splits)

lemma for_each_storage:
  assumes "\<And>x d e d'. f x d = (Inl e, d') \<Longrightarrow> carrier_of (code (into_ax e)) = Loadtime"
  shows "for_each f xs d = (Inl e, d') \<Longrightarrow> carrier_of (code (into_ax e)) = Loadtime"
proof (induction xs arbitrary: d)
  case (Cons x xs)
  then show ?case using assms by (auto simp: and_then_def split: prod.splits sum.splits)
qed (simp add: ret_def)

lemma commit_storage:
  assumes "commit_wave dir w d = (Inl e, d')"
  shows "carrier_of (code (into_ax e)) = Loadtime"
proof -
  have "for_each (\<lambda>(p, bytes). io ''append event line'' p (vfs_append p bytes)) ws d0 = (Inl e, d1) \<Longrightarrow>
      carrier_of (code (into_ax e)) = Loadtime"
    "for_each (\<lambda>(p, _). io ''sync segment'' p (vfs_sync_data p)) ws d0 = (Inl e, d1) \<Longrightarrow>
      carrier_of (code (into_ax e)) = Loadtime" for ws :: "(path \<times> string) list" and d0 d1 e
    by (rule for_each_storage; use io_storage in fastforce)+
  then show ?thesis using assms io_storage
    by (fastforce simp: commit_wave_def and_then_def ret_def split: prod.splits sum.splits if_splits)
qed

interpretation jsonl_port: ledger_port "jsonl_append ext" "jsonl_shows ext dir" for ext dir
proof unfold_locales
  fix l rs draft r l'
  assume at: "jsonl_shows ext dir l rs" and app: "jsonl_append ext draft l = (Inr r, l')"
  obtain j d where l: "l = (j, d)" by (cases l)
  from at obtain lines where ext: "sound_parts ext" and up: "open_on ext dir lines j d"
    and reads: "map (parse_line ext) lines = map Inr rs" by (auto simp: l jsonl_shows_def)
  from app obtain j' d' refs where a: "append_all ext j [draft] d = (Inr (j', r # refs), d')" "l' = (j', d')"
    by (auto simp: l jsonl_append_def append_def split: prod.splits sum.splits list.splits)
  obtain new recs where new: "open_on ext dir (lines @ new) j' d'" "map (parse_line ext) new = map Inr recs"
    "records_of [draft] recs" "r # refs = map to_ref recs"
    using append_all_outcome(1) [OF ext up a(1)] by (elim exE conjE) (rule that)
  obtain rec where rec: "recs = [rec]" using new(3) by (cases recs) (auto simp: records_of_def)
  then have "draft_of rec = draft" using new(3) by (auto simp: records_of_def)
  moreover have "jsonl_shows ext dir l' (rs @ [rec])"
    using new(1,2) rec reads ext a(2) by (auto simp: jsonl_shows_def intro!: exI [of _ "lines @ new"])
  ultimately show "\<exists>rec. jsonl_shows ext dir l' (rs @ [rec]) \<and> draft_of rec = draft \<and> to_ref rec = r"
    using new(4) rec by auto
next
  fix l rs draft e l'
  assume at: "jsonl_shows ext dir l rs" and app: "jsonl_append ext draft l = (Inl e, l')"
  obtain j d where l: "l = (j, d)" by (cases l)
  show "jsonl_shows ext dir l' rs \<or> carrier_of (code e) = Loadtime"
  proof (cases "append_all ext j [draft] d")
    case (Pair res d')
    show ?thesis
    proof (cases res)
      case (Inl src)
      then have l': "l' = (j, d')" "e = into_ax src" using app Pair by (auto simp: l jsonl_append_def append_def)
      from Pair Inl consider "d' = d" | w where "commit_wave (l_dir j) w d = (Inl src, d')"
        by (auto simp: append_all_def and_then_def ret_def split: prod.splits sum.splits)
      then show ?thesis using at l l' commit_storage by cases auto
    next
      case (Inr res')
      then obtain j' where "res = Inr (j', [])"
        using app Pair by (auto simp: l jsonl_append_def append_def split: prod.splits list.splits)
      moreover obtain lines where "sound_parts ext" "open_on ext dir lines j d"
        using at by (auto simp: l jsonl_shows_def)
      ultimately show ?thesis
        using append_all_outcome(1) [of ext dir lines j d "[draft]" j' "[]" d'] Pair by (auto simp: records_of_def)
    qed
  qed
next
  fix l rs assume "jsonl_shows ext dir l rs"
  then show "sorted_wrt (<) (map r_seq rs)"
    using log_numbered open_on_log by (fastforce simp: jsonl_shows_def)
qed

section \<open>The adapter in memory\<close>

record mem_ledger =
  mem_lines :: "string list"
  mem_next :: seq
  mem_prev :: b3_hash

definition mem_new :: mem_ledger where
  "mem_new = \<lparr>mem_lines = [], mem_next = seq_first, mem_prev = genesis_prev\<rparr>"

definition mem_append :: "line_writer \<Rightarrow> hasher \<Rightarrow> mem_ledger appender" where
  "mem_append canon dg draft m =
     (let r = from_draft draft (mem_next m) (mem_prev m) in
      case canon r of
        Inl e \<Rightarrow> (Inl e, m)
      | Inr line \<Rightarrow>
          (let m = m\<lparr>mem_prev := dg line\<rparr> in
           case seq_next (mem_next m) of
             Inl e \<Rightarrow> (Inl e, m)
           | Inr n \<Rightarrow> (Inr (to_ref r), m\<lparr>mem_next := n, mem_lines := mem_lines m @ [line]\<rparr>)))"

definition mem_shows :: "line_writer \<Rightarrow> mem_ledger \<Rightarrow> event_record list \<Rightarrow> bool" where
  "mem_shows canon m rs \<longleftrightarrow> map canon rs = map Inr (mem_lines m) \<and>
     sorted_wrt (<) (map r_seq rs) \<and> (\<forall>r \<in> set rs. r_seq r < mem_next m)"

lemma mem_new_empty: "mem_shows canon mem_new []"
  by (simp add: mem_shows_def mem_new_def)

interpretation mem_port: ledger_port "mem_append canon dg" "mem_shows canon" for canon dg
proof unfold_locales
  fix l rs draft r l'
  assume at: "mem_shows canon l rs" and app: "mem_append canon dg draft l = (Inr r, l')"
  let ?rec = "from_draft draft (mem_next l) (mem_prev l)"
  from app obtain line n where a: "canon ?rec = Inr line" "seq_next (mem_next l) = Inr n" "r = to_ref ?rec"
    "l' = l\<lparr>mem_prev := dg line, mem_next := n, mem_lines := mem_lines l @ [line]\<rparr>"
    by (auto simp: mem_append_def Let_def split: sum.splits)
  have n: "mem_next l < n" using a(2) by (simp add: seq_next_iff word_less_nat_alt)
  then have "mem_shows canon l' (rs @ [?rec])"
    using at a by (fastforce simp: mem_shows_def sorted_wrt_append from_draft_def)
  then show "\<exists>rec. mem_shows canon l' (rs @ [rec]) \<and> draft_of rec = draft \<and> to_ref rec = r"
    using a(3) by auto
next
  fix l rs draft e l'
  assume "mem_shows canon l rs" "mem_append canon dg draft l = (Inl e, l')"
  then show "mem_shows canon l' rs \<or> carrier_of (code e) = Loadtime"
    by (auto simp: mem_append_def Let_def mem_shows_def split: sum.splits)
qed (simp add: mem_shows_def)

end
