(* ===== verification/Run_Stories.thy ===== *)
theory Run_Stories
  imports Runs Ledger_Ports
begin

text \<open>
  The story a run leaves in history. A run goes through stages; every record it appends moves
  it from one stage to the next. The lemmas show, for any ledger that keeps the port's
  contract, that the driver tells such a story whatever the model, the tools and the clock do.
\<close>

section \<open>Stages and what is told in them\<close>

datatype (plugins only: code size) run_stage =
    Fresh | Pinned | Between
  | Began time_ms | Prompted time_ms | Asked time_ms | Answered time_ms | Fenced time_ms
  | InCall time_ms string | Worked time_ms
  | Halted | Handed time_ms | Ended

text \<open>A run's own records carry its id and its author; a turn's carry the turn's stamp.\<close>

definition of_run :: "run_plan \<Rightarrow> event_draft \<Rightarrow> bool" where
  "of_run p d \<longleftrightarrow> d_run d = plan_run_id p \<and> d_who d = plan_who p"

definition of_turn :: "run_plan \<Rightarrow> time_ms \<Rightarrow> event_draft \<Rightarrow> bool" where
  "of_turn p t d \<longleftrightarrow> of_run p d \<and> d_t d = t"

fun at_boundary :: "time_ms \<Rightarrow> run_stage \<Rightarrow> bool" where
  "at_boundary t (Began u) = (u = t)"
| "at_boundary t (Prompted u) = (u = t)"
| "at_boundary t (Answered u) = (u = t)"
| "at_boundary t (Fenced u) = (u = t)"
| "at_boundary t (Worked u) = (u = t)"
| "at_boundary t _ = False"

text \<open>A run that is under way: a failure may be carried here.\<close>

fun under_way :: "run_stage \<Rightarrow> bool" where
  "under_way Fresh = False"
| "under_way Pinned = False"
| "under_way Halted = False"
| "under_way (Handed t) = False"
| "under_way Ended = False"
| "under_way _ = True"

definition says :: "event_draft \<Rightarrow> string \<Rightarrow> string \<Rightarrow> bool" where
  "says d key v \<longleftrightarrow> bt_get (payload_fields (d_data d)) key = Some (jstr v)"

inductive telling :: "run_plan \<Rightarrow> run_stage \<Rightarrow> event_draft \<Rightarrow> run_stage \<Rightarrow> bool" for p where
  pins: "d_run d = run_city \<Longrightarrow> d_kind d = CheckpointCommitted \<Longrightarrow> telling p Fresh d Pinned"
| starts: "d_run d = plan_run_id p \<Longrightarrow> d_kind d = RunStarted \<Longrightarrow> telling p Pinned d Between"
| steers: "at_boundary t q \<Longrightarrow> of_turn p t d \<Longrightarrow> d_kind d = SteerReceived \<Longrightarrow> telling p q d q"
| cancels: "at_boundary t q \<Longrightarrow> of_turn p t d \<Longrightarrow> d_kind d = CancelReceived \<Longrightarrow> telling p q d Halted"
| prompts: "of_turn p t d \<Longrightarrow> d_kind d = PromptAssembled \<Longrightarrow> prompt_payload (plan_prefix p) = Inr (d_data d) \<Longrightarrow>
    telling p (Began t) d (Prompted t)"
| asks: "of_turn p t d \<Longrightarrow> d_kind d = ModelCalled \<Longrightarrow> telling p (Prompted t) d (Asked t)"
| answers: "of_turn p t d \<Longrightarrow> d_kind d = ModelReturned \<Longrightarrow> telling p (Asked t) d (Answered t)"
| fences: "of_turn p t d \<Longrightarrow> d_kind d = CheckpointCommitted \<Longrightarrow> telling p (Answered t) d (Fenced t)"
| calls: "q \<in> {Answered t, Fenced t, Worked t} \<Longrightarrow> of_turn p t d \<Longrightarrow> d_kind d = ToolCalled \<Longrightarrow>
    says d ''id'' i \<Longrightarrow> telling p q d (InCall t i)"
| results: "of_turn p t d \<Longrightarrow> d_kind d = ToolResult \<Longrightarrow> says d ''tool_use_id'' i \<Longrightarrow>
    telling p (InCall t i) d (Worked t)"
| carries: "under_way q \<Longrightarrow> of_run p d \<Longrightarrow> carrier_of c = CarrierEvent (d_kind d) \<Longrightarrow> telling p q d Halted"
| hands: "q = Between \<or> q = Halted \<Longrightarrow> of_turn p t d \<Longrightarrow> d_kind d = HandoffWritten \<Longrightarrow> telling p q d (Handed t)"
| closes: "of_turn p u d \<Longrightarrow> unat u = Suc (unat t) \<Longrightarrow> d_kind d = RunFrozen \<Longrightarrow> telling p (Handed t) d Ended"

text \<open>A turn begins and ends without a record of its own.\<close>

inductive passing :: "run_stage \<Rightarrow> run_stage \<Rightarrow> bool" where
  begins: "passing Between (Began t)"
| ends: "q \<in> {Answered t, Fenced t, Worked t} \<Longrightarrow> passing q Between"

inductive story :: "run_plan \<Rightarrow> event_draft list \<Rightarrow> run_stage \<Rightarrow> bool" for p where
  opens: "story p [] Fresh"
| told: "story p ds q \<Longrightarrow> telling p q d q' \<Longrightarrow> story p (ds @ [d]) q'"
| passed: "story p ds q \<Longrightarrow> passing q q' \<Longrightarrow> story p ds q'"

text \<open>How often the model was asked.\<close>

definition asked :: "event_draft list \<Rightarrow> nat" where
  "asked ds = length (filter (\<lambda>d. d_kind d = ModelCalled) ds)"

lemma asked_snoc [simp]: "asked (ds @ [d]) = asked ds + (if d_kind d = ModelCalled then 1 else 0)"
  by (simp add: asked_def)

lemma asked_Nil [simp]: "asked [] = 0"
  by (simp add: asked_def)

lemma carriers: "carrier_of c = CarrierEvent k \<Longrightarrow> k \<noteq> ModelCalled \<and> k \<noteq> ModelReturned"
  by (cases c) auto

definition cites :: "event_record list \<Rightarrow> event_ref \<Rightarrow> bool" where
  "cites rs ref \<longleftrightarrow> (\<exists>r \<in> set rs. to_ref r = ref \<and> r_kind r = ModelReturned)"

text \<open>A turn of this run, at its stamp.\<close>

definition mine :: "run_plan \<Rightarrow> time_ms \<Rightarrow> 's turn \<Rightarrow> bool" where
  "mine p t turn \<longleftrightarrow> turn_run turn = plan_run_id p \<and> turn_who turn = plan_who p \<and> turn_t turn = t"

lemma mine_draft:
  "mine p t turn \<Longrightarrow> of_turn p t (turn_draft turn k v)"
  "d_kind (turn_draft turn k v) = k" "d_data (turn_draft turn k v) = v"
  by (simp_all add: mine_def of_turn_def of_run_def turn_draft_def)

lemma mine_kept [simp]: "mine p t (noted r turn) = mine p t turn" "mine p t (next_phase turn s) = mine p t turn"
  by (simp_all add: mine_def noted_def next_phase_def)

lemma noted_state [simp]: "turn_state (noted r turn) = turn_state turn" "turn_state (next_phase turn s) = s"
  by (simp_all add: noted_def next_phase_def)

lemma cites_kind: "cites rs ref \<Longrightarrow> ref_kind ref = ModelReturned"
  unfolding cites_def to_ref_def by (metis event_ref.select_convs(2))

section \<open>What a turn keeps of the run\<close>

text \<open>The turns taken so far are \<open>c\<close>, and it is the user's turn in the window.\<close>

definition standing_at :: "u32 \<Rightarrow> ('l, 'o) run_world \<Rightarrow> bool" where
  "standing_at c w \<longleftrightarrow> run_turns w = c \<and> users_turn (run_window w)"

definition counted :: "u32 \<Rightarrow> ('l, 'o) run_world \<Rightarrow> bool" where
  "counted c w \<longleftrightarrow> run_turns w = c \<or> run_turns w = saturating_add c 1"

lemma standing_counted: "standing_at c w \<Longrightarrow> counted c w"
  by (simp add: standing_at_def counted_def)

lemma beyond_standing [leaving]: "beyond (standing_at c)"
  by (simp add: beyond_def standing_at_def)

lemma triple_standing:
  assumes "triple P m Q E" "spares (standing_at c) m"
  shows "triple (\<lambda>w. P w \<and> standing_at c w) m (\<lambda>a w. Q a w \<and> standing_at c w) (\<lambda>e w. E e w \<and> counted c w)"
proof -
  have kept: "standing_at c w' = standing_at c w" if "m w = (r, w')" for w r w'
    using assms(2) that by (metis spares_def snd_conv)
  show ?thesis
    by (rule tripleI; use tripleD [OF assms(1)] kept standing_counted in blast)
qed

lemma triple_beside:
  assumes "triple P m Q E" "spares f m"
  shows "triple (\<lambda>w. P w \<and> g (f w)) m (\<lambda>a w. Q a w \<and> g (f w)) E"
proof -
  have kept: "f w' = f w" if "m w = (r, w')" for w r w' using assms(2) that by (metis spares_def snd_conv)
  show ?thesis by (rule tripleI; use tripleD [OF assms(1)] kept in fastforce)
qed

lemma triple_here: "(\<And>x. triple (\<lambda>w. P w \<and> g w = x) (m x) Q E) \<Longrightarrow> triple P (\<lambda>w. m (g w) w) Q E"
  by (auto simp: triple_def)

lemma steered_turn: "users_turn w \<Longrightarrow> users_turn (fold_steer w i)"
  by (cases i) (simp_all add: fold_steer_def steer_turn)

section \<open>Telling a story into a ledger\<close>

context ledger_port
begin

text \<open>
  Since \<open>rs0\<close>, a story was told that stands in one of the stages \<open>Q\<close>, asked the model at most
  \<open>n\<close> times and holds the answers \<open>R\<close>.
\<close>

definition tells :: "run_plan \<Rightarrow> event_record list \<Rightarrow> run_stage set \<Rightarrow> nat \<Rightarrow> event_ref set \<Rightarrow>
    ('l, 'o, 'z) world_scheme \<Rightarrow> bool" where
  "tells p rs0 Q n R w \<longleftrightarrow>
     (\<exists>rs. shows_history (the_ledger w) (rs0 @ rs) \<and> (\<exists>q \<in> Q. story p (map draft_of rs) q) \<and>
       asked (map draft_of rs) \<le> n \<and> (\<forall>ref \<in> R. cites rs ref))"

text \<open>What a failure leaves: the story so far, or a ledger whose storage failed.\<close>

definition breaks :: "run_plan \<Rightarrow> event_record list \<Rightarrow> run_stage set \<Rightarrow> nat \<Rightarrow> ax_error \<Rightarrow>
    ('l, 'o, 'z) world_scheme \<Rightarrow> bool" where
  "breaks p rs0 Q n e w \<longleftrightarrow> carrier_of (code e) = Loadtime \<or> tells p rs0 Q n {} w"

lemma tells_weaken:
  "tells p rs0 Q n R w \<Longrightarrow> Q \<subseteq> Q' \<Longrightarrow> n \<le> n' \<Longrightarrow> R' \<subseteq> R \<Longrightarrow> tells p rs0 Q' n' R' w"
  unfolding tells_def by (meson order_trans subsetD)

lemma breaks_weaken: "tells p rs0 Q n R w \<Longrightarrow> Q \<subseteq> Q' \<Longrightarrow> n \<le> n' \<Longrightarrow> breaks p rs0 Q' n' e w"
  unfolding breaks_def by (blast intro: tells_weaken)

lemma breaks_later: "breaks p rs0 Q n e w \<Longrightarrow> n \<le> m \<Longrightarrow> breaks p rs0 Q m e w"
  unfolding breaks_def by (blast intro: tells_weaken)

lemma tells_later: "tells p rs0 Q n {} w \<Longrightarrow> tells p rs0 Q (Suc n) {} w"
  by (rule tells_weaken) auto

lemma tells_pass: "tells p rs0 Q n R w \<Longrightarrow> \<forall>q \<in> Q. \<exists>q' \<in> Q'. passing q q' \<Longrightarrow> tells p rs0 Q' n R w"
  unfolding tells_def by (meson story.passed)

lemma tells_outside [simp]: "tells p rs0 Q n R (w\<lparr>outside := s\<rparr>) = tells p rs0 Q n R w"
  by (simp add: tells_def)

lemma triple_outside:
  assumes "Q \<subseteq> Q'" "n \<le> n'"
  shows "triple (tells p rs0 Q n R) (on_outside m) (\<lambda>_. tells p rs0 Q n R) (breaks p rs0 Q' n')"
  using tells_weaken [OF _ assms empty_subsetI]
  by (auto simp: triple_def on_outside_def breaks_def split: prod.split sum.split)

lemma story_append:
  assumes tell: "\<forall>q \<in> Q. \<exists>q' \<in> Q'. telling p q d q'" and fails: "Q \<subseteq> F" "n \<le> m"
    and n: "n' = (if d_kind d = ModelCalled then Suc n else n)"
  shows "triple (tells p rs0 Q n R) (on_ledger (app d))
    (\<lambda>r. tells p rs0 Q' n' (if d_kind d = ModelReturned then insert r R else R)) (breaks p rs0 F m)"
proof (rule tripleI)
  fix w e w' assume t: "tells p rs0 Q n R w" and "on_ledger (app d) w = (Inl e, w')"
  then obtain l' where l': "app d (the_ledger w) = (Inl e, l')" "w' = w\<lparr>the_ledger := l'\<rparr>"
    by (auto simp: on_ledger_def split: prod.splits)
  from t append_err [OF _ l'(1)] have "carrier_of (code e) = Loadtime \<or> tells p rs0 Q n R w'"
    unfolding tells_def l'(2) by auto
  then show "breaks p rs0 F m e w'" using tells_weaken [OF _ fails empty_subsetI] by (auto simp: breaks_def)
next
  fix w r w' assume t: "tells p rs0 Q n R w" and "on_ledger (app d) w = (Inr r, w')"
  then obtain l' where l': "app d (the_ledger w) = (Inr r, l')" "w' = w\<lparr>the_ledger := l'\<rparr>"
    by (auto simp: on_ledger_def split: prod.splits)
  from t obtain rs q where rs: "shows_history (the_ledger w) (rs0 @ rs)" "q \<in> Q" "story p (map draft_of rs) q"
    "asked (map draft_of rs) \<le> n" "\<forall>ref \<in> R. cites rs ref" unfolding tells_def by blast
  obtain rec where rec: "shows_history l' (rs0 @ rs @ [rec])" "draft_of rec = d" "to_ref rec = r"
    using append_ok [OF rs(1) l'(1)] by auto
  obtain q' where q': "q' \<in> Q'" "telling p q d q'" using tell rs(2) by blast
  have "story p (map draft_of (rs @ [rec])) q'" using story.told [OF rs(3) q'(2)] rec(2) by simp
  moreover have "r_kind rec = d_kind d" using rec(2) by (auto simp: draft_of_def)
  ultimately show "tells p rs0 Q' n' (if d_kind d = ModelReturned then insert r R else R) w'"
    unfolding tells_def l'(2) using rec rs(4,5) q'(1) n
    by (intro exI [of _ "rs @ [rec]"]) (auto simp: cites_def)
qed

lemma triple_tell:
  assumes "\<And>v. data = Inr v \<Longrightarrow> \<forall>q \<in> Q. \<exists>q' \<in> Q'. telling p q (turn_draft turn k v) q'"
    and fails: "Q \<subseteq> F" "n \<le> m" and n: "n' = (if k = ModelCalled then Suc n else n)"
  shows "triple (tells p rs0 Q n R) (tell app turn k data)
    (\<lambda>r. tells p rs0 Q' n' (if k = ModelReturned then insert r R else R)) (breaks p rs0 F m)"
proof -
  have data: "triple (tells p rs0 Q n R) (of_result data) (\<lambda>v w. data = Inr v \<and> tells p rs0 Q n R w) (breaks p rs0 F m)"
    by (rule triple_of_result) (use breaks_weaken [OF _ fails] in blast)+
  show ?thesis
    unfolding tell_def
  proof (rule triple_then [OF data], rule triple_assume)
    fix v w assume "data = Inr v \<and> tells p rs0 Q n R w"
    then have step: "\<forall>q \<in> Q. \<exists>q' \<in> Q'. telling p q (turn_draft turn k v) q'" using assms(1) by blast
    have kind: "d_kind (turn_draft turn k v) = k" by (simp add: turn_draft_def)
    have "triple (tells p rs0 Q n R) (on_ledger (app (turn_draft turn k v)))
        (\<lambda>r. tells p rs0 Q' n' (if k = ModelReturned then insert r R else R)) (breaks p rs0 F m)"
      using story_append [OF step fails, of n' rs0 R] unfolding kind n by blast
    then show "triple (\<lambda>w. data = Inr v \<and> tells p rs0 Q n R w) (on_ledger (app (turn_draft turn k v)))
        (\<lambda>r. tells p rs0 Q' n' (if k = ModelReturned then insert r R else R)) (breaks p rs0 F m)"
      by (rule triple_pre) blast
  qed
qed

text \<open>A boundary: an interrupt is told, and a cancelled turn halts the run.\<close>

lemma triple_boundary:
  fixes turn :: "'s turn"
  assumes q: "\<forall>q \<in> Q. at_boundary t q" and turn: "mine p t turn" and fails: "Q \<subseteq> F" "n \<le> m"
    and halt: "\<And>refs w. tells p rs0 {Halted} n R w \<Longrightarrow> Post (TurnCancelled refs) w"
    and body: "\<And>turn'. mine p t turn' \<Longrightarrow> turn_state turn' = turn_state turn \<Longrightarrow>
      triple (tells p rs0 Q n R) (body turn') Post (breaks p rs0 F m)"
  shows "triple (tells p rs0 Q n R) (past_boundary app i turn body) Post (breaks p rs0 F m)"
proof -
  let ?mid = "\<lambda>passed w. case passed of
      TurnCancelled refs \<Rightarrow> tells p rs0 {Halted} n R w
    | Advanced turn' \<Rightarrow> (mine p t turn' \<and> turn_state turn' = turn_state turn) \<and> tells p rs0 Q n R w"
  have told: "triple (tells p rs0 Q n R) (tell app turn k data) (\<lambda>_. tells p rs0 Q' n R) (breaks p rs0 F m)"
    if "k \<in> {SteerReceived, CancelReceived}" "\<And>v. \<forall>q \<in> Q. \<exists>q' \<in> Q'. telling p q (turn_draft turn k v) q'" for k data Q'
    using triple_tell [where n' = n, OF that(2) fails] that(1) by auto
  have "triple (tells p rs0 Q n R) (consume_boundary app i turn) ?mid (breaks p rs0 F m)"
  proof (cases i)
    case NoInterrupt
    then show ?thesis using turn by (auto simp: consume_boundary_def intro!: triple_ret)
  next
    case CancelNow
    have "\<forall>q \<in> Q. \<exists>q' \<in> {Halted}. telling p q (turn_draft turn CancelReceived v) q'" for v
      using q turn by (auto simp: mine_draft intro!: cancels)
    then show ?thesis unfolding consume_boundary_def CancelNow interrupt.case
      by (intro triple_then [OF told] triple_ret) simp_all
  next
    case (Steer source words)
    have "\<forall>q \<in> Q. telling p q (turn_draft turn SteerReceived v) q" for v
      using q steers [OF _ mine_draft(1) [OF turn] mine_draft(2)] by blast
    then have "\<forall>q \<in> Q. \<exists>q' \<in> Q. telling p q (turn_draft turn SteerReceived v) q'" for v by blast
    then show ?thesis unfolding consume_boundary_def Steer interrupt.case
      by (intro triple_then [OF told] triple_ret) (simp_all add: turn)
  qed
  then show ?thesis
    unfolding past_boundary_def
  proof (rule triple_then)
    fix passed :: "'s turn phase_outcome"
    show "triple (?mid passed) (case passed of TurnCancelled refs \<Rightarrow> ret (TurnCancelled refs) | Advanced turn \<Rightarrow> body turn)
        Post (breaks p rs0 F m)"
    proof (cases passed)
      case (Advanced turn')
      show ?thesis unfolding Advanced phase_outcome.case
        by (rule triple_assume) (auto intro: triple_pre [OF body])
    qed (auto intro: triple_ret halt)
  qed
qed

definition goes :: "run_plan \<Rightarrow> event_record list \<Rightarrow> run_stage set \<Rightarrow> nat \<Rightarrow> ('x \<Rightarrow> event_ref set) \<Rightarrow> ('x \<Rightarrow> bool) \<Rightarrow>
    'x phase_outcome \<Rightarrow> ('l, 'o, 'z) world_scheme \<Rightarrow> bool" where
  "goes p rs0 Q n R G passed w =
     (case passed of
        TurnCancelled _ \<Rightarrow> tells p rs0 {Halted} n {} w
      | Advanced x \<Rightarrow> G x \<and> tells p rs0 Q n (R x) w)"

lemma goes_simps [simp]:
  "goes p rs0 Q n R G (TurnCancelled refs) w = tells p rs0 {Halted} n {} w"
  "goes p rs0 Q n R G (Advanced x) w = (G x \<and> tells p rs0 Q n (R x) w)"
  by (simp_all add: goes_def)

abbreviation fails_under :: "run_plan \<Rightarrow> event_record list \<Rightarrow> nat \<Rightarrow> ax_error \<Rightarrow> ('l, 'o, 'z) world_scheme \<Rightarrow> bool" where
  "fails_under p rs0 m \<equiv> breaks p rs0 (Collect under_way) m"

definition request_of :: "run_plan \<Rightarrow> window \<Rightarrow> calling turn \<Rightarrow> bool" where
  "request_of p w turn \<longleftrightarrow>
     calling_segments (turn_state turn) = segment_hashes (plan_prefix p) \<and>
     chat_messages (calling_chat (turn_state turn)) = w \<and>
     chat_tools (calling_chat (turn_state turn)) = plan_tools p \<and>
     system_blocks (plan_prefix p) = Inr (chat_system (calling_chat (turn_state turn)))"

lemma triple_assemble:
  fixes turn :: "unit turn"
  assumes "mine p t turn" "n \<le> m"
  shows "triple (tells p rs0 {Began t} n R)
    (turn_assemble app i (plan_prefix p) win (plan_tools p) shape turn)
    (goes p rs0 {Prompted t} n (\<lambda>_. R) (\<lambda>x. mine p t x \<and> request_of p win x)) (fails_under p rs0 m)"
  unfolding turn_assemble_def
proof (rule triple_boundary [OF _ assms(1) _ assms(2)])
  fix turn' :: "unit turn"
  assume turn': "mine p t turn'"
  have step: "\<forall>q \<in> {Began t}. \<exists>q' \<in> {Prompted t}. telling p q (turn_draft turn' PromptAssembled v) q'"
    if "prompt_payload (plan_prefix p) = Inr v" for v
    using that turn' by (auto simp: mine_draft intro!: prompts)
  have "triple (tells p rs0 {Began t} n R) (tell app turn' PromptAssembled (prompt_payload (plan_prefix p)))
      (\<lambda>_. tells p rs0 {Prompted t} n R) (fails_under p rs0 m)"
    using triple_tell [OF step _ assms(2), where n' = n and F = "Collect under_way"] by simp
  then show "triple (tells p rs0 {Began t} n R)
     (and_then (tell app turn' PromptAssembled (prompt_payload (plan_prefix p))) (\<lambda>echo.
      and_then (of_result (system_blocks (plan_prefix p))) (\<lambda>system.
      ret (Advanced (next_phase (noted echo turn')
        \<lparr>calling_segments = segment_hashes (plan_prefix p),
         calling_chat = \<lparr>chat_model = shape_model shape, chat_max_tokens = shape_max_tokens shape,
           chat_system = system, chat_messages = win, chat_tools = plan_tools p,
           chat_effort = shape_effort shape\<rparr>\<rparr>)))))
     (goes p rs0 {Prompted t} n (\<lambda>_. R) (\<lambda>x. mine p t x \<and> request_of p win x)) (fails_under p rs0 m)"
    by (rule triple_then, intro triple_then [OF triple_of_result [where Q = "\<lambda>system w.
          system_blocks (plan_prefix p) = Inr system \<and> tells p rs0 {Prompted t} n R w"]] triple_ret)
      (auto simp: turn' request_of_def intro!: breaks_weaken [OF _ _ assms(2)])
qed (auto intro: tells_weaken)

text \<open>A step that touches neither the story nor the count.\<close>

lemma triple_pure:
  assumes "Q \<subseteq> F" "n \<le> m"
  shows "triple (tells p rs0 Q n R) (of_result r) (\<lambda>v w. r = Inr v \<and> tells p rs0 Q n R w) (breaks p rs0 F m)"
  by (rule triple_of_result) (use breaks_weaken [OF _ assms] in blast)+

lemma triple_call:
  fixes turn :: "calling turn"
  assumes "mine p t turn" "Suc n \<le> m"
  shows "triple (tells p rs0 {Prompted t} n {})
    (turn_call sd app i model policy deltas turn)
    (goes p rs0 {Answered t} (Suc n) (\<lambda>x. {wave_returned (turn_state x)}) (mine p t)) (fails_under p rs0 m)"
  unfolding turn_call_def Let_def
proof (rule triple_boundary [OF _ assms(1)])
  fix turn' :: "calling turn"
  assume turn': "mine p t turn'"
  let ?req = "\<lparr>req_policy = policy, req_segments = calling_segments (turn_state turn'),
      req_chat = calling_chat (turn_state turn')\<rparr>"
  have asks: "\<forall>q \<in> {Prompted t}. \<exists>q' \<in> {Asked t}. telling p q (turn_draft turn' ModelCalled v) q'" for v
    using turn' by (auto simp: mine_draft intro!: asks)
  have called: "triple (tells p rs0 {Prompted t} n {}) (tell app turn' ModelCalled (called_payload ?req))
      (\<lambda>_. tells p rs0 {Asked t} (Suc n) {}) (fails_under p rs0 m)"
    using triple_tell [OF asks, where n' = "Suc n" and F = "Collect under_way" and n = n and m = m] assms(2) by simp
  have under: "{Asked t} \<subseteq> Collect under_way" by simp
  have returned: "triple (tells p rs0 {Asked t} (Suc n) {}) (tell app (noted echo turn') ModelReturned data)
      (\<lambda>r. tells p rs0 {Answered t} (Suc n) {r}) (fails_under p rs0 m)" for echo data
  proof -
    have "\<forall>q \<in> {Asked t}. \<exists>q' \<in> {Answered t}. telling p q (turn_draft (noted echo turn') ModelReturned v) q'" for v
      using turn' by (auto simp: mine_draft intro!: answers)
    from triple_tell [OF this under assms(2), where n' = "Suc n" and R = "{}"] show ?thesis by simp
  qed
  show "triple (tells p rs0 {Prompted t} n {})
     (and_then (tell app turn' ModelCalled (called_payload ?req)) (\<lambda>echo.
      and_then (on_outside (ask_model model deltas ?req)) (\<lambda>back.
      and_then (of_result (content_from_message (sd_blocks sd) (ret_message back))) (\<lambda>assistant.
      case redact (sd_digest sd) (returned_fields back) of (returned, redacted) \<Rightarrow>
      and_then (tell app (noted echo turn') ModelReturned (payload_new returned)) (\<lambda>echo'.
      ret (Advanced (next_phase (noted echo' (noted echo turn'))
        \<lparr>wave_calls = ret_calls back, wave_returned = echo', wave_assistant = assistant\<rparr>)))))))
     (goes p rs0 {Answered t} (Suc n) (\<lambda>x. {wave_returned (turn_state x)}) (mine p t)) (fails_under p rs0 m)"
    unfolding case_prod_beta
    by (rule triple_then [OF called], rule triple_then [OF triple_outside [OF under assms(2)]],
        rule triple_then [OF triple_pure [OF under assms(2)]],
        rule triple_pre [OF triple_then [OF returned]], rule triple_ret)
      (simp add: turn', elim conjE, assumption)
qed (use assms(2) tells_later in auto)

lemma triple_fence:
  assumes "n \<le> m"
  shows "triple (tells p rs0 {Answered t} n R) (put_fence app hooks p t)
    (\<lambda>_. tells p rs0 {Answered t, Fenced t} n R) (fails_under p rs0 m)"
proof (cases "hook_fence hooks")
  case None
  then show ?thesis by (auto simp: put_fence_def intro!: triple_ret elim!: tells_weaken)
next
  case (Some fence)
  let ?d = "\<lambda>data. \<lparr>d_run = plan_run_id p, d_t = t, d_who = plan_who p, d_addr = Some (plan_addr p),
      d_kind = CheckpointCommitted, d_data = data, d_ig = False\<rparr>"
  have under: "{Answered t} \<subseteq> Collect under_way" by simp
  have "\<forall>q \<in> {Answered t}. \<exists>q' \<in> {Answered t, Fenced t}. telling p q (?d data) q'" for data
    by (auto simp: of_turn_def of_run_def intro!: fences)
  from story_append [OF this under assms, where n' = n]
  have "triple (tells p rs0 {Answered t} n R) (on_ledger (app (?d data)))
      (\<lambda>_. tells p rs0 {Answered t, Fenced t} n R) (fails_under p rs0 m)" for data by simp
  then show ?thesis unfolding put_fence_def Some option.case
    by (intro triple_then [OF triple_outside [OF under assms]] triple_then triple_ret)
qed

lemma says_new: "payload_new (obj kvs) = Inr v \<Longrightarrow> map_of (rev kvs) key = Some (jstr x) \<Longrightarrow>
  d_data d = v \<Longrightarrow> says d key x"
  by (auto simp: payload_new_ok says_def obj_get)

text \<open>The stages in which a wave may go on.\<close>

abbreviation waving :: "time_ms \<Rightarrow> run_stage set" where
  "waving t \<equiv> {Answered t, Fenced t, Worked t}"

lemma triple_calls:
  assumes "n \<le> m"
  shows "mine p t turn \<Longrightarrow> triple (tells p rs0 (waving t) n R) (run_calls sd app invoke cs results turn)
    (\<lambda>(turn', results') w. mine p t turn' \<and> turn_state turn' = turn_state turn \<and>
       length results' = length results + length cs \<and> tells p rs0 (waving t) n R w) (fails_under p rs0 m)"
proof (induction cs arbitrary: turn results)
  case Nil
  then show ?case by (auto intro: triple_ret)
next
  case (Cons c cs)
  have under: "{InCall t (call_id c)} \<subseteq> Collect under_way" by simp
  have "\<forall>q \<in> waving t. \<exists>q' \<in> {InCall t (call_id c)}. telling p q (turn_draft turn ToolCalled v) q'"
    if "tool_called_payload c = Inr v" for v
  proof -
    have "says (turn_draft turn ToolCalled v) ''id'' (call_id c)"
      by (rule says_new [OF that [unfolded tool_called_payload_def]]) (simp_all add: mine_draft(3))
    then show ?thesis using calls [OF _ mine_draft(1) [OF Cons.prems] mine_draft(2)] by blast
  qed
  from triple_tell [OF this _ assms, where n' = n and F = "Collect under_way"]
  have called: "triple (tells p rs0 (waving t) n R) (tell app turn ToolCalled (tool_called_payload c))
      (\<lambda>_. tells p rs0 {InCall t (call_id c)} n R) (fails_under p rs0 m)" by simp
  have resulted: "triple (tells p rs0 {InCall t (call_id c)} n R)
      (tell app (noted echo turn) ToolResult (payload_new (tool_result_fields c answer)))
      (\<lambda>_. tells p rs0 (waving t) n R) (fails_under p rs0 m)" for echo answer
  proof -
    have mine': "mine p t (noted echo turn)" using Cons.prems by simp
    have "\<forall>q \<in> {InCall t (call_id c)}. \<exists>q' \<in> waving t. telling p q (turn_draft (noted echo turn) ToolResult v) q'"
      if "payload_new (tool_result_fields c answer) = Inr v" for v
    proof -
      have "says (turn_draft (noted echo turn) ToolResult v) ''tool_use_id'' (call_id c)"
        by (rule says_new [OF that [unfolded tool_result_fields_def]])
          (simp_all add: mine_draft(3) split: sum.split)
      then show ?thesis using results [OF mine_draft(1) [OF mine'] mine_draft(2)] by blast
    qed
    from triple_tell [OF this under assms, where n' = n] show ?thesis by simp
  qed
  show ?case
    unfolding run_calls.simps Let_def
    by (rule triple_then [OF called], rule triple_then [OF triple_outside [OF under assms]],
        rule triple_then [OF resulted], rule triple_weaken [OF Cons.IH]) (use Cons.prems in auto)
qed

lemma triple_execute:
  fixes turn :: "tool_wave turn"
  assumes "mine p t turn" "n \<le> m" "wave_returned (turn_state turn) \<in> R"
  shows "triple (tells p rs0 {Answered t, Fenced t} n R) (turn_execute sd app i invoke turn)
    (goes p rs0 (waving t) n (\<lambda>x. {rec_returned (turn_state x)})
      (\<lambda>x. mine p t x \<and> rec_calls_made (turn_state x) = length (rec_wave_results (turn_state x)))) (fails_under p rs0 m)"
  unfolding turn_execute_def Let_def
proof (rule triple_boundary [OF _ assms(1) _ assms(2)])
  fix turn' :: "tool_wave turn"
  assume turn': "mine p t turn'" "turn_state turn' = turn_state turn"
  have start: "triple (tells p rs0 {Answered t, Fenced t} n R)
      (run_calls sd app invoke (wave_calls (turn_state turn')) [] turn')
      (\<lambda>(x, results) w. mine p t x \<and> turn_state x = turn_state turn' \<and>
         length results = length (wave_calls (turn_state turn')) \<and> tells p rs0 (waving t) n R w) (fails_under p rs0 m)"
    by (rule triple_weaken [OF triple_calls [OF assms(2) turn'(1)]]) (auto elim: tells_weaken)
  show "triple (tells p rs0 {Answered t, Fenced t} n R)
     (and_then (run_calls sd app invoke (wave_calls (turn_state turn')) [] turn')
       (\<lambda>(x, results). ret (Advanced (next_phase x
         \<lparr>rec_returned = wave_returned (turn_state x), rec_calls_made = length (wave_calls (turn_state turn')),
          rec_assistant = wave_assistant (turn_state x), rec_wave_results = results\<rparr>))))
     (goes p rs0 (waving t) n (\<lambda>x. {rec_returned (turn_state x)})
       (\<lambda>x. mine p t x \<and> rec_calls_made (turn_state x) = length (rec_wave_results (turn_state x)))) (fails_under p rs0 m)"
  proof (rule triple_then [OF start], clarsimp, rule triple_ret)
    fix x :: "tool_wave turn" and results :: "content_block list" and w
    assume "mine p t x \<and> turn_state x = turn_state turn' \<and>
        length results = length (wave_calls (turn_state turn')) \<and> tells p rs0 (waving t) n R w"
    then show "goes p rs0 (waving t) n (\<lambda>x. {rec_returned (turn_state x)})
        (\<lambda>x. mine p t x \<and> rec_calls_made (turn_state x) = length (rec_wave_results (turn_state x)))
        (Advanced (next_phase x \<lparr>rec_returned = wave_returned (turn_state x),
           rec_calls_made = length (wave_calls (turn_state turn')), rec_assistant = wave_assistant (turn_state x),
           rec_wave_results = results\<rparr>)) w"
      using turn'(2) assms(3) by (auto elim: tells_weaken)
  qed
qed (auto elim: tells_weaken)

lemma triple_record:
  fixes turn :: "recording turn"
  assumes "mine p t turn" "n \<le> m" "rec_calls_made (turn_state turn) = length (rec_wave_results (turn_state turn))"
    "rec_returned (turn_state turn) \<in> R"
  shows "triple (tells p rs0 (waving t) n R) (turn_record app i turn)
    (goes p rs0 (waving t) n (\<lambda>x. {report_returned x})
      (\<lambda>x. report_calls_made x = length (report_wave_results x))) (fails_under p rs0 m)"
  unfolding turn_record_def
  by (rule triple_boundary [OF _ assms(1) _ assms(2)])
    (use assms(3,4) in \<open>auto elim: tells_weaken intro!: triple_ret\<close>)

section \<open>A turn\<close>

lemma tells_safe_point:
  "triple (\<lambda>w. tells p rs0 Q n R w \<and> standing_at c w) (at_safe_point hooks sp)
     (\<lambda>_ w. tells p rs0 Q n R w \<and> standing_at c w) E"
  by (auto simp: triple_def at_safe_point_def tells_def standing_at_def steered_turn split: prod.split)

definition turn_done :: "run_plan \<Rightarrow> event_record list \<Rightarrow> nat \<Rightarrow> u32 \<Rightarrow> advance_outcome \<Rightarrow> ('l, 'o) run_world \<Rightarrow> bool" where
  "turn_done p rs0 n c a w \<longleftrightarrow>
     (case a of
        Turned \<Rightarrow> tells p rs0 {Between} n {} w \<and> standing_at (saturating_add c 1) w
      | Concluded ending \<Rightarrow> counted c w \<and>
          (case ending of
             Cancelled \<Rightarrow> tells p rs0 {Halted} n {} w
           | CompletedWith ev \<Rightarrow> (\<exists>ref. evidence_refs ev = [ref] \<and> tells p rs0 {Between} n {ref} w)
           | Limit \<Rightarrow> False))"

lemma cancelled_done:
  "goes p rs0 Q n R G (TurnCancelled refs) w \<and> standing_at c w \<Longrightarrow> n \<le> m \<Longrightarrow> turn_done p rs0 m c (Concluded Cancelled) w"
  by (auto simp: turn_done_def standing_counted elim: tells_weaken)

lemma triple_settle:
  fixes E :: "ax_error \<Rightarrow> ('l, 'o) run_world \<Rightarrow> bool"
  assumes "report_calls_made report = length (report_wave_results report)"
  shows "triple (\<lambda>w. tells p rs0 (waving t) n {report_returned report} w \<and> standing_at c w) (settle_turn sd report)
    (turn_done p rs0 n c) E"
proof (rule tripleI)
  fix w w' :: "('l, 'o) run_world" and e assume t: "tells p rs0 (waving t) n {report_returned report} w \<and> standing_at c w"
    and s: "settle_turn sd report w = (Inl e, w')"
  have "ref_kind (report_returned report) = ModelReturned"
    using t cites_kind by (auto simp: tells_def)
  then show "E e w'" using s by (simp add: settle_turn_def Let_def evidence_new_def citable_def split: if_splits)
next
  fix w w' :: "('l, 'o) run_world" and a assume t: "tells p rs0 (waving t) n {report_returned report} w \<and> standing_at c w"
    and s: "settle_turn sd report w = (Inr a, w')"
  let ?w = "w\<lparr>run_turns := saturating_add (run_turns w) 1, run_window := push_tool_results (report_wave_results report)
      (push_assistant (report_assistant report) (run_window w))\<rparr>"
  have kind: "ref_kind (report_returned report) = ModelReturned"
    using t cites_kind by (auto simp: tells_def)
  have told: "tells p rs0 {Between} n {report_returned report} w'"
  proof -
    have "tells p rs0 {Between} n {report_returned report} w" using t by (auto intro: tells_pass ends)
    moreover have "w' = ?w" using s kind
      by (simp add: settle_turn_def Let_def evidence_new_def citable_def split: if_splits)
    ultimately show ?thesis by (simp add: tells_def)
  qed
  show "turn_done p rs0 n c a w'"
  proof (cases "report_calls_made report = 0")
    case True
    then show ?thesis using s t told kind
      by (auto simp: settle_turn_def Let_def evidence_new_def citable_def turn_done_def counted_def standing_at_def)
  next
    case False
    then have "report_wave_results report \<noteq> []" using assms by auto
    then have "users_turn (push_tool_results (report_wave_results report)
        (push_assistant (report_assistant report) (run_window w)))"
      using wave_turn t by (auto simp: standing_at_def)
    then show ?thesis using False s t tells_weaken [OF told, where R' = "{}"]
      by (auto simp: settle_turn_def Let_def turn_done_def standing_at_def)
  qed
qed

abbreviation turn_fails :: "run_plan \<Rightarrow> event_record list \<Rightarrow> nat \<Rightarrow> u32 \<Rightarrow> ax_error \<Rightarrow> ('l, 'o) run_world \<Rightarrow> bool" where
  "turn_fails p rs0 m c e w \<equiv> fails_under p rs0 m e w \<and> counted c w"

lemma unless_goes:
  assumes phase: "triple P phase (\<lambda>x w. goes p rs0 Q n R G x w \<and> standing_at c w) (turn_fails p rs0 m c)" and le: "n \<le> m"
    and body: "\<And>x. G x \<Longrightarrow>
      triple (\<lambda>w. tells p rs0 Q n (R x) w \<and> standing_at c w) (body x) (turn_done p rs0 m c) (turn_fails p rs0 m c)"
  shows "triple P (unless_cancelled phase body) (turn_done p rs0 m c) (turn_fails p rs0 m c)"
proof (rule triple_unless [OF phase])
  show "turn_done p rs0 m c (Concluded Cancelled) w"
    if "goes p rs0 Q n R G (TurnCancelled refs) w \<and> standing_at c w" for refs w
    by (rule cancelled_done [OF that le])
next
  fix x
  show "triple (\<lambda>w. goes p rs0 Q n R G (Advanced x) w \<and> standing_at c w) (body x)
      (turn_done p rs0 m c) (turn_fails p rs0 m c)"
    by (rule triple_assume, rule triple_pre [OF body]) auto
qed

lemma triple_take_turn:
  "triple (\<lambda>w. tells p rs0 {Between} n {} w \<and> standing_at c w) (take_turn sd app model hooks p index)
    (turn_done p rs0 (Suc n) c) (turn_fails p rs0 (Suc n) c)"
proof -
  have le: "n \<le> Suc n" "Suc n \<le> Suc n" by simp_all
  have now: "triple (\<lambda>w. tells p rs0 {Between} n {} w \<and> standing_at c w) (on_outside (hook_now hooks))
      (\<lambda>_ w. tells p rs0 {Between} n {} w \<and> standing_at c w) (turn_fails p rs0 (Suc n) c)"
    by (rule triple_standing [OF triple_outside]) (auto intro!: leaving)
  have stamp: "triple (\<lambda>w. tells p rs0 {Between} n {} w \<and> standing_at c w) (\<lambda>w. (Inr (), w\<lparr>run_last_t := Some t\<rparr>))
      (\<lambda>_ w. tells p rs0 {Began t} n {} w \<and> standing_at c w) (turn_fails p rs0 (Suc n) c)" for t
    using tells_pass [of p rs0 "{Between}" n "{}" _ "{Began t}"] begins
    by (auto simp: triple_def standing_at_def tells_def)
  have assemble: "triple (\<lambda>w. tells p rs0 {Began t} n {} w \<and> standing_at c w)
      (\<lambda>w. turn_assemble app i (plan_prefix p) (run_window w) (plan_tools p) (plan_shape p)
        (turn_begin (plan_run_id p) (plan_who p) t) w)
      (\<lambda>passed w. goes p rs0 {Prompted t} n (\<lambda>_. {}) (mine p t) passed w \<and> standing_at c w)
      (turn_fails p rs0 (Suc n) c)" for t i
  proof (rule triple_here [where g = run_window])
    fix x
    have "mine p t (turn_begin (plan_run_id p) (plan_who p) t)" by (simp add: mine_def turn_begin_def)
    from triple_standing [OF triple_assemble [OF this le(1)]]
    show "triple (\<lambda>w. (tells p rs0 {Began t} n {} w \<and> standing_at c w) \<and> run_window w = x)
        (turn_assemble app i (plan_prefix p) x (plan_tools p) (plan_shape p) (turn_begin (plan_run_id p) (plan_who p) t))
        (\<lambda>passed w. goes p rs0 {Prompted t} n (\<lambda>_. {}) (mine p t) passed w \<and> standing_at c w)
        (turn_fails p rs0 (Suc n) c)"
      by (rule triple_weaken) (auto simp: goes_def intro!: leaving split: phase_outcome.splits)
  qed
  note safe = triple_then [OF tells_safe_point]
  have recorded: "triple (\<lambda>w. tells p rs0 (waving t) (Suc n) {rec_returned (turn_state turn)} w \<and> standing_at c w)
      (and_then (at_safe_point hooks sp) (\<lambda>i. unless_cancelled (turn_record app i turn) (settle_turn sd)))
      (turn_done p rs0 (Suc n) c) (turn_fails p rs0 (Suc n) c)"
    if "mine p t turn \<and> rec_calls_made (turn_state turn) = length (rec_wave_results (turn_state turn))" for t turn sp
    by (rule safe, rule unless_goes [OF triple_standing [OF triple_record] le(2) triple_settle])
      (use that in \<open>auto intro!: leaving\<close>)
  have execute: "triple (\<lambda>w. tells p rs0 {Answered t, Fenced t} (Suc n) {wave_returned (turn_state turn)} w \<and> standing_at c w)
      (and_then (at_safe_point hooks sp) (\<lambda>i.
       unless_cancelled (turn_execute sd app i invoke turn) (\<lambda>turn.
       and_then (at_safe_point hooks sp') (\<lambda>i. unless_cancelled (turn_record app i turn) (settle_turn sd)))))
      (turn_done p rs0 (Suc n) c) (turn_fails p rs0 (Suc n) c)" if "mine p t turn" for t turn sp sp' invoke
    by (rule safe, rule unless_goes [OF triple_standing [OF triple_execute] le(2) recorded])
      (use that in \<open>auto intro!: leaving\<close>)
  have fence: "triple (\<lambda>w. tells p rs0 {Answered t} (Suc n) R w \<and> standing_at c w) (put_fence app hooks p t)
      (\<lambda>_ w. tells p rs0 {Answered t, Fenced t} (Suc n) R w \<and> standing_at c w) (turn_fails p rs0 (Suc n) c)" for t R
    by (rule triple_standing [OF triple_fence]) (auto intro!: leaving)
  show ?thesis
    unfolding take_turn_def
    by (rule triple_then [OF now], rule triple_then [OF stamp], rule safe, rule unless_goes [OF assemble le(1)],
        rule safe, rule unless_goes [OF triple_standing [OF triple_call] le(2)])
      (auto intro!: leaving triple_then [OF fence] execute)
qed

section \<open>The run\<close>

lemma triple_carry:
  "triple (fails_under p rs0 m err) (carry_failure app hooks p err)
    (\<lambda>c w. c = Cancelled \<and> tells p rs0 {Halted} m {} w) (fails_under p rs0 m)"
proof (cases "carrier_of (code err)")
  case Loadtime
  then show ?thesis by (simp add: carry_failure_def breaks_def triple_fail)
next
  case (CarrierEvent kind)
  let ?d = "\<lambda>t data. \<lparr>d_run = plan_run_id p, d_t = t, d_who = plan_who p, d_addr = Some (plan_addr p),
      d_kind = kind, d_data = data, d_ig = False\<rparr>"
  have kind: "kind \<noteq> ModelCalled" "kind \<noteq> ModelReturned" using carriers [OF CarrierEvent] by auto
  have steps: "\<forall>q \<in> Collect under_way. \<exists>q' \<in> {Halted}. telling p q (?d t data) q'" for t data
    using carries [of _ p "?d t data" "code err"] CarrierEvent by (auto simp: of_run_def)
  have told: "triple (tells p rs0 (Collect under_way) m {}) (on_ledger (app (?d t data)))
      (\<lambda>_. tells p rs0 {Halted} m {}) (fails_under p rs0 m)" for t data
    using story_append [OF steps subset_refl le_refl [of m], where n' = m and R = "{}"] kind by simp
  have "triple (tells p rs0 (Collect under_way) m {}) (carry_failure app hooks p err)
    (\<lambda>c w. c = Cancelled \<and> tells p rs0 {Halted} m {} w) (fails_under p rs0 m)"
    unfolding carry_failure_def CarrierEvent carrier.case
    by (rule triple_then [OF triple_outside [OF subset_refl le_refl]],
        rule triple_then [OF triple_pure [OF subset_refl le_refl]],
        rule triple_pre [OF triple_then [OF told]], rule triple_ret) auto
  then show ?thesis by (rule triple_pre) (simp add: breaks_def CarrierEvent)
qed

lemma spares_carry [leaving]: "spares run_turns (carry_failure app hooks p err)"
proof (cases "carrier_of (code err)")
  case (CarrierEvent kind)
  show ?thesis unfolding carry_failure_def CarrierEvent carrier.case by (intro leaving)
qed (simp add: carry_failure_def spares_def fail_with_def)

definition loop_done :: "run_plan \<Rightarrow> event_record list \<Rightarrow> nat \<Rightarrow> completion \<Rightarrow> ('l, 'o) run_world \<Rightarrow> bool" where
  "loop_done p rs0 b c w \<longleftrightarrow> unat (run_turns w) \<le> b \<and>
     (case c of
        Cancelled \<Rightarrow> tells p rs0 {Halted} b {} w
      | Limit \<Rightarrow> tells p rs0 {Between} b {} w
      | CompletedWith ev \<Rightarrow> (\<exists>ref. evidence_refs ev = [ref] \<and> tells p rs0 {Between} b {ref} w))"

lemma turn_loop_story:
  assumes "tells p rs0 {Between} (unat (run_turns w)) {} w" "users_turn (run_window w)"
    "unat (run_turns w) \<le> unat (plan_budget_turns p)"
  shows "case turn_loop sd app model hooks p w of
      (Inr c, w') \<Rightarrow> loop_done p rs0 (unat (plan_budget_turns p)) c w'
    | (Inl e, w') \<Rightarrow> fails_under p rs0 (unat (plan_budget_turns p)) e w'"
  using assms
proof (induction "unat (plan_budget_turns p) - unat (run_turns w)" arbitrary: w rule: less_induct)
  case less
  let ?b = "unat (plan_budget_turns p)" and ?c = "run_turns w"
  show ?case
  proof (cases "run_turns w < plan_budget_turns p")
    case False
    then have "unat ?c = ?b" using less.prems(3) by (simp add: word_less_nat_alt)
    then show ?thesis using False less.prems(1) by (simp add: turn_loop.simps loop_done_def)
  next
    case True
    then have more: "Suc (unat ?c) \<le> ?b" by (simp add: word_less_nat_alt)
    obtain r w' where adv: "advance sd app model hooks p w = (r, w')" by (cases "advance sd app model hooks p w")
    have start: "tells p rs0 {Between} (unat ?c) {} w \<and> standing_at ?c w"
      using less.prems by (simp add: standing_at_def)
    note turn = tripleD [OF triple_take_turn [where index = ?c and sd = sd and model = model and hooks = hooks] start, folded advance_def]
    have counted: "unat (run_turns w') \<le> ?b" if "counted ?c w'"
      using that more one_turn_more [OF True] by (auto simp: counted_def)
    show ?thesis
    proof (cases r)
      case (Inl err)
      have failed: "turn_fails p rs0 (Suc (unat ?c)) ?c err w'" by (rule turn(1)) (simp add: adv Inl)
      have broken: "fails_under p rs0 ?b err w'" "unat (run_turns w') \<le> ?b"
        using failed counted breaks_later [OF _ more] by blast+
      have kept: "run_turns (snd (carry_failure app hooks p err w')) = run_turns w'"
        using spares_carry [of hooks p err] unfolding spares_def by blast
      obtain r' w'' where c: "carry_failure app hooks p err w' = (r', w'')" by (cases "carry_failure app hooks p err w'")
      show ?thesis
        using tripleD [OF triple_carry [where hooks = hooks] broken(1)] True adv Inl c kept broken(2)
        by (cases r') (auto simp: turn_loop.simps loop_done_def)
    next
      case (Inr a)
      have ended: "turn_done p rs0 (Suc (unat ?c)) ?c a w'" by (rule turn(2)) (simp add: adv Inr)
      show ?thesis
      proof (cases a)
        case Turned
        then have "tells p rs0 {Between} (unat (run_turns w')) {} w'" "users_turn (run_window w')"
          "unat (run_turns w') \<le> ?b" "?b - unat (run_turns w') < ?b - unat ?c"
          using ended one_turn_more [OF True] more by (auto simp: turn_done_def standing_at_def)
        from less.hyps [OF this(4,1-3)] Inr Turned True adv show ?thesis
          by (simp add: turn_loop.simps)
      next
        case (Concluded ending)
        then have "loop_done p rs0 ?b ending w'"
          using ended counted tells_weaken [OF _ subset_refl more subset_refl]
          by (auto simp: turn_done_def loop_done_def split: completion.splits)
        then show ?thesis using Inr Concluded True adv by (simp add: turn_loop.simps)
      qed
    qed
  qed
qed

lemma triple_dispatch:
  "triple (\<lambda>w. shows_history (the_ledger w) rs0) (dispatch sd app hooks p)
    (\<lambda>_ w. tells p rs0 {Between} 0 {} w \<and> run_turns w = 0 \<and> users_turn (run_window w))
    (breaks p rs0 {Fresh, Pinned} 0)"
proof -
  let ?F = "{Fresh, Pinned}"
  have le: "(0::nat) \<le> 0" by simp
  have begin_: "tells p rs0 {Fresh} 0 {} w" if "shows_history (the_ledger w) rs0" for w :: "('l, 'o) run_world"
    unfolding tells_def using that opens by (intro exI [of _ "[]"]) simp
  have pin: "\<forall>q \<in> {Fresh}. \<exists>q' \<in> {Pinned}. telling p q (city_draft run_city (plan_addr p) t CheckpointCommitted v) q'" for t v
    by (auto simp: city_draft_def intro!: pins)
  have start: "\<forall>q \<in> {Pinned}. \<exists>q' \<in> {Between}. telling p q (city_draft (plan_run_id p) (plan_addr p) t RunStarted v) q'" for t v
    by (auto simp: city_draft_def intro!: starts)
  have pinned: "triple (tells p rs0 {Fresh} 0 {}) (on_ledger (app (city_draft run_city (plan_addr p) t CheckpointCommitted v)))
      (\<lambda>_. tells p rs0 {Pinned} 0 {}) (breaks p rs0 ?F 0)" for t v
    using story_append [OF pin _ le, where n' = 0 and F = ?F and R = "{}"] by (simp add: city_draft_def)
  have started: "triple (tells p rs0 {Pinned} 0 {}) (on_ledger (app (city_draft (plan_run_id p) (plan_addr p) t RunStarted v)))
      (\<lambda>_. tells p rs0 {Between} 0 {}) (breaks p rs0 ?F 0)" for t v
    using story_append [OF start _ le, where n' = 0 and F = ?F and R = "{}"] by (simp add: city_draft_def)
  have sub: "{Fresh} \<subseteq> ?F" "{Pinned} \<subseteq> ?F" by auto
  have "triple (tells p rs0 {Fresh} 0 {}) (dispatch sd app hooks p)
    (\<lambda>_ w. tells p rs0 {Between} 0 {} w \<and> run_turns w = 0 \<and> users_turn (run_window w)) (breaks p rs0 ?F 0)"
    unfolding dispatch_def
    by (rule triple_then [OF triple_outside [OF sub(1) le]], rule triple_then [OF triple_pure [OF sub(1) le]],
        rule triple_pre [OF triple_then [OF pinned]],
        rule triple_then [OF triple_outside [OF sub(2) le]], rule triple_then [OF triple_pure [OF sub(2) le]],
        rule triple_pre [OF triple_then [OF started]])
      (auto simp: triple_def tells_def opening_turn)
  then show ?thesis by (rule triple_pre) (rule begin_)
qed

definition frozen_as :: "run_plan \<Rightarrow> event_record list \<Rightarrow> nat \<Rightarrow> frozen_run \<Rightarrow> ('l, 'o) run_world \<Rightarrow> bool" where
  "frozen_as p rs0 b fr w \<longleftrightarrow> frozen_plan fr = p \<and> unat (frozen_turns fr) \<le> b \<and>
     tells p rs0 {Ended} b (case frozen_completion fr of CompletedWith ev \<Rightarrow> set (evidence_refs ev) | _ \<Rightarrow> {}) w \<and>
     (\<forall>ev. frozen_completion fr = CompletedWith ev \<longrightarrow> length (evidence_refs ev) = 1)"

lemma triple_freeze:
  fixes hooks :: "'o run_hooks"
  shows "triple (loop_done p rs0 b c) (run_freeze sd app hooks p h c) (frozen_as p rs0 b) (breaks p rs0 (- {Ended}) b)"
proof -
  define R where "R = (case c of CompletedWith ev \<Rightarrow> set (evidence_refs ev) | _ \<Rightarrow> {})"
  let ?F = "- {Ended}" and ?S = "\<lambda>w. unat (run_turns w) \<le> b"
  let ?P = "tells p rs0 {Between, Halted} b R"
  have le: "b \<le> b" by simp
  have single: "\<forall>ev. c = CompletedWith ev \<longrightarrow> length (evidence_refs ev) = 1" if "loop_done p rs0 b c w" for w :: "('l, 'o) run_world"
    using that by (auto simp: loop_done_def)
  have start: "?P w \<and> ?S w" if "loop_done p rs0 b c w" for w :: "('l, 'o) run_world"
    using that by (auto simp: loop_done_def R_def split: completion.splits elim!: tells_weaken)
  note keep = triple_beside [where f = run_turns and g = "\<lambda>n. unat n \<le> b"]
  let ?hand = "\<lambda>t v. \<lparr>d_run = plan_run_id p, d_t = t, d_who = plan_who p, d_addr = None, d_kind = HandoffWritten,
      d_data = v, d_ig = False\<rparr>"
  let ?close = "\<lambda>u v. \<lparr>d_run = plan_run_id p, d_t = u, d_who = plan_who p, d_addr = None, d_kind = RunFrozen,
      d_data = v, d_ig = False\<rparr>"
  have sub: "{Between, Halted} \<subseteq> ?F" "{Handed t} \<subseteq> ?F" for t by auto
  have hand: "\<forall>q \<in> {Between, Halted}. \<exists>q' \<in> {Handed t}. telling p q (?hand t v) q'" for t v
    by (auto simp: of_turn_def of_run_def intro!: hands)
  have close: "\<forall>q \<in> {Handed t}. \<exists>q' \<in> {Ended}. telling p q (?close u v) q'" if "unat u = Suc (unat t)" for t u v
    using that by (auto simp: of_turn_def of_run_def intro!: closes)
  have stamp: "triple (\<lambda>w. ?P w \<and> ?S w)
      (case (c, last_t) of (Cancelled, Some stamp) \<Rightarrow> ret stamp | _ \<Rightarrow> on_outside (hook_now hooks))
      (\<lambda>_ w. ?P w \<and> ?S w) (breaks p rs0 ?F b)" for last_t
    by (cases "(c, last_t)" rule: prod.exhaust; cases c; cases last_t)
      (auto intro!: triple_ret keep [OF triple_outside [OF sub(1) le]] leaving)
  have handed: "triple (\<lambda>w. ?P w \<and> ?S w) (on_ledger (app (?hand t v)))
      (\<lambda>_ w. tells p rs0 {Handed t} b R w \<and> ?S w) (breaks p rs0 ?F b)" for t v
    using story_append [OF hand sub(1) le, where n' = b and R = R] by (intro keep leaving) simp_all
  have closed: "triple (\<lambda>w. tells p rs0 {Handed t} b R w \<and> ?S w) (on_ledger (app (?close u v)))
      (\<lambda>_ w. tells p rs0 {Ended} b R w \<and> ?S w) (breaks p rs0 ?F b)" if "unat u = Suc (unat t)" for t u v
    using story_append [OF close [OF that] sub(2) le, where n' = b and R = R] by (intro keep leaving) simp_all
  have pure: "triple (\<lambda>w. tells p rs0 Q b R w \<and> ?S w) (of_result r)
      (\<lambda>v w. r = Inr v \<and> tells p rs0 Q b R w \<and> ?S w) (breaks p rs0 ?F b)" if "Q \<subseteq> ?F" for Q and r :: "(ax_error, 'x) result"
    by (rule triple_of_result) (use breaks_weaken [OF _ that le] in blast)+
  let ?Q = "\<lambda>fr w. (tells p rs0 {Ended} b R w \<and> ?S w) \<and>
      fr = \<lparr>frozen_plan = p, frozen_completion = c, frozen_turns = run_turns w\<rparr>"
  let ?closing = "\<lambda>t. case checked_add t 1 of Some closing \<Rightarrow> Inr closing
      | None \<Rightarrow> Inl (with_recovery ''check the clock the caller injected''
          (failure InvalidArgs ''stamp run_frozen'' ''u64 overflow''))"
  have finish: "triple (\<lambda>w. ?closing t = Inr u \<and> tells p rs0 {Handed t} b R w \<and> ?S w)
      (and_then (of_result (bind_r (extend_payload (sd_kind sd) c []) payload_new)) (\<lambda>frozen.
       and_then (on_ledger (app (?close u frozen)))
         (\<lambda>_ w. (Inr \<lparr>frozen_plan = p, frozen_completion = c, frozen_turns = run_turns w\<rparr>, w))))
      ?Q (breaks p rs0 ?F b)" for t u
  proof (rule triple_assume)
    fix w assume "?closing t = Inr u \<and> tells p rs0 {Handed t} b R w \<and> ?S w"
    then have u: "unat u = Suc (unat t)" by (auto simp: checked_add_Some_iff split: option.splits)
    show "triple (\<lambda>w. ?closing t = Inr u \<and> tells p rs0 {Handed t} b R w \<and> ?S w)
        (and_then (of_result (bind_r (extend_payload (sd_kind sd) c []) payload_new)) (\<lambda>frozen.
         and_then (on_ledger (app (?close u frozen)))
           (\<lambda>_ w. (Inr \<lparr>frozen_plan = p, frozen_completion = c, frozen_turns = run_turns w\<rparr>, w))))
        ?Q (breaks p rs0 ?F b)"
      by (rule triple_pre [OF triple_then [OF pure [OF sub(2)]]], rule triple_pre [OF triple_then [OF closed [OF u]]])
        (auto simp: triple_def)
  qed
  have "triple (\<lambda>w. ?P w \<and> ?S w) (run_freeze sd app hooks p h c)
      ?Q (breaks p rs0 ?F b)"
    unfolding run_freeze_def [abs_def]
  proof (rule triple_here [where g = run_last_t])
    fix last_t
    show "triple (\<lambda>w. (?P w \<and> ?S w) \<and> run_last_t w = last_t)
        (and_then (case (c, last_t) of (Cancelled, Some stamp) \<Rightarrow> ret stamp | _ \<Rightarrow> on_outside (hook_now hooks)) (\<lambda>t.
         and_then (of_result (handoff_payload h)) (\<lambda>handed.
         and_then (on_ledger (app (?hand t handed))) (\<lambda>_.
         and_then (of_result (?closing t)) (\<lambda>closing.
         and_then (of_result (bind_r (extend_payload (sd_kind sd) c []) payload_new)) (\<lambda>frozen.
         and_then (on_ledger (app (?close closing frozen)))
           (\<lambda>_ w. (Inr \<lparr>frozen_plan = p, frozen_completion = c, frozen_turns = run_turns w\<rparr>, w))))))))
        ?Q (breaks p rs0 ?F b)"
      by (rule triple_pre [OF triple_then [OF stamp]], rule triple_then [OF pure [OF sub(1)]],
          rule triple_pre [OF triple_then [OF handed]], rule triple_then [OF pure [OF sub(2)]], rule finish) auto
  qed
  then show ?thesis
    unfolding triple_def using start single by (fastforce simp: frozen_as_def R_def split: prod.splits sum.splits)
qed

text \<open>
  A drive that returns a frozen run closed its story; one that fails left it open, or lost
  its storage. The model was asked no more often than the budget allows.
\<close>

lemma drive_story:
  fixes s :: 'o
  assumes "shows_history l rs0"
  shows "case drive sd app model hooks p h l s of
      (Inr fr, l', s') \<Rightarrow> (\<exists>rs. shows_history l' (rs0 @ rs) \<and> story p (map draft_of rs) Ended \<and>
        asked (map draft_of rs) \<le> unat (plan_budget_turns p) \<and>
        frozen_plan fr = p \<and> frozen_turns fr \<le> plan_budget_turns p \<and>
        (\<forall>ev. frozen_completion fr = CompletedWith ev \<longrightarrow> (\<exists>ref. evidence_refs ev = [ref] \<and> cites rs ref)))
    | (Inl e, l', s') \<Rightarrow> carrier_of (code e) = Loadtime \<or>
        (\<exists>rs q. shows_history l' (rs0 @ rs) \<and> story p (map draft_of rs) q \<and> q \<noteq> Ended \<and>
          asked (map draft_of rs) \<le> unat (plan_budget_turns p))"
proof -
  let ?b = "unat (plan_budget_turns p)" and ?F = "- {Ended}"
  let ?w = "\<lparr>the_ledger = l, outside = s, run_window = window_new, run_turns = 0, run_last_t = None\<rparr>"
  have open_: "breaks p rs0 Q n e w \<Longrightarrow> Q \<subseteq> ?F \<Longrightarrow> n \<le> ?b \<Longrightarrow> breaks p rs0 ?F ?b e w"
    for Q n e and w :: "('l, 'o) run_world"
    unfolding breaks_def by (blast intro: tells_weaken)
  have under: "Collect under_way \<subseteq> ?F" by auto
  have loop: "triple (\<lambda>w. tells p rs0 {Between} 0 {} w \<and> run_turns w = 0 \<and> users_turn (run_window w))
      (turn_loop sd app model hooks p) (loop_done p rs0 ?b) (breaks p rs0 ?F ?b)"
  proof (rule tripleI)
    fix w w' :: "('l, 'o) run_world" and e
    assume "tells p rs0 {Between} 0 {} w \<and> run_turns w = 0 \<and> users_turn (run_window w)"
      "turn_loop sd app model hooks p w = (Inl e, w')"
    then have "breaks p rs0 (Collect under_way) ?b e w'"
      using turn_loop_story [of p rs0 w sd model hooks] by simp
    then show "breaks p rs0 ?F ?b e w'" using open_ under by blast
  next
    fix w w' :: "('l, 'o) run_world" and c
    assume "tells p rs0 {Between} 0 {} w \<and> run_turns w = 0 \<and> users_turn (run_window w)"
      "turn_loop sd app model hooks p w = (Inr c, w')"
    then show "loop_done p rs0 ?b c w'" using turn_loop_story [of p rs0 w sd model hooks] by simp
  qed
  have "triple (\<lambda>w. shows_history (the_ledger w) rs0) (dispatch sd app hooks p)
      (\<lambda>_ w. tells p rs0 {Between} 0 {} w \<and> run_turns w = 0 \<and> users_turn (run_window w)) (breaks p rs0 ?F ?b)"
    by (rule triple_weaken [OF triple_dispatch]) (auto intro: open_)
  then have "triple (\<lambda>w. shows_history (the_ledger w) rs0)
      (and_then (dispatch sd app hooks p) (\<lambda>_. and_then (turn_loop sd app model hooks p) (run_freeze sd app hooks p h)))
      (frozen_as p rs0 ?b) (breaks p rs0 ?F ?b)"
    by (rule triple_then) (rule triple_then [OF loop triple_freeze])
  note all = tripleD [OF this, of ?w]
  obtain r w' where run: "and_then (dispatch sd app hooks p) (\<lambda>_.
      and_then (turn_loop sd app model hooks p) (run_freeze sd app hooks p h)) ?w = (r, w')"
    by (metis prod.exhaust)
  have d: "drive sd app model hooks p h l s = (r, the_ledger w', outside w')"
    using run by (simp add: drive_def)
  show ?thesis
  proof (cases r)
    case (Inl e)
    then have "breaks p rs0 ?F ?b e w'" using all(1) run assms by simp
    then show ?thesis using d Inl by (auto simp: breaks_def tells_def)
  next
    case (Inr fr)
    then have fr: "frozen_as p rs0 ?b fr w'" using all(2) run assms by simp
    then show ?thesis using d Inr
      by (auto simp: frozen_as_def tells_def word_le_nat_alt length_Suc_conv split: completion.splits)
  qed
qed

end

end
