(* ===== verification/Run_Endings.thy ===== *)
theory Run_Endings
  imports Runs
begin

text \<open>
  When a run does not freeze: which errors the driver can answer. The lemmas bound the errors
  of every operation by a set that its parts can answer.
\<close>

section \<open>The errors an operation can answer\<close>

definition errs :: "('e \<Rightarrow> bool) \<Rightarrow> ('e, 's, 'a) act \<Rightarrow> bool" where
  "errs B m \<longleftrightarrow> (\<forall>s e s'. m s = (Inl e, s') \<longrightarrow> B e)"

named_theorems erring \<open>bounds on the errors of operations\<close>

lemma errs_ret [erring]: "errs B (ret a)"
  by (simp add: errs_def ret_def)

lemma errs_of_result [erring]: "(\<And>e. r = Inl e \<Longrightarrow> B e) \<Longrightarrow> errs B (of_result r)"
  by (cases r) (simp_all add: errs_def of_result_def ret_def fail_with_def)

lemma errs_then [erring]: "errs B m \<Longrightarrow> (\<And>a. errs B (f a)) \<Longrightarrow> errs B (and_then m f)"
  unfolding errs_def and_then_def by (fastforce split: prod.splits sum.splits)

lemma errs_ledger [erring]: "errs B m \<Longrightarrow> errs B (on_ledger m)"
  unfolding errs_def on_ledger_def by (fastforce split: prod.splits)

lemma errs_outside [erring]: "errs B m \<Longrightarrow> errs B (on_outside m)"
  unfolding errs_def on_outside_def by (fastforce split: prod.splits)

lemma errs_phase [erring]:
  "(\<And>refs. errs B (a refs)) \<Longrightarrow> (\<And>n. errs B (b n)) \<Longrightarrow>
   errs B (case x of TurnCancelled refs \<Rightarrow> a refs | Advanced n \<Rightarrow> b n)"
  by (cases x) auto

lemma errs_safe_point [erring]: "errs B (at_safe_point hooks sp)"
  by (auto simp: errs_def at_safe_point_def split: prod.splits)

lemma errs_answered [erring]: "errs B (answered m)"
  by (auto simp: errs_def answered_def split: prod.splits)

lemma errs_here: "(\<And>x. errs B (m x)) \<Longrightarrow> errs B (\<lambda>w. m (g w) w)"
  by (simp add: errs_def)

lemma errs_weaken: "errs B m \<Longrightarrow> (\<And>e. B e \<Longrightarrow> B' e) \<Longrightarrow> errs B' m"
  by (auto simp: errs_def)

section \<open>What a turn can answer\<close>

text \<open>An error of the ledger's append, or of the clock.\<close>

definition blamed :: "'l appender \<Rightarrow> 'o run_hooks \<Rightarrow> ax_error \<Rightarrow> bool" where
  "blamed app hooks e \<longleftrightarrow>
     (\<exists>d l l'. app d l = (Inl e, l')) \<or> (\<exists>s s'. hook_now hooks s = (Inl e, s'))"

definition tolerable :: "'l appender \<Rightarrow> 'o run_hooks \<Rightarrow> ax_error \<Rightarrow> bool" where
  "tolerable app hooks e \<longleftrightarrow> blamed app hooks e \<or> carrier_of (code e) \<noteq> Loadtime"

lemma errs_blamed [erring]:
  "errs (blamed app hooks) (app d)" "errs (blamed app hooks) (hook_now hooks)"
  by (auto simp: errs_def blamed_def)

lemma errs_tolerable [erring]:
  "errs (tolerable app hooks) (app d)" "errs (tolerable app hooks) (hook_now hooks)"
  by (auto simp: errs_def blamed_def tolerable_def)

lemma carried_tolerable: "carrier_of (code e) \<noteq> Loadtime \<Longrightarrow> tolerable app hooks e"
  by (simp add: tolerable_def)

lemma reject_floats_code:
  "reject_floats v = Some e \<Longrightarrow> code e = InvalidArgs"
  "reject_items vs = Some e \<Longrightarrow> code e = InvalidArgs"
  "reject_fields m = Some e \<Longrightarrow> code e = InvalidArgs"
  by (induction v and vs and m rule: reject_floats_reject_items_reject_fields.induct)
    (auto split: if_splits option.splits)

lemma payload_new_carried: "payload_new m = Inl e \<Longrightarrow> carrier_of (code e) \<noteq> Loadtime"
  using reject_floats_code(3) [of m] by (auto simp: payload_new_def split: option.splits)

lemma system_blocks_carried: "system_blocks pre = Inl e \<Longrightarrow> carrier_of (code e) \<noteq> Loadtime"
proof -
  have "render_blocks segs = Inl e \<Longrightarrow> carrier_of (code e) \<noteq> Loadtime" for segs
    by (induction segs) (auto simp: bind_r_def split: option.splits sum.splits)
  then show "system_blocks pre = Inl e \<Longrightarrow> carrier_of (code e) \<noteq> Loadtime" by (simp add: system_blocks_def)
qed

lemma prompt_payload_carried: "prompt_payload pre = Inl e \<Longrightarrow> carrier_of (code e) \<noteq> Loadtime"
  using payload_new_carried by (auto simp: prompt_payload_def split: option.splits json.splits)

lemma evidence_carried: "evidence_new debug refs = Inl e \<Longrightarrow> carrier_of (code e) \<noteq> Loadtime"
  by (auto simp: evidence_new_def split: if_splits option.splits)

lemma errs_tell [erring]:
  assumes "\<And>e. data = Inl e \<Longrightarrow> carrier_of (code e) \<noteq> Loadtime"
  shows "errs (tolerable app hooks) (tell app turn k data)"
  unfolding tell_def by (intro erring carried_tolerable) (rule assms)

lemma errs_boundary [erring]:
  assumes "\<And>turn. errs (tolerable app hooks) (body turn)"
  shows "errs (tolerable app hooks) (past_boundary app i turn body)"
  unfolding past_boundary_def consume_boundary_def
  by (cases i) (auto intro!: erring assms payload_new_carried)

lemma errs_assemble: "errs (tolerable app hooks) (turn_assemble app i pre w tools shape turn)"
  unfolding turn_assemble_def
  by (intro erring carried_tolerable prompt_payload_carried system_blocks_carried)

text \<open>A reply can be used when its content reads.\<close>

definition usable :: "serde \<Rightarrow> model_return \<Rightarrow> bool" where
  "usable sd r \<longleftrightarrow> (\<exists>blocks. content_from_message (sd_blocks sd) (ret_message r) = Inr blocks)"

text \<open>The model and the fence fail only with codes an event carries, and every reply is usable.\<close>

definition well_behaved :: "serde \<Rightarrow> 'o model_port \<Rightarrow> 'o run_hooks \<Rightarrow> bool" where
  "well_behaved sd model hooks \<longleftrightarrow>
     (\<forall>req s. case fst (ask_model model (hook_deltas hooks) req s) of
        Inl e \<Rightarrow> carrier_of (code e) \<noteq> Loadtime
      | Inr r \<Rightarrow> usable sd r) \<and>
     (\<forall>f t s e. hook_fence hooks = Some f \<longrightarrow> fst (f t s) = Inl e \<longrightarrow> carrier_of (code e) \<noteq> Loadtime)"

lemma errs_asking:
  assumes "well_behaved sd model hooks" "\<And>back assistant. errs (tolerable app hooks) (g back assistant)"
  shows "errs (tolerable app hooks) (and_then (on_outside (ask_model model (hook_deltas hooks) req)) (\<lambda>back.
    and_then (of_result (content_from_message (sd_blocks sd) (ret_message back))) (g back)))"
  unfolding errs_def
proof (intro allI impI)
  fix w e w'
  assume fails: "and_then (on_outside (ask_model model (hook_deltas hooks) req)) (\<lambda>back.
    and_then (of_result (content_from_message (sd_blocks sd) (ret_message back))) (g back)) w = (Inl e, w')"
  obtain r s where ask: "ask_model model (hook_deltas hooks) req (outside w) = (r, s)"
    by (cases "ask_model model (hook_deltas hooks) req (outside w)")
  have ok: "case r of Inl e \<Rightarrow> carrier_of (code e) \<noteq> Loadtime | Inr back \<Rightarrow> usable sd back"
    using assms(1) ask by (metis fst_conv well_behaved_def)
  show "tolerable app hooks e"
  proof (cases r)
    case (Inl e')
    then show ?thesis using ok fails ask by (auto simp: and_then_def on_outside_def tolerable_def)
  next
    case (Inr got)
    then obtain blocks where blocks: "content_from_message (sd_blocks sd) (ret_message got) = Inr blocks"
      using ok by (auto simp: usable_def)
    have "g got blocks (w\<lparr>outside := s\<rparr>) = (Inl e, w')"
      using fails ask Inr blocks by (simp add: and_then_def on_outside_def of_result_def ret_def)
    then show ?thesis using assms(2) [of got blocks] unfolding errs_def by blast
  qed
qed

lemma errs_call:
  assumes "well_behaved sd model hooks"
  shows "errs (tolerable app hooks) (turn_call sd app i model policy (hook_deltas hooks) turn)"
  unfolding turn_call_def Let_def called_payload_def
  by (intro erring errs_asking [OF assms] payload_new_carried)
    (auto split: prod.split intro!: erring payload_new_carried)

lemma errs_calls: "errs (tolerable app hooks) (run_calls sd app invoke cs results turn)"
proof (induction cs arbitrary: results turn)
  case (Cons c cs)
  show ?case unfolding run_calls.simps Let_def tool_called_payload_def
    by (intro erring payload_new_carried Cons.IH)
qed (simp add: errs_ret)

lemma errs_execute: "errs (tolerable app hooks) (turn_execute sd app i invoke turn)"
  unfolding turn_execute_def Let_def
  by (intro erring errs_calls) (auto split: prod.split intro!: erring)

lemma errs_record: "errs (tolerable app hooks) (turn_record app i turn)"
  unfolding turn_record_def by (intro erring)

lemma errs_fence:
  assumes "well_behaved sd model hooks"
  shows "errs (tolerable app hooks) (put_fence app hooks p t)"
proof (cases "hook_fence hooks")
  case (Some fence)
  have "errs (tolerable app hooks) (fence t)"
    using assms Some by (auto simp: errs_def well_behaved_def tolerable_def) (metis fst_conv)
  then show ?thesis unfolding put_fence_def Some option.case by (intro erring)
qed (simp add: put_fence_def errs_ret)

lemma errs_unless [erring]:
  "errs B phase \<Longrightarrow> (\<And>n. errs B (body n)) \<Longrightarrow> errs B (unless_cancelled phase body)"
  unfolding unless_cancelled_def by (intro erring)

lemma errs_settle: "errs (tolerable app hooks) (settle_turn sd report)"
  using evidence_carried
  by (auto simp: errs_def settle_turn_def Let_def tolerable_def split: if_splits sum.splits)

lemma errs_take_turn:
  assumes "well_behaved sd model hooks"
  shows "errs (tolerable app hooks) (take_turn sd app model hooks p index)"
proof -
  have stamp: "errs (tolerable app hooks) (\<lambda>w. (Inr (), w\<lparr>run_last_t := x\<rparr>))" for x by (simp add: errs_def)
  have here: "errs (tolerable app hooks) (\<lambda>w. turn_assemble app i pre (run_window w) tools shape turn w)"
    for i pre tools shape turn
    by (rule errs_here) (rule errs_assemble)
  show ?thesis
    unfolding take_turn_def
    by (intro erring stamp here errs_call [OF assms] errs_fence [OF assms] errs_execute errs_record errs_settle)
qed

section \<open>What keeps a run from freezing\<close>

lemma payload_new_fine: "\<forall>kv \<in> set kvs. float_free (snd kv) \<Longrightarrow> payload_new (obj kvs) \<noteq> Inl e"
proof -
  assume "\<forall>kv \<in> set kvs. float_free (snd kv)"
  then have "payload_new (obj kvs) = Inr (Payload (obj kvs))" unfolding payload_new_ok using obj_float_free by blast
  then show ?thesis by simp
qed

lemma error_fields_fine: "payload_new (error_fields err) \<noteq> Inl e"
proof -
  have "payload_new (error_fields err) = Inr (Payload (error_fields err))"
    unfolding payload_new_ok using error_fields_free by blast
  then show ?thesis by simp
qed

lemma started_fields_fine: "payload_new (started_fields sd p) \<noteq> Inl e"
proof -
  have "float_free (JObject (obj [(''name'', jstr x), (''hash'', jstr y)]))" for x y
    by (rule obj_float_free) (simp add: jstr_def)
  then show ?thesis unfolding started_fields_def
    by (intro payload_new_fine) (auto simp: jstr_def is_float_def split: option.splits)
qed

lemma errs_carry:
  assumes "tolerable app hooks err"
  shows "errs (blamed app hooks) (carry_failure app hooks p err)"
proof (cases "carrier_of (code err)")
  case Loadtime
  then show ?thesis using assms by (auto simp: carry_failure_def errs_def fail_with_def tolerable_def)
next
  case (CarrierEvent kind)
  show ?thesis unfolding carry_failure_def CarrierEvent carrier.case
    by (intro erring) (simp add: error_fields_fine)
qed

lemma errs_loop:
  assumes "well_behaved sd model hooks"
  shows "turn_loop sd app model hooks p w = (Inl e, w') \<Longrightarrow> blamed app hooks e"
proof (induction "unat (plan_budget_turns p) - unat (run_turns w)" arbitrary: w rule: less_induct)
  case less
  obtain r w1 where adv: "advance sd app model hooks p w = (r, w1)" by (cases "advance sd app model hooks p w")
  have more: "run_turns w < plan_budget_turns p" using less.prems by (simp add: turn_loop.simps split: if_splits)
  show ?case
  proof (cases r)
    case (Inl err)
    have "tolerable app hooks err"
      using errs_take_turn [OF assms] adv Inl unfolding errs_def advance_def by blast
    from errs_carry [OF this] show ?thesis
      using less.prems adv Inl more unfolding errs_def by (auto simp: turn_loop.simps)
  next
    case (Inr a)
    then have a: "a = Turned" "turn_loop sd app model hooks p w1 = (Inl e, w')"
      using less.prems adv more by (auto simp: turn_loop.simps [of _ _ _ _ _ w] split: advance_outcome.splits)
    have "run_turns w1 = saturating_add (run_turns w) 1" using advance_counts adv Inr a(1) by blast
    then have "unat (plan_budget_turns p) - unat (run_turns w1) < unat (plan_budget_turns p) - unat (run_turns w)"
      using one_turn_more [OF more] more by (simp add: word_less_nat_alt)
    from less.hyps [OF this a(2)] show ?thesis .
  qed
qed

definition clock_overflow :: ax_error where
  "clock_overflow = with_recovery ''check the clock the caller injected''
     (failure InvalidArgs ''stamp run_frozen'' ''u64 overflow'')"

text \<open>Serde writes a kind as a string.\<close>

definition kinds_are_text :: "serde \<Rightarrow> bool" where
  "kinds_are_text sd \<longleftrightarrow> (\<forall>k. \<exists>t. sd_kind sd k = Inr (JString t))"

lemma frozen_payload_fine:
  assumes "kinds_are_text sd"
  shows "bind_r (extend_payload (sd_kind sd) c []) payload_new \<noteq> Inl e"
proof -
  have cited: "\<exists>vs. cite_refs (sd_kind sd) refs = Inr vs \<and> (\<forall>v \<in> set vs. float_free v)" for refs
  proof (induction refs)
    case (Cons r refs)
    obtain t where "sd_kind sd (ref_kind r) = Inr (JString t)" using assms by (auto simp: kinds_are_text_def)
    then show ?case using Cons by (auto simp: bind_r_def is_float_def)
  qed simp
  show ?thesis
  proof (cases c)
    case (CompletedWith ev)
    obtain vs where vs: "cite_refs (sd_kind sd) (evidence_refs ev) = Inr vs" "\<forall>v \<in> set vs. float_free v"
      using cited by blast
    then have "reject_items vs = None" by (simp add: reject_floats_None(2))
    then show ?thesis using vs(1)
      by (simp add: extend_payload_def CompletedWith bind_r_def payload_new_def)
  qed (simp_all add: extend_payload_def bind_r_def payload_new_def)
qed

lemma errs_dispatch: "errs (blamed app hooks) (dispatch sd app hooks p)"
proof -
  have pin: "payload_new (obj [(''job'', jstr x)]) \<noteq> Inl e" for x e
    by (rule payload_new_fine) (simp add: jstr_def)
  have set_up: "errs B (\<lambda>w. (Inr (), f w))" for B f by (simp add: errs_def)
  show ?thesis unfolding dispatch_def
    by (intro erring set_up) (simp_all add: pin started_fields_fine)
qed

lemma errs_freeze:
  assumes "kinds_are_text sd"
  shows "errs (\<lambda>e. blamed app hooks e \<or> e = clock_overflow) (run_freeze sd app hooks p h c)"
proof -
  let ?B = "\<lambda>e. blamed app hooks e \<or> e = clock_overflow"
  have app: "errs ?B (app d)" and now: "errs ?B (hook_now hooks)" for d
    by (auto intro: errs_weaken [OF errs_blamed(1)] errs_weaken [OF errs_blamed(2)])
  have stamp: "errs ?B (case (c, last_t) of (Cancelled, Some stamp) \<Rightarrow> ret stamp | _ \<Rightarrow> on_outside (hook_now hooks))" for last_t
    by (cases c; cases last_t) (auto intro!: erring now)
  have handed: "handoff_payload h \<noteq> Inl e" for e using handoff_payload_total [of h] by auto
  have answer: "errs B (\<lambda>w. (Inr (f w), w))" for B f by (simp add: errs_def)
  show ?thesis unfolding run_freeze_def [abs_def]
    by (rule errs_here [where g = run_last_t], intro erring stamp app answer)
      (auto simp: handed frozen_payload_fine [OF assms] clock_overflow_def split: option.splits)
qed

lemma drive_fails:
  assumes "well_behaved sd model hooks" "kinds_are_text sd" "fst (drive sd app model hooks p h l s) = Inl e"
  shows "blamed app hooks e \<or> e = clock_overflow"
proof -
  let ?B = "\<lambda>e. blamed app hooks e \<or> e = clock_overflow"
  have loop: "errs ?B (turn_loop sd app model hooks p)"
    using errs_loop [OF assms(1)] by (auto simp: errs_def)
  have first: "errs ?B (dispatch sd app hooks p)" by (rule errs_weaken [OF errs_dispatch]) simp
  have "errs ?B (and_then (dispatch sd app hooks p) (\<lambda>_.
      and_then (turn_loop sd app model hooks p) (run_freeze sd app hooks p h)))"
    by (rule errs_then [OF first]) (rule errs_then [OF loop], rule errs_freeze [OF assms(2)])
  then show ?thesis using assms(3)
    by (auto simp: errs_def drive_def split: prod.splits)
qed

end
