(* ===== verification/Replays.thy ===== *)
theory Replays
  imports Run_Stories
begin

text \<open>
  Offline replay (\<open>crates/runtime/src/replay.rs\<close>): a raw log is verified line by line without
  running anything, calls whose outcome nobody recorded are found, and the startup scan of
  \<open>crates/sprawling/src/assembly/genesis.rs\<close> closes them. The probe that reads the envelope of
  a line and serde's reading of a kind are parameters.
\<close>

section \<open>Verifying lines\<close>

record envelope =
  env_v :: u32
  env_seq :: seq
  env_prev :: b3_hash
  env_kind :: string
  env_ig :: bool

datatype verified_line = Known event_record event_ref | IgnoredUnknown seq

record verified_ledger =
  vl_raw :: "string list"
  vl_lines :: "verified_line list"

record probes =
  probe_envelope :: "string \<Rightarrow> (string, envelope) result"
  probe_kind :: "string \<Rightarrow> event_kind option"

definition corrupt :: "u64 \<Rightarrow> string \<Rightarrow> ax_error" where
  "corrupt n why = with_recovery why (failure ax_code.CasCorrupt ''verify ledger'' (''line '' @ dec_of (unat n)))"

definition read_known :: "third_party \<Rightarrow> u64 \<Rightarrow> string \<Rightarrow> (ax_error, verified_line) result" where
  "read_known ext n raw =
     (case parse_line ext raw of
        Inl e \<Rightarrow> Inl (corrupt n (''typed parse failed: '' @ show_error e))
      | Inr r \<Rightarrow>
          (case to_line ext r of
             Inl e \<Rightarrow> Inl e
           | Inr echo \<Rightarrow>
               if echo \<noteq> raw then Inl (corrupt n ''bytes are not writer-canonical'')
               else Inr (Known r (to_ref r))))"

definition verify_line :: "probes \<Rightarrow> third_party \<Rightarrow> u64 \<Rightarrow> b3_hash \<Rightarrow> seq \<Rightarrow> string \<Rightarrow> (ax_error, verified_line) result" where
  "verify_line pb ext n prev expected raw =
     (case probe_envelope pb raw of
        Inl e \<Rightarrow> Inl (corrupt n (''not a ledger line: '' @ e))
      | Inr env \<Rightarrow>
          if event_log_v < env_v env
          then Inl (with_recovery ''written by a newer sprawling; replay it with the version that wrote it''
                 (failure LogVersionUnsupported ''verify ledger''
                   (''line '' @ dec_of (unat n) @ '' carries v'' @ dec_of (unat (env_v env)))))
          else if env_v env \<noteq> event_log_v then Inl (corrupt n (''impossible v'' @ dec_of (unat (env_v env))))
          else if env_prev env \<noteq> prev then Inl (corrupt n ''prev does not hash the previous line'')
          else if env_seq env \<noteq> expected
          then Inl (corrupt n (''seq '' @ dec_of (unat (env_seq env)) @ '' where '' @ dec_of (unat expected) @ '' was expected''))
          else (case probe_kind pb (env_kind env) of
                  Some _ \<Rightarrow> read_known ext n raw
                | None \<Rightarrow>
                    if env_ig env then Inr (IgnoredUnknown (env_seq env))
                    else Inl (with_recovery
                           (''unknown kind without ig:true means a newer writer; '' @ ''use the sprawling that wrote it'')
                           (failure LogVersionUnsupported ''verify ledger''
                             (''line '' @ dec_of (unat n) @ '' kind `'' @ env_kind env @ ''`'')))))"

fun verify_from :: "probes \<Rightarrow> third_party \<Rightarrow> u64 \<Rightarrow> b3_hash \<Rightarrow> seq \<Rightarrow> string list \<Rightarrow>
    (ax_error, verified_line list) result" where
  "verify_from pb ext n prev expected [] = Inr []"
| "verify_from pb ext n prev expected (raw # lines) =
     bind_r (verify_line pb ext (saturating_add n 1) prev expected raw) (\<lambda>v.
     bind_r (seq_next expected) (\<lambda>next.
     bind_r (verify_from pb ext (saturating_add n 1) (chain_hash ext raw) next lines) (\<lambda>vs. Inr (v # vs))))"

definition verify_lines :: "probes \<Rightarrow> third_party \<Rightarrow> string list \<Rightarrow> (ax_error, verified_ledger) result" where
  "verify_lines pb ext lines =
     bind_r (verify_from pb ext 0 genesis_prev seq_first lines) (\<lambda>vs. Inr \<lparr>vl_raw = lines, vl_lines = vs\<rparr>)"

definition tail_seq :: "verified_ledger \<Rightarrow> seq option" where
  "tail_seq vl = checked_sub (of_nat (min (length (vl_lines vl)) u64_max)) 1"

section \<open>Calls whose outcome is unknown\<close>

type_synonym call_at = "run_id \<times> seq"

text \<open>One record: a call waits for its result, a second call of its run gives the first one up.\<close>

definition track_call :: "event_record \<Rightarrow> (run_id, call_at) btree \<times> call_at list \<Rightarrow> (run_id, call_at) btree \<times> call_at list" where
  "track_call r = (\<lambda>(pending, dangling).
     if r_kind r = ToolCalled then
       (bt_insert (r_run r) (r_run r, r_seq r) pending,
        case bt_get pending (r_run r) of Some older \<Rightarrow> dangling @ [older] | None \<Rightarrow> dangling)
     else if r_kind r = ToolResult then (bt_remove (r_run r) pending, dangling)
     else (pending, dangling))"

fun track_line :: "verified_line \<Rightarrow> (run_id, call_at) btree \<times> call_at list \<Rightarrow> (run_id, call_at) btree \<times> call_at list" where
  "track_line (Known r _) s = track_call r s"
| "track_line (IgnoredUnknown _) s = s"

definition dangling_tool_calls :: "verified_ledger \<Rightarrow> call_at list" where
  "dangling_tool_calls vl =
     (case fold track_line (vl_lines vl) ([], []) of
        (pending, dangling) \<Rightarrow> sort_key snd (dangling @ bt_values pending))"

definition text_or_unknown :: "payload \<Rightarrow> string \<Rightarrow> string" where
  "text_or_unknown p key = (case bt_get (payload_fields p) key of Some (JString t) \<Rightarrow> t | _ \<Rightarrow> ''unknown'')"

definition unknown_outcome :: "string \<Rightarrow> string \<Rightarrow> ax_error" where
  "unknown_outcome name i =
     with_recovery ''the call may or may not have taken effect; verify the external state before retrying''
       (failure ToolOutcomeUnknown ''recover tool outcome'' (name @ '' ('' @ i @ '')''))"

definition outcome_unknown_draft :: "event_record \<Rightarrow> time_ms \<Rightarrow> (ax_error, event_draft) result" where
  "outcome_unknown_draft c t =
     (if r_kind c \<noteq> ToolCalled
      then Inl (failure InvalidArgs ''draft unknown outcome'' ''record is not a tool_called'')
      else (let i = text_or_unknown (r_data c) ''id''; name = text_or_unknown (r_data c) ''name'' in
        bind_r (payload_new (obj [(''tool_use_id'', jstr i), (''name'', jstr name),
            (''error'', JObject (error_fields (unknown_outcome name i)))])) (\<lambda>data.
        Inr \<lparr>d_run = r_run c, d_t = t, d_who = r_who c, d_addr = None, d_kind = ToolResult, d_data = data, d_ig = False\<rparr>)))"

section \<open>The startup scan\<close>

fun known_records :: "verified_line list \<Rightarrow> event_record list" where
  "known_records [] = []"
| "known_records (Known r _ # vs) = r # known_records vs"
| "known_records (IgnoredUnknown _ # vs) = known_records vs"

definition find_call :: "verified_ledger \<Rightarrow> call_at \<Rightarrow> event_record option" where
  "find_call vl = (\<lambda>(run, s).
     List.find (\<lambda>r. r_run r = run \<and> r_seq r = s) (known_records (vl_lines vl)))"

fun close_calls :: "'l appender \<Rightarrow> (ax_error, 'o, time_ms) act \<Rightarrow> verified_ledger \<Rightarrow> call_at list \<Rightarrow> nat \<Rightarrow>
    (ax_error, ('l, 'o, 'z) world_scheme, nat) act" where
  "close_calls app now vl [] closed = ret closed"
| "close_calls app now vl (c # cs) closed =
     (case find_call vl c of
        None \<Rightarrow> close_calls app now vl cs closed
      | Some rec \<Rightarrow>
          and_then (on_outside now) (\<lambda>t.
          and_then (of_result (outcome_unknown_draft rec t)) (\<lambda>draft.
          and_then (on_ledger (app draft)) (\<lambda>_.
          close_calls app now vl cs (Suc closed)))))"

definition startup_scan :: "probes \<Rightarrow> third_party \<Rightarrow> 'l appender \<Rightarrow> (ax_error, 'o, time_ms) act \<Rightarrow> string list \<Rightarrow>
    (ax_error, ('l, 'o, 'z) world_scheme, nat \<times> nat) act" where
  "startup_scan pb ext app now lines =
     and_then (of_result (verify_lines pb ext lines)) (\<lambda>vl.
     and_then (close_calls app now vl (dangling_tool_calls vl) 0) (\<lambda>closed.
     ret (length (vl_raw vl), closed)))"

section \<open>What verification accepts\<close>

text \<open>The envelope of a line agrees with the record the typed reader makes of it.\<close>

definition coherent :: "probes \<Rightarrow> third_party \<Rightarrow> bool" where
  "coherent pb ext \<longleftrightarrow> (\<forall>raw r. parse_line ext raw = Inr r \<longrightarrow>
     (\<exists>env. probe_envelope pb raw = Inr env \<and> env_v env = r_v r \<and> env_seq env = r_seq r \<and> env_prev env = r_prev r \<and>
        probe_kind pb (env_kind env) = Some (r_kind r)))"

text \<open>A line vouched for at a place of the chain, and what it was read as.\<close>

definition vouched_line :: "probes \<Rightarrow> third_party \<Rightarrow> b3_hash \<Rightarrow> seq \<Rightarrow> string \<Rightarrow> verified_line \<Rightarrow> bool" where
  "vouched_line pb ext p s raw v \<longleftrightarrow>
     (\<exists>env. probe_envelope pb raw = Inr env \<and> env_v env = event_log_v \<and> env_prev env = p \<and> env_seq env = s \<and>
        (case v of
           Known r ref \<Rightarrow> probe_kind pb (env_kind env) \<noteq> None \<and> parse_line ext raw = Inr r \<and> to_line ext r = Inr raw \<and> ref = to_ref r
         | IgnoredUnknown q \<Rightarrow> q = s \<and> probe_kind pb (env_kind env) = None \<and> env_ig env))"

fun vouched :: "probes \<Rightarrow> third_party \<Rightarrow> b3_hash \<Rightarrow> seq \<Rightarrow> string list \<Rightarrow> verified_line list \<Rightarrow> bool" where
  "vouched pb ext p s [] [] = True"
| "vouched pb ext p s (raw # raws) (v # vs) \<longleftrightarrow>
     vouched_line pb ext p s raw v \<and> vouched pb ext (chain_hash ext raw) (s + 1) raws vs"
| "vouched pb ext p s _ _ = False"

lemma read_known_iff: "read_known ext n raw = Inr v \<longleftrightarrow>
    (\<exists>r. parse_line ext raw = Inr r \<and> to_line ext r = Inr raw \<and> v = Known r (to_ref r))"
  by (auto simp: read_known_def split: sum.splits)

lemma verify_line_iff: "verify_line pb ext n p s raw = Inr v \<longleftrightarrow> vouched_line pb ext p s raw v"
  by (cases v) (auto simp: verify_line_def vouched_line_def read_known_iff split: sum.splits option.splits)

lemma verify_from_iff:
  "verify_from pb ext n p s raws = Inr vs \<longleftrightarrow> vouched pb ext p s raws vs \<and> unat s + length raws \<le> u64_max"
proof (induction raws arbitrary: n p s vs)
  case Nil
  have "unat s \<le> u64_max" using unat_less_64 [of s] unfolding u64_max_def by linarith
  then show ?case using Nil by (cases vs) auto
next
  case (Cons raw raws)
  show ?case
  proof (cases vs)
    case Nil
    then show ?thesis by (auto simp: bind_r_def split: sum.splits)
  next
    case (Cons v ws)
    have count: "unat (s + 1) = Suc (unat s)" if "Suc (unat s) \<le> u64_max"
      using that unat_add_no_wrap [of s 1] unfolding u64_max_def by simp
    have step: "seq_next s = Inr m \<longleftrightarrow> m = s + 1 \<and> Suc (unat s) \<le> u64_max" for m
    proof -
      have "unat m \<le> u64_max" using unat_less_64 [of m] unfolding u64_max_def by linarith
      then show ?thesis using seq_next_iff [of s m] seq_next_plus [of s m] count by auto
    qed
    show ?thesis
      unfolding \<open>vs = v # ws\<close> verify_from.simps bind_r_Inr_iff Cons.IH verify_line_iff step vouched.simps
      using count by auto
  qed
qed

lemma verify_lines_iff:
  "verify_lines pb ext lines = Inr vl \<longleftrightarrow>
   vl_raw vl = lines \<and> vouched pb ext genesis_prev seq_first lines (vl_lines vl) \<and> length lines \<le> u64_max"
  by (cases vl) (auto simp: verify_lines_def bind_r_Inr_iff verify_from_iff seq_first_def)

text \<open>What a writer chained is accepted, each line as its record.\<close>

lemma vouched_written:
  assumes "coherent pb ext" "line_codec (to_line ext) (parse_line ext)"
  shows "map (to_line ext) rs = map Inr lines \<Longrightarrow> chained (parse_line ext) (chain_hash ext) p s lines \<Longrightarrow>
    vouched pb ext p s lines (map (\<lambda>r. Known r (to_ref r)) rs)"
proof (induction lines arbitrary: rs p s)
  case (Cons line lines)
  then obtain r rest where rs: "rs = r # rest" "to_line ext r = Inr line" "map (to_line ext) rest = map Inr lines"
    by (cases rs) auto
  then have read: "parse_line ext line = Inr r" using assms(2) by (simp add: line_codec_def)
  then obtain env where "probe_envelope pb line = Inr env" "env_v env = r_v r" "env_seq env = r_seq r"
    "env_prev env = r_prev r" "probe_kind pb (env_kind env) = Some (r_kind r)"
    using assms(1) unfolding coherent_def by blast
  then have "vouched_line pb ext p s line (Known r (to_ref r))"
    using Cons.prems(2) read rs(2) by (auto simp: vouched_line_def continues_chain_def)
  then show ?case using Cons.IH [OF rs(3)] Cons.prems(2) rs(1) by simp
qed simp

text \<open>What is accepted chains, and its known lines are written as they stand.\<close>

lemma vouched_lengths: "vouched pb ext p s lines vs \<Longrightarrow> length vs = length lines"
  by (induction pb ext p s lines vs rule: vouched.induct) auto

lemma vouched_nth:
  "vouched pb ext p s lines vs \<Longrightarrow> i < length lines \<Longrightarrow>
   vouched_line pb ext (chain_end (chain_hash ext) p (take i lines)) (s + of_nat i) (lines ! i) (vs ! i)"
proof (induction pb ext p s lines vs arbitrary: i rule: vouched.induct)
  case (2 pb ext p s raw raws v vs)
  then show ?case by (cases i) (auto simp: ac_simps)
qed auto

lemma vouched_prefix: "vouched pb ext p s (xs @ ys) vs \<Longrightarrow> \<exists>us. vouched pb ext p s xs us"
proof (induction xs arbitrary: p s vs)
  case Nil
  show ?case by (rule exI [of _ "[]"]) simp
next
  case (Cons x xs)
  then obtain v ws where vs: "vs = v # ws" by (cases vs) auto
  then obtain us where "vouched pb ext (chain_hash ext x) (s + 1) xs us" using Cons by fastforce
  then have "vouched pb ext p s (x # xs) (v # us)" using Cons.prems vs by simp
  then show ?case by blast
qed

text \<open>What an accepted log reads as, line by line.\<close>

lemma verified_reading:
  assumes "coherent pb ext" "verify_lines pb ext lines = Inr vl" "i < length lines"
  shows "length (vl_lines vl) = length lines" and
    "case vl_lines vl ! i of
       Known r ref \<Rightarrow> parse_line ext (lines ! i) = Inr r \<and> to_line ext r = Inr (lines ! i) \<and> ref = to_ref r \<and>
         r_seq r = of_nat i \<and> r_prev r = chain_end (chain_hash ext) genesis_prev (take i lines)
     | IgnoredUnknown q \<Rightarrow> q = of_nat i"
proof -
  have v: "vouched pb ext genesis_prev seq_first lines (vl_lines vl)" using assms(2) by (simp add: verify_lines_iff)
  then show "length (vl_lines vl) = length lines" by (rule vouched_lengths)
  have at_i: "vouched_line pb ext (chain_end (chain_hash ext) genesis_prev (take i lines)) (of_nat i) (lines ! i) (vl_lines vl ! i)"
    using vouched_nth [OF v assms(3)] by (simp add: seq_first_def)
  have same: "env_seq env = r_seq r \<and> env_prev env = r_prev r"
    if "parse_line ext raw = Inr r" "probe_envelope pb raw = Inr env" for raw r env
    using that assms(1) unfolding coherent_def by fastforce
  show "case vl_lines vl ! i of
       Known r ref \<Rightarrow> parse_line ext (lines ! i) = Inr r \<and> to_line ext r = Inr (lines ! i) \<and> ref = to_ref r \<and>
         r_seq r = of_nat i \<and> r_prev r = chain_end (chain_hash ext) genesis_prev (take i lines)
     | IgnoredUnknown q \<Rightarrow> q = of_nat i"
    using at_i same unfolding vouched_line_def by (auto split: verified_line.split)
qed

section \<open>A log is known by its last line\<close>

text \<open>
  Two accepted logs that end in the same line are the same log, unless two of their lines
  collide under the hash.
\<close>

lemma chain_end_snoc: "chain_end h p (xs @ [x]) = h x"
  by (simp add: chain_end_append)

lemma vouched_last:
  assumes "vouched pb ext p s (xs @ [x]) vs" "vouched pb ext p s (ys @ [x]) ws"
  shows "s + of_nat (length xs) = s + of_nat (length ys)"
    and "chain_end (chain_hash ext) p xs = chain_end (chain_hash ext) p ys"
proof -
  have "vouched_line pb ext (chain_end (chain_hash ext) p zs) (s + of_nat (length zs)) x (us ! length zs)"
    if "vouched pb ext p s (zs @ [x]) us" for zs us
    using vouched_nth [OF that, of "length zs"] by simp
  from this [OF assms(1)] this [OF assms(2)]
  show "s + of_nat (length xs) = s + of_nat (length ys)"
    and "chain_end (chain_hash ext) p xs = chain_end (chain_hash ext) p ys"
    unfolding vouched_line_def by auto
qed

lemma same_history:
  assumes "inj_on (chain_hash ext) (set xs \<union> set ys)" "length xs = length ys"
    "vouched pb ext p s (xs @ [x]) vs" "vouched pb ext p s (ys @ [x]) ws"
  shows "xs = ys"
  using assms
proof (induction xs arbitrary: ys x vs ws rule: rev_induct)
  case Nil
  then show ?case by (metis length_0_conv)
next
  case (snoc a xs)
  obtain b zs where ys: "ys = zs @ [b]" "length zs = length xs"
    using snoc.prems(2) by (cases ys rule: rev_cases) auto
  have "chain_end (chain_hash ext) p (xs @ [a]) = chain_end (chain_hash ext) p ys"
    by (rule vouched_last(2) [OF snoc.prems(3,4)])
  then have "chain_hash ext a = chain_hash ext b" unfolding ys(1) chain_end_snoc .
  then have ab: "a = b" by (rule inj_onD [OF snoc.prems(1)]) (simp_all add: ys(1))
  obtain vs' where v: "vouched pb ext p s (xs @ [a]) vs'" using vouched_prefix [OF snoc.prems(3)] by blast
  obtain ws' where w: "vouched pb ext p s (zs @ [a]) ws'"
    using vouched_prefix [OF snoc.prems(4)] unfolding ys(1) ab by blast
  have "inj_on (chain_hash ext) (set xs \<union> set zs)"
    by (rule inj_on_subset [OF snoc.prems(1)]) (auto simp: ys(1))
  then have "xs = zs" using snoc.IH v w ys(2) by metis
  then show ?case by (simp add: ys(1) ab)
qed

lemma verified_same:
  assumes "verify_lines pb ext (xs @ [x]) = Inr v" "verify_lines pb ext (ys @ [x]) = Inr w"
    "inj_on (chain_hash ext) (set xs \<union> set ys)"
  shows "xs = ys"
proof -
  have v: "vouched pb ext genesis_prev seq_first (xs @ [x]) (vl_lines v)" "length xs < u64_max"
    and w: "vouched pb ext genesis_prev seq_first (ys @ [x]) (vl_lines w)" "length ys < u64_max"
    using assms(1,2) by (auto simp: verify_lines_iff)
  have "(of_nat (length xs) :: seq) = of_nat (length ys)" using vouched_last(1) [OF v(1) w(1)] by simp
  moreover have "unat (of_nat n :: seq) = n" if "n < u64_max" for n
    using that unfolding u64_max_def by (simp add: unsigned_of_nat take_bit_nat_eq_self)
  ultimately have "length xs = length ys" using v(2) w(2) by metis
  then show ?thesis by (rule same_history [OF assms(3) _ v(1) w(1)])
qed

section \<open>Which calls dangle\<close>

text \<open>The next record of a run, behind a call, that says something about its call.\<close>

definition about_calls :: "run_id \<Rightarrow> event_record \<Rightarrow> bool" where
  "about_calls run r \<longleftrightarrow> r_run r = run \<and> (r_kind r = ToolCalled \<or> r_kind r = ToolResult)"

text \<open>Every call with the next such record behind it.\<close>

definition followed :: "event_record list \<Rightarrow> (run_id \<times> seq \<times> event_record option) set" where
  "followed rs = {(r_run r, r_seq r, List.find (about_calls (r_run r)) ys) | xs r ys. rs = xs @ r # ys \<and> r_kind r = ToolCalled}"

definition given_up :: "event_record list \<Rightarrow> call_at set" where
  "given_up rs = {(run, s). \<exists>r. (run, s, Some r) \<in> followed rs \<and> r_kind r = ToolCalled}"

definition unanswered :: "event_record list \<Rightarrow> call_at set" where
  "unanswered rs = {(run, s). (run, s, None) \<in> followed rs}"

definition follow_on :: "event_record \<Rightarrow> run_id \<times> seq \<times> event_record option \<Rightarrow> run_id \<times> seq \<times> event_record option" where
  "follow_on x = (\<lambda>(run, s, n). (run, s, case n of Some y \<Rightarrow> Some y | None \<Rightarrow> if about_calls run x then Some x else None))"

lemma find_snoc: "List.find P (xs @ [x]) = (case List.find P xs of Some y \<Rightarrow> Some y | None \<Rightarrow> if P x then Some x else None)"
  by (induction xs) auto

lemma followed_snoc:
  "followed (rs @ [x]) = follow_on x ` followed rs \<union> (if r_kind x = ToolCalled then {(r_run x, r_seq x, None)} else {})"
proof (rule set_eqI)
  fix c
  have "c \<in> followed (rs @ [x]) \<longleftrightarrow>
      (\<exists>xs r ys. rs @ [x] = xs @ r # ys \<and> r_kind r = ToolCalled \<and> c = (r_run r, r_seq r, List.find (about_calls (r_run r)) ys))"
    by (auto simp: followed_def)
  also have "\<dots> \<longleftrightarrow> (r_kind x = ToolCalled \<and> c = (r_run x, r_seq x, None)) \<or>
      (\<exists>xs r zs. rs = xs @ r # zs \<and> r_kind r = ToolCalled \<and>
         c = follow_on x (r_run r, r_seq r, List.find (about_calls (r_run r)) zs))" (is "?l \<longleftrightarrow> ?r")
  proof
    assume ?l
    then obtain xs r ys where s: "rs @ [x] = xs @ r # ys" "r_kind r = ToolCalled"
      "c = (r_run r, r_seq r, List.find (about_calls (r_run r)) ys)" by blast
    show ?r
    proof (cases ys rule: rev_cases)
      case Nil
      then show ?thesis using s by auto
    next
      case (snoc zs y)
      then have "rs = xs @ r # zs" "y = x" using s(1) by auto
      then show ?thesis using s snoc by (auto simp: follow_on_def find_snoc)
    qed
  next
    assume ?r
    then show ?l
    proof
      assume "r_kind x = ToolCalled \<and> c = (r_run x, r_seq x, None)"
      then show ?l by (intro exI [of _ rs] exI [of _ x] exI [of _ "[]"]) simp
    next
      assume "\<exists>xs r zs. rs = xs @ r # zs \<and> r_kind r = ToolCalled \<and>
         c = follow_on x (r_run r, r_seq r, List.find (about_calls (r_run r)) zs)"
      then obtain xs r zs where "rs = xs @ r # zs" "r_kind r = ToolCalled"
        "c = follow_on x (r_run r, r_seq r, List.find (about_calls (r_run r)) zs)" by blast
      then show ?l by (intro exI [of _ xs] exI [of _ r] exI [of _ "zs @ [x]"]) (simp add: follow_on_def find_snoc)
    qed
  qed
  also have "\<dots> \<longleftrightarrow> c \<in> follow_on x ` followed rs \<union> (if r_kind x = ToolCalled then {(r_run x, r_seq x, None)} else {})"
    by (auto simp: followed_def)
  finally show "c \<in> followed (rs @ [x]) \<longleftrightarrow>
    c \<in> follow_on x ` followed rs \<union> (if r_kind x = ToolCalled then {(r_run x, r_seq x, None)} else {})" .
qed

lemma followed_Nil [simp]: "followed [] = {}"
  by (simp add: followed_def)

lemma calls_Nil [simp]: "unanswered [] = {}" "given_up [] = {}"
  by (simp_all add: unanswered_def given_up_def)

lemma unanswered_snoc:
  "unanswered (rs @ [x]) =
     {c \<in> unanswered rs. \<not> about_calls (fst c) x} \<union> (if r_kind x = ToolCalled then {(r_run x, r_seq x)} else {})"
  by (force simp: unanswered_def followed_snoc follow_on_def image_def split: option.splits if_splits)

lemma given_up_snoc:
  "given_up (rs @ [x]) =
     given_up rs \<union> (if r_kind x = ToolCalled then {c \<in> unanswered rs. fst c = r_run x} else {})"
  by (force simp: given_up_def unanswered_def followed_snoc follow_on_def image_def about_calls_def split: option.splits if_splits)

definition tracks :: "event_record list \<Rightarrow> (run_id, call_at) btree \<times> call_at list \<Rightarrow> bool" where
  "tracks rs = (\<lambda>(pending, dangling).
     bt_ok pending \<and> (\<forall>run c. bt_get pending run = Some c \<longleftrightarrow> c \<in> unanswered rs \<and> fst c = run) \<and> set dangling = given_up rs)"

lemma tracks_snoc:
  assumes "tracks rs st"
  shows "tracks (rs @ [x]) (track_call x st)"
proof -
  obtain pending dangling where st: "st = (pending, dangling)" by (cases st)
  have inv: "bt_ok pending" "\<And>run c. bt_get pending run = Some c \<longleftrightarrow> c \<in> unanswered rs \<and> fst c = run"
    "set dangling = given_up rs" using assms by (auto simp: tracks_def st)
  have "{c \<in> unanswered rs. fst c = r_run x} = (case bt_get pending (r_run x) of Some c \<Rightarrow> {c} | None \<Rightarrow> {})"
  proof (cases "bt_get pending (r_run x)")
    case None
    then have "c \<notin> unanswered rs \<or> fst c \<noteq> r_run x" for c using inv(2) [of "r_run x" c] by simp
    then show ?thesis using None by auto
  next
    case (Some c)
    then have "c' \<in> unanswered rs \<and> fst c' = r_run x \<longleftrightarrow> c' = c" for c' using inv(2) [of "r_run x" c'] by auto
    then show ?thesis using Some by simp
  qed
  then have dropped: "set (snd (track_call x st)) = given_up (rs @ [x])"
    by (auto simp: track_call_def st given_up_snoc inv(3) split: option.splits)
  have "bt_get (fst (track_call x st)) run = Some c \<longleftrightarrow> c \<in> unanswered (rs @ [x]) \<and> fst c = run" for run c
    using inv(2) [of run c] inv(1)
    by (auto simp: track_call_def st unanswered_snoc about_calls_def bt_get_insert bt_get_remove split: if_splits)
  moreover have "bt_ok (fst (track_call x st))" using inv(1) by (auto simp: track_call_def st bt_ok_insert bt_ok_remove)
  ultimately show ?thesis using dropped by (auto simp: tracks_def split: prod.split)
qed

lemma tracks_all: "tracks rs (fold track_call rs ([], []))"
proof (induction rs rule: rev_induct)
  case Nil
  show ?case by (simp add: tracks_def bt_get_def)
next
  case (snoc x rs)
  then show ?case using tracks_snoc by simp
qed

lemma track_known: "fold track_line vs st = fold track_call (known_records vs) st"
  by (induction vs arbitrary: st rule: known_records.induct) auto

lemma dangling_calls:
  "set (dangling_tool_calls vl) = given_up (known_records (vl_lines vl)) \<union> unanswered (known_records (vl_lines vl))"
  "sorted (map snd (dangling_tool_calls vl))"
proof -
  let ?rs = "known_records (vl_lines vl)"
  obtain pending dangling where st: "fold track_call ?rs ([], []) = (pending, dangling)" by (cases "fold track_call ?rs ([], [])")
  then have inv: "bt_ok pending" "\<And>run c. bt_get pending run = Some c \<longleftrightarrow> c \<in> unanswered ?rs \<and> fst c = run"
    "set dangling = given_up ?rs" using tracks_all [of ?rs] by (auto simp: tracks_def)
  have "set (bt_values pending) = unanswered ?rs"
    using bt_values_in [OF inv(1)] inv(2) by (metis set_eqI)
  then show "set (dangling_tool_calls vl) = given_up ?rs \<union> unanswered ?rs"
    using st inv(3) by (simp add: dangling_tool_calls_def track_known)
  show "sorted (map snd (dangling_tool_calls vl))"
    by (simp add: dangling_tool_calls_def split: prod.split)
qed

section \<open>The calls of a run\<close>

lemma carried_never_calls: "carrier_of c = CarrierEvent k \<Longrightarrow> k \<noteq> ToolCalled"
  by (cases c) auto

text \<open>A stage in which a call may stand without its result.\<close>

fun may_wait :: "run_stage \<Rightarrow> bool" where
  "may_wait (InCall t i) = True"
| "may_wait Halted = True"
| "may_wait (Handed t) = True"
| "may_wait Ended = True"
| "may_wait _ = False"

lemma under_way_waits: "under_way q \<Longrightarrow> may_wait Halted" by simp

text \<open>
  A run gives no call up, and leaves at most one without a result: the one it was in when
  it stopped.
\<close>

lemma story_calls:
  "story p ds q \<Longrightarrow> ds = map draft_of rs \<Longrightarrow>
   given_up rs = {} \<and> (\<exists>c. fst c = plan_run_id p \<and> unanswered rs \<subseteq> {c}) \<and> (unanswered rs \<noteq> {} \<longrightarrow> may_wait q)"
proof (induction arbitrary: rs rule: story.induct)
  case opens
  then show ?case by auto
next
  case (told ds q d q')
  then obtain rs' r where rs: "rs = rs' @ [r]" "ds = map draft_of rs'" "draft_of r = d"
    by (cases rs rule: rev_cases) auto
  have ih: "given_up rs' = {}" "\<exists>c. fst c = plan_run_id p \<and> unanswered rs' \<subseteq> {c}" "unanswered rs' \<noteq> {} \<longrightarrow> may_wait q"
    using told.IH [OF rs(2)] by auto
  have r: "r_kind r = d_kind d" "r_run r = d_run d" using rs(3) by (auto simp: draft_of_def)
  show ?case
  proof (cases "d_kind d = ToolCalled")
    case True
    with told.hyps(2) have q: "\<not> may_wait q" "d_run d = plan_run_id p" "may_wait q'"
      by (cases rule: telling.cases; auto simp: of_turn_def of_run_def dest: carried_never_calls)+
    then show ?thesis
      using ih True r by (auto simp: rs(1) given_up_snoc unanswered_snoc about_calls_def)
  next
    case False
    have "unanswered rs \<subseteq> unanswered rs'" "given_up rs = given_up rs'"
      using False r(1) by (auto simp: rs(1) given_up_snoc unanswered_snoc)
    moreover have "may_wait q'" if wait: "unanswered rs \<noteq> {}"
    proof -
      have mine: "c \<in> unanswered rs' \<Longrightarrow> fst c = plan_run_id p" for c using ih(2) by auto
      have "may_wait q" using calculation(1) ih(3) wait by auto
      with told.hyps(2) show "may_wait q'"
      proof (cases rule: telling.cases)
        case (results t i)
        then have "unanswered rs = {}"
          using mine r by (auto simp: rs(1) unanswered_snoc about_calls_def of_turn_def of_run_def)
        with wait show ?thesis by simp
      qed auto
    qed
    ultimately show ?thesis using ih by blast
  qed
next
  case (passed ds q q')
  then show ?case by (auto elim!: passing.cases)
qed

section \<open>The scan closes what waited\<close>

lemma outcome_draft:
  assumes "r_kind c = ToolCalled"
  shows "\<exists>d. outcome_unknown_draft c t = Inr d \<and> d_kind d = ToolResult \<and> d_run d = r_run c \<and>
    says d ''tool_use_id'' (text_or_unknown (r_data c) ''id'')"
proof -
  let ?kvs = "\<lambda>i n e. obj [(''tool_use_id'', jstr i), (''name'', jstr n), (''error'', JObject (error_fields e))]"
  have "float_free (JObject (?kvs i n e))" for i n e
    using error_fields_free by (intro obj_float_free) (auto simp: jstr_def)
  then have "payload_new (?kvs i n e) = Inr (Payload (?kvs i n e))" for i n e
    unfolding payload_new_ok by blast
  then show ?thesis using assms
    by (simp add: outcome_unknown_draft_def Let_def bind_r_def says_def obj_get)
qed

lemma call_recorded:
  assumes "c \<in> unanswered rs \<union> given_up rs"
  shows "\<exists>k \<in> set rs. r_kind k = ToolCalled \<and> r_run k = fst c \<and> r_seq k = snd c"
  using assms by (force simp: unanswered_def given_up_def followed_def)

lemma find_recorded:
  assumes "c \<in> unanswered (known_records (vl_lines vl)) \<union> given_up (known_records (vl_lines vl))"
  shows "\<exists>r. find_call vl c = Some r \<and> r_run r = fst c \<and> r_seq r = snd c \<and> r \<in> set (known_records (vl_lines vl))"
proof -
  have "\<exists>r \<in> set (known_records (vl_lines vl)). r_run r = fst c \<and> r_seq r = snd c"
    using call_recorded [OF assms] by blast
  then have "List.find (\<lambda>r. r_run r = fst c \<and> r_seq r = snd c) (known_records (vl_lines vl)) \<noteq> None"
    by (auto simp: find_None_iff)
  then show ?thesis by (cases c) (auto simp: find_call_def find_Some_iff)
qed

text \<open>The calls of a history whose numbers name its records.\<close>

lemma find_called:
  assumes "c \<in> unanswered (known_records (vl_lines vl)) \<union> given_up (known_records (vl_lines vl))"
    "distinct (map r_seq (known_records (vl_lines vl)))"
  shows "\<exists>r. find_call vl c = Some r \<and> r_run r = fst c \<and> r_kind r = ToolCalled"
proof -
  obtain r where r: "find_call vl c = Some r" "r_run r = fst c" "r_seq r = snd c" "r \<in> set (known_records (vl_lines vl))"
    using find_recorded [OF assms(1)] by blast
  obtain k where "k \<in> set (known_records (vl_lines vl))" "r_kind k = ToolCalled" "r_seq k = snd c"
    using call_recorded [OF assms(1)] by blast
  then have "k = r" using r assms(2) by (metis distinct_map inj_onD)
  then show ?thesis using r \<open>r_kind k = ToolCalled\<close> by blast
qed

text \<open>New results, one for each run named.\<close>

definition results_for :: "run_id list \<Rightarrow> event_record list \<Rightarrow> bool" where
  "results_for runs new \<longleftrightarrow> map r_run new = runs \<and> (\<forall>r \<in> set new. r_kind r = ToolResult)"

lemma results_for_simps [simp]:
  "results_for [] new \<longleftrightarrow> new = []"
  "results_for (run # runs) new \<longleftrightarrow> (\<exists>r rest. new = r # rest \<and> r_run r = run \<and> r_kind r = ToolResult \<and> results_for runs rest)"
  by (auto simp: results_for_def)

lemma results_answer:
  "results_for runs new \<Longrightarrow> unanswered (rs @ new) = {c \<in> unanswered rs. fst c \<notin> set runs} \<and> given_up (rs @ new) = given_up rs"
proof (induction runs arbitrary: rs new)
  case (Cons run runs)
  then obtain r rest where new: "new = r # rest" "r_run r = run" "r_kind r = ToolResult" "results_for runs rest" by auto
  then show ?case
    using Cons.IH [OF new(4), of "rs @ [r]"]
    by (auto simp: unanswered_snoc given_up_snoc about_calls_def)
qed simp

context ledger_port
begin

lemma close_calls_outcome:
  assumes "shows_history (the_ledger w) rs" "\<forall>c \<in> set cs. \<exists>r. find_call vl c = Some r \<and> r_run r = fst c \<and> r_kind r = ToolCalled"
    "close_calls app now vl cs n w = (Inr k, w')"
  shows "\<exists>new. shows_history (the_ledger w') (rs @ new) \<and> results_for (map fst cs) new \<and> k = n + length cs"
  using assms
proof (induction cs arbitrary: rs w n)
  case Nil
  then show ?case by (auto simp: ret_def intro: exI [of _ "[]"])
next
  case (Cons c cs)
  obtain r where r: "find_call vl c = Some r" "r_run r = fst c" "r_kind r = ToolCalled" using Cons.prems(2) by auto
  obtain t w1 d ref w2 where steps: "on_outside now w = (Inr t, w1)" "outcome_unknown_draft r t = Inr d"
    "on_ledger (app d) w1 = (Inr ref, w2)" "close_calls app now vl cs (Suc n) w2 = (Inr k, w')"
    using Cons.prems(3) r(1)
    by (auto simp: and_then_def of_result_def ret_def fail_with_def split: prod.splits sum.splits)
  have d: "d_kind d = ToolResult" "d_run d = fst c" using outcome_draft [OF r(3), of t] steps(2) r(2) by auto
  have "the_ledger w1 = the_ledger w" using steps(1) by (auto simp: on_outside_def split: prod.splits)
  moreover obtain l' where "app d (the_ledger w1) = (Inr ref, l')" "the_ledger w2 = l'"
    using steps(3) by (auto simp: on_ledger_def split: prod.splits)
  ultimately obtain rec where rec: "shows_history (the_ledger w2) (rs @ [rec])" "draft_of rec = d"
    using append_ok Cons.prems(1) by metis
  obtain new where new: "shows_history (the_ledger w') ((rs @ [rec]) @ new)" "results_for (map fst cs) new" "k = Suc n + length cs"
    using Cons.IH [OF rec(1) _ steps(4)] Cons.prems(2) by auto
  have "results_for (map fst (c # cs)) (rec # new)"
    using new(2) rec(2) d by (auto simp: draft_of_def)
  then show ?case using new(1,3) by (intro exI [of _ "rec # new"]) auto
qed

lemma close_calls_failure:
  assumes "shows_history (the_ledger w) rs" "\<forall>c \<in> set cs. \<exists>r. find_call vl c = Some r \<and> r_kind r = ToolCalled"
    "close_calls app now vl cs n w = (Inl e, w')"
  shows "carrier_of (code e) = Loadtime \<or>
    (\<exists>new. shows_history (the_ledger w') (rs @ new) \<and> (\<forall>r \<in> set new. r_kind r = ToolResult))"
  using assms
proof (induction cs arbitrary: rs w n)
  case Nil
  then show ?case by (simp add: ret_def)
next
  case (Cons c cs)
  obtain r where r: "find_call vl c = Some r" "r_kind r = ToolCalled" using Cons.prems(2) by auto
  obtain t0 w1 where now: "on_outside now w = (t0, w1)" by (cases "on_outside now w")
  have l1: "the_ledger w1 = the_ledger w" using now by (auto simp: on_outside_def split: prod.splits)
  show ?case
  proof (cases t0)
    case (Inl e0)
    then have "w' = w1" using Cons.prems(3) r(1) now by (auto simp: and_then_def)
    then show ?thesis using Cons.prems(1) l1 by (intro disjI2 exI [of _ "[]"]) simp
  next
    case (Inr t)
    obtain d where d: "outcome_unknown_draft r t = Inr d" "d_kind d = ToolResult" using outcome_draft [OF r(2)] by blast
    obtain ref l2 where put: "app d (the_ledger w1) = (ref, l2)" by (cases "app d (the_ledger w1)")
    let ?w2 = "w1\<lparr>the_ledger := l2\<rparr>"
    show ?thesis
    proof (cases ref)
      case (Inl e1)
      then have "w' = ?w2" "e = e1"
        using Cons.prems(3) r(1) now Inr d(1) put by (auto simp: and_then_def of_result_def ret_def on_ledger_def)
      then show ?thesis using append_err [of "the_ledger w1" rs d e1 l2] put Inl Cons.prems(1) l1
        by (auto intro: exI [of _ "[]"])
    next
      case ok: (Inr x)
      then obtain rec where rec: "shows_history l2 (rs @ [rec])" "draft_of rec = d"
        using append_ok [of "the_ledger w1" rs d x l2] put Cons.prems(1) l1 by auto
      have rest: "close_calls app now vl cs (Suc n) ?w2 = (Inl e, w')"
        using Cons.prems(3) r(1) now Inr d(1) put ok by (auto simp: and_then_def of_result_def ret_def on_ledger_def)
      have "carrier_of (code e) = Loadtime \<or>
          (\<exists>new. shows_history (the_ledger w') ((rs @ [rec]) @ new) \<and> (\<forall>r \<in> set new. r_kind r = ToolResult))"
        using Cons.IH [OF _ _ rest, of "rs @ [rec]"] rec(1) Cons.prems(2) by simp
      moreover have "r_kind rec = ToolResult" using rec(2) d(2) by (auto simp: draft_of_def)
      ultimately show ?thesis by (metis append.assoc append_Cons append_Nil set_ConsD)
    qed
  qed
qed

text \<open>After the scan nothing waits, and the next scan has only what was given up before.\<close>

lemma scan_outcome:
  assumes "shows_history (the_ledger w) rs" "verify_lines pb ext lines = Inr vl" "known_records (vl_lines vl) = rs"
    "startup_scan pb ext app now lines w = (Inr (n, k), w')"
  shows "\<exists>new. shows_history (the_ledger w') (rs @ new) \<and> (\<forall>r \<in> set new. r_kind r = ToolResult) \<and>
    length new = length (dangling_tool_calls vl) \<and> k = length new \<and>
    unanswered (rs @ new) = {} \<and> given_up (rs @ new) = given_up rs"
proof -
  have distinct: "distinct (map r_seq rs)" using numbered [OF assms(1)] by (simp add: strict_sorted_iff)
  have found: "\<forall>c \<in> set (dangling_tool_calls vl). \<exists>r. find_call vl c = Some r \<and> r_run r = fst c \<and> r_kind r = ToolCalled"
    using find_called distinct assms(3) dangling_calls(1) [of vl] by blast
  have close: "close_calls app now vl (dangling_tool_calls vl) 0 w = (Inr k, w')"
    using assms(2,4) by (auto simp: startup_scan_def and_then_def of_result_def ret_def split: prod.splits sum.splits)
  obtain new where new: "shows_history (the_ledger w') (rs @ new)" "results_for (map fst (dangling_tool_calls vl)) new"
    "k = length (dangling_tool_calls vl)"
    using close_calls_outcome [OF assms(1) found close] by auto
  have "\<forall>c \<in> unanswered rs. fst c \<in> set (map fst (dangling_tool_calls vl))"
    using dangling_calls(1) [of vl] assms(3) by auto
  then have "unanswered (rs @ new) = {}" "given_up (rs @ new) = given_up rs"
    using results_answer [OF new(2), of rs] by blast+
  moreover have "length new = length (dangling_tool_calls vl)"
    using new(2) unfolding results_for_def by (metis length_map)
  ultimately show ?thesis using new by (auto simp: results_for_def)
qed

lemma scan_failure:
  assumes "shows_history (the_ledger w) rs" "verify_lines pb ext lines = Inr vl" "known_records (vl_lines vl) = rs"
    "startup_scan pb ext app now lines w = (Inl e, w')"
  shows "carrier_of (code e) = Loadtime \<or>
    (\<exists>new. shows_history (the_ledger w') (rs @ new) \<and> (\<forall>r \<in> set new. r_kind r = ToolResult))"
proof -
  have distinct: "distinct (map r_seq rs)" using numbered [OF assms(1)] by (simp add: strict_sorted_iff)
  have found: "\<forall>c \<in> set (dangling_tool_calls vl). \<exists>r. find_call vl c = Some r \<and> r_kind r = ToolCalled"
    using find_called distinct assms(3) dangling_calls(1) [of vl] by blast
  have "close_calls app now vl (dangling_tool_calls vl) 0 w = (Inl e, w')"
    using assms(2,4) by (auto simp: startup_scan_def and_then_def of_result_def ret_def split: prod.splits sum.splits)
  then show ?thesis by (rule close_calls_failure [OF assms(1) found])
qed

end

text \<open>The last line of a verified log vouches for all of it: two logs that verify and end in the same line are the same log and read the same, unless two of their lines collide under the hash.\<close>

lemma replayed_logs_agree:
  assumes "verify_lines pb ext (xs @ [x]) = Inr v" "verify_lines pb ext (ys @ [x]) = Inr w"
    "inj_on (chain_hash ext) (set xs \<union> set ys)"
  shows "xs = ys \<and> v = w"
  using verified_same [OF assms] assms(1,2) by simp

end
