(* ===== verification/Run_Samples.thy ===== *)
theory Run_Samples
  imports Run_Stories Run_Endings Replays Store_Samples
begin

text \<open>
  A run on the simulator's ledger: its plan, a clock that counts, and models that answer at
  once, fail with a provider's error, or fail with one no event carries.
\<close>

text \<open>Hashes that are quick to write stand for BLAKE3.\<close>

definition run_hash :: hasher where
  "run_hash _ = B3Hash []"

definition demo_serde :: serde where
  "demo_serde = \<lparr>sd_blocks = (\<lambda>_. Inr []), sd_kind = (\<lambda>_. Inr (JString ''kind'')), sd_kind_debug = (\<lambda>_. ''Kind''),
     sd_text = (\<lambda>_. ''json''), sd_run_text = (\<lambda>_. ''run''), sd_digest = run_hash\<rparr>"

definition demo_prefix :: frozen_prefix where
  "demo_prefix = \<lparr>fp_city = segment_new run_hash CitySlot ''c'', fp_building = segment_new run_hash BuildingSlot ''b'',
     fp_resident = segment_new run_hash ResidentSlot ''r'', fp_run = segment_new run_hash RunSlot ''j'', fp_notes = None\<rparr>"

definition demo_locator :: locator where
  "demo_locator = Cas (B3Hash []) None"

definition demo_plan :: "u32 \<Rightarrow> run_plan" where
  "demo_plan budget = \<lparr>plan_run_id = 7, plan_who = ''r'', plan_addr = Address ''lab'', plan_task = ''t'', plan_goal = ''g'',
     plan_opening = FromJob, plan_job = demo_locator, plan_parent = None, plan_budget_turns = budget,
     plan_budget = \<lparr>cap_usd = UsdMicros 0, cap_tokens = Tokens 0\<rparr>,
     plan_shape = \<lparr>shape_model = ''m'', shape_max_tokens = 512, shape_effort = None\<rparr>, plan_prefix = demo_prefix,
     plan_policy = \<lparr>confidential = False\<rparr>, plan_tools = [], plan_skills = []\<rparr>"

definition demo_handoff :: handoff where
  "demo_handoff = \<lparr>must_read = [demo_locator], overview = ''o'', progress_note = ''p'', context_note = ''c'', next_step = ''n''\<rparr>"

text \<open>The outside is a counter, read as the clock.\<close>

definition demo_hooks :: "nat run_hooks" where
  "demo_hooks = \<lparr>hook_now = (\<lambda>n. (Inr (of_nat n), Suc n)), hook_interrupt = (\<lambda>_ n. (NoInterrupt, n)), hook_fence = None,
     hook_invoke = (\<lambda>_ _ n. (Inr payload_empty, n)), hook_deltas = None\<rparr>"

definition demo_model :: "(ax_error, model_return) result \<Rightarrow> nat model_port" where
  "demo_model answer = \<lparr>model_call = (\<lambda>_ n. (answer, n)), model_stream = (\<lambda>_ _ n. (answer, n))\<rparr>"

definition demo_answer :: model_return where
  "demo_answer = model_return_bare payload_empty []"

definition demo_canon :: line_writer where
  "demo_canon r = Inr [char_of (unat (r_t r))]"

definition demo_run :: "(ax_error, model_return) result \<Rightarrow> u32 \<Rightarrow> (ax_error, frozen_run) result \<times> mem_ledger \<times> nat" where
  "demo_run answer budget =
     drive demo_serde (mem_append demo_canon run_hash) (demo_model answer) demo_hooks (demo_plan budget) demo_handoff mem_new 0"

lemma demo_well_behaved: "well_behaved demo_serde (demo_model (Inr demo_answer)) demo_hooks"
  by (simp add: well_behaved_def usable_def content_from_message_def ask_model_def demo_hooks_def demo_model_def
      demo_serde_def demo_answer_def model_return_bare_def payload_empty_def bt_get_def)

lemma demo_kinds: "kinds_are_text demo_serde"
  by (simp add: kinds_are_text_def demo_serde_def)

text \<open>A run that answers at once leaves seven lines.\<close>

lemma demo_run_answers: "map_sum id frozen_turns (fst (demo_run (Inr demo_answer) 3)) = Inr 1"
  "length (mem_lines (fst (snd (demo_run (Inr demo_answer) 3)))) = 7"
  by code_simp+

text \<open>
  A provider's failure that no event carries leaves a run that started and never froze, on a
  ledger that works.
\<close>

lemma mismatch_leaves_run_open:
  "fst (demo_run (Inl (failure WireMismatch ''read reply'' ''body'')) 3) = Inl (failure WireMismatch ''read reply'' ''body'')"
  "length (mem_lines (fst (snd (demo_run (Inl (failure WireMismatch ''read reply'' ''body'')) 3)))) = 4"
  by code_simp+

text \<open>The lines of a run whose failure was carried: their stamps go back by one at the handoff.\<close>

lemma carried_failure_turns_time_back:
  "mem_lines (fst (snd (demo_run (Inl (failure Provider ''ask'' ''model'')) 3))) =
     map (\<lambda>t. [char_of (t :: nat)]) [0, 1, 2, 2, 3, 2, 3]"
  by code_simp

section \<open>Replay\<close>

definition demo_probes :: probes where
  "demo_probes = \<lparr>probe_envelope = (\<lambda>line. if line = ''x''
       then Inr \<lparr>env_v = 1, env_seq = 0, env_prev = genesis_prev, env_kind = ''tool_result'', env_ig = False\<rparr> else Inl ''not json''),
     probe_kind = (\<lambda>k. if k = ''tool_result'' then Some ToolResult else None)\<rparr>"

lemma demo_coherent: "coherent demo_probes demo_parts"
  by (simp add: coherent_def demo_probes_def demo_parts_def demo_record_def from_draft_def demo_draft_def
      event_log_v_def seq_first_def)

lemma demo_chain: "chained (parse_line demo_parts) (chain_hash demo_parts) genesis_prev seq_first [''x'']"
  by (simp add: continues_chain_def demo_parts_def demo_record_def from_draft_def)

lemma demo_written: "map (to_line demo_parts) [demo_record] = map Inr [''x'']"
  by (simp add: demo_parts_def)

text \<open>A call that nobody answered, in memory, and the scan that closes it.\<close>

definition open_call :: event_record where
  "open_call = from_draft \<lparr>d_run = 7, d_t = 3, d_who = ''r'', d_addr = None, d_kind = ToolCalled,
     d_data = Payload (obj [(''id'', jstr ''c1''), (''name'', jstr ''probe'')]), d_ig = False\<rparr> seq_first genesis_prev"

definition call_parts :: third_party where
  "call_parts = \<lparr>to_line = (\<lambda>r. if r = open_call then Inr ''c'' else Inl (failure InvalidArgs ''write'' ''record'')),
     parse_line = (\<lambda>line. if line = ''c'' then Inr open_call else Inl (failure InvalidArgs ''read'' line)),
     chain_hash = run_hash, probe_v = (\<lambda>_. Some 1)\<rparr>"

definition call_probes :: probes where
  "call_probes = \<lparr>probe_envelope = (\<lambda>_. Inr \<lparr>env_v = 1, env_seq = 0, env_prev = genesis_prev, env_kind = ''tool_called'',
       env_ig = False\<rparr>), probe_kind = (\<lambda>_. Some ToolCalled)\<rparr>"

lemma open_call_closed:
  "fst (startup_scan call_probes call_parts (mem_append demo_canon run_hash) (\<lambda>n. (Inr (of_nat n), Suc n)) [''c'']
     \<lparr>the_ledger = mem_new, outside = 9\<rparr>) = Inr (1, 1)"
  by code_simp

lemma demo_verified:
  "verify_lines demo_probes demo_parts [''x''] = Inr \<lparr>vl_raw = [''x''], vl_lines = [Known demo_record (to_ref demo_record)]\<rparr>"
  using vouched_written [OF demo_coherent, of "[demo_record]" "[''x'']"] demo_sound demo_chain demo_written
  by (simp add: verify_lines_iff sound_parts_def u64_max_def)

end
