(* ===== verification/Inboxes.thy ===== *)
theory Inboxes
  imports Queues Json_Objects Verdicts
begin

text \<open>
  Signals between residents and the side that receives them (\<open>crates/collab/src/inbox.rs\<close>),
  and speaking into a run that works (\<open>crates/collab/src/steer.rs\<close>). An inbox is two of the
  queues of \<open>Queues\<close> and a bandwidth. \<open>Debug\<close>'s rendering of a text is a parameter of the
  refusal that quotes it, BLAKE3 one of the key.
\<close>

section \<open>Signals\<close>

datatype (plugins only: code size) signal_kind = Mention | Thread | Broadcast | SteerSignal

definition signal_kind_str :: "signal_kind \<Rightarrow> string" where
  "signal_kind_str k =
     (case k of Mention \<Rightarrow> ''mention'' | Thread \<Rightarrow> ''thread'' | Broadcast \<Rightarrow> ''broadcast'' | SteerSignal \<Rightarrow> ''steer'')"

definition signal_kind_parse :: "string \<Rightarrow> (ax_error, signal_kind) result" where
  "signal_kind_parse raw =
     (if raw = ''mention'' then Inr Mention
      else if raw = ''thread'' then Inr Thread
      else if raw = ''broadcast'' then Inr Broadcast
      else if raw = ''steer'' then Inr SteerSignal
      else Inl (with_recovery ''mention, thread, broadcast or steer'' (failure InvalidArgs ''read a signal kind'' raw)))"

datatype (plugins only: code size) signal_lane = Urgent | Ordinary

definition signal_lane_str :: "signal_lane \<Rightarrow> string" where
  "signal_lane_str l = (case l of Urgent \<Rightarrow> ''urgent'' | Ordinary \<Rightarrow> ''ordinary'')"

datatype signal_id = SignalId (sid_str: string)

text \<open>Some character of a UTF-8 text is whitespace.\<close>

fun has_whitespace :: "string \<Rightarrow> bool" where
  "has_whitespace [] = False"
| "has_whitespace (c # s) \<longleftrightarrow> list_ex (\<lambda>w. starts_with w (c # s)) whitespace \<or> has_whitespace s"

definition signal_id_parse :: "(string \<Rightarrow> string) \<Rightarrow> string \<Rightarrow> (ax_error, signal_id) result" where
  "signal_id_parse debug raw =
     (if raw = [] \<or> has_whitespace raw
      then Inl (with_recovery ''use a non-empty id with no whitespace, such as a run id and a counter''
             (failure InvalidArgs ''read a signal id'' (debug raw)))
      else Inr (SignalId raw))"

record signal =
  sg_id :: signal_id
  sg_kind :: signal_kind
  sg_from :: string
  sg_room :: address
  sg_room_version :: version
  sg_payload :: payload
  sg_at :: time_ms

definition signal_new :: "signal_id \<Rightarrow> signal_kind \<Rightarrow> string \<Rightarrow> address \<Rightarrow> version \<Rightarrow> payload \<Rightarrow> time_ms \<Rightarrow>
    (ax_error, signal) result" where
  "signal_new i k from room ver data t =
     (if from = []
      then Inl (with_recovery ''name the sender; a signal is read as coming from someone''
             (failure InvalidArgs ''build a signal'' (sid_str i)))
      else Inr \<lparr>sg_id = i, sg_kind = k, sg_from = from, sg_room = room, sg_room_version = ver, sg_payload = data, sg_at = t\<rparr>)"

definition lane_of :: "signal \<Rightarrow> signal_lane" where
  "lane_of s = (case sg_kind s of SteerSignal \<Rightarrow> Urgent | _ \<Rightarrow> Ordinary)"

definition wire_fields :: "signal \<Rightarrow> (string \<times> json) list" where
  "wire_fields s =
     [(''id'', jstr (sid_str (sg_id s))), (''kind'', jstr (signal_kind_str (sg_kind s))), (''from'', jstr (sg_from s)),
      (''room'', jstr (addr_str (sg_room s))), (''room_version'', JNumber (PosInt (version_value (sg_room_version s)))),
      (''payload'', JObject (payload_fields (sg_payload s))), (''at'', JNumber (PosInt (sg_at s)))]"

definition signal_wire :: "signal \<Rightarrow> (string \<times> json) list" where
  "signal_wire s = obj (wire_fields s)"

definition enqueued_payload :: "signal \<Rightarrow> (ax_error, payload) result" where
  "enqueued_payload s = payload_new (bt_insert ''lane'' (jstr (signal_lane_str (lane_of s))) (signal_wire s))"

definition consumed_payload :: "signal \<Rightarrow> string \<Rightarrow> (ax_error, payload) result" where
  "consumed_payload s by_whom = payload_new (obj [(''id'', jstr (sid_str (sg_id s))), (''by'', jstr by_whom)])"

definition broken :: "string \<Rightarrow> ax_error" where
  "broken field = with_recovery
     ''the queue writes this shape itself; a missing field means the two halves disagree''
     (failure InvalidArgs ''read a queued signal'' field)"

definition or_broken :: "string \<Rightarrow> 'a option \<Rightarrow> (ax_error, 'a) result" where
  "or_broken key x = (case x of Some a \<Rightarrow> Inr a | None \<Rightarrow> Inl (broken key))"

definition text_at :: "(string \<times> json) list \<Rightarrow> string \<Rightarrow> (ax_error, string) result" where
  "text_at m key = or_broken key (Option.bind (bt_get m key) as_string)"

definition number_at :: "(string \<times> json) list \<Rightarrow> string \<Rightarrow> (ax_error, u64) result" where
  "number_at m key = or_broken key (Option.bind (bt_get m key) as_u64)"

definition as_object :: "json \<Rightarrow> (string \<times> json) list option" where
  "as_object v = (case v of JObject m \<Rightarrow> Some m | _ \<Rightarrow> None)"

text \<open>The arguments of the constructor are read in their order.\<close>

definition from_wire :: "(string \<Rightarrow> string) \<Rightarrow> (string \<times> json) list \<Rightarrow> (ax_error, signal) result" where
  "from_wire debug m =
     bind_r (or_broken ''payload'' (Option.bind (bt_get m ''payload'') as_object)) (\<lambda>body.
     bind_r (text_at m ''id'') (\<lambda>raw. bind_r (signal_id_parse debug raw) (\<lambda>i.
     bind_r (text_at m ''kind'') (\<lambda>raw. bind_r (signal_kind_parse raw) (\<lambda>k.
     bind_r (text_at m ''from'') (\<lambda>from.
     bind_r (text_at m ''room'') (\<lambda>raw. bind_r (address_parse raw) (\<lambda>room.
     bind_r (number_at m ''room_version'') (\<lambda>ver.
     bind_r (payload_new body) (\<lambda>data.
     bind_r (number_at m ''at'') (\<lambda>t.
     signal_new i k from room (Version ver) data t)))))))))))"

definition from_payload :: "(string \<Rightarrow> string) \<Rightarrow> payload \<Rightarrow> (ax_error, signal) result" where
  "from_payload debug p = from_wire debug (payload_fields p)"

section \<open>The inbox\<close>

record inbox =
  in_urgent :: event_queue
  in_ordinary :: event_queue
  in_bandwidth :: u32

definition inbox_new :: "u64 \<Rightarrow> u32 \<Rightarrow> inbox" where
  "inbox_new cap bandwidth =
     \<lparr>in_urgent = queue_new SignalLane cap, in_ordinary = queue_new SignalLane cap, in_bandwidth = max bandwidth 1\<rparr>"

definition signal_key :: "(u8 list \<Rightarrow> u8 list) \<Rightarrow> signal \<Rightarrow> idem_key" where
  "signal_key xof16 s = idem_derive xof16 run_city seq_first (map (\<lambda>c. of_nat (of_char c)) (sid_str (sg_id s)))"

definition deliver :: "(u8 list \<Rightarrow> u8 list) \<Rightarrow> signal \<Rightarrow> inbox \<Rightarrow> (ax_error, admission) result \<times> inbox" where
  "deliver xof16 s b =
     (case payload_new (signal_wire s) of
        Inl e \<Rightarrow> (Inl e, b)
      | Inr data \<Rightarrow>
          (case lane_of s of
             Urgent \<Rightarrow>
               (case enqueue (signal_key xof16 s) data (sg_at s) (in_urgent b) of
                  (a, q) \<Rightarrow> (Inr a, b\<lparr>in_urgent := q\<rparr>))
           | Ordinary \<Rightarrow>
               (case enqueue (signal_key xof16 s) data (sg_at s) (in_ordinary b) of
                  (a, q) \<Rightarrow> (Inr a, b\<lparr>in_ordinary := q\<rparr>))))"

text \<open>One item, urgent first.\<close>

definition next_item :: "inbox \<Rightarrow> queue_item option \<times> inbox" where
  "next_item b =
     (case consume (in_urgent b) of
        (Some x, q) \<Rightarrow> (Some x, b\<lparr>in_urgent := q\<rparr>)
      | (None, q) \<Rightarrow>
          (case consume (in_ordinary b) of (x, q') \<Rightarrow> (x, b\<lparr>in_urgent := q, in_ordinary := q'\<rparr>)))"

text \<open>At most so many more; what was taken before a payload that does not read is lost.\<close>

fun pull_more :: "(string \<Rightarrow> string) \<Rightarrow> nat \<Rightarrow> signal list \<Rightarrow> inbox \<Rightarrow> (ax_error, signal list) result \<times> inbox" where
  "pull_more debug 0 out b = (Inr out, b)"
| "pull_more debug (Suc n) out b =
     (case next_item b of
        (None, b) \<Rightarrow> (Inr out, b)
      | (Some x, b) \<Rightarrow>
          (case from_wire debug (payload_fields (qi_payload x)) of
             Inl e \<Rightarrow> (Inl e, b)
           | Inr s \<Rightarrow> pull_more debug n (out @ [s]) b))"

definition pull :: "(string \<Rightarrow> string) \<Rightarrow> inbox \<Rightarrow> (ax_error, signal list) result \<times> inbox" where
  "pull debug b = pull_more debug (unat (in_bandwidth b)) [] b"

definition take_steer :: "(string \<Rightarrow> string) \<Rightarrow> inbox \<Rightarrow> signal option \<times> inbox" where
  "take_steer debug b =
     (case consume (in_urgent b) of
        (None, q) \<Rightarrow> (None, b\<lparr>in_urgent := q\<rparr>)
      | (Some x, q) \<Rightarrow>
          (case from_wire debug (payload_fields (qi_payload x)) of Inr s \<Rightarrow> Some s | Inl _ \<Rightarrow> None, b\<lparr>in_urgent := q\<rparr>))"

definition signals_pending :: "inbox \<Rightarrow> u32" where
  "signals_pending b =
     (let n = saturating_add (queue_len (in_urgent b)) (queue_len (in_ordinary b)) in
      if unat n < 2 ^ 32 then ucast n else - 1)"

section \<open>Signals read back\<close>

definition signal_id_ok :: "signal_id \<Rightarrow> bool" where
  "signal_id_ok i \<longleftrightarrow> sid_str i \<noteq> [] \<and> \<not> has_whitespace (sid_str i)"

definition signal_ok :: "signal \<Rightarrow> bool" where
  "signal_ok s \<longleftrightarrow> signal_id_ok (sg_id s) \<and> sg_from s \<noteq> [] \<and> address_ok (sg_room s) \<and>
     float_free (JObject (payload_fields (sg_payload s)))"

interpretation signal_kind: strict_codec signal_kind_parse signal_kind_str "\<lambda>_. True"
  by unfold_locales (auto simp: signal_kind_parse_def signal_kind_str_def split: signal_kind.splits if_splits)

interpretation signal_id: strict_codec "signal_id_parse debug" sid_str signal_id_ok for debug
  by unfold_locales (auto simp: signal_id_parse_def signal_id_ok_def split: if_splits)

lemma wire_gets:
  "bt_get (signal_wire s) k = map_of (wire_fields s) k"
  "bt_get (bt_insert ''lane'' v (signal_wire s)) k = (if k = ''lane'' then Some v else map_of (wire_fields s) k)"
  by (auto simp: signal_wire_def obj_get wire_fields_def bt_get_insert)

lemma reads_wire:
  assumes "signal_ok s" "\<And>k. k \<noteq> ''lane'' \<Longrightarrow> bt_get m k = map_of (wire_fields s) k"
  shows "from_wire debug m = Inr s"
proof -
  have data: "payload_new (payload_fields (sg_payload s)) = Inr (sg_payload s)"
    using assms(1) unfolding signal_ok_def payload_new_ok by simp
  have num: "as_u64 (JNumber (PosInt n)) = Some n" for n by (simp add: as_u64_def)
  have body: "as_object (JObject kvs) = Some kvs" for kvs by (simp add: as_object_def)
  have ids: "signal_id_parse debug (sid_str (sg_id s)) = Inr (sg_id s)"
    "address_parse (addr_str (sg_room s)) = Inr (sg_room s)"
    using assms(1) signal_id.parse_spell address.parse_spell by (auto simp: signal_ok_def)
  show ?thesis
    using assms(1) data ids
    by (simp add: from_wire_def assms(2) wire_fields_def text_at_def number_at_def or_broken_def num body
        signal_kind.parse_spell signal_new_def signal_ok_def)
qed

lemma signal_reads_back: "signal_ok s \<Longrightarrow> from_wire debug (signal_wire s) = Inr s"
  by (rule reads_wire) (simp_all add: wire_gets)

lemma wire_float_free:
  assumes "signal_ok s"
  shows "float_free (JObject (signal_wire s))" "float_free (JObject (bt_insert ''lane'' (jstr l) (signal_wire s)))"
proof -
  have "\<forall>kv \<in> set (wire_fields s @ [(''lane'', jstr l)]). float_free (snd kv)"
    using assms by (auto simp: wire_fields_def signal_ok_def is_float_def)
  moreover have "bt_insert ''lane'' (jstr l) (signal_wire s) = obj (wire_fields s @ [(''lane'', jstr l)])"
    by (simp add: obj_def signal_wire_def)
  ultimately show "float_free (JObject (signal_wire s))" "float_free (JObject (bt_insert ''lane'' (jstr l) (signal_wire s)))"
    using obj_float_free [of "wire_fields s"] obj_float_free [of "wire_fields s @ [(''lane'', jstr l)]"]
    by (auto simp: signal_wire_def)
qed

lemma enqueued_reads_back:
  assumes "signal_ok s"
  shows "\<exists>p. enqueued_payload s = Inr p \<and> from_payload debug p = Inr s"
proof -
  have "float_free (JObject (bt_insert ''lane'' (jstr (signal_lane_str (lane_of s))) (signal_wire s)))"
    by (rule wire_float_free(2) [OF assms])
  then have "enqueued_payload s = Inr (Payload (bt_insert ''lane'' (jstr (signal_lane_str (lane_of s))) (signal_wire s)))"
    by (simp only: enqueued_payload_def payload_new_ok)
  then show ?thesis using reads_wire [OF assms] by (simp add: from_payload_def wire_gets)
qed

section \<open>Two lines\<close>

text \<open>What an item of a line stands for.\<close>

definition holds_signal :: "queue_item \<Rightarrow> signal \<Rightarrow> bool" where
  "holds_signal x s \<longleftrightarrow> signal_ok s \<and> payload_fields (qi_payload x) = signal_wire s"

text \<open>An inbox shows two lines of signals.\<close>

definition shows_lines :: "inbox \<Rightarrow> signal list \<Rightarrow> signal list \<Rightarrow> bool" where
  "shows_lines b us os \<longleftrightarrow> queue_valid (in_urgent b) \<and> queue_valid (in_ordinary b) \<and>
     list_all2 holds_signal (queue_waiting (in_urgent b)) us \<and> list_all2 holds_signal (queue_waiting (in_ordinary b)) os"

lemma inbox_new_lines: "shows_lines (inbox_new cap bandwidth) [] []"
  by (simp add: shows_lines_def inbox_new_def queue_new_valid new_lane_empty)

lemma consume_waiting:
  assumes "queue_valid q"
  shows "case queue_waiting q of
      [] \<Rightarrow> consume q = (None, q)
    | x # rest \<Rightarrow> \<exists>q'. consume q = (Some x, q') \<and> queue_waiting q' = rest \<and> queue_valid q' \<and> eq_seen q' = eq_seen q"
  using lane.valid_take [OF assms] lane.take_known [OF assms]
  by (auto simp: consume_head queue_waiting_def bt_values_def split: list.splits)

lemma next_item_lines:
  assumes "shows_lines b us os"
  shows "case us @ os of
      [] \<Rightarrow> next_item b = (None, b)
    | s # _ \<Rightarrow> \<exists>x b'. next_item b = (Some x, b') \<and> holds_signal x s \<and> shows_lines b' (tl us) (if us = [] then tl os else os) \<and>
        in_bandwidth b' = in_bandwidth b"
proof (cases us)
  case (Cons u rest)
  then obtain x xs where w: "queue_waiting (in_urgent b) = x # xs" "holds_signal x u" "list_all2 holds_signal xs rest"
    using assms by (auto simp: shows_lines_def list_all2_Cons2)
  have "queue_valid (in_urgent b)" using assms by (simp add: shows_lines_def)
  from consume_waiting [OF this] obtain q' where q: "consume (in_urgent b) = (Some x, q')" "queue_waiting q' = xs" "queue_valid q'"
    by (auto simp: w(1))
  then show ?thesis using assms w Cons by (auto simp: next_item_def shows_lines_def)
next
  case Nil
  have v: "queue_valid (in_urgent b)" "queue_valid (in_ordinary b)" "queue_waiting (in_urgent b) = []"
    using assms Nil by (auto simp: shows_lines_def)
  have none: "consume (in_urgent b) = (None, in_urgent b)" using consume_waiting [OF v(1)] v(3) by simp
  show ?thesis
  proof (cases os)
    case os: Nil
    then have "queue_waiting (in_ordinary b) = []" using assms by (simp add: shows_lines_def)
    then have "consume (in_ordinary b) = (None, in_ordinary b)" using consume_waiting [OF v(2)] by simp
    then show ?thesis using none Nil os by (simp add: next_item_def)
  next
    case (Cons o1 rest)
    then obtain x xs where w: "queue_waiting (in_ordinary b) = x # xs" "holds_signal x o1" "list_all2 holds_signal xs rest"
      using assms by (auto simp: shows_lines_def list_all2_Cons2)
    from consume_waiting [OF v(2)] obtain q' where q: "consume (in_ordinary b) = (Some x, q')" "queue_waiting q' = xs" "queue_valid q'"
      by (auto simp: w(1))
    then show ?thesis using none v w Nil Cons by (auto simp: next_item_def shows_lines_def)
  qed
qed

text \<open>A pull takes the first of both lines in turn, urgent first, and never fails.\<close>

lemma pull_more_lines:
  "shows_lines b us os \<Longrightarrow>
   \<exists>b'. pull_more debug n out b = (Inr (out @ take n (us @ os)), b') \<and>
     shows_lines b' (drop n us) (drop (n - length us) os) \<and> in_bandwidth b' = in_bandwidth b"
proof (induction n arbitrary: b us os out)
  case 0
  then show ?case by simp
next
  case (Suc n)
  show ?case
  proof (cases "us @ os")
    case Nil
    then show ?thesis using next_item_lines [OF Suc.prems] Suc.prems by simp
  next
    case (Cons s rest)
    then obtain x b1 where step: "next_item b = (Some x, b1)" "holds_signal x s"
      "shows_lines b1 (tl us) (if us = [] then tl os else os)" "in_bandwidth b1 = in_bandwidth b"
      using next_item_lines [OF Suc.prems] by auto
    have "from_wire debug (payload_fields (qi_payload x)) = Inr s"
      using step(2) signal_reads_back by (simp add: holds_signal_def)
    moreover have "take (Suc n) (us @ os) = s # take n (tl us @ (if us = [] then tl os else os))"
      using Cons by (cases us) auto
    moreover have "drop n (tl us) = drop (Suc n) us" by (simp add: drop_Suc)
    moreover have "drop (n - length (tl us)) (if us = [] then tl os else os) = drop (Suc n - length us) os"
      by (cases us) (auto simp: drop_Suc)
    ultimately show ?thesis using Suc.IH [OF step(3), of "out @ [s]"] step(1,4) by simp
  qed
qed

lemma pull_lines:
  assumes "shows_lines b us os"
  shows "\<exists>b'. pull debug b = (Inr (take (unat (in_bandwidth b)) (us @ os)), b') \<and>
    shows_lines b' (drop (unat (in_bandwidth b)) us) (drop (unat (in_bandwidth b) - length us) os) \<and>
    in_bandwidth b' = in_bandwidth b"
  using pull_more_lines [OF assms, of debug "unat (in_bandwidth b)" "[]"] by (simp add: pull_def)

text \<open>A delivery goes to the end of its lane, or is a repeat, or is shed.\<close>

definition line_queue :: "inbox \<Rightarrow> signal_lane \<Rightarrow> event_queue" where
  "line_queue b l = (case l of Urgent \<Rightarrow> in_urgent b | Ordinary \<Rightarrow> in_ordinary b)"

lemma enqueue_outcome:
  assumes "queue_valid q" "0 < ids_left q" "enqueue key data t q = (a, q')"
  shows "queue_valid q' \<and> key \<in> eq_seen q' \<and> a = QueueAdmit \<and> key \<in> eq_seen q \<and> queue_waiting q' = queue_waiting q \<or>
    queue_valid q' \<and> (\<exists>why. a = Shed why) \<and> key \<notin> eq_seen q \<and> queue_waiting q' = queue_waiting q \<and> eq_seen q' = eq_seen q \<or>
    queue_valid q' \<and> key \<in> eq_seen q' \<and> a = QueueAdmit \<and> key \<notin> eq_seen q \<and>
      (\<exists>x. queue_waiting q' = queue_waiting q @ [x] \<and> qi_payload x = data)"
proof -
  let ?x = "\<lparr>qi_id = 0, qi_key = key, qi_payload = data, qi_enqueued = t\<rparr>"
  have "queue_put ?x q = q'" using assms(3) by (simp add: queue_put_def)
  then have "queue_valid q'" using queue_put_valid [OF assms(1,2), of ?x] by simp
  then show ?thesis
    using assms by (cases rule: enqueue_cases [of key q])
      (auto simp: enqueue_seen enqueue_shed enqueue_stored queue_waiting_def bt_values_def)
qed

lemma deliver_lines:
  assumes "shows_lines b us os" "signal_ok s" "0 < ids_left (line_queue b (lane_of s))" "deliver xof16 s b = (r, b')"
  shows "in_bandwidth b' = in_bandwidth b \<and>
    (r = Inr QueueAdmit \<and> signal_key xof16 s \<in> eq_seen (line_queue b (lane_of s)) \<and> shows_lines b' us os \<or>
     (\<exists>why. r = Inr (Shed why)) \<and> shows_lines b' us os \<or>
     r = Inr QueueAdmit \<and> signal_key xof16 s \<notin> eq_seen (line_queue b (lane_of s)) \<and>
       signal_key xof16 s \<in> eq_seen (line_queue b' (lane_of s)) \<and>
       (case lane_of s of Urgent \<Rightarrow> shows_lines b' (us @ [s]) os | Ordinary \<Rightarrow> shows_lines b' us (os @ [s])))"
proof -
  have data: "payload_new (signal_wire s) = Inr (Payload (signal_wire s))"
    using wire_float_free(1) [OF assms(2)] by (simp only: payload_new_ok)
  obtain a q' where q: "enqueue (signal_key xof16 s) (Payload (signal_wire s)) (sg_at s) (line_queue b (lane_of s)) = (a, q')"
    by (cases "enqueue (signal_key xof16 s) (Payload (signal_wire s)) (sg_at s) (line_queue b (lane_of s))")
  have r: "r = Inr a" "b' = (case lane_of s of Urgent \<Rightarrow> b\<lparr>in_urgent := q'\<rparr> | Ordinary \<Rightarrow> b\<lparr>in_ordinary := q'\<rparr>)"
    using assms(4) q data by (auto simp: deliver_def line_queue_def split: signal_lane.splits prod.splits)
  have valid: "queue_valid (line_queue b (lane_of s))" using assms(1) by (auto simp: shows_lines_def line_queue_def split: signal_lane.split)
  have held: "holds_signal x s" if "qi_payload x = Payload (signal_wire s)" for x
    using that assms(2) by (simp add: holds_signal_def)
  show ?thesis
    using enqueue_outcome [OF valid assms(3) q] assms(1) r held
    by (cases "lane_of s") (auto simp: shows_lines_def line_queue_def intro!: list_all2_appendI)
qed

section \<open>Steers\<close>

record steer =
  steer_source :: string
  steer_text :: string

record agent_steer =
  as_id :: string
  as_text :: string

definition person_source :: string where
  "person_source = ''user''"

definition agent_source :: "string \<Rightarrow> string" where
  "agent_source i = CHR ''@'' # i"

definition non_empty :: "string \<Rightarrow> (ax_error, string) result" where
  "non_empty txt =
     (if trim txt = []
      then Inl (with_recovery ''say what should change; a steer with no words costs a turn''
             (failure InvalidArgs ''build a steer'' ''empty text''))
      else Inr (trim txt))"

definition steer_from_person :: "string \<Rightarrow> (ax_error, steer) result" where
  "steer_from_person txt = bind_r (non_empty txt) (\<lambda>t. Inr \<lparr>steer_source = person_source, steer_text = t\<rparr>)"

definition steer_from_signal :: "signal \<Rightarrow> (ax_error, steer) result" where
  "steer_from_signal s =
     (if sg_kind s \<noteq> SteerSignal
      then Inl (with_recovery ''only a steer-kind signal overtakes; deliver the rest to the inbox''
             (failure InvalidArgs ''read a signal as a steer'' (signal_kind_str (sg_kind s))))
      else bind_r (non_empty (unwrap_or [] (Option.bind (bt_get (payload_fields (sg_payload s)) ''text'') as_string))) (\<lambda>t.
        Inr \<lparr>steer_source = agent_source (sg_from s), steer_text = t\<rparr>))"

definition agent_steer_new :: "string \<Rightarrow> string \<Rightarrow> (ax_error, agent_steer) result" where
  "agent_steer_new i txt =
     (if i = []
      then Inl (with_recovery ''a steer is read as coming from someone; give the sender's address''
             (failure InvalidArgs ''build an agent steer'' ''unnamed sender''))
      else bind_r (non_empty txt) (\<lambda>t. Inr \<lparr>as_id = i, as_text = t\<rparr>))"

definition agent_steer_signal :: "agent_steer \<Rightarrow> signal_id \<Rightarrow> address \<Rightarrow> version \<Rightarrow> time_ms \<Rightarrow> (ax_error, signal) result" where
  "agent_steer_signal a i room ver t =
     bind_r (payload_new (obj [(''text'', jstr (as_text a))])) (\<lambda>data.
     signal_new i SteerSignal (as_id a) room ver data t)"

definition landing :: "agent_steer \<Rightarrow> steer" where
  "landing a = \<lparr>steer_source = agent_source (as_id a), steer_text = as_text a\<rparr>"

text \<open>
  A steer that went through an inbox lands as its sender meant it, attributed to its sender
  and never to the person.
\<close>

lemma agent_steer_lands:
  assumes "agent_steer_new i txt = Inr a" "agent_steer_signal a sid room ver t = Inr s" "signal_id_ok sid" "address_ok room"
  shows "lane_of s = Urgent \<and> from_wire debug (signal_wire s) = Inr s \<and> steer_from_signal s = Inr (landing a) \<and>
    steer_source (landing a) \<noteq> person_source"
proof -
  have a: "as_id a = i" "as_text a = trim txt" "i \<noteq> []" "trim txt \<noteq> []"
    using assms(1) by (auto simp: agent_steer_new_def non_empty_def bind_r_def split: if_splits)
  have free: "float_free (JObject (obj [(''text'', jstr x)]))" for x by (rule obj_float_free) simp
  have data: "payload_new (obj [(''text'', jstr x)]) = Inr (Payload (obj [(''text'', jstr x)]))" for x
    using free by (simp only: payload_new_ok)
  then have s: "s = \<lparr>sg_id = sid, sg_kind = SteerSignal, sg_from = i, sg_room = room, sg_room_version = ver,
      sg_payload = Payload (obj [(''text'', jstr (trim txt))]), sg_at = t\<rparr>"
    using assms(2) a by (auto simp: agent_steer_signal_def bind_r_def signal_new_def)
  then have "signal_ok s" using assms(3,4) a free by (simp add: signal_ok_def)
  then show ?thesis
    using signal_reads_back a s
    by (simp add: lane_of_def steer_from_signal_def obj_get non_empty_def bind_r_def landing_def agent_source_def
        person_source_def trim_idem)
qed

end
