(* ===== verification/Draft_Desks.thy ===== *)
theory Draft_Desks
  imports Json_Objects Verdicts "HOL-Library.Product_Lexorder"
begin

text \<open>
  What happens when the room moved while its author was writing
  (\<open>crates/collab/src/draft.rs\<close>): a desk holds stale drafts, counts the holds in a row and
  issues tokens, and answers the author's four ways back.
\<close>

section \<open>Drafts and answers\<close>

record draft =
  draft_author :: string
  draft_room :: address
  draft_seen :: version
  draft_body :: payload

datatype (plugins only: code size) way_back = Rewrite | SendAsIs | Withdraw | ForceInformed

definition way_back_str :: "way_back \<Rightarrow> string" where
  "way_back_str w = (case w of Rewrite \<Rightarrow> ''rewrite'' | SendAsIs \<Rightarrow> ''send_as_is'' | Withdraw \<Rightarrow> ''withdraw''
     | ForceInformed \<Rightarrow> ''force_informed'')"

record hold_token =
  token_shown :: version
  token_turn :: u32

datatype submission = SubDelivered | SubHeld hold_token u32 | SubEscalated u32

datatype resolution = ResDelivered | ResWithdrawn | ResHeld hold_token u32 | ResEscalated u32 | TokenVoid hold_token

section \<open>The desk\<close>

type_synonym desk_key = "string \<times> string"

record drafts =
  desk_tokens :: "(desk_key, hold_token) btree"
  desk_holds :: "(desk_key, u32) btree"

definition drafts_new :: drafts where
  "drafts_new = \<lparr>desk_tokens = [], desk_holds = []\<rparr>"

definition draft_held_escalate :: u32 where
  "draft_held_escalate = 3"

definition draft_key :: "draft \<Rightarrow> desk_key" where
  "draft_key d = (draft_author d, addr_str (draft_room d))"

definition desk_token :: "draft \<Rightarrow> drafts \<Rightarrow> hold_token option" where
  "desk_token d st = bt_get (desk_tokens st) (draft_key d)"

definition desk_hold_count :: "draft \<Rightarrow> drafts \<Rightarrow> u32" where
  "desk_hold_count d st = unwrap_or 0 (bt_get (desk_holds st) (draft_key d))"

definition desk_hold :: "draft \<Rightarrow> version \<Rightarrow> u32 \<Rightarrow> drafts \<Rightarrow> u32 \<times> drafts" where
  "desk_hold d current turn st =
     (let n = (case bt_get (desk_holds st) (draft_key d) of Some n \<Rightarrow> saturating_add n 1 | None \<Rightarrow> 1) in
      (n, st\<lparr>desk_holds := bt_insert (draft_key d) n (desk_holds st),
             desk_tokens := bt_insert (draft_key d) \<lparr>token_shown = current, token_turn = turn\<rparr> (desk_tokens st)\<rparr>))"

definition desk_clear :: "draft \<Rightarrow> drafts \<Rightarrow> drafts" where
  "desk_clear d st =
     st\<lparr>desk_tokens := bt_remove (draft_key d) (desk_tokens st), desk_holds := bt_remove (draft_key d) (desk_holds st)\<rparr>"

definition submit :: "draft \<Rightarrow> version \<Rightarrow> u32 \<Rightarrow> drafts \<Rightarrow> submission \<times> drafts" where
  "submit d current turn st =
     (if draft_seen d = current then (SubDelivered, desk_clear d st)
      else (let (n, st) = desk_hold d current turn st in
        if draft_held_escalate \<le> n then (SubEscalated n, st)
        else (SubHeld (unwrap_or \<lparr>token_shown = current, token_turn = turn\<rparr> (desk_token d st)) n, st)))"

definition resolve :: "draft \<Rightarrow> way_back \<Rightarrow> version \<Rightarrow> u32 \<Rightarrow> drafts \<Rightarrow> resolution \<times> drafts" where
  "resolve d choice current turn st =
     (case choice of
        Withdraw \<Rightarrow> (ResWithdrawn, desk_clear d st)
      | ForceInformed \<Rightarrow>
          (case desk_token d st of
             Some token \<Rightarrow>
               if token_turn token = turn \<and> token_shown token = current then (ResDelivered, desk_clear d st)
               else (TokenVoid \<lparr>token_shown = current, token_turn = turn\<rparr>, snd (desk_hold d current turn st))
           | None \<Rightarrow> (TokenVoid \<lparr>token_shown = current, token_turn = turn\<rparr>, snd (desk_hold d current turn st)))
      | _ \<Rightarrow>
          (case submit d current turn st of
             (SubDelivered, st) \<Rightarrow> (ResDelivered, st)
           | (SubHeld token n, st) \<Rightarrow> (ResHeld token n, st)
           | (SubEscalated n, st) \<Rightarrow> (ResEscalated n, st)))"

definition held_payload :: "draft \<Rightarrow> version \<Rightarrow> drafts \<Rightarrow> (ax_error, payload) result" where
  "held_payload d current st = payload_new (obj
     [(''author'', jstr (draft_author d)), (''room'', jstr (addr_str (draft_room d))),
      (''seen'', JNumber (PosInt (version_value (draft_seen d)))), (''current'', JNumber (PosInt (version_value current))),
      (''holds'', JNumber (PosInt (ucast (desk_hold_count d st)))),
      (''returns'', JArray (map (\<lambda>w. jstr (way_back_str w)) [Rewrite, SendAsIs, Withdraw, ForceInformed]))])"

definition resolved_payload :: "draft \<Rightarrow> way_back \<Rightarrow> (ax_error, payload) result" where
  "resolved_payload d choice = payload_new (obj
     [(''author'', jstr (draft_author d)), (''room'', jstr (addr_str (draft_room d))), (''return'', jstr (way_back_str choice))])"

section \<open>What the desk remembers\<close>

datatype desk_op = Submitted draft version u32 | Answered draft way_back version u32

fun op_key :: "desk_op \<Rightarrow> desk_key" where
  "op_key (Submitted d _ _) = draft_key d"
| "op_key (Answered d _ _ _) = draft_key d"

fun desk_step :: "desk_op \<Rightarrow> drafts \<Rightarrow> drafts" where
  "desk_step (Submitted d v t) st = snd (submit d v t st)"
| "desk_step (Answered d w v t) st = snd (resolve d w v t st)"

text \<open>What the author was shown, when the desk held the draft.\<close>

fun shown_by :: "desk_op \<Rightarrow> drafts \<Rightarrow> hold_token option" where
  "shown_by (Submitted d v t) st =
     (case fst (submit d v t st) of SubDelivered \<Rightarrow> None | _ \<Rightarrow> Some \<lparr>token_shown = v, token_turn = t\<rparr>)"
| "shown_by (Answered d w v t) st =
     (case fst (resolve d w v t st) of ResDelivered \<Rightarrow> None | ResWithdrawn \<Rightarrow> None
      | _ \<Rightarrow> Some \<lparr>token_shown = v, token_turn = t\<rparr>)"

definition desk_after :: "desk_op list \<Rightarrow> drafts" where
  "desk_after ops = fold desk_step ops drafts_new"

definition desk_ok :: "drafts \<Rightarrow> bool" where
  "desk_ok st \<longleftrightarrow> bt_ok (desk_tokens st) \<and> bt_ok (desk_holds st)"

lemma desk_hold_effect:
  "desk_tokens (snd (desk_hold d v t st)) = bt_insert (draft_key d) \<lparr>token_shown = v, token_turn = t\<rparr> (desk_tokens st)"
  "desk_holds (snd (desk_hold d v t st)) =
     bt_insert (draft_key d) (saturating_add (desk_hold_count d st) 1) (desk_holds st)"
  "fst (desk_hold d v t st) = saturating_add (desk_hold_count d st) 1"
  by (auto simp: desk_hold_def Let_def desk_hold_count_def unwrap_or_def saturating_add_def split: option.split)

lemma submit_effect:
  "snd (submit d v t st) = (if draft_seen d = v then desk_clear d st else snd (desk_hold d v t st))"
  "fst (submit d v t st) = SubDelivered \<longleftrightarrow> draft_seen d = v"
  by (auto simp: submit_def Let_def split: prod.split)

lemma resolve_effect:
  "snd (resolve d w v t st) =
     (case w of Withdraw \<Rightarrow> desk_clear d st
      | ForceInformed \<Rightarrow> if desk_token d st = Some \<lparr>token_shown = v, token_turn = t\<rparr> then desk_clear d st
          else snd (desk_hold d v t st)
      | _ \<Rightarrow> snd (submit d v t st))"
  "fst (resolve d w v t st) = ResDelivered \<longleftrightarrow>
     (case w of Withdraw \<Rightarrow> False | ForceInformed \<Rightarrow> desk_token d st = Some \<lparr>token_shown = v, token_turn = t\<rparr>
      | _ \<Rightarrow> draft_seen d = v)"
  "fst (resolve d w v t st) = ResWithdrawn \<longleftrightarrow> w = Withdraw"
proof -
  have live: "(case desk_token d st of
      Some token \<Rightarrow> if token_turn token = t \<and> token_shown token = v then x else y | None \<Rightarrow> y) =
    (if desk_token d st = Some \<lparr>token_shown = v, token_turn = t\<rparr> then x else y)" for x y :: "resolution \<times> drafts"
    by (auto split: option.split)
  show "snd (resolve d w v t st) =
     (case w of Withdraw \<Rightarrow> desk_clear d st
      | ForceInformed \<Rightarrow> if desk_token d st = Some \<lparr>token_shown = v, token_turn = t\<rparr> then desk_clear d st
          else snd (desk_hold d v t st)
      | _ \<Rightarrow> snd (submit d v t st))"
    by (cases w) (auto simp: resolve_def live split: prod.split submission.split)
  show "fst (resolve d w v t st) = ResDelivered \<longleftrightarrow>
     (case w of Withdraw \<Rightarrow> False | ForceInformed \<Rightarrow> desk_token d st = Some \<lparr>token_shown = v, token_turn = t\<rparr>
      | _ \<Rightarrow> draft_seen d = v)"
    using submit_effect(2) [of d v t st]
    by (cases w) (auto simp: resolve_def live split: prod.split submission.split)
  show "fst (resolve d w v t st) = ResWithdrawn \<longleftrightarrow> w = Withdraw"
    by (cases w) (auto simp: resolve_def live split: prod.split submission.split)
qed

text \<open>An operation touches its own author and room only: it holds, or it clears.\<close>

lemma desk_step_effect:
  "desk_step op st = st\<lparr>
     desk_tokens := (case shown_by op st of Some tok \<Rightarrow> bt_insert (op_key op) tok (desk_tokens st)
                     | None \<Rightarrow> bt_remove (op_key op) (desk_tokens st)),
     desk_holds := (case shown_by op st of
          Some _ \<Rightarrow> bt_insert (op_key op) (saturating_add (unwrap_or 0 (bt_get (desk_holds st) (op_key op))) 1) (desk_holds st)
        | None \<Rightarrow> bt_remove (op_key op) (desk_holds st))\<rparr>"
proof (cases op)
  case (Submitted d v t)
  then show ?thesis
    using submit_effect [of d v t st] desk_hold_effect [of d v t st]
    by (cases "fst (submit d v t st)") (auto simp: desk_clear_def desk_hold_count_def intro: drafts.equality)
next
  case (Answered d w v t)
  show ?thesis
  proof (cases "w = Withdraw \<or> fst (resolve d w v t st) = ResDelivered")
    case True
    then have none: "shown_by op st = None" using Answered resolve_effect(3) [of d w v t st] by auto
    have "desk_step op st = desk_clear d st"
      using True Answered resolve_effect(1,2) [of d w v t st] submit_effect(1) [of d v t st]
      by (cases w) auto
    then show ?thesis using none Answered by (simp add: desk_clear_def)
  next
    case False
    then have some: "shown_by op st = Some \<lparr>token_shown = v, token_turn = t\<rparr>"
      using Answered resolve_effect(3) [of d w v t st] by (auto split: resolution.split)
    have "desk_step op st = snd (desk_hold d v t st)"
      using False Answered resolve_effect(1,2) [of d w v t st] submit_effect(1) [of d v t st]
      by (cases w) auto
    then show ?thesis using some Answered desk_hold_effect [of d v t st]
      by (auto simp: desk_hold_count_def intro: drafts.equality)
  qed
qed

lemma desk_after_snoc: "desk_after (ops @ [op]) = desk_step op (desk_after ops)"
  by (simp add: desk_after_def)

lemma desk_after_ok: "desk_ok (desk_after ops)"
proof (induction ops rule: rev_induct)
  case Nil
  show ?case by (simp add: desk_after_def drafts_new_def desk_ok_def)
next
  case (snoc op ops)
  then show ?case
    by (auto simp: desk_after_snoc desk_step_effect desk_ok_def bt_ok_insert bt_ok_remove split: option.split)
qed

text \<open>How often in a row the desk has held this author in this room.\<close>

fun holds_in_row :: "desk_key \<Rightarrow> desk_op list \<Rightarrow> drafts \<Rightarrow> nat \<Rightarrow> nat" where
  "holds_in_row k [] st n = n"
| "holds_in_row k (op # ops) st n =
     holds_in_row k ops (desk_step op st)
       (if op_key op \<noteq> k then n else if shown_by op st = None then 0 else Suc n)"

lemma holds_in_row_snoc:
  "holds_in_row k (ops @ [op]) st n =
     (if op_key op \<noteq> k then holds_in_row k ops st n
      else if shown_by op (fold desk_step ops st) = None then 0 else Suc (holds_in_row k ops st n))"
  by (induction ops arbitrary: st n) auto

lemma token_remembers:
  "desk_token d (desk_after ops) = Some tok \<longleftrightarrow>
     (\<exists>xs op ys. ops = xs @ op # ys \<and> op_key op = draft_key d \<and> (\<forall>o' \<in> set ys. op_key o' \<noteq> draft_key d) \<and>
        shown_by op (desk_after xs) = Some tok)"
proof (induction ops rule: rev_induct)
  case Nil
  show ?case by (simp add: desk_token_def desk_after_def drafts_new_def bt_get_def)
next
  case (snoc o1 ops)
  have "bt_ok (desk_tokens (desk_after ops))" using desk_after_ok [of ops] by (simp add: desk_ok_def)
  then have now: "desk_token d (desk_after (ops @ [o1])) =
      (if op_key o1 = draft_key d then shown_by o1 (desk_after ops) else desk_token d (desk_after ops))"
    by (auto simp: desk_token_def desk_after_snoc desk_step_effect bt_get_insert bt_get_remove split: option.split)
  have split: "ops @ [o1] = xs @ op # ys \<longleftrightarrow> (ys = [] \<and> ops = xs \<and> op = o1) \<or> (\<exists>zs. ys = zs @ [o1] \<and> ops = xs @ op # zs)"
    for xs op ys by (cases ys rule: rev_cases) auto
  show ?case
  proof (cases "op_key o1 = draft_key d")
    case True
    then have "shown_by o1 (desk_after ops) = Some tok \<Longrightarrow> ?thesis"
      unfolding now by (intro iffI exI [of _ ops] exI [of _ o1] exI [of _ "[]"]) simp_all
    then show ?thesis using True unfolding now split by auto
  next
    case False
    then have same: "desk_token d (desk_after (ops @ [o1])) = desk_token d (desk_after ops)" using now by simp
    show ?thesis
    proof
      assume "desk_token d (desk_after (ops @ [o1])) = Some tok"
      then obtain xs op ys where "ops = xs @ op # ys" "op_key op = draft_key d" "\<forall>o' \<in> set ys. op_key o' \<noteq> draft_key d"
        "shown_by op (desk_after xs) = Some tok" using same snoc.IH by auto
      then show "\<exists>xs op ys. ops @ [o1] = xs @ op # ys \<and> op_key op = draft_key d \<and> (\<forall>o' \<in> set ys. op_key o' \<noteq> draft_key d) \<and>
          shown_by op (desk_after xs) = Some tok"
        using False by (intro exI [of _ xs] exI [of _ op] exI [of _ "ys @ [o1]"]) auto
    next
      assume "\<exists>xs op ys. ops @ [o1] = xs @ op # ys \<and> op_key op = draft_key d \<and> (\<forall>o' \<in> set ys. op_key o' \<noteq> draft_key d) \<and>
          shown_by op (desk_after xs) = Some tok"
      then obtain xs op ys where o: "ops @ [o1] = xs @ op # ys" "op_key op = draft_key d"
        "\<forall>o' \<in> set ys. op_key o' \<noteq> draft_key d" "shown_by op (desk_after xs) = Some tok" by blast
      then obtain zs where "ys = zs @ [o1]" "ops = xs @ op # zs" using False split by auto
      then show "desk_token d (desk_after (ops @ [o1])) = Some tok" using o same snoc.IH by auto
    qed
  qed
qed

lemma holds_remembered:
  "unat (desk_hold_count d (desk_after ops)) = min (holds_in_row (draft_key d) ops drafts_new 0) (2 ^ 32 - 1)"
proof (induction ops rule: rev_induct)
  case Nil
  show ?case by (simp add: desk_hold_count_def desk_after_def drafts_new_def bt_get_def)
next
  case (snoc o1 ops)
  have "bt_ok (desk_holds (desk_after ops))" using desk_after_ok [of ops] by (simp add: desk_ok_def)
  then show ?case
    using snoc.IH
    by (auto simp: desk_hold_count_def desk_after_snoc desk_step_effect bt_get_insert bt_get_remove holds_in_row_snoc
        unat_saturating_add desk_after_def split: option.split)
qed

lemma forced_informed:
  "fst (resolve d ForceInformed v t (desk_after ops)) = ResDelivered \<longleftrightarrow>
     (\<exists>xs op ys. ops = xs @ op # ys \<and> op_key op = draft_key d \<and> (\<forall>o' \<in> set ys. op_key o' \<noteq> draft_key d) \<and>
        shown_by op (desk_after xs) = Some \<lparr>token_shown = v, token_turn = t\<rparr>)"
  by (simp add: resolve_effect(2) token_remembers)

lemma escalates_third:
  "(\<exists>n. fst (submit d v t (desk_after ops)) = SubEscalated n) \<longleftrightarrow>
     draft_seen d \<noteq> v \<and> 2 \<le> holds_in_row (draft_key d) ops drafts_new 0"
proof -
  let ?n = "fst (desk_hold d v t (desk_after ops))"
  have "unat ?n = min (Suc (min (holds_in_row (draft_key d) ops drafts_new 0) (2 ^ 32 - 1))) (2 ^ 32 - 1)"
    by (simp add: desk_hold_effect unat_saturating_add holds_remembered)
  then have "draft_held_escalate \<le> ?n \<longleftrightarrow> 2 \<le> holds_in_row (draft_key d) ops drafts_new 0"
    by (auto simp: word_le_nat_alt draft_held_escalate_def)
  moreover have "(\<exists>n. fst (submit d v t (desk_after ops)) = SubEscalated n) \<longleftrightarrow> draft_seen d \<noteq> v \<and> draft_held_escalate \<le> ?n"
    by (simp add: submit_def Let_def split: prod.split)
  ultimately show ?thesis by simp
qed

text \<open>
  An escalated draft is a person's to decide, but the desk keeps a token for it: its author
  may force it in the same turn.
\<close>

lemma escalated_is_forced:
  "fst (submit d v t st) = SubEscalated n \<Longrightarrow> fst (resolve d ForceInformed v t (snd (submit d v t st))) = ResDelivered"
  using submit_effect(2) [of d v t st]
  by (auto simp: resolve_effect(2) submit_effect(1) desk_token_def desk_hold_effect bt_get_insert)

text \<open>A bypass that came too late holds the draft once more and never escalates it.\<close>

lemma force_never_escalates: "fst (resolve d ForceInformed v t st) \<noteq> ResEscalated n"
  by (auto simp: resolve_def split: option.split if_splits)

end
