(* ===== verification/Schedules.thy ===== *)
theory Schedules
  imports Addresses
begin

text \<open>
  Work that starts by itself, \<open>src/crates/city/src/schedule.rs\<close>: the cadences, how a row of
  \<open>SCHEDULE.toml\<close> spells one, and which entries a window of time owes.

  Reading TOML is the \<open>toml\<close> crate's: a schedule file is a parameter giving its rows or the
  crate's message. \<open>{raw:?}\<close>, Rust's debug spelling of a string, is the parameter \<open>debug\<close>.
\<close>

section \<open>Cadences\<close>

definition minute_ms :: u64 where "minute_ms = 60000"
definition day_minutes :: u64 where "day_minutes = 1440"
definition week_minutes :: u64 where "week_minutes = 10080"
definition epoch_weekday_offset :: u64 where "epoch_weekday_offset = 3"

datatype (plugins only: code size) cadence =
    EveryMinutes u64
  | DailyAt u64
  | WeeklyAt u64

fun last_firing :: "cadence \<Rightarrow> u64 \<Rightarrow> u64" where
  "last_firing (EveryMinutes period) now_minutes =
     (let period = max period 1
      in saturating_sub now_minutes (now_minutes mod period))"
| "last_firing (DailyAt minute_of_day) now_minutes =
     (let day = saturating_sub now_minutes (now_minutes mod day_minutes);
          today = saturating_add day minute_of_day
      in if today \<le> now_minutes then today else saturating_sub today day_minutes)"
| "last_firing (WeeklyAt minute_of_week) now_minutes =
     (let week_start = saturating_add now_minutes (saturating_mul epoch_weekday_offset day_minutes);
          offset = week_start mod week_minutes;
          this_week = saturating_add (saturating_sub now_minutes offset) minute_of_week
      in if this_week \<le> now_minutes then this_week else saturating_sub this_week week_minutes)"

record job_entry =
  entry_name :: string
  entry_addr :: address
  entry_task :: string
  entry_goal :: string
  entry_cadence :: cadence

type_synonym schedule = "job_entry list"

definition due :: "schedule \<Rightarrow> u64 \<Rightarrow> u64 \<Rightarrow> job_entry list" where
  "due s after now =
     (let after_minutes = after div minute_ms;
          now_minutes = now div minute_ms
      in filter (\<lambda>entry. let fired = last_firing (entry_cadence entry) now_minutes
                         in fired > after_minutes \<and> fired \<le> now_minutes) s)"

section \<open>How a row spells its cadence\<close>

definition refuse_schedule :: "string \<Rightarrow> ax_error" where
  "refuse_schedule subj =
     with_recovery
       (''each job takes name, addr, task, goal and exactly one of `every = '' @ [CHR 0x22] @ ''30m'' @ [CHR 0x22] @
        ''`, `daily = '' @ [CHR 0x22] @ ''09:00'' @ [CHR 0x22] @ ''`, `weekly = '' @ [CHR 0x22] @ ''mon 09:00'' @ [CHR 0x22] @
        ''`; times are UTC, and calendar shapes such as day-of-month wait for a calendar the city does not have yet'')
       (failure ConfigInvalid ''read the city schedule'' subj)"

record job_row =
  job_name :: string
  job_addr :: string
  job_task :: string
  job_goal :: string
  job_every :: "string option"
  job_daily :: "string option"
  job_weekly :: "string option"

definition parse_u64 :: "string \<Rightarrow> u64 option" where
  "parse_u64 s = map_option of_nat (parse_unsigned u64_max s)"

definition read_every :: "(string \<Rightarrow> string) \<Rightarrow> string \<Rightarrow> (ax_error, cadence) result" where
  "read_every debug raw =
     bind_r (case strip_suffix ''m'' raw of
               Some v \<Rightarrow> Inr (v, 1)
             | None \<Rightarrow> (case strip_suffix ''h'' raw of
                   Some v \<Rightarrow> Inr (v, 60)
                 | None \<Rightarrow> Inl (refuse_schedule (''`every = '' @ debug raw @ ''` is not `<n>m` or `<n>h`''))))
       (\<lambda>(v, scale).
         case parse_u64 (trim v) of
           None \<Rightarrow> Inl (refuse_schedule (''`every = '' @ debug raw @ ''` has no number in it''))
         | Some count \<Rightarrow>
             if count = 0 then Inl (refuse_schedule ''`every` is at least one minute'')
             else Inr (EveryMinutes (saturating_mul count scale)))"

definition read_clock :: "(string \<Rightarrow> string) \<Rightarrow> string \<Rightarrow> (ax_error, u64) result" where
  "read_clock debug raw =
     (case split_once CHR '':'' (trim raw) of
        None \<Rightarrow> Inl (refuse_schedule (debug raw @ '' is not `HH:MM`''))
      | Some (hours, minutes) \<Rightarrow>
          (case parse_u64 hours of
             None \<Rightarrow> Inl (refuse_schedule (debug raw @ '' has no hour in it''))
           | Some hours \<Rightarrow>
               (case parse_u64 minutes of
                  None \<Rightarrow> Inl (refuse_schedule (debug raw @ '' has no minute in it''))
                | Some minutes \<Rightarrow>
                    if hours > 23 \<or> minutes > 59 then Inl (refuse_schedule (debug raw @ '' is not a time of day''))
                    else Inr (saturating_add (saturating_mul hours 60) minutes))))"

definition weekday :: "string \<Rightarrow> u64 option" where
  "weekday day = map_of [(''mon'', 0), (''tue'', 1), (''wed'', 2), (''thu'', 3), (''fri'', 4), (''sat'', 5), (''sun'', 6)] day"

definition read_weekly :: "(string \<Rightarrow> string) \<Rightarrow> string \<Rightarrow> (ax_error, cadence) result" where
  "read_weekly debug raw =
     (case split_once CHR '' '' (trim raw) of
        None \<Rightarrow> Inl (refuse_schedule (''`weekly = '' @ debug raw @ ''` is not `<day> HH:MM`''))
      | Some (day, clock) \<Rightarrow>
          (case weekday (to_ascii_lowercase day) of
             None \<Rightarrow> Inl (refuse_schedule (debug (to_ascii_lowercase day) @ '' is not mon..sun''))
           | Some index \<Rightarrow>
               bind_r (read_clock debug clock) (\<lambda>minute_of_day.
                 Inr (WeeklyAt (saturating_add (saturating_mul index day_minutes) minute_of_day)))))"

definition read_cadence :: "(string \<Rightarrow> string) \<Rightarrow> job_row \<Rightarrow> (ax_error, cadence) result" where
  "read_cadence debug row =
     (case (job_every row, job_daily row, job_weekly row) of
        (Some every, None, None) \<Rightarrow> read_every debug every
      | (None, Some daily, None) \<Rightarrow> bind_r (read_clock debug daily) (\<lambda>m. Inr (DailyAt m))
      | (None, None, Some weekly) \<Rightarrow> read_weekly debug weekly
      | (None, None, None) \<Rightarrow> Inl (refuse_schedule (job_name row @ '': no cadence''))
      | _ \<Rightarrow> Inl (refuse_schedule (job_name row @ '': two cadences on one job; it can only run on one of them'')))"

fun read_jobs :: "(string \<Rightarrow> string) \<Rightarrow> job_row list \<Rightarrow> (ax_error, schedule) result" where
  "read_jobs debug [] = Inr []"
| "read_jobs debug (row # rows) =
     bind_r (address_parse (job_addr row)) (\<lambda>addr.
     bind_r (read_cadence debug row) (\<lambda>cadence.
     bind_r (read_jobs debug rows) (\<lambda>entries.
       Inr (\<lparr>entry_name = job_name row, entry_addr = addr, entry_task = job_task row,
             entry_goal = job_goal row, entry_cadence = cadence\<rparr> # entries))))"

definition schedule_parse ::
  "(string \<Rightarrow> (string, job_row list) result) \<Rightarrow> (string \<Rightarrow> string) \<Rightarrow> string \<Rightarrow> (ax_error, schedule) result" where
  "schedule_parse toml debug src =
     (case toml src of Inl err \<Rightarrow> Inl (refuse_schedule err) | Inr rows \<Rightarrow> read_jobs debug rows)"

text \<open>What reading the schedule file may give.\<close>

datatype (plugins only: code size) schedule_read = ReadText string | ReadNotFound | ReadFailed string

definition schedule_load ::
  "(string \<Rightarrow> (string, job_row list) result) \<Rightarrow> (string \<Rightarrow> string) \<Rightarrow> string \<Rightarrow> schedule_read \<Rightarrow>
   (ax_error, schedule) result" where
  "schedule_load toml debug path contents =
     (case contents of
        ReadText src \<Rightarrow> schedule_parse toml debug src
      | ReadNotFound \<Rightarrow> Inr []
      | ReadFailed err \<Rightarrow>
          Inl (with_recovery ''fix the file's permissions; a schedule that exists is read''
                 (failure StorageFatal ''read the city schedule'' (path @ '': '' @ err))))"

section \<open>When a cadence fires\<close>

text \<open>
  The minutes after the epoch at which a cadence fires: the multiples of its period, its minute of
  every day, its minute of every week, where the week that holds the epoch began three days
  before it.
\<close>

fun fires :: "cadence \<Rightarrow> nat \<Rightarrow> bool" where
  "fires (EveryMinutes period) f = (f mod unat period = 0)"
| "fires (DailyAt m) f = (f mod 1440 = unat m)"
| "fires (WeeklyAt m) f = ((f + 3 * 1440) mod (7 * 1440) = unat m)"

fun cadence_ok :: "cadence \<Rightarrow> bool" where
  "cadence_ok (EveryMinutes period) = (0 < period)"
| "cadence_ok (DailyAt m) = (unat m < 1440)"
| "cadence_ok (WeeklyAt m) = (unat m < 7 * 1440)"

text \<open>A number of the class \<open>r\<close> modulo \<open>k\<close> just below \<open>n\<close>, and that it is the last one.\<close>

definition class_below :: "nat \<Rightarrow> nat \<Rightarrow> nat \<Rightarrow> nat" where
  "class_below k r n = (let top = n - n mod k + r in if top \<le> n then top else top - k)"

lemma class_below_last:
  assumes "r < k" "r \<le> n"
  shows "class_below k r n \<le> n" "class_below k r n mod k = r"
    "f \<le> n \<Longrightarrow> f mod k = r \<Longrightarrow> f \<le> class_below k r n"
proof -
  define q where "q = n div k"
  have n: "n = k * q + n mod k" "n mod k < k" "n - n mod k = k * q"
    using assms unfolding q_def by (simp_all add: minus_mod_eq_mult_div)
  have c: "class_below k r n = (if r \<le> n mod k then k * q + r else k * q + r - k)"
    using n unfolding class_below_def Let_def by (metis add_le_cancel_left)
  have q1: "1 \<le> q" if "n mod k < r"
    using that assms n by (cases q) auto
  then obtain p where p: "n mod k < r \<Longrightarrow> q = Suc p"
    by (metis One_nat_def Suc_le_D)
  show "class_below k r n \<le> n"
    using c n assms by auto
  show "class_below k r n mod k = r"
  proof (cases "r \<le> n mod k")
    case False
    then show ?thesis using c p assms by simp
  qed (use c assms in simp)
  show "f \<le> class_below k r n" if "f \<le> n" "f mod k = r"
  proof -
    define j where "j = f div k"
    have f: "f = k * j + r"
      using that unfolding j_def by (metis mult_div_mod_eq)
    show ?thesis
    proof (cases "r \<le> n mod k")
      case True
      have "j \<le> q"
        unfolding j_def q_def by (rule div_le_mono [OF that(1)])
      then show ?thesis using True c f by simp
    next
      case False
      then have q: "q = Suc p" using p by simp
      have "k * j + r < k * q + r" using that(1) f n(1) False by linarith
      then have "j < q" by simp
      then have "j \<le> p" using q by simp
      then have "k * j \<le> k * p" by simp
      then show ?thesis using False c f q by simp
    qed
  qed
qed

lemma every_firing:
  "0 < p \<Longrightarrow> unat (last_firing (EveryMinutes p) now) = class_below (unat p) 0 (unat now)"
proof -
  assume "0 < p"
  then have "1 \<le> p" by (simp add: word_le_nat_alt word_less_nat_alt)
  then have "max p 1 = p" by (simp add: max_def)
  then show ?thesis
    by (simp add: Let_def unat_saturating_sub unat_mod class_below_def)
qed

lemma daily_firing:
  assumes "unat m < 1440" "unat now < 9223372036854775808"
  shows "unat (last_firing (DailyAt m) now) =
         (if unat m \<le> unat now then class_below 1440 (unat m) (unat now) else 0)"
proof -
  have d: "unat (saturating_add (saturating_sub now (now mod day_minutes)) m) =
           unat now - unat now mod 1440 + unat m"
    using assms by (simp add: unat_saturating_add unat_saturating_sub unat_mod day_minutes_def)
  show ?thesis
    using assms d by (auto simp: Let_def class_below_def word_le_nat_alt unat_saturating_sub day_minutes_def)
qed

lemma weekly_firing:
  assumes "unat m < 10080" "10080 \<le> unat now" "unat now < 9223372036854775808"
  shows "unat (last_firing (WeeklyAt m) now) + 4320 = class_below 10080 (unat m) (unat now + 4320)"
proof -
  have o: "unat (saturating_add now (saturating_mul epoch_weekday_offset day_minutes) mod week_minutes) =
           (unat now + 4320) mod 10080"
    using assms by (simp add: unat_saturating_add unat_saturating_mul unat_mod epoch_weekday_offset_def
        day_minutes_def week_minutes_def)
  have below: "(unat now + 4320) mod 10080 \<le> unat now"
  proof (cases "unat now < 10080")
    case True
    have "(unat now + 4320) div 10080 = 1" using True assms by simp
    then show ?thesis using mult_div_mod_eq [of 10080 "unat now + 4320"] by linarith
  next
    case False
    have "(unat now + 4320) mod 10080 < 10080" by simp
    with False show ?thesis by linarith
  qed
  then have w: "unat (saturating_add (saturating_sub now
        (saturating_add now (saturating_mul epoch_weekday_offset day_minutes) mod week_minutes)) m) + 4320 =
      unat now + 4320 - (unat now + 4320) mod 10080 + unat m"
    using assms below by (simp add: unat_saturating_add unat_saturating_sub o)
  define this_week where "this_week = saturating_add (saturating_sub now
        (saturating_add now (saturating_mul epoch_weekday_offset day_minutes) mod week_minutes)) m"
  have f: "last_firing (WeeklyAt m) now =
      (if this_week \<le> now then this_week else saturating_sub this_week week_minutes)"
    by (simp add: this_week_def Let_def)
  have t: "unat this_week + 4320 = unat now + 4320 - (unat now + 4320) mod 10080 + unat m"
    unfolding this_week_def by (rule w)
  show ?thesis
  proof (cases "this_week \<le> now")
    case True
    then show ?thesis using f t by (simp add: class_below_def Let_def word_le_nat_alt)
  next
    case False
    then have "\<not> unat this_week + 4320 \<le> unat now + 4320" "10080 < unat this_week"
      using assms(2) by (simp_all add: word_le_nat_alt)
    moreover have "unat (last_firing (WeeklyAt m) now) = unat this_week - 10080"
      using f False by (simp add: unat_saturating_sub week_minutes_def)
    ultimately show ?thesis using t unfolding class_below_def Let_def by simp
  qed
qed

text \<open>From the second week of 1970 on, a cadence's last firing is the last instant it fires at.\<close>

lemma last_firing_last:
  assumes ok: "cadence_ok c" and now: "10080 \<le> unat now" "unat now < 9223372036854775808"
  shows "unat (last_firing c now) \<le> unat now" "fires c (unat (last_firing c now))"
    "f \<le> unat now \<Longrightarrow> fires c f \<Longrightarrow> f \<le> unat (last_firing c now)"
proof -
  have "unat (last_firing c now) \<le> unat now \<and> fires c (unat (last_firing c now)) \<and>
        (\<forall>f. f \<le> unat now \<longrightarrow> fires c f \<longrightarrow> f \<le> unat (last_firing c now))"
  proof (cases c)
    case (EveryMinutes p)
    then have "0 < p" "0 < unat p" using ok by (simp_all add: word_gt_0 unat_gt_0)
    with EveryMinutes show ?thesis
      using class_below_last [of 0 "unat p" "unat now"] by (simp only: every_firing fires.simps) simp
  next
    case (DailyAt m)
    with ok have m: "unat m < 1440" "unat m \<le> unat now" using now by auto
    with DailyAt show ?thesis
      using class_below_last [OF m] daily_firing [OF m(1) now(2)] by (simp only: fires.simps) simp
  next
    case (WeeklyAt m)
    with ok have m: "unat m < 10080" "unat m \<le> unat now + 4320" using now by auto
    let ?f = "unat (last_firing (WeeklyAt m) now)"
    have e: "?f + 4320 = class_below 10080 (unat m) (unat now + 4320)"
      using weekly_firing [OF m(1) now] .
    have "?f \<le> unat now" "(?f + 4320) mod 10080 = unat m"
      using class_below_last(1,2) [OF m] e by simp_all
    moreover have "f \<le> ?f" if "f \<le> unat now" "(f + 4320) mod 10080 = unat m" for f
      using class_below_last(3) [OF m, of "f + 4320"] that e by simp
    ultimately show ?thesis using WeeklyAt by simp
  qed
  then show "unat (last_firing c now) \<le> unat now" "fires c (unat (last_firing c now))"
    "f \<le> unat now \<Longrightarrow> fires c f \<Longrightarrow> f \<le> unat (last_firing c now)"
    by blast+
qed

section \<open>What a window owes\<close>

text \<open>Some firing of the cadence falls after one instant and no later than another, in milliseconds.\<close>

definition fires_between :: "cadence \<Rightarrow> u64 \<Rightarrow> u64 \<Rightarrow> bool" where
  "fires_between c after now \<longleftrightarrow> (\<exists>f. fires c f \<and> unat after < f * 60000 \<and> f * 60000 \<le> unat now)"

definition past_first_week :: "u64 \<Rightarrow> bool" where
  "past_first_week now \<longleftrightarrow> 10080 * 60000 \<le> unat now"

lemma due_entry_iff:
  assumes ok: "cadence_ok c" and now: "past_first_week now"
  shows "last_firing c (now div minute_ms) > after div minute_ms \<and>
         last_firing c (now div minute_ms) \<le> now div minute_ms \<longleftrightarrow> fires_between c after now"
proof -
  have n: "unat (now div minute_ms) = unat now div 60000" "unat (after div minute_ms) = unat after div 60000"
    by (simp_all add: minute_ms_def unat_div)
  have "10080 \<le> unat (now div minute_ms)" "unat (now div minute_ms) < 9223372036854775808"
    using now div_le_dividend [of "unat now" 60000] unat_less_64 [of now]
    unfolding n past_first_week_def by linarith+
  note l = last_firing_last [OF ok this]
  have i: "unat after < f * 60000 \<longleftrightarrow> unat after div 60000 < f" "f * 60000 \<le> unat now \<longleftrightarrow> f \<le> unat now div 60000" for f
    by linarith+
  show ?thesis
    unfolding fires_between_def i word_less_nat_alt word_le_nat_alt
    using l unfolding n by (meson less_le_trans)
qed

lemma due_window:
  assumes "past_first_week now" "list_all (\<lambda>e. cadence_ok (entry_cadence e)) s"
  shows "due s after now = filter (\<lambda>e. fires_between (entry_cadence e) after now) s"
  using assms due_entry_iff by (auto simp: due_def Let_def list_all_iff intro!: filter_cong)

lemma between_split:
  "b \<le> c \<Longrightarrow> a \<le> b \<Longrightarrow> fires_between k a c \<longleftrightarrow> fires_between k a b \<or> fires_between k b c"
  unfolding fires_between_def word_le_nat_alt by (meson le_trans less_le_trans not_le)

text \<open>Two windows that meet owe what the one they make owes.\<close>

lemma due_windows_join:
  assumes "past_first_week b" "a \<le> b" "b \<le> c" "list_all (\<lambda>e. cadence_ok (entry_cadence e)) s"
  shows "set (due s a c) = set (due s a b) \<union> set (due s b c)"
proof -
  have "past_first_week c"
    using assms(1,3) by (simp add: past_first_week_def word_le_nat_alt)
  with assms show ?thesis
    by (auto simp: due_window between_split [OF assms(3,2)])
qed

section \<open>What a schedule file can say\<close>

lemma read_clock_ok:
  assumes "read_clock debug raw = Inr m"
  shows "unat m < 1440"
proof -
  obtain h k :: u64 where "\<not> (h > 23 \<or> k > 59)" "m = saturating_add (saturating_mul h 60) k"
    using assms by (auto simp: read_clock_def split: option.splits if_splits)
  moreover from this(1) have "unat h \<le> 23" "unat k \<le> 59"
    by (simp_all add: word_less_nat_alt not_less)
  ultimately show ?thesis by (simp add: unat_saturating_add unat_saturating_mul)
qed

lemma read_every_ok:
  assumes "read_every debug raw = Inr c"
  shows "cadence_ok c"
proof -
  obtain count scale :: u64 where c: "c = EveryMinutes (saturating_mul count scale)" "count \<noteq> 0" "scale \<in> {1, 60}"
    using assms by (auto simp: read_every_def bind_r_Inr_iff split: option.splits if_splits)
  then have "0 < unat (saturating_mul count scale)"
    by (auto simp: unat_saturating_mul unat_gt_0)
  with c show ?thesis by (simp add: word_less_nat_alt)
qed

lemma weekday_less: "weekday d = Some i \<Longrightarrow> unat i < 7"
  by (auto simp: weekday_def split: if_splits)

lemma read_weekly_ok:
  assumes "read_weekly debug raw = Inr c"
  shows "cadence_ok c"
proof -
  obtain d clock i m where c: "weekday d = Some i" "read_clock debug clock = Inr m"
    "c = WeeklyAt (saturating_add (saturating_mul i day_minutes) m)"
    using assms by (auto simp: read_weekly_def bind_r_Inr_iff split: option.splits prod.splits)
  with weekday_less [OF c(1)] read_clock_ok [OF c(2)] show ?thesis
    by (simp add: unat_saturating_add unat_saturating_mul day_minutes_def)
qed

lemma read_cadence_ok: "read_cadence debug row = Inr c \<Longrightarrow> cadence_ok c"
  by (auto simp: read_cadence_def bind_r_Inr_iff read_clock_ok read_every_ok read_weekly_ok split: option.splits)

lemma schedule_parse_ok:
  assumes "schedule_parse toml debug src = Inr s"
  shows "list_all (\<lambda>e. cadence_ok (entry_cadence e) \<and> address_ok (entry_addr e)) s"
proof -
  have "read_jobs debug rows = Inr s \<Longrightarrow> ?thesis" for rows
    by (induction rows arbitrary: s) (auto simp: bind_r_Inr_iff read_cadence_ok address_parse_iff)
  with assms show ?thesis by (auto simp: schedule_parse_def split: sum.splits)
qed

text \<open>
  Before the first Monday of 1970 the subtraction that finds the start of the week stops at the
  epoch, and a weekly job is taken to fire as many minutes after the epoch as its week has before
  it: at the fifth minute of that first, a Thursday's, day for \<open>mon 00:05\<close>.
\<close>

lemma weekly_early: "last_firing (WeeklyAt 5) 10 = 5 \<and> \<not> fires (WeeklyAt 5) 5"
  by (simp add: Let_def saturating_sub_def saturating_add_def saturating_mul_def
      week_minutes_def day_minutes_def epoch_weekday_offset_def)
end
