(* ===== verification/Compactions.thy ===== *)
theory Compactions
  imports Prefixes
begin

text \<open>
  What to keep of a text that must be shortened, \<open>src/crates/runtime/src/compaction.rs\<close>: what
  kind of text it is, which end of it carries the information, and the cut, which lands on
  character boundaries.
\<close>

section \<open>What a text is\<close>

datatype (plugins only: code size) content = Prose | SourceCode | PatchText | Log | Structured | Tabular | Unclear

datatype (plugins only: code size) strategy = KeepAll | KeepHead | KeepEnds | KeepTail | OffloadAll

text \<open>\<open>str::lines\<close>: pieces between line feeds, less a carriage return before one, and no last empty piece.\<close>

fun strip_crs :: "string list \<Rightarrow> string list" where
  "strip_crs [] = []"
| "strip_crs [s] = (if s = [] then [] else [s])"
| "strip_crs (s # t # rest) =
     (case strip_suffix [CHR 0x0D] s of Some u \<Rightarrow> u | None \<Rightarrow> s) # strip_crs (t # rest)"

definition str_lines :: "string \<Rightarrow> string list" where
  "str_lines s = strip_crs (split_on lf s)"

text \<open>
  \<open>split_whitespace().count()\<close>: how many runs of other characters stand between white space. The
  flag says that a run has begun.
\<close>

function word_count :: "bool \<Rightarrow> string \<Rightarrow> nat" where
  "word_count inside s =
     (if s = [] then (if inside then 1 else 0)
      else (case find (\<lambda>w. starts_with w s) whitespace of
              Some w \<Rightarrow> (if inside then 1 else 0) + word_count False (drop (max 1 (length w)) s)
            | None \<Rightarrow> word_count True (tl s)))"
  by pat_completeness auto

termination
  by (relation "measure (\<lambda>(inside, s). length s)") auto

declare word_count.simps [simp del]

definition looks_like_a_log_line :: "string \<Rightarrow> bool" where
  "looks_like_a_log_line l =
     (let line = trim_start l;
          starts_numeric = (line \<noteq> [] \<and> is_digit (hd line))
      in starts_numeric \<or> starts_with ''['' line \<or> starts_with ''INFO'' line \<or> starts_with ''WARN'' line
         \<or> starts_with ''ERROR'' line \<or> starts_with ''DEBUG'' line)"

definition looks_like_code :: "string \<Rightarrow> bool" where
  "looks_like_code l =
     (let line = trim_start l
      in starts_with ''fn '' line \<or> starts_with ''def '' line \<or> starts_with ''class '' line
         \<or> starts_with ''import '' line \<or> starts_with ''use '' line
         \<or> ends_with [CHR 0x7B] line \<or> ends_with '';'' line)"

definition detect :: "string \<Rightarrow> content" where
  "detect src =
     (let trimmed = trim_start src in
      if trimmed = [] then Unclear
      else if starts_with ''diff --git'' trimmed \<or> starts_with ''--- '' trimmed \<or> starts_with ''@@ '' trimmed
      then PatchText
      else if starts_with [CHR 0x7B] trimmed \<or> starts_with ''['' trimmed \<or> starts_with ''<?xml'' trimmed
      then Structured
      else
        let head = take 8 (str_lines trimmed) in
        if 2 \<le> length head \<and> 2 \<le> length (filter (\<lambda>line. CHR ''|'' \<in> set line) head) then Tabular
        else if 2 \<le> length (filter looks_like_a_log_line head) then Log
        else if list_ex looks_like_code head then SourceCode
        else if list_ex (\<lambda>line. 5 \<le> word_count False line) head then Prose
        else Unclear)"

section \<open>What is kept\<close>

fun plan_for :: "content \<Rightarrow> u64 \<Rightarrow> u64 \<Rightarrow> strategy" where
  "plan_for kind len budget =
     (if len \<le> budget then KeepAll
      else (case kind of
              Structured \<Rightarrow> OffloadAll
            | Log \<Rightarrow> KeepTail
            | SourceCode \<Rightarrow> KeepEnds
            | PatchText \<Rightarrow> KeepEnds
            | Prose \<Rightarrow> KeepHead
            | Tabular \<Rightarrow> KeepHead
            | Unclear \<Rightarrow> OffloadAll))"

definition gap :: string where
  "gap = [lf, CHR 0xE2, CHR 0x80, CHR 0xA6] @ '' (shortened) '' @ [CHR 0xE2, CHR 0x80, CHR 0xA6, lf]"

function walk_back :: "string \<Rightarrow> nat \<Rightarrow> nat" where
  "walk_back src p = (if 0 < p \<and> \<not> is_char_boundary src p then walk_back src (p - 1) else p)"
  by pat_completeness auto

termination by (relation "measure snd") auto

function walk_on :: "string \<Rightarrow> nat \<Rightarrow> nat" where
  "walk_on src p = (if p < length src \<and> \<not> is_char_boundary src p then walk_on src (p + 1) else p)"
  by pat_completeness auto

termination by (relation "measure (\<lambda>(src, p). length src - p)") auto

declare walk_back.simps [simp del] walk_on.simps [simp del]

definition boundary_before :: "string \<Rightarrow> nat \<Rightarrow> nat" where
  "boundary_before src p = walk_back src (min p (length src))"

definition boundary_after :: "string \<Rightarrow> nat \<Rightarrow> nat" where
  "boundary_after src p = walk_on src (min p (length src))"

text \<open>\<open>str::get(n..)\<close>.\<close>

definition get_from :: "string \<Rightarrow> nat \<Rightarrow> string option" where
  "get_from s n = (if is_char_boundary s n then Some (drop n s) else None)"

definition keep_head :: "string \<Rightarrow> nat \<Rightarrow> string" where
  "keep_head src limit =
     (let cut = boundary_before src (limit - length gap)
      in unwrap_or [] (get_to src cut) @ gap)"

definition keep_tail :: "string \<Rightarrow> nat \<Rightarrow> string" where
  "keep_tail src limit =
     (let keep = limit - length gap;
          start = boundary_after src (length src - keep)
      in gap @ unwrap_or [] (get_from src start))"

definition keep_ends :: "string \<Rightarrow> nat \<Rightarrow> string" where
  "keep_ends src limit =
     (let each = (limit - length gap) div 2;
          front = boundary_before src each;
          back = boundary_after src (length src - each)
      in if back \<le> front then keep_head src limit
         else unwrap_or [] (get_to src front) @ gap @ unwrap_or [] (get_from src back))"

definition text_len :: "nat \<Rightarrow> u64" where
  "text_len n = (if n \<le> u64_max then of_nat n else - 1)"

definition compact :: "string \<Rightarrow> u64 \<Rightarrow> string \<times> bool" where
  "compact src budget =
     (let len = text_len (length src);
          strategy = plan_for (detect src) len budget;
          limit = unat budget;
          checked = (\<lambda>shortened. if length src \<le> length shortened then (src, False) else (shortened, True))
      in case strategy of
           KeepAll \<Rightarrow> (src, False)
         | OffloadAll \<Rightarrow> (src, False)
         | KeepHead \<Rightarrow> checked (keep_head src limit)
         | KeepTail \<Rightarrow> checked (keep_tail src limit)
         | KeepEnds \<Rightarrow> checked (keep_ends src limit))"

section \<open>The cuts\<close>

lemma walk_back_boundary: "is_char_boundary src (walk_back src p) \<and> walk_back src p \<le> p"
proof (induction src p rule: walk_back.induct)
  case (1 src p)
  then show ?case
    by (subst (1 2) walk_back.simps) (auto simp: is_char_boundary_def)
qed

lemma walk_on_boundary:
  "p \<le> length src \<Longrightarrow> is_char_boundary src (walk_on src p) \<and> p \<le> walk_on src p \<and> walk_on src p \<le> length src"
proof (induction src p rule: walk_on.induct)
  case (1 src p)
  show ?case
  proof (cases "p < length src \<and> \<not> is_char_boundary src p")
    case True
    with 1 show ?thesis by (subst (1 2 3) walk_on.simps) auto
  next
    case False
    with 1 show ?thesis by (subst (1 2 3) walk_on.simps) (auto simp: is_char_boundary_def)
  qed
qed

lemma before_boundary:
  "is_char_boundary src (boundary_before src p)" "boundary_before src p \<le> p" "boundary_before src p \<le> length src"
  using walk_back_boundary [of src "min p (length src)"] by (auto simp: boundary_before_def)

lemma after_boundary:
  "is_char_boundary src (boundary_after src p)" "boundary_after src p \<le> length src"
  "p \<le> length src \<Longrightarrow> p \<le> boundary_after src p"
  using walk_on_boundary [where p = "min p (length src)" and src = src] by (auto simp: boundary_after_def min_def)

text \<open>A text with one stretch of it replaced by the gap, cut at character boundaries.\<close>

definition gapped :: "string \<Rightarrow> nat \<Rightarrow> nat \<Rightarrow> string" where
  "gapped src i j = take i src @ gap @ drop j src"

definition fair_cut :: "string \<Rightarrow> nat \<Rightarrow> nat \<Rightarrow> nat \<Rightarrow> bool" where
  "fair_cut src keep i j \<longleftrightarrow>
     is_char_boundary src i \<and> is_char_boundary src j \<and> i \<le> j \<and> j \<le> length src \<and> i + (length src - j) \<le> keep"

lemma keep_head_cut:
  "\<exists>i j. keep_head src limit = gapped src i j \<and> fair_cut src (limit - length gap) i j"
proof -
  let ?i = "boundary_before src (limit - length gap)"
  have "keep_head src limit = gapped src ?i (length src)"
    by (simp add: keep_head_def Let_def gapped_def get_to_def before_boundary)
  moreover have "fair_cut src (limit - length gap) ?i (length src)"
    using before_boundary [of src "limit - length gap"] by (simp add: fair_cut_def is_char_boundary_def)
  ultimately show ?thesis by blast
qed

lemma keep_tail_cut:
  "\<exists>i j. keep_tail src limit = gapped src i j \<and> fair_cut src (limit - length gap) i j"
proof -
  let ?j = "boundary_after src (length src - (limit - length gap))"
  have "keep_tail src limit = gapped src 0 ?j"
    by (simp add: keep_tail_def Let_def gapped_def get_from_def after_boundary)
  moreover have "length src - ?j \<le> limit - length gap"
    using after_boundary(3) [where src = src and p = "length src - (limit - length gap)"] by linarith
  then have "fair_cut src (limit - length gap) 0 ?j"
    using after_boundary [where src = src and p = "length src - (limit - length gap)"]
    by (simp add: fair_cut_def is_char_boundary_def)
  ultimately show ?thesis by blast
qed

lemma keep_ends_cut:
  "\<exists>i j. keep_ends src limit = gapped src i j \<and> fair_cut src (limit - length gap) i j"
proof -
  let ?each = "(limit - length gap) div 2"
  let ?i = "boundary_before src ?each" and ?j = "boundary_after src (length src - ?each)"
  show ?thesis
  proof (cases "?j \<le> ?i")
    case True
    then show ?thesis using keep_head_cut by (simp add: keep_ends_def Let_def)
  next
    case False
    then have "keep_ends src limit = gapped src ?i ?j"
      by (simp add: keep_ends_def Let_def gapped_def get_to_def get_from_def before_boundary after_boundary)
    moreover have "?i \<le> ?each" "length src - ?j \<le> ?each"
      unfolding le_diff_conv using before_boundary(2) [of src ?each] after_boundary(3) [where p = "length src - ?each" and src = src]
      by (simp_all add: le_diff_conv add.commute)
    then have "?i + (length src - ?j) \<le> limit - length gap" by linarith
    then have "fair_cut src (limit - length gap) ?i ?j"
      using False before_boundary [of src ?each] after_boundary [where src = src and p = "length src - ?each"]
      by (simp add: fair_cut_def)
    ultimately show ?thesis by blast
  qed
qed

section \<open>What shortening promises\<close>

lemma utf8_drop:
  assumes "utf8_ok s" "is_char_boundary s k" "k \<le> length s"
  shows "utf8_ok (drop k s)"
proof -
  have "utf8_ok (take k s @ drop k s) = utf8_ok (drop k s)"
    by (rule utf8_ok_append [OF utf8_ok_take [OF assms(1,2)]])
  with assms(1) show ?thesis by simp
qed

lemma gap_utf8: "utf8_ok gap"
  by code_simp

lemma gapped_utf8: "utf8_ok src \<Longrightarrow> fair_cut src keep i j \<Longrightarrow> utf8_ok (gapped src i j)"
  by (simp add: gapped_def fair_cut_def utf8_ok_append utf8_ok_take gap_utf8 utf8_drop)

lemma gapped_length: "fair_cut src keep i j \<Longrightarrow> length (gapped src i j) \<le> keep + length gap"
  unfolding gapped_def fair_cut_def by (simp add: min_absorb2) arith

lemma compact_cases:
  "compact src budget = (src, False) \<or>
   (\<exists>i j. compact src budget = (gapped src i j, True) \<and> fair_cut src (unat budget - length gap) i j \<and>
          length (gapped src i j) < length src)"
proof -
  obtain h i where h: "keep_head src (unat budget) = gapped src h i" "fair_cut src (unat budget - length gap) h i"
    using keep_head_cut by blast
  obtain t j where t: "keep_tail src (unat budget) = gapped src t j" "fair_cut src (unat budget - length gap) t j"
    using keep_tail_cut by blast
  obtain e k where e: "keep_ends src (unat budget) = gapped src e k" "fair_cut src (unat budget - length gap) e k"
    using keep_ends_cut by blast
  show ?thesis
    using h(2) t(2) e(2) unfolding compact_def Let_def h(1) t(1) e(1)
    by (cases "plan_for (detect src) (text_len (length src)) budget") (auto simp: not_le)
qed

lemma gap_length: "length gap = 21"
  by (simp add: gap_def)

lemma compact_fits:
  assumes "compact src budget = (out, True)"
  shows "length out < length src" "length out \<le> max (unat budget) 21" "utf8_ok src \<Longrightarrow> utf8_ok out"
    "\<exists>i j. out = gapped src i j \<and> i \<le> j \<and> j \<le> length src"
proof -
  obtain i j where c: "out = gapped src i j" "fair_cut src (unat budget - length gap) i j"
      "length (gapped src i j) < length src"
    using compact_cases [of src budget] assms by auto
  show "length out < length src" using c by simp
  show "length out \<le> max (unat budget) 21" using gapped_length [OF c(2)] c(1) gap_length by simp
  show "utf8_ok src \<Longrightarrow> utf8_ok out" using gapped_utf8 [OF _ c(2)] c(1) by simp
  show "\<exists>i j. out = gapped src i j \<and> i \<le> j \<and> j \<le> length src"
    using c unfolding fair_cut_def by blast
qed

text \<open>When it declines: the text fits, or its kind leaves the window whole, or the gap gains nothing.\<close>

lemma compact_keeps: "compact src budget = (out, False) \<Longrightarrow> out = src"
  using compact_cases [of src budget] by auto

lemma compact_declines:
  assumes len: "length src \<le> u64_max" and big: "unat budget < length src" "21 \<le> unat budget"
  shows "snd (compact src budget) \<longleftrightarrow> detect src \<notin> {Structured, Unclear}"
proof -
  obtain h i where h: "keep_head src (unat budget) = gapped src h i" "fair_cut src (unat budget - length gap) h i"
    using keep_head_cut by blast
  obtain t j where t: "keep_tail src (unat budget) = gapped src t j" "fair_cut src (unat budget - length gap) t j"
    using keep_tail_cut by blast
  obtain e k where e: "keep_ends src (unat budget) = gapped src e k" "fair_cut src (unat budget - length gap) e k"
    using keep_ends_cut by blast
  have short: "length (gapped src h i) < length src" "length (gapped src t j) < length src"
    "length (gapped src e k) < length src"
    using gapped_length [OF h(2)] gapped_length [OF t(2)] gapped_length [OF e(2)] big gap_length by linarith+
  have "unat (text_len (length src)) = length src"
    using len by (simp add: text_len_def u64_max_def unat_of_nat take_bit_nat_eq_self)
  then have "\<not> text_len (length src) \<le> budget"
    using big by (simp add: word_le_nat_alt)
  then show ?thesis
    using short unfolding compact_def Let_def h(1) t(1) e(1)
    by (cases "detect src") (auto simp: not_le)
qed

text \<open>A budget smaller than the marker is not kept: what comes back is the marker alone.\<close>

lemma compact_over_budget:
  assumes len: "length src \<le> u64_max" and big: "21 < length src" "unat budget < 21"
    and kind: "detect src \<notin> {Structured, Unclear}"
  shows "compact src budget = (gap, True) \<and> unat budget < length gap"
proof -
  have g: "gapped src i j = gap" if "fair_cut src (unat budget - length gap) i j" for i j
    using that big by (simp add: fair_cut_def gapped_def gap_length)
  obtain h i where h: "keep_head src (unat budget) = gapped src h i" "fair_cut src (unat budget - length gap) h i"
    using keep_head_cut by blast
  obtain t j where t: "keep_tail src (unat budget) = gapped src t j" "fair_cut src (unat budget - length gap) t j"
    using keep_tail_cut by blast
  obtain e k where e: "keep_ends src (unat budget) = gapped src e k" "fair_cut src (unat budget - length gap) e k"
    using keep_ends_cut by blast
  have "unat (text_len (length src)) = length src"
    using len by (simp add: text_len_def u64_max_def unat_of_nat take_bit_nat_eq_self)
  then have "\<not> text_len (length src) \<le> budget"
    using big by (simp add: word_le_nat_alt)
  then show ?thesis
    using big kind gap_length unfolding compact_def Let_def h(1) t(1) e(1) g [OF h(2)] g [OF t(2)] g [OF e(2)]
    by (cases "detect src") auto
qed
end
