(* ===== verification/Offloads.thy ===== *)
theory Offloads
  imports Cas_Objects
begin

text \<open>
  Moving a large result out of the window, \<open>src/crates/runtime/src/offload.rs\<close>: the original
  goes into content-addressed storage first, a file of the run's environment holds it for
  reading, and what stays in the window is its head and a line that says where the rest is.

  The environment directory is an ordinary one, reached through \<open>std::fs\<close>: a map from paths to
  files, and a script of how the next calls end. A write that fails may leave the front of what it
  was to write.
\<close>

section \<open>The environment directory\<close>

record rest_file =
  rest_bytes :: string
  rest_readonly :: bool

datatype (plugins only: code size) fs_end = FsDone | FsFails string "nat option"

record env_dir =
  env_files :: "path \<Rightarrow> rest_file option"
  env_script :: "fs_end list"

type_synonym site_state = "disk \<times> env_dir"

type_synonym 'a site_act = "(ax_error, site_state, 'a) act"

definition next_end :: "env_dir \<Rightarrow> fs_end \<times> env_dir" where
  "next_end d = (case env_script d of [] \<Rightarrow> (FsDone, d) | e # es \<Rightarrow> (e, d\<lparr>env_script := es\<rparr>))"

definition fs_write :: "path \<Rightarrow> string \<Rightarrow> env_dir \<Rightarrow> (string, unit) result \<times> env_dir" where
  "fs_write p bytes d =
     (let put = (\<lambda>b d. d\<lparr>env_files := (env_files d)(p \<mapsto> \<lparr>rest_bytes = b, rest_readonly = False\<rparr>)\<rparr>)
      in case next_end d of
           (FsDone, d) \<Rightarrow> (Inr (), put bytes d)
         | (FsFails e None, d) \<Rightarrow> (Inl e, d)
         | (FsFails e (Some n), d) \<Rightarrow> (Inl e, put (take n bytes) d))"

text \<open>Reading a file's permissions, and writing them back with the read-only bit set.\<close>

definition fs_metadata :: "path \<Rightarrow> env_dir \<Rightarrow> (string, unit) result \<times> env_dir" where
  "fs_metadata p d = (case next_end d of (FsDone, d) \<Rightarrow> (Inr (), d) | (FsFails e _, d) \<Rightarrow> (Inl e, d))"

definition fs_set_readonly :: "path \<Rightarrow> env_dir \<Rightarrow> (string, unit) result \<times> env_dir" where
  "fs_set_readonly p d =
     (case next_end d of
        (FsDone, d) \<Rightarrow>
          (Inr (), d\<lparr>env_files := (env_files d)(p := map_option (\<lambda>f. f\<lparr>rest_readonly := True\<rparr>) (env_files d p))\<rparr>)
      | (FsFails e _, d) \<Rightarrow> (Inl e, d))"

section \<open>The rest file\<close>

definition alphanumeric :: "char \<Rightarrow> bool" where
  "alphanumeric c \<longleftrightarrow>
     is_digit c \<or> 65 \<le> (of_char c :: nat) \<and> (of_char c :: nat) \<le> 90 \<or> 97 \<le> (of_char c :: nat) \<and> (of_char c :: nat) \<le> 122"

text \<open>
  A content locator is ASCII, so that its last sixteen characters are its last sixteen bytes.
\<close>

definition rest_file_name :: "locator \<Rightarrow> string" where
  "rest_file_name l = ''rest-'' @ filter alphanumeric (rev (take 16 (rev (locator_str l)))) @ ''.dat''"

definition materialize_error :: "string \<Rightarrow> ax_error" where
  "materialize_error err = failure StorageFatal ''materialize rest file'' err"

definition materialize :: "string \<Rightarrow> path \<Rightarrow> env_dir \<Rightarrow> (ax_error, unit) result \<times> env_dir" where
  "materialize bytes p d =
     (if env_files d p \<noteq> None then (Inr (), d)
      else case fs_write p bytes d of
             (Inl e, d) \<Rightarrow> (Inl (materialize_error e), d)
           | (Inr _, d) \<Rightarrow>
               (case fs_metadata p d of
                  (Inl e, d) \<Rightarrow> (Inl (materialize_error e), d)
                | (Inr _, d) \<Rightarrow>
                    (case fs_set_readonly p d of
                       (Inl e, d) \<Rightarrow> (Inl (materialize_error e), d)
                     | (Inr _, d) \<Rightarrow> (Inr (), d))))"

section \<open>Offloading\<close>

record offload_site =
  site_cas :: cas_store
  site_environment :: path

record offload_record =
  substitute :: string
  original :: locator
  rest_path :: path
  original_len :: u64

definition hint_line :: "u64 \<Rightarrow> path \<Rightarrow> locator \<Rightarrow> string" where
  "hint_line len p l =
     [lf] @ ''[offloaded: total '' @ dec_of (unat len) @ '' bytes; rest at '' @ display p @
     ''; original '' @ locator_str l @ '']''"

definition offload_error :: "string \<Rightarrow> ax_error" where
  "offload_error why = failure InvalidArgs ''offload result'' why"

definition len_u64 :: "'a list \<Rightarrow> u64 option" where
  "len_u64 xs = (if length xs \<le> u64_max then Some (of_nat (length xs)) else None)"

text \<open>The cut: the head that fits beside the hint, checked against both bounds.\<close>

definition substitute_for ::
  "string \<Rightarrow> u64 \<Rightarrow> u64 \<Rightarrow> string \<Rightarrow> (ax_error, string) result" where
  "substitute_for bytes len cap hint =
     (case len_u64 hint of
        None \<Rightarrow> Inl (offload_error ''hint exceeds u64'')
      | Some hint_len \<Rightarrow>
          (case checked_sub cap hint_len of
             None \<Rightarrow> Inl (with_recovery ''raise the cap or skip offload for this result''
                           (offload_error (''cap '' @ dec_of (unat cap) @ '' cannot even hold the '' @
                              dec_of (unat hint_len) @ ''-byte hint'')))
           | Some head_budget \<Rightarrow>
               (let head_len = unat (min head_budget len);
                    sub = take head_len bytes @ hint
                in case len_u64 sub of
                     None \<Rightarrow> Inl (offload_error ''substitute exceeds u64'')
                   | Some substitute_len \<Rightarrow>
                       if substitute_len > cap \<or> substitute_len > len
                       then Inl (offload_error ''substitute outgrew its bounds (invariant 2)'')
                       else Inr sub)))"

definition offload :: "hasher \<Rightarrow> string \<Rightarrow> u64 \<Rightarrow> offload_site \<Rightarrow> offload_record site_act" where
  "offload dg bytes cap site = (\<lambda>(d, env).
     case len_u64 bytes of
       None \<Rightarrow> (Inl (offload_error ''length exceeds u64''), (d, env))
     | Some len \<Rightarrow>
         if len \<le> cap
         then (Inl (offload_error ''lossless input: only lossy transforms store (invariant 3)''), (d, env))
         else
           (case cas_put dg (site_cas site) bytes d of
              (Inl e, d) \<Rightarrow> (Inl (into_ax e), (d, env))
            | (Inr hash, d) \<Rightarrow>
                (case locator_parse (''cas:b3-'' @ b3_str hash) of
                   Inl e \<Rightarrow> (Inl e, (d, env))
                 | Inr l \<Rightarrow>
                     (let p = join_path (site_environment site) (rest_file_name l) in
                      case materialize bytes p env of
                        (Inl e, env) \<Rightarrow> (Inl e, (d, env))
                      | (Inr _, env) \<Rightarrow>
                          (case substitute_for bytes len cap (hint_line len p l) of
                             Inl e \<Rightarrow> (Inl e, (d, env))
                           | Inr sub \<Rightarrow>
                               (Inr \<lparr>substitute = sub, original = l, rest_path = p, original_len = len\<rparr>,
                                (d, env)))))))"

definition rematerialize :: "hasher \<Rightarrow> locator \<Rightarrow> offload_site \<Rightarrow> path site_act" where
  "rematerialize dg l site = (\<lambda>(d, env).
     case l of
       File _ _ _ \<Rightarrow>
         (Inl (failure InvalidArgs ''rematerialize rest file'' ''locator is not cas-addressed''), (d, env))
     | Cas hash _ \<Rightarrow>
         (case cas_get dg (site_cas site) hash d of
            (Inl e, d) \<Rightarrow> (Inl (into_ax e), (d, env))
          | (Inr bytes, d) \<Rightarrow>
              (let p = join_path (site_environment site) (rest_file_name l) in
               case materialize bytes p env of
                 (Inl e, env) \<Rightarrow> (Inl e, (d, env))
               | (Inr _, env) \<Rightarrow> (Inr p, (d, env)))))"

section \<open>What offloading keeps\<close>

lemma materialize_kept:
  assumes "materialize bytes p env = (Inr u, env')"
  shows "env' = env \<and> env_files env p \<noteq> None \<or>
    env_files env p = None \<and> env_files env' = (env_files env)(p \<mapsto> \<lparr>rest_bytes = bytes, rest_readonly = True\<rparr>)"
  using assms
  by (auto simp: materialize_def fs_write_def fs_metadata_def fs_set_readonly_def next_end_def Let_def
      split: if_splits prod.splits sum.splits list.splits fs_end.splits option.splits)

text \<open>Other files of the environment are left alone.\<close>

lemma materialize_elsewhere:
  "q \<noteq> p \<Longrightarrow> materialize bytes p env = (r, env') \<Longrightarrow> env_files env' q = env_files env q"
  by (auto simp: materialize_def fs_write_def fs_metadata_def fs_set_readonly_def next_end_def Let_def
      split: if_splits prod.splits sum.splits list.splits fs_end.splits option.splits)

text \<open>
  A write that fails half way leaves a file, and the next call takes it for the whole one: it
  succeeds without writing anything.
\<close>

lemma partial_rest_file:
  assumes "env_files env p = None" "env_script env = [FsFails err (Some n)]"
  shows "\<exists>env'. materialize bytes p env = (Inl (materialize_error err), env') \<and>
    materialize bytes p env' = (Inr (), env') \<and>
    env_files env' p = Some \<lparr>rest_bytes = take n bytes, rest_readonly = False\<rparr>"
  using assms by (simp add: materialize_def fs_write_def next_end_def)

lemma len_u64_unat: "len_u64 xs = Some n \<Longrightarrow> unat n = length xs"
  by (auto simp: len_u64_def u64_max_def unat_of_nat take_bit_nat_eq_self split: if_splits)

lemma substitute_fits:
  assumes "substitute_for bytes n cap hint = Inr sub"
  shows "length sub \<le> unat cap" "length sub \<le> unat n" "\<exists>k. sub = take k bytes @ hint"
  using assms
  by (auto simp: substitute_for_def Let_def word_less_nat_alt not_less dest!: len_u64_unat
      split: option.splits if_splits)

text \<open>A cap that holds the hint always gives a substitute, one shorter than the cap only by nothing.\<close>

lemma substitute_exists:
  assumes n: "unat n = length bytes" and cap: "cap < n" and hint: "length hint \<le> unat cap"
  shows "substitute_for bytes n cap hint = Inr (take (unat cap - length hint) bytes @ hint)"
proof -
  have small: "length hint \<le> u64_max"
    using hint unat_less_64 [of cap] unfolding u64_max_def by linarith
  define h :: u64 where "h = of_nat (length hint)"
  have h: "len_u64 hint = Some h" "unat h = length hint"
    using small len_u64_unat [of hint h] by (simp_all add: len_u64_def h_def)
  then have sub: "checked_sub cap h = Some (cap - h)" "unat (cap - h) = unat cap - length hint"
    using hint by (simp_all add: checked_sub_def word_le_nat_alt unat_sub)
  then have "cap - h \<le> n"
    using cap unfolding word_le_nat_alt word_less_nat_alt by linarith
  then have m: "min (cap - h) n = cap - h" by (simp add: min_def)
  let ?sub = "take (unat cap - length hint) bytes @ hint"
  have l: "length ?sub = unat cap"
    using n cap hint by (simp add: word_less_nat_alt)
  then have "len_u64 ?sub = Some cap"
  proof -
    have "length ?sub \<le> u64_max"
      unfolding l u64_max_def using unat_less_64 [of cap] by linarith
    moreover have "of_nat (length ?sub) = cap" unfolding l by simp
    ultimately show ?thesis by (simp only: len_u64_def if_True)
  qed
  then show ?thesis
    using cap by (simp add: substitute_for_def h sub m Let_def)
qed

lemma offload_steps:
  assumes "offload dg bytes cap \<lparr>site_cas = c, site_environment = root'\<rparr> (d, env) = (Inr r, (d', env'))"
  obtains h where
    "cas_put dg c bytes d = (Inr h, d')" "locator_parse (''cas:b3-'' @ b3_str h) = Inr (original r)"
    "rest_path r = join_path root' (rest_file_name (original r))"
    "materialize bytes (rest_path r) env = (Inr (), env')"
    "unat (original_len r) = length bytes" "cap < original_len r"
    "substitute_for bytes (original_len r) cap (hint_line (original_len r) (rest_path r) (original r)) =
       Inr (substitute r)"
  using assms
  by (auto simp: offload_def Let_def not_le dest!: len_u64_unat
      split: option.splits if_splits prod.splits sum.splits)

lemma cas_locator: "locator_parse (''cas:b3-'' @ b3_str h) = Inr l \<Longrightarrow> l = Cas h None"
proof -
  assume "locator_parse (''cas:b3-'' @ b3_str h) = Inr l"
  then have l: "locator_str l = ''cas:b3-'' @ b3_str h" by (simp add: locator_parse_iff)
  show "l = Cas h None"
  proof (cases l)
    case (Cas k r)
    with l have e: "b3_str k @ write_range r = b3_str h" by simp
    have "r = None"
    proof (cases r)
      case (Some x)
      then have "CHR ''#'' \<in> set (b3_str h)" using e [symmetric] by (simp add: write_range_def)
      then show ?thesis using hex_no_hash(1) by (simp add: b3_str_def)
    qed
    with e have "b3_str k = b3_str h" by (simp add: write_range_def)
    with Cas \<open>r = None\<close> show ?thesis by (simp add: b3_str_inj)
  qed (use l in simp)
qed

text \<open>
  What offloading promises: the substitute fits both bounds and is a head of the original and
  the hint, the locator it names is the original's, and the store answers the original under it.
  That the store holds nothing else under the hash is what a collision would break.
\<close>

lemma offload_ok:
  assumes o: "offload dg bytes cap \<lparr>site_cas = \<lparr>cas_dir = root\<rparr>, site_environment = dir\<rparr> (d, env) = (Inr r, (d', env'))"
    and store: "holds_view dg root v (files d)" and no_collision: "v (dg bytes) \<in> {None, Some bytes}"
  shows "length (substitute r) \<le> unat cap" "length (substitute r) \<le> length bytes"
    "original r = Cas (dg bytes) None"
    "\<exists>k. substitute r = take k bytes @ hint_line (original_len r) (rest_path r) (original r)"
    "holds_view dg root (v(dg bytes \<mapsto> bytes)) (files d')"
    "env_files env (rest_path r) = None \<Longrightarrow>
     env_files env' (rest_path r) = Some \<lparr>rest_bytes = bytes, rest_readonly = True\<rparr>"
    "env_files env' (rest_path r) \<noteq> None"
proof -
  obtain h where h: "cas_put dg \<lparr>cas_dir = root\<rparr> bytes d = (Inr h, d')"
    "locator_parse (''cas:b3-'' @ b3_str h) = Inr (original r)"
    "materialize bytes (rest_path r) env = (Inr (), env')" "unat (original_len r) = length bytes"
    "substitute_for bytes (original_len r) cap (hint_line (original_len r) (rest_path r) (original r)) =
       Inr (substitute r)"
    using offload_steps [OF o] by metis
  have put: "h = dg bytes" "holds_view dg root (with_object dg v bytes) (files d')"
    using cas_put_step [OF store, of bytes] h(1) by simp_all
  have "with_object dg v bytes = v(dg bytes \<mapsto> bytes)"
    using no_collision by (auto simp: with_object_def fun_eq_iff)
  then show "holds_view dg root (v(dg bytes \<mapsto> bytes)) (files d')" using put(2) by simp
  show "original r = Cas (dg bytes) None" using cas_locator [OF h(2)] put(1) by simp
  show "length (substitute r) \<le> unat cap" "length (substitute r) \<le> length bytes"
    "\<exists>k. substitute r = take k bytes @ hint_line (original_len r) (rest_path r) (original r)"
    using substitute_fits [OF h(5)] h(4) by simp_all
  show "env_files env (rest_path r) = None \<Longrightarrow>
     env_files env' (rest_path r) = Some \<lparr>rest_bytes = bytes, rest_readonly = True\<rparr>"
    "env_files env' (rest_path r) \<noteq> None"
    using materialize_kept [OF h(3)] by auto
qed

text \<open>
  The rest file is found by sixteen digits of the hash. A file that already stands under the
  name is taken for this original, whatever it holds.
\<close>

lemma rest_file_trusted:
  assumes "env_files env (join_path dir (rest_file_name (Cas (dg bytes) None))) = Some f"
    and o: "offload dg bytes cap \<lparr>site_cas = \<lparr>cas_dir = root\<rparr>, site_environment = dir\<rparr> (d, env) = (Inr r, (d', env'))"
    and store: "holds_view dg root v (files d)"
  shows "env_files env' (rest_path r) = Some f"
proof -
  obtain h where h: "cas_put dg \<lparr>cas_dir = root\<rparr> bytes d = (Inr h, d')"
    "locator_parse (''cas:b3-'' @ b3_str h) = Inr (original r)"
    "rest_path r = join_path dir (rest_file_name (original r))"
    "materialize bytes (rest_path r) env = (Inr (), env')"
    using offload_steps [OF o] by metis
  have "h = dg bytes" using cas_put_step [OF store, of bytes] h(1) by simp
  then have "rest_path r = join_path dir (rest_file_name (Cas (dg bytes) None))"
    using cas_locator [OF h(2)] h(3) by simp
  then show ?thesis using materialize_kept [OF h(4)] assms(1) by auto
qed

text \<open>Reading the original back, once the rest file has been cleaned away.\<close>

lemma rematerialize_ok:
  assumes "holds_view dg root v (files d)" "quiet (plan d)" "v h = Some bytes"
    and "env_files env (join_path dir (rest_file_name (Cas h rng))) = None" "env_script env = []"
  shows "\<exists>d' env'. rematerialize dg (Cas h rng) \<lparr>site_cas = \<lparr>cas_dir = root\<rparr>, site_environment = dir\<rparr> (d, env) =
      (Inr (join_path dir (rest_file_name (Cas h rng))), (d', env')) \<and>
    env_files env' (join_path dir (rest_file_name (Cas h rng))) = Some \<lparr>rest_bytes = bytes, rest_readonly = True\<rparr>"
proof -
  have "fst (cas_get dg \<lparr>cas_dir = root\<rparr> h d) = Inr bytes"
    using cas_get_quiet [OF assms(1,2), of h] assms(3) by simp
  then obtain d' where "cas_get dg \<lparr>cas_dir = root\<rparr> h d = (Inr bytes, d')"
    by (cases "cas_get dg \<lparr>cas_dir = root\<rparr> h d") auto
  then show ?thesis
    using assms(4,5)
    by (simp add: rematerialize_def materialize_def fs_write_def fs_metadata_def fs_set_readonly_def
        next_end_def Let_def)
qed

lemma materialize_runs: "env_script env = [] \<Longrightarrow> \<exists>env'. materialize bytes p env = (Inr (), env')"
  by (cases "env_files env p")
    (simp_all add: materialize_def fs_write_def fs_metadata_def fs_set_readonly_def next_end_def Let_def)

text \<open>While the power lasts and the environment can be written, a cap that holds the hint is enough.\<close>

lemma offload_runs:
  assumes store: "holds_view dg root v (files d)" "quiet (plan d)"
    and env: "env_script env = []"
    and hash: "length (hash_bytes (dg bytes)) = 32"
    and len: "unat n = length bytes" "cap < n"
    and hint: "length (hint_line n (join_path dir (rest_file_name (Cas (dg bytes) None))) (Cas (dg bytes) None)) \<le> unat cap"
  shows "\<exists>r d' env'. offload dg bytes cap \<lparr>site_cas = \<lparr>cas_dir = root\<rparr>, site_environment = dir\<rparr> (d, env) = (Inr r, (d', env')) \<and>
    quiet (plan d')"
proof -
  let ?l = "Cas (dg bytes) None" and ?p = "join_path dir (rest_file_name (Cas (dg bytes) None))"
  have "length bytes \<le> u64_max"
    using len(1) unat_less_64 [of n] unfolding u64_max_def by linarith
  then have n: "len_u64 bytes = Some n" using len(1) [symmetric] by (simp add: len_u64_def)
  obtain d' where put: "cas_put dg \<lparr>cas_dir = root\<rparr> bytes d = (Inr (dg bytes), d')" "plan d' = plan d"
    using cas_put_step [OF store(1), of bytes] store(2)
    by (cases "cas_put dg \<lparr>cas_dir = root\<rparr> bytes d") (auto split: sum.splits)
  have l: "locator_parse (''cas:b3-'' @ b3_str (dg bytes)) = Inr ?l"
    using hash by (simp add: locator_parse_iff write_range_def)
  obtain env' where m: "materialize bytes ?p env = (Inr (), env')"
    using materialize_runs [OF env] by blast
  have "\<not> n \<le> cap" using len(2) by simp
  then show ?thesis
    using n put l m store(2) substitute_exists [OF len hint] by (simp add: offload_def Let_def)
qed

text \<open>The round trip: what was offloaded can be read back from the store alone.\<close>

lemma offload_reads_back:
  assumes o: "offload dg bytes cap \<lparr>site_cas = \<lparr>cas_dir = root\<rparr>, site_environment = dir\<rparr> (d, env) = (Inr r, (d', env'))"
    and store: "holds_view dg root v (files d)" "quiet (plan d)" and no_collision: "v (dg bytes) \<in> {None, Some bytes}"
  shows "\<exists>d'' env''. rematerialize dg (original r) \<lparr>site_cas = \<lparr>cas_dir = root\<rparr>, site_environment = dir\<rparr>
      (d', \<lparr>env_files = Map.empty, env_script = []\<rparr>) = (Inr (rest_path r), (d'', env'')) \<and>
    env_files env'' (rest_path r) = Some \<lparr>rest_bytes = bytes, rest_readonly = True\<rparr>"
proof -
  obtain h where h: "cas_put dg \<lparr>cas_dir = root\<rparr> bytes d = (Inr h, d')"
    "rest_path r = join_path dir (rest_file_name (original r))"
    using offload_steps [OF o] by metis
  have "quiet (plan d')" using cas_put_step [OF store(1), of bytes] h(1) store(2) by simp
  then show ?thesis
    using rematerialize_ok [OF offload_ok(5) [OF o store(1) no_collision], of "dg bytes" bytes
        "\<lparr>env_files = Map.empty, env_script = []\<rparr>" dir None]
      offload_ok(3) [OF o store(1) no_collision] h(2) by simp
qed
end
