(* ===== verification/Clocks.thy ===== *)
theory Clocks
  imports Tools Verdicts
begin

text \<open>
  The clock stamp of \<open>src/crates/runtime/src/clock.rs\<close>: an instant rendered against resolved
  zone offsets by integer arithmetic alone, and the gate that decides which tool results carry
  one.

  The civil date is compared with a calendar written on its own: the months' lengths, the
  leap-year rule and the step from one day to the next. The source computes on \<open>i64\<close> and
  \<open>i128\<close>; the model computes on \<^typ>\<open>int\<close>, keeps the one conversion that can fail, and shows
  that it does not. Its divisions are of values that are not negative, where Rust's \<open>/\<close> is
  \<open>div\<close>, or they are \<open>div_euclid\<close>, which is \<open>div\<close> for a positive divisor.
\<close>

section \<open>The calendar as it is kept\<close>

definition leap :: "int \<Rightarrow> bool" where
  "leap y \<longleftrightarrow> y mod 4 = 0 \<and> (y mod 100 \<noteq> 0 \<or> y mod 400 = 0)"

definition month_length :: "int \<Rightarrow> int \<Rightarrow> int" where
  "month_length y m = (if m = 2 then if leap y then 29 else 28
                       else if m \<in> {4, 6, 9, 11} then 30 else 31)"

definition day_after :: "int \<times> int \<times> int \<Rightarrow> int \<times> int \<times> int" where
  "day_after = (\<lambda>(y, m, d). if d < month_length y m then (y, m, d + 1)
                            else if m < 12 then (y, m + 1, 1) else (y + 1, 1, 1))"

definition valid_date :: "int \<times> int \<times> int \<Rightarrow> bool" where
  "valid_date = (\<lambda>(y, m, d). 1 \<le> m \<and> m \<le> 12 \<and> 1 \<le> d \<and> d \<le> month_length y m)"

section \<open>The calendar as it is computed\<close>

definition civil_from_days :: "int \<Rightarrow> int \<times> int \<times> int" where
  "civil_from_days days =
     (let z = days + 719468;
          era = (if z \<ge> 0 then z else z - 146096) div 146097;
          doe = z - era * 146097;
          yoe = (doe - doe div 1460 + doe div 36524 - doe div 146096) div 365;
          y = yoe + era * 400;
          doy = doe - (365 * yoe + yoe div 4 - yoe div 100);
          mp = (5 * doy + 2) div 153;
          d = doy - (153 * mp + 2) div 5 + 1;
          m = (if mp < 10 then mp + 3 else mp - 9);
          year = (if m \<le> 2 then y + 1 else y)
      in (year, m, d))"

text \<open>A day of a 400-year era as century, four-year group, year and day of the year from March.\<close>

definition era_day :: "int \<Rightarrow> int \<Rightarrow> int \<Rightarrow> int \<Rightarrow> int" where
  "era_day c q t u = 36524 * c + 1461 * q + 365 * t + u"

definition era_parts :: "int \<Rightarrow> int \<Rightarrow> int \<Rightarrow> int \<Rightarrow> bool" where
  "era_parts c q t u \<longleftrightarrow> 0 \<le> c \<and> c \<le> 3 \<and> 0 \<le> q \<and> q \<le> 24 \<and> 0 \<le> t \<and> t \<le> 3 \<and> 0 \<le> u \<and>
     u \<le> (if t = 3 \<and> (q < 24 \<or> c = 3) then 365 else 364)"

lemma era_day_exists:
  assumes "0 \<le> e" "e < 146097"
  obtains c q t u where "era_parts c q t u" "e = era_day c q t u"
proof -
  define c where "c = min 3 (e div 36524)"
  define r where "r = e - 36524 * c"
  define q where "q = r div 1461"
  define s where "s = r - 1461 * q"
  define t where "t = min 3 (s div 365)"
  define u where "u = s - 365 * t"
  have c: "0 \<le> c" "c \<le> 3" "0 \<le> r" "c < 3 \<Longrightarrow> r < 36524" "r \<le> 36524"
    using assms unfolding c_def r_def by linarith+
  have q: "0 \<le> q" "q \<le> 24" "0 \<le> s" "s < 1461" "q = 24 \<Longrightarrow> c < 3 \<Longrightarrow> s < 1460"
    using c unfolding q_def s_def by linarith+
  have t: "0 \<le> t" "t \<le> 3" "0 \<le> u" "t < 3 \<Longrightarrow> u < 365" "u \<le> 365" "t = 3 \<Longrightarrow> s < 1460 \<Longrightarrow> u < 365"
    using q unfolding t_def u_def by linarith+
  have "era_parts c q t u"
    unfolding era_parts_def using c q t by (simp split: if_split) linarith
  moreover have "e = era_day c q t u"
    by (simp add: era_day_def u_def s_def r_def)
  ultimately show thesis by (rule that)
qed

lemma quotient_of:
  fixes a b k :: int
  shows "0 \<le> b \<Longrightarrow> b < k \<Longrightarrow> (k * a + b) div k = a"
  by simp

lemma year_of_era:
  assumes p: "era_parts c q t u" and e: "e = era_day c q t u"
  shows "(e - e div 1460 + e div 36524 - e div 146096) div 365 = 100 * c + 4 * q + t"
proof -
  have b: "0 \<le> c" "c \<le> 3" "0 \<le> q" "q \<le> 24" "0 \<le> t" "t \<le> 3" "0 \<le> u" "u \<le> 365"
    "t < 3 \<Longrightarrow> u \<le> 364" "q = 24 \<Longrightarrow> c < 3 \<Longrightarrow> u \<le> 364"
    using p by (auto simp: era_parts_def split: if_splits)
  define x where "x = 24 * c + q + 365 * t + u"
  have d1: "e div 1460 = 25 * c + q + x div 1460"
    using e unfolding era_day_def x_def by linarith
  have x1: "x div 1460 = (if x < 1460 then 0 else 1)"
    using b unfolding x_def by auto
  have d2: "e div 36524 - e div 146096 = c"
  proof (cases "c = 3")
    case True
    with b have "109572 \<le> e" "e \<le> 146096"
      using e unfolding era_day_def by linarith+
    with True show ?thesis
      using zdiv_eq_0_iff [of e 146096] by (cases "e = 146096") (simp, linarith)
  next
    case False
    with b have "1461 * q + 365 * t + u \<le> 36523" "0 \<le> 1461 * q + 365 * t + u" by linarith+
    with False b have "e div 36524 = c" "e div 146096 = 0"
      using e unfolding era_day_def by linarith+
    then show ?thesis by simp
  qed
  define h k l n where "h = e div 1460" and "k = e div 36524" and "l = e div 146096" and "n = x div 1460"
  have "h = 25 * c + q + n" "k - l = c" "n = (if x < 1460 then 0 else 1)"
    using d1 d2 x1 unfolding h_def k_def l_def n_def by auto
  note d = this
  have "l = k - c" using d(2) by simp
  then have "e - h + k - l = 365 * (100 * c + 4 * q + t) + (u - n)"
    unfolding d(1) e era_day_def by (simp add: algebra_simps)
  moreover have "0 \<le> u - n" "u - n < 365"
  proof -
    have "t = 3 \<or> u \<le> 364" using b by linarith
    then show "0 \<le> u - n" "u - n < 365"
      using b d(3) unfolding x_def by (auto split: if_splits)
  qed
  ultimately have "(e - h + k - l) div 365 = 100 * c + 4 * q + t"
    using quotient_of by presburger
  then show ?thesis unfolding h_def k_def l_def .
qed

lemma day_of_year:
  assumes p: "era_parts c q t u" and e: "e = era_day c q t u"
  shows "e - (365 * (100 * c + 4 * q + t) + (100 * c + 4 * q + t) div 4 - (100 * c + 4 * q + t) div 100) = u"
proof -
  have "(100 * c + 4 * q + t) div 4 = 25 * c + q" "(100 * c + 4 * q + t) div 100 = c"
    using p unfolding era_parts_def by linarith+
  note d = this
  show ?thesis unfolding d e era_day_def by (simp add: algebra_simps)
qed

definition month_day :: "int \<Rightarrow> int \<times> int" where
  "month_day u = (let mp = (5 * u + 2) div 153 in
     (if mp < 10 then mp + 3 else mp - 9, u - (153 * mp + 2) div 5 + 1))"

text \<open>The date of a day of an era, in the year that begins in March of \<open>y\<close>.\<close>

definition march_date :: "int \<Rightarrow> int \<Rightarrow> int \<times> int \<times> int" where
  "march_date y u = (case month_day u of (m, d) \<Rightarrow> (if m \<le> 2 then y + 1 else y, m, d))"

lemma civil_of_parts:
  assumes "0 \<le> g" "era_parts c q t u"
  shows "civil_from_days (146097 * g + era_day c q t u - 719468) = march_date (400 * g + 100 * c + 4 * q + t) u"
proof -
  have b: "0 \<le> c" "c \<le> 3" "0 \<le> q" "q \<le> 24" "0 \<le> t" "t \<le> 3" "0 \<le> u" "u \<le> 365"
    using assms(2) by (auto simp: era_parts_def split: if_splits)
  have e: "0 \<le> era_day c q t u" "era_day c q t u < 146097"
    using b unfolding era_day_def by linarith+
  define e where "e = era_day c q t u"
  define y where "y = 100 * c + 4 * q + t"
  have z: "146097 * g + e - 719468 + 719468 = 146097 * g + e" by simp
  have era: "(if 0 \<le> 146097 * g + e then 146097 * g + e else 146097 * g + e - 146096) div 146097 = g"
    using assms(1) e unfolding e_def by simp
  have doe: "146097 * g + e - g * 146097 = e" by simp
  have yoe: "(e - e div 1460 + e div 36524 - e div 146096) div 365 = y"
    unfolding y_def by (rule year_of_era [OF assms(2) e_def])
  have doy: "e - (365 * y + y div 4 - y div 100) = u"
    unfolding y_def by (rule day_of_year [OF assms(2) e_def])
  have "civil_from_days (146097 * g + e - 719468) = march_date (y + g * 400) u"
    unfolding civil_from_days_def march_date_def month_day_def Let_def z era doe yoe doy by simp
  then show ?thesis unfolding e_def y_def by (simp add: add.commute add.left_commute mult.commute)
qed

lemma multiple_iff:
  fixes k n r :: int
  assumes "1 \<le> r" "r \<le> n"
  shows "(n * k + r) mod n = 0 \<longleftrightarrow> r = n"
proof (cases "r = n")
  case False
  with assms have "r mod n = r" by simp
  with assms False show ?thesis by simp
qed simp

lemma leap_of_parts:
  assumes "era_parts c q t u"
  shows "leap (400 * g + 100 * c + 4 * q + t + 1) \<longleftrightarrow> t = 3 \<and> (q < 24 \<or> c = 3)"
proof -
  have b: "0 \<le> c" "c \<le> 3" "0 \<le> q" "q \<le> 24" "0 \<le> t" "t \<le> 3"
    using assms unfolding era_parts_def by auto
  define y where "y = 400 * g + 100 * c + 4 * q + t + 1"
  have y: "y = 4 * (100 * g + 25 * c + q) + (t + 1)" "y = 100 * (4 * g + c) + (4 * q + t + 1)"
    "y = 400 * g + (100 * c + 4 * q + t + 1)"
    unfolding y_def by simp_all
  have "y mod 4 = 0 \<longleftrightarrow> t + 1 = 4"
    unfolding y(1) by (rule multiple_iff) (use b in auto)
  then have y4: "y mod 4 = 0 \<longleftrightarrow> t = 3" by simp
  have "y mod 100 = 0 \<longleftrightarrow> 4 * q + t + 1 = 100"
    unfolding y(2) by (rule multiple_iff) (use b in auto)
  moreover have "4 * q + t + 1 = 100 \<longleftrightarrow> q = 24 \<and> t = 3" using b by linarith
  ultimately have y100: "y mod 100 = 0 \<longleftrightarrow> q = 24 \<and> t = 3" by simp
  have "y mod 400 = 0 \<longleftrightarrow> 100 * c + 4 * q + t + 1 = 400"
    unfolding y(3) by (rule multiple_iff) (use b in auto)
  moreover have "100 * c + 4 * q + t + 1 = 400 \<longleftrightarrow> c = 3 \<and> q = 24 \<and> t = 3" using b by linarith
  ultimately have y400: "y mod 400 = 0 \<longleftrightarrow> c = 3 \<and> q = 24 \<and> t = 3" by simp
  show ?thesis
    using b y4 y100 y400 unfolding leap_def y_def [symmetric] by auto
qed

text \<open>The months as the days of a year that begins in March count them.\<close>

lemma month_day_in:
  assumes "153 * mp \<le> 5 * u + 2" "5 * u + 2 < 153 * mp + 153"
  shows "month_day u = (if mp < 10 then mp + 3 else mp - 9, u - (153 * mp + 2) div 5 + 1)"
proof -
  have "(5 * u + 2) div 153 = mp"
    using quotient_of [of "5 * u + 2 - 153 * mp" 153 mp] assms by simp
  then show ?thesis by (simp add: month_day_def Let_def)
qed

lemma month_day_table:
  "0 \<le> u \<Longrightarrow> u < 31 \<Longrightarrow> month_day u = (3, u + 1)"
  "31 \<le> u \<Longrightarrow> u < 61 \<Longrightarrow> month_day u = (4, u - 30)"
  "61 \<le> u \<Longrightarrow> u < 92 \<Longrightarrow> month_day u = (5, u - 60)"
  "92 \<le> u \<Longrightarrow> u < 122 \<Longrightarrow> month_day u = (6, u - 91)"
  "122 \<le> u \<Longrightarrow> u < 153 \<Longrightarrow> month_day u = (7, u - 121)"
  "153 \<le> u \<Longrightarrow> u < 184 \<Longrightarrow> month_day u = (8, u - 152)"
  "184 \<le> u \<Longrightarrow> u < 214 \<Longrightarrow> month_day u = (9, u - 183)"
  "214 \<le> u \<Longrightarrow> u < 245 \<Longrightarrow> month_day u = (10, u - 213)"
  "245 \<le> u \<Longrightarrow> u < 275 \<Longrightarrow> month_day u = (11, u - 244)"
  "275 \<le> u \<Longrightarrow> u < 306 \<Longrightarrow> month_day u = (12, u - 274)"
  "306 \<le> u \<Longrightarrow> u < 337 \<Longrightarrow> month_day u = (1, u - 305)"
  "337 \<le> u \<Longrightarrow> u < 366 \<Longrightarrow> month_day u = (2, u - 336)"
  by (simp add: month_day_in [of 0],
      simp add: month_day_in [of 1],
      simp add: month_day_in [of 2],
      simp add: month_day_in [of 3],
      simp add: month_day_in [of 4],
      simp add: month_day_in [of 5],
      simp add: month_day_in [of 6],
      simp add: month_day_in [of 7],
      simp add: month_day_in [of 8],
      simp add: month_day_in [of 9],
      simp add: month_day_in [of 10],
      simp add: month_day_in [of 11])

text \<open>Inside such a year every day but the last is followed by the next.\<close>

lemma march_cases:
  assumes "0 \<le> u" "u < 366"
  obtains "u < 31" | "31 \<le> u" "u < 61" | "61 \<le> u" "u < 92" | "92 \<le> u" "u < 122"
  | "122 \<le> u" "u < 153" | "153 \<le> u" "u < 184" | "184 \<le> u" "u < 214" | "214 \<le> u" "u < 245"
  | "245 \<le> u" "u < 275" | "275 \<le> u" "u < 306" | "306 \<le> u" "u < 337" | "337 \<le> (u :: int)"
  using assms by linarith

lemma next_month:
  "u \<in> {30, 60, 91, 121, 152, 183, 213, 244, 274, 305, 336} \<Longrightarrow> march_date y (u + 1) = day_after (march_date y u)"
  by (elim insertE) (simp_all add: march_date_def day_after_def month_length_def month_day_table)

lemma same_month:
  assumes u: "0 \<le> u" "u < 364" "u \<notin> {30, 60, 91, 121, 152, 183, 213, 244, 274, 305, 336}"
  shows "march_date y (u + 1) = day_after (march_date y u)"
proof -
  note table = march_date_def day_after_def month_length_def month_day_table
  have "u < 366" using u(2) by simp
  with u(1) show ?thesis
  proof (cases rule: march_cases)
    case 1
    with u have "u < 30" by auto
    then show ?thesis using u by (simp add: table)
  next
    case 2
    with u have "31 \<le> u" "u < 60" by auto
    then show ?thesis using u by (simp add: table)
  next
    case 3
    with u have "61 \<le> u" "u < 91" by auto
    then show ?thesis using u by (simp add: table)
  next
    case 4
    with u have "92 \<le> u" "u < 121" by auto
    then show ?thesis using u by (simp add: table)
  next
    case 5
    with u have "122 \<le> u" "u < 152" by auto
    then show ?thesis using u by (simp add: table)
  next
    case 6
    with u have "153 \<le> u" "u < 183" by auto
    then show ?thesis using u by (simp add: table)
  next
    case 7
    with u have "184 \<le> u" "u < 213" by auto
    then show ?thesis using u by (simp add: table)
  next
    case 8
    with u have "214 \<le> u" "u < 244" by auto
    then show ?thesis using u by (simp add: table)
  next
    case 9
    with u have "245 \<le> u" "u < 274" by auto
    then show ?thesis using u by (simp add: table)
  next
    case 10
    with u have "275 \<le> u" "u < 305" by auto
    then show ?thesis using u by (simp add: table)
  next
    case 11
    with u have "306 \<le> u" "u < 336" by auto
    then show ?thesis using u by (simp add: table)
  next
    case 12
    with u have "337 \<le> u" "u < 364" by auto
    then show ?thesis using u by (simp add: table)
  qed
qed

lemma march_date_in_year:
  "0 \<le> u \<Longrightarrow> u < 364 \<Longrightarrow> march_date y (u + 1) = day_after (march_date y u)"
  using next_month same_month by blast

lemma march_date_valid:
  assumes u: "0 \<le> u" "u \<le> (if leap (y + 1) then 365 else 364)"
  shows "valid_date (march_date y u)"
proof -
  have "u < 366" using u by (simp split: if_splits)
  with u(1) show ?thesis
    by (cases rule: march_cases)
       (use u in \<open>simp add: march_date_def valid_date_def month_length_def month_day_table split: if_splits\<close>)+
qed

text \<open>The last day of such a year is followed by the first of the next.\<close>

lemma march_date_turns:
  assumes "u = (if leap (y + 1) then 365 else 364)"
  shows "march_date (y + 1) 0 = day_after (march_date y u)"
  using assms by (simp add: march_date_def day_after_def month_length_def month_day_table)

lemma march_date_leap_day:
  "leap (y + 1) \<Longrightarrow> march_date y 365 = day_after (march_date y 364)"
  by (simp add: march_date_def day_after_def month_length_def month_day_table)

lemma next_era_day:
  assumes "0 \<le> g" "era_parts c q t u" "u = (if t = 3 \<and> (q < 24 \<or> c = 3) then 365 else 364)"
  obtains g' c' q' t' where "0 \<le> g'" "era_parts c' q' t' 0"
    "146097 * g + era_day c q t u + 1 = 146097 * g' + era_day c' q' t' 0"
    "400 * g + 100 * c + 4 * q + t + 1 = 400 * g' + 100 * c' + 4 * q' + t'"
proof -
  consider "t < 3" | "t = 3" "q < 24" | "t = 3" "q = 24" "c < 3" | "t = 3" "q = 24" "c = 3"
    using assms(2) unfolding era_parts_def by linarith
  then show thesis
  proof cases
    case 1
    with that [of g c q "t + 1"] assms show ?thesis by (simp add: era_parts_def era_day_def)
  next
    case 2
    with that [of g c "q + 1" 0] assms show ?thesis by (simp add: era_parts_def era_day_def)
  next
    case 3
    with that [of g "c + 1" 0 0] assms show ?thesis by (simp add: era_parts_def era_day_def)
  next
    case 4
    with that [of "g + 1" 0 0 0] assms show ?thesis by (simp add: era_parts_def era_day_def)
  qed
qed

lemma civil_of_march:
  assumes "0 \<le> g" "era_parts c q t u"
  shows "civil_from_days (146097 * g + era_day c q t u + 1 - 719468) =
         day_after (march_date (400 * g + 100 * c + 4 * q + t) u)"
proof -
  let ?y = "400 * g + 100 * c + 4 * q + t"
  let ?n = "146097 * g + era_day c q t u + 1"
  have b: "0 \<le> c" "c \<le> 3" "0 \<le> q" "q \<le> 24" "0 \<le> t" "t \<le> 3" "0 \<le> u"
    "u \<le> (if leap (?y + 1) then 365 else 364)"
    using assms(2) leap_of_parts [OF assms(2), of g] by (auto simp: era_parts_def)
  show ?thesis
  proof (cases "u = (if leap (?y + 1) then 365 else 364)")
    case False
    with b have "era_parts c q t (u + 1)"
      using assms(2) leap_of_parts [OF assms(2), of g] by (auto simp: era_parts_def)
    from civil_of_parts [OF assms(1) this]
    have "civil_from_days (?n - 719468) = march_date ?y (u + 1)"
      by (simp add: era_day_def algebra_simps)
    moreover have "march_date ?y (u + 1) = day_after (march_date ?y u)"
    proof (cases "u = 364")
      case True
      with False b have "leap (?y + 1)" by (auto split: if_splits)
      then show ?thesis using march_date_leap_day [of ?y] True by simp
    next
      case below: False
      with b False have "u < 364" by (auto split: if_splits)
      with b show ?thesis by (intro march_date_in_year) auto
    qed
    ultimately show ?thesis by simp
  next
    case True
    with leap_of_parts [OF assms(2), of g]
    have "u = (if t = 3 \<and> (q < 24 \<or> c = 3) then 365 else 364)" by simp
    from next_era_day [OF assms this] obtain g' c' q' t' where n: "0 \<le> g'" "era_parts c' q' t' 0"
      "?n = 146097 * g' + era_day c' q' t' 0" "?y + 1 = 400 * g' + 100 * c' + 4 * q' + t'" .
    have "civil_from_days (?n - 719468) = march_date (?y + 1) 0"
      unfolding n(3) using civil_of_parts [OF n(1,2)] n(4) by simp
    also have "\<dots> = day_after (march_date ?y u)"
      by (rule march_date_turns [OF True])
    finally show ?thesis .
  qed
qed

lemma civil_valid:
  assumes "- 719468 \<le> n"
  shows "valid_date (civil_from_days n) \<and> civil_from_days (n + 1) = day_after (civil_from_days n)"
proof -
  define z where "z = n + 719468"
  have z: "0 \<le> z" "0 \<le> z div 146097" "0 \<le> z mod 146097" "z mod 146097 < 146097"
    using assms unfolding z_def by simp_all
  obtain c q t u where p: "era_parts c q t u" "z mod 146097 = era_day c q t u"
    using era_day_exists [OF z(3,4)] .
  have n: "n = 146097 * (z div 146097) + era_day c q t u - 719468"
    using mult_div_mod_eq [of 146097 z] unfolding p(2) [symmetric] z_def by linarith
  have "0 \<le> u" "u \<le> (if leap (400 * (z div 146097) + 100 * c + 4 * q + t + 1) then 365 else 364)"
    using p(1) leap_of_parts [OF p(1)] by (auto simp: era_parts_def)
  then have "valid_date (march_date (400 * (z div 146097) + 100 * c + 4 * q + t) u)"
    by (rule march_date_valid)
  moreover have "n + 1 = 146097 * (z div 146097) + era_day c q t u + 1 - 719468"
    using n by linarith
  ultimately show ?thesis
    using civil_of_parts [OF z(2) p(1)] civil_of_march [OF z(2) p(1)] n by simp
qed

section \<open>Rendering an instant\<close>

text \<open>\<open>{n:0w}\<close>: the sign first, then zeros up to the width.\<close>

definition pad_zeros :: "nat \<Rightarrow> string \<Rightarrow> string" where
  "pad_zeros w s = replicate (w - length s) CHR ''0'' @ s"

definition show_padded :: "nat \<Rightarrow> int \<Rightarrow> string" where
  "show_padded w n = (if n < 0 then ''-'' @ pad_zeros (w - 1) (dec_of (nat (- n)))
                      else pad_zeros w (dec_of (nat n)))"

definition i64_of :: "int \<Rightarrow> int option" where
  "i64_of n = (if - (2 ^ 63) \<le> n \<and> n < 2 ^ 63 then Some n else None)"

text \<open>An offset in minutes is an \<open>i32\<close>; the sum is taken in \<open>i128\<close>, where it cannot overflow.\<close>

type_synonym i32 = "32 word"

definition format_local :: "u64 \<Rightarrow> i32 \<Rightarrow> (ax_error, string) result" where
  "format_local utc_ms off =
     (let offset_ms = sint off * 60000;
          shifted = uint utc_ms + offset_ms;
          minutes_total = shifted div 60000;
          days = minutes_total div 1440;
          minute_of_day = minutes_total mod 1440
      in case i64_of days of
           None \<Rightarrow> Inl (failure InvalidArgs ''format local time'' ''date out of range'')
         | Some day_i64 \<Rightarrow>
             (let (year, month, day) = civil_from_days day_i64;
                  hour = minute_of_day div 60;
                  minute = minute_of_day mod 60
              in Inr (show_padded 4 year @ ''-'' @ show_padded 2 month @ ''-'' @ show_padded 2 day @ '' ''
                      @ show_padded 2 hour @ '':'' @ show_padded 2 minute)))"

record zone_entry =
  ze_id :: string
  ze_offset :: i32
  ze_local :: string

record rendered_stamp =
  cs_utc :: u64
  cs_zones :: "zone_entry list"

definition stamp_render :: "rendered_stamp \<Rightarrow> string" where
  "stamp_render st =
     ''clock:'' @ concat (map (\<lambda>z. '' '' @ ze_id z @ '' '' @ ze_local z @ '';'') (cs_zones st))"

definition clock_zones_max :: nat where
  "clock_zones_max = 4"

fun zone_rows :: "u64 \<Rightarrow> clock_zone list \<Rightarrow> (ax_error, zone_entry list) result" where
  "zone_rows now [] = Inr []"
| "zone_rows now (z # zs) =
     bind_r (format_local now (offset_min z)) (\<lambda>text.
     bind_r (zone_rows now zs) (\<lambda>rows.
       Inr (\<lparr>ze_id = zone_id z, ze_offset = offset_min z, ze_local = text\<rparr> # rows)))"

definition stamp :: "u64 \<Rightarrow> clock_zone list \<Rightarrow> (ax_error, rendered_stamp) result" where
  "stamp now zones =
     (if length zones > clock_zones_max then
        Inl (failure InvalidArgs ''format clock stamp''
               (dec_of (length zones) @ '' zones exceed CLOCK_ZONES_MAX='' @ dec_of clock_zones_max))
      else bind_r (format_local now 0) (\<lambda>utc.
           bind_r (zone_rows now zones) (\<lambda>rows.
             Inr \<lparr>cs_utc = now,
                  cs_zones = \<lparr>ze_id = ''utc'', ze_offset = 0, ze_local = utc\<rparr> # rows\<rparr>)))"

section \<open>When a result carries a stamp\<close>

fun bucket_ms :: "clock_stamp \<Rightarrow> u64 option" where
  "bucket_ms Off = None"
| "bucket_ms Minute = Some 60000"
| "bucket_ms FiveMinute = Some 300000"
| "bucket_ms Hour = Some 3600000"

record stamp_gate =
  sg_granularity :: clock_stamp
  sg_last :: "u64 option"

definition stamp_gate_new :: "clock_stamp \<Rightarrow> stamp_gate" where
  "stamp_gate_new g = \<lparr>sg_granularity = g, sg_last = None\<rparr>"

definition observe_stamp ::
  "stamp_gate \<Rightarrow> u64 \<Rightarrow> temporal \<Rightarrow> clock_zone list \<Rightarrow>
   stamp_gate \<times> (ax_error, rendered_stamp option) result" where
  "observe_stamp g now temporal zones =
     (case bucket_ms (sg_granularity g) of
        None \<Rightarrow> (g, Inr None)
      | Some width \<Rightarrow>
          if width = 0 then (g, Inl (failure InvalidArgs ''bucket clock stamp'' ''zero bucket width''))
          else
            let bucket = now div width;
                due = (case temporal of Timestamped \<Rightarrow> True | Timeless \<Rightarrow> sg_last g \<noteq> Some bucket)
                      \<or> sg_last g = None
            in if \<not> due then (g, Inr None)
               else
                 let g = g\<lparr>sg_last := Some bucket\<rparr>
                 in case checked_mul bucket width of
                      None \<Rightarrow> (g, Inl (failure InvalidArgs ''bucket clock stamp'' ''bucket overflow''))
                    | Some truncated \<Rightarrow>
                        (g, bind_r (stamp truncated zones) (\<lambda>st. Inr (Some st))))"

section \<open>What the calendar and the gate keep\<close>

definition epoch :: "int \<times> int \<times> int" where
  "epoch = (1970, 1, 1)"

lemma civil_epoch: "civil_from_days 0 = epoch"
  by code_simp

lemma civil_iterates: "civil_from_days (int k) = (day_after ^^ k) epoch"
proof (induction k)
  case 0
  show ?case by (simp add: civil_epoch)
next
  case (Suc k)
  then show ?case using civil_valid [of "int k"] by (simp add: add.commute)
qed

text \<open>
  Before the first of March of the year 0 the era is rounded down twice, and the calendar falls
  out of step: it names the 29th of February of the year 0 for two days in a row, and
  gives February 29 days in a year that is no leap year.
\<close>

lemma civil_repeats_a_day:
  "civil_from_days (- 719469) = (0, 2, 29) \<and> civil_from_days (- 719470) = (0, 2, 29)"
  "civil_from_days (- 719835) = (- 1, 2, 29) \<and> \<not> leap (- 1)"
  by code_simp+

lemma format_local_ok: "\<exists>s. format_local now off = Inr s"
proof -
  define m where "m = (uint now + sint off * 60000) div 60000"
  have "0 \<le> uint now" "uint now < 2 ^ 64" "- (2 ^ 31) \<le> sint off" "sint off < 2 ^ 31"
    using uint_lt2p [of now] sint_ge [of off] sint_lt [of off] by simp_all
  then have "- (2 ^ 63) \<le> m div 1440" "m div 1440 < 2 ^ 63"
    unfolding m_def by (simp_all, linarith+)
  then show ?thesis
    by (auto simp: format_local_def Let_def i64_of_def m_def split: prod.split)
qed

lemma zone_rows_ok:
  "\<exists>rows. zone_rows now zs = Inr rows \<and> map ze_id rows = map zone_id zs"
proof (induction zs)
  case (Cons z zs)
  moreover obtain s where "format_local now (offset_min z) = Inr s"
    using format_local_ok by blast
  ultimately show ?case by auto
qed simp

lemma stamp_ok_iff: "is_ok (stamp now zs) \<longleftrightarrow> length zs \<le> clock_zones_max"
proof -
  obtain s rows where "format_local now 0 = Inr s" "zone_rows now zs = Inr rows"
    using format_local_ok zone_rows_ok by blast
  then show ?thesis by (simp add: stamp_def is_ok_def)
qed

lemma stamp_utc: "stamp now zs = Inr st \<Longrightarrow> cs_utc st = now"
  by (auto simp: stamp_def bind_r_Inr_iff split: if_splits)

lemma bucket_positive: "bucket_ms g = Some w \<Longrightarrow> 0 < w"
  by (cases g) auto

lemma bucket_fits: "checked_mul (t div w) w = Some (t div w * w)" for t w :: u64
proof -
  have "unat (t div w) * unat w \<le> unat t"
    by (simp add: unat_div)
  also have "\<dots> < 2 ^ 64" using unat_less_64 [of t] by simp
  finally show ?thesis by (simp add: checked_mul_def)
qed

text \<open>A whole run's results, each with its instant, and the stamps that ride them.\<close>

fun observe_all ::
  "stamp_gate \<Rightarrow> (u64 \<times> temporal) list \<Rightarrow> clock_zone list \<Rightarrow> rendered_stamp option list" where
  "observe_all g [] zones = []"
| "observe_all g ((now, temporal) # rest) zones =
     (case observe_stamp g now temporal zones of
        (g', Inl e) \<Rightarrow> None # observe_all g' rest zones
      | (g', Inr st) \<Rightarrow> st # observe_all g' rest zones)"

definition emitted :: "rendered_stamp option list \<Rightarrow> u64 list" where
  "emitted sts = map (\<lambda>st. cs_utc (the st)) (filter (\<lambda>st. st \<noteq> None) sts)"

lemma observe_step:
  assumes w: "bucket_ms (sg_granularity g) = Some w" and z: "length zs \<le> clock_zones_max"
  shows "\<exists>st. observe_stamp g now temporal zs =
     (if temporal = Timestamped \<or> sg_last g \<noteq> Some (now div w)
      then (g\<lparr>sg_last := Some (now div w)\<rparr>, Inr (Some st)) else (g, Inr None)) \<and>
     cs_utc st = now div w * w"
proof -
  obtain st where st: "stamp (now div w * w) zs = Inr st"
    using z stamp_ok_iff [of "now div w * w" zs] by (auto simp: is_ok_iff)
  have u: "cs_utc st = now div w * w" by (rule stamp_utc [OF st])
  have nz: "w \<noteq> 0" using bucket_positive [OF w] by simp
  have "observe_stamp g now temporal zs =
     (if temporal = Timestamped \<or> sg_last g \<noteq> Some (now div w)
      then (g\<lparr>sg_last := Some (now div w)\<rparr>, Inr (Some st)) else (g, Inr None))"
    unfolding observe_stamp_def w option.case Let_def bucket_fits st bind_r_simps
    using nz by (cases temporal) (simp_all only: temporal.case temporal.distinct if_False if_True refl
      simp_thms split: if_split, auto)
  with u show ?thesis by blast
qed

lemma observe_all_timeless:
  assumes w: "bucket_ms (sg_granularity g) = Some w" and z: "length zs \<le> clock_zones_max"
  shows "emitted (observe_all g (map (\<lambda>t. (t, Timeless)) ts) zs) =
         map (\<lambda>b. b * w) (case sg_last g of None \<Rightarrow> remdups_adj (map (\<lambda>t. t div w) ts)
                            | Some b \<Rightarrow> tl (remdups_adj (b # map (\<lambda>t. t div w) ts)))"
  using w
proof (induction ts arbitrary: g)
  case Nil
  show ?case by (simp add: emitted_def split: option.split)
next
  case (Cons t ts)
  obtain st where st: "observe_stamp g t Timeless zs =
      (if sg_last g \<noteq> Some (t div w) then (g\<lparr>sg_last := Some (t div w)\<rparr>, Inr (Some st)) else (g, Inr None))"
    "cs_utc st = t div w * w"
    using observe_step [OF Cons.prems z, of t Timeless] by auto
  have head: "hd (remdups_adj (b # bs)) = b" for b and bs :: "u64 list"
    by (metis list.sel(1) remdups_adj_Cons_alt)
  show ?case
  proof (cases "sg_last g = Some (t div w)")
    case True
    then show ?thesis using st Cons.IH [OF Cons.prems] by (simp add: emitted_def)
  next
    case False
    let ?g = "g\<lparr>sg_last := Some (t div w)\<rparr>"
    have "bucket_ms (sg_granularity ?g) = Some w" using Cons.prems by simp
    from Cons.IH [OF this] False st show ?thesis
      by (auto simp: emitted_def remdups_adj_Cons split: option.split list.split)
  qed
qed
end
