(* ===== verification/Price_Sheets.thy ===== *)
theory Price_Sheets
  imports Chats
begin

text \<open>
  The catalog of models and what a call cost: \<open>market.rs\<close> and \<open>cost.rs\<close> of
  \<open>src/crates/gateway/src\<close>. Prices are micro-dollars for a million tokens; a settlement is checked
  integer arithmetic, and the provider's own bill wins over it.
\<close>

section \<open>The catalog\<close>

record model_entry =
  me_id :: string
  me_context_tokens :: u64
  me_max_output_tokens :: u64
  me_input_price :: usd_micros
  me_output_price :: usd_micros
  me_cache_read_price :: usd_micros
  me_cache_write_price :: usd_micros

record market_snapshot =
  ms_version :: u32
  ms_entries :: "(string, model_entry) btree"

fun add_rows :: "model_entry list \<Rightarrow> (string, model_entry) btree \<Rightarrow> (ax_error, (string, model_entry) btree) result" where
  "add_rows [] entries = Inr entries"
| "add_rows (row # rows) entries =
     (if bt_get entries (me_id row) \<noteq> None
      then Inl (failure InvalidArgs ''build market snapshot'' (''duplicate model id `'' @ me_id row @ ''`''))
      else add_rows rows (bt_insert (me_id row) row entries))"

definition market_from_entries :: "u32 \<Rightarrow> model_entry list \<Rightarrow> (ax_error, market_snapshot) result" where
  "market_from_entries v rows =
     bind_r (add_rows rows []) (\<lambda>entries. Inr \<lparr>ms_version = v, ms_entries = entries\<rparr>)"

definition builtin_rows :: "model_entry list" where
  "builtin_rows =
     [\<lparr>me_id = ''claude-sonnet'', me_context_tokens = 200000, me_max_output_tokens = 64000,
       me_input_price = UsdMicros 3000000, me_output_price = UsdMicros 15000000,
       me_cache_read_price = UsdMicros 300000, me_cache_write_price = UsdMicros 3750000\<rparr>,
      \<lparr>me_id = ''local'', me_context_tokens = 32768, me_max_output_tokens = 4096,
       me_input_price = UsdMicros 0, me_output_price = UsdMicros 0,
       me_cache_read_price = UsdMicros 0, me_cache_write_price = UsdMicros 0\<rparr>]"

definition market_builtin :: market_snapshot where
  "market_builtin =
     (case market_from_entries 1 builtin_rows of
        Inr snapshot \<Rightarrow> snapshot
      | Inl _ \<Rightarrow> \<lparr>ms_version = 1, ms_entries = []\<rparr>)"

definition market_lookup :: "market_snapshot \<Rightarrow> string \<Rightarrow> model_entry option" where
  "market_lookup m name = bt_get (ms_entries m) name"

section \<open>Settling a call\<close>

datatype (plugins only: code size) cost_source = Authoritative | PriceSheet

record call_cost =
  cc_billed :: usd_micros
  cc_source :: cost_source
  cc_usage :: model_usage

definition tokens_per_price_unit :: u64 where
  "tokens_per_price_unit = 1000000"

definition settle_error :: "string \<Rightarrow> ax_error" where
  "settle_error why = failure InvalidArgs ''settle call cost'' why"

definition price_share :: "tokens \<Rightarrow> usd_micros \<Rightarrow> string \<Rightarrow> (ax_error, u64) result" where
  "price_share n price what =
     (case checked_mul (tokens_get n) (usd_get price) of
        None \<Rightarrow> Inl (settle_error (what @ '': token-price product overflows''))
      | Some product \<Rightarrow> Inr (product div tokens_per_price_unit))"

fun add_shares :: "(tokens \<times> usd_micros \<times> string) list \<Rightarrow> u64 \<Rightarrow> (ax_error, u64) result" where
  "add_shares [] acc = Inr acc"
| "add_shares ((n, price, what) # rest) acc =
     bind_r (price_share n price what) (\<lambda>part.
       case checked_add acc part of
         None \<Rightarrow> Inl (settle_error (what @ '': settlement total overflows''))
       | Some acc \<Rightarrow> add_shares rest acc)"

definition priced_parts :: "model_usage \<Rightarrow> model_entry \<Rightarrow> (tokens \<times> usd_micros \<times> string) list" where
  "priced_parts usage e =
     [(input_tokens usage, me_input_price e, ''input''),
      (output_tokens usage, me_output_price e, ''output''),
      (cache_read_tokens usage, me_cache_read_price e, ''cache_read''),
      (cache_write_tokens usage, me_cache_write_price e, ''cache_write'')]"

definition settle_call :: "model_usage \<Rightarrow> usd_micros option \<Rightarrow> model_entry \<Rightarrow> (ax_error, call_cost) result" where
  "settle_call usage authoritative e =
     (case authoritative of
        Some billed \<Rightarrow> Inr \<lparr>cc_billed = billed, cc_source = Authoritative, cc_usage = usage\<rparr>
      | None \<Rightarrow>
          bind_r (add_shares (priced_parts usage e) 0) (\<lambda>acc.
            Inr \<lparr>cc_billed = UsdMicros acc, cc_source = PriceSheet, cc_usage = usage\<rparr>))"

section \<open>What a settlement is\<close>

text \<open>The exact cost of a call, in millionths of a micro-dollar, part by part.\<close>

definition part_product :: "tokens \<times> usd_micros \<times> string \<Rightarrow> nat" where
  "part_product = (\<lambda>(n, price, what). unat (tokens_get n) * unat (usd_get price))"

definition exact_cost :: "model_usage \<Rightarrow> model_entry \<Rightarrow> nat" where
  "exact_cost usage e = sum_list (map part_product (priced_parts usage e))"

definition part_fits :: "tokens \<times> usd_micros \<times> string \<Rightarrow> bool" where
  "part_fits p \<longleftrightarrow> part_product p < 2 ^ 64"

definition part_share :: "tokens \<times> usd_micros \<times> string \<Rightarrow> nat" where
  "part_share p = part_product p div 1000000"

lemma price_share_fits:
  assumes "part_fits (n, price, what)"
  shows "\<exists>part. price_share n price what = Inr part \<and> unat part = part_share (n, price, what)"
proof -
  have "unat (tokens_get n) * unat (usd_get price) < 2 ^ 64"
    using assms by (simp add: part_fits_def part_product_def)
  then have "checked_mul (tokens_get n) (usd_get price) = Some (tokens_get n * usd_get price)"
    "unat (tokens_get n * usd_get price) = unat (tokens_get n) * unat (usd_get price)"
    by (simp_all add: checked_mul_def unat_mult_no_wrap)
  then show ?thesis
    by (simp add: price_share_def tokens_per_price_unit_def part_share_def part_product_def unat_div)
qed

lemma price_share_fails:
  "\<not> part_fits (n, price, what) \<Longrightarrow>
   price_share n price what = Inl (settle_error (what @ '': token-price product overflows''))"
  by (simp add: price_share_def checked_mul_def part_fits_def part_product_def)

text \<open>A share is below 2^45, so that the sum of a few of them does not overflow.\<close>

lemma part_share_small: "part_fits p \<Longrightarrow> part_share p < 18446744073710"
  by (simp add: part_fits_def part_share_def)

lemma add_shares_ok:
  "list_all part_fits ps \<Longrightarrow> unat acc + length ps * 18446744073710 < 2 ^ 64 \<Longrightarrow>
   \<exists>out. add_shares ps acc = Inr out \<and> unat out = unat acc + sum_list (map part_share ps)"
proof (induction ps acc rule: add_shares.induct)
  case (2 n price what rest acc)
  obtain part where p: "price_share n price what = Inr part" "unat part = part_share (n, price, what)"
    using price_share_fits [of n price what] 2(2) by fastforce
  then have small: "unat part < 18446744073710" using part_share_small 2(2) by simp
  then have add: "unat acc + unat part < 2 ^ 64" using 2(3) by simp
  then have s: "checked_add acc part = Some (acc + part)" "unat (acc + part) = unat acc + unat part"
    by (simp_all add: checked_add_def unat_add_no_wrap)
  have "unat (acc + part) + length rest * 18446744073710 < 2 ^ 64"
    using s(2) small 2(3) by simp
  then obtain out where "add_shares rest (acc + part) = Inr out"
      "unat out = unat (acc + part) + sum_list (map part_share rest)"
    using 2(1) [of part "acc + part"] p(1) s(1) 2(2) by auto
  then show ?case using p s by simp
qed simp

lemma price_share_Inr: "price_share n price what = Inr part \<Longrightarrow> part_fits (n, price, what)"
  using price_share_fails by fastforce

lemma add_shares_error:
  "add_shares ps acc = Inr out \<Longrightarrow> list_all part_fits ps"
  by (induction ps acc rule: add_shares.induct)
    (auto simp: bind_r_Inr_iff dest: price_share_Inr split: option.splits)

lemma settle_sheet:
  "case settle_call usage None e of
     Inr c \<Rightarrow> list_all part_fits (priced_parts usage e) \<and>
       unat (usd_get (cc_billed c)) = sum_list (map part_share (priced_parts usage e)) \<and>
       cc_source c = PriceSheet \<and> cc_usage c = usage
   | Inl _ \<Rightarrow> \<not> list_all part_fits (priced_parts usage e)"
proof (cases "list_all part_fits (priced_parts usage e)")
  case True
  then obtain out where "add_shares (priced_parts usage e) 0 = Inr out"
      "unat out = sum_list (map part_share (priced_parts usage e))"
    using add_shares_ok [of "priced_parts usage e" 0] by (auto simp: priced_parts_def)
  with True show ?thesis by (simp add: settle_call_def)
next
  case False
  then show ?thesis
    using add_shares_error [of "priced_parts usage e" 0]
    by (cases "add_shares (priced_parts usage e) 0") (auto simp: settle_call_def)
qed

lemma shares_near_exact:
  "sum_list (map part_share (priced_parts usage e)) * 1000000 \<le> exact_cost usage e \<and>
   exact_cost usage e < (sum_list (map part_share (priced_parts usage e)) + 4) * 1000000"
proof -
  have "part_share p * 1000000 \<le> part_product p \<and> part_product p < (part_share p + 1) * 1000000" for p
  proof -
    have "part_product p div 1000000 * 1000000 + part_product p mod 1000000 = part_product p"
      "part_product p mod 1000000 < 1000000"
      by (simp_all add: div_mult_mod_eq)
    then show ?thesis unfolding part_share_def by (simp add: algebra_simps)
  qed
  note b = this
  define p1 p2 p3 p4 where "p1 = (input_tokens usage, me_input_price e, ''input'')"
    and "p2 = (output_tokens usage, me_output_price e, ''output'')"
    and "p3 = (cache_read_tokens usage, me_cache_read_price e, ''cache_read'')"
    and "p4 = (cache_write_tokens usage, me_cache_write_price e, ''cache_write'')"
  have "priced_parts usage e = [p1, p2, p3, p4]"
    by (simp add: priced_parts_def p1_def p2_def p3_def p4_def)
  then show ?thesis
    using b [of p1] b [of p2] b [of p3] b [of p4] by (simp add: exact_cost_def)
qed

section \<open>The catalog has one price for a model\<close>

lemma add_rows_ok:
  "bt_ok m \<Longrightarrow> add_rows rows m = Inr m' \<Longrightarrow>
   bt_ok m' \<and> distinct (map me_id rows) \<and> (\<forall>r \<in> set rows. bt_get m (me_id r) = None) \<and>
   (\<forall>k. bt_get m' k = (case List.find (\<lambda>r. me_id r = k) rows of Some r \<Rightarrow> Some r | None \<Rightarrow> bt_get m k))"
proof (induction rows m rule: add_rows.induct)
  case (2 row rows m)
  then have new: "bt_get m (me_id row) = None" "bt_ok (bt_insert (me_id row) row m)"
    "add_rows rows (bt_insert (me_id row) row m) = Inr m'"
    using bt.ok_insert by (auto split: if_splits)
  with 2(1) have IH: "bt_ok m'" "distinct (map me_id rows)"
    "\<forall>r \<in> set rows. bt_get (bt_insert (me_id row) row m) (me_id r) = None"
    "\<And>k. bt_get m' k = (case List.find (\<lambda>r. me_id r = k) rows of Some r \<Rightarrow> Some r
       | None \<Rightarrow> bt_get (bt_insert (me_id row) row m) k)"
    by auto
  have g: "bt_get (bt_insert (me_id row) row m) k = (if k = me_id row then Some row else bt_get m k)" for k
    using bt.get_insert [OF 2(2)] by simp
  have fresh: "me_id row \<notin> me_id ` set rows" using IH(3) g by fastforce
  then have none: "List.find (\<lambda>r. me_id r = me_id row) rows = None"
    unfolding find_None_iff by (metis rev_image_eqI)
  show ?case
    using new IH fresh none g by (auto split: if_splits option.splits)
qed simp

lemma market_prices:
  "market_from_entries v rows = Inr m \<Longrightarrow>
   distinct (map me_id rows) \<and> market_lookup m k = List.find (\<lambda>r. me_id r = k) rows"
  using add_rows_ok [of "[]" rows] bt.ok_empty
  by (auto simp: market_from_entries_def bind_r_Inr_iff market_lookup_def bt.get_empty split: option.split)

lemma builtin_catalog: "ms_entries market_builtin = map (\<lambda>r. (me_id r, r)) builtin_rows"
  by code_simp
end
