(* ===== verification/Triages.thy ===== *)
theory Triages
  imports Addresses Fault_Disks
begin

text \<open>
  Where something from outside lands, \<open>src/crates/collab/src/triage.rs\<close>. Unicode lower case is the
  parameter \<open>lower\<close>.
\<close>

datatype (plugins only: code size) reflex = DropIt | NotifyOnly | LightReflex | FullResident

fun reflex_str :: "reflex \<Rightarrow> string" where
  "reflex_str DropIt = ''discard''"
| "reflex_str NotifyOnly = ''notify''"
| "reflex_str LightReflex = ''light''"
| "reflex_str FullResident = ''full''"

record arrival =
  ar_source :: string
  ar_subject :: string
  ar_tainted :: bool

record triage_rule =
  tr_matches :: string
  tr_landing :: address
  tr_reflex :: reflex

record landing_place =
  lp_addr :: address
  lp_reflex :: reflex
  lp_because :: string

record triage =
  tg_rules :: "triage_rule list"
  tg_fallback :: address

definition triage_new :: "triage_rule list \<Rightarrow> address \<Rightarrow> (ax_error, triage) result" where
  "triage_new rules fallback =
     (if list_ex (\<lambda>tr. trim (tr_matches tr) = []) rules
      then Inl (with_recovery
                 (''give the rule something to match, or change the fallback address, which is '' @
                  ''what catches everything else'')
                 (failure ConfigInvalid ''build a triage table'' ''a rule with nothing to match''))
      else Inr \<lparr>tg_rules = rules, tg_fallback = fallback\<rparr>)"

definition rule_matches :: "(string \<Rightarrow> string) \<Rightarrow> string \<Rightarrow> triage_rule \<Rightarrow> bool" where
  "rule_matches lower haystack tr = contains haystack (lower (trim (tr_matches tr)))"

definition land_by :: "arrival \<Rightarrow> triage_rule \<Rightarrow> landing_place" where
  "land_by a tr =
     (let reflex = (if ar_tainted a \<and> (tr_reflex tr = LightReflex \<or> tr_reflex tr = FullResident)
                    then NotifyOnly else tr_reflex tr);
          because = (if reflex = tr_reflex tr then ''rule `'' @ tr_matches tr @ ''`''
                     else ''rule `'' @ tr_matches tr @ ''`, held at notify because it came from outside'')
      in \<lparr>lp_addr = tr_landing tr, lp_reflex = reflex, lp_because = because\<rparr>)"

fun first_landing :: "(string \<Rightarrow> string) \<Rightarrow> string \<Rightarrow> arrival \<Rightarrow> triage_rule list \<Rightarrow> landing_place option" where
  "first_landing lower haystack a [] = None"
| "first_landing lower haystack a (tr # rules) =
     (if \<not> rule_matches lower haystack tr then first_landing lower haystack a rules
      else Some (land_by a tr))"

definition decide_landing :: "(string \<Rightarrow> string) \<Rightarrow> triage \<Rightarrow> arrival \<Rightarrow> landing_place" where
  "decide_landing lower t a =
     (let haystack = lower (ar_source a @ '' '' @ ar_subject a) in
      case first_landing lower haystack a (tg_rules t) of
        Some place \<Rightarrow> place
      | None \<Rightarrow> \<lparr>lp_addr = tg_fallback t, lp_reflex = NotifyOnly,
                 lp_because = ''no rule matched, so a person reads it''\<rparr>)"

section \<open>Where arrivals land\<close>

lemma first_landing_find:
  "first_landing lower h a rules = map_option (land_by a) (List.find (rule_matches lower h) rules)"
  by (induction rules) auto

text \<open>Material from outside starts no work, whatever the table says.\<close>

lemma tainted_starts_nothing:
  "ar_tainted a \<Longrightarrow> lp_reflex (decide_landing lower t a) \<in> {DropIt, NotifyOnly}"
proof -
  assume a: "ar_tainted a"
  have "lp_reflex (land_by a tr) \<in> {DropIt, NotifyOnly}" for tr
    using a by (cases "tr_reflex tr") (auto simp: land_by_def Let_def)
  then show ?thesis
    by (auto simp: decide_landing_def Let_def first_landing_find split: option.split)
qed

text \<open>The first rule that matches decides; what starts work is a rule's own word.\<close>

lemma landing_is_ruled:
  "decide_landing lower t a = place \<Longrightarrow> lp_reflex place \<in> {LightReflex, FullResident} \<Longrightarrow>
   \<not> ar_tainted a \<and> (\<exists>pre tr post. tg_rules t = pre @ tr # post \<and>
     rule_matches lower (lower (ar_source a @ '' '' @ ar_subject a)) tr \<and>
     list_all (\<lambda>r. \<not> rule_matches lower (lower (ar_source a @ '' '' @ ar_subject a)) r) pre \<and>
     lp_addr place = tr_landing tr \<and> lp_reflex place = tr_reflex tr)"
proof -
  let ?h = "lower (ar_source a @ '' '' @ ar_subject a)"
  assume d: "decide_landing lower t a = place" and w: "lp_reflex place \<in> {LightReflex, FullResident}"
  have "\<not> ar_tainted a" using tainted_starts_nothing [of a lower t] d w by auto
  moreover obtain tr where r: "List.find (rule_matches lower ?h) (tg_rules t) = Some tr"
    using d w by (auto simp: decide_landing_def Let_def first_landing_find split: option.splits)
  moreover from r have "place = land_by a tr"
    using d by (simp add: decide_landing_def Let_def first_landing_find)
  moreover obtain i where i: "i < length (tg_rules t)" "tg_rules t ! i = tr" "rule_matches lower ?h tr"
      "\<forall>j<i. \<not> rule_matches lower ?h (tg_rules t ! j)"
    using r by (auto simp: find_Some_iff)
  moreover have "tg_rules t = take i (tg_rules t) @ tr # drop (Suc i) (tg_rules t)"
    using i by (metis id_take_nth_drop)
  moreover have "list_all (\<lambda>r. \<not> rule_matches lower ?h r) (take i (tg_rules t))"
    using i by (auto simp: list_all_length)
  ultimately show ?thesis by (auto simp: land_by_def Let_def)
qed
end
