(* ===== verification/Assets.thy ===== *)
theory Assets
  imports Budgets
begin

text \<open>
  What a settled asset is worth and what stops being carried: \<open>score.rs\<close> and \<open>metabolism.rs\<close> of
  \<open>src/crates/eval/src\<close>.
\<close>

section \<open>Scores\<close>

record asset_use =
  au_uses :: u32
  au_resident :: byte_len
  au_billed :: usd_micros
  au_idle_days :: u32

record score =
  sc_per_mille :: u32
  sc_idle_days :: u32

definition score_asset :: "asset_use \<Rightarrow> score" where
  "score_asset usage =
     (let bytes = bytes_get (au_resident usage);
          per_mille =
            (if bytes = 0 then saturating_mul (au_uses usage) 1000
             else
               let scaled = saturating_mul (saturating_mul (ucast (au_uses usage) :: u64) 1000) 1000;
                   ratio = scaled div bytes
               in if ratio \<le> 4294967295 then ucast ratio else - 1)
      in \<lparr>sc_per_mille = per_mille, sc_idle_days = au_idle_days usage\<rparr>)"

text \<open>
  \<open>sort_by\<close> with a comparison: the standard library's sort is stable. \<open>scores_before\<close> says that an element
  is to stand strictly before another.
\<close>

definition scores_before :: "score \<Rightarrow> score \<Rightarrow> bool" where
  "scores_before l r \<longleftrightarrow> sc_per_mille l < sc_per_mille r \<or>
     sc_per_mille l = sc_per_mille r \<and> sc_idle_days r < sc_idle_days l"

fun place :: "('a \<times> score) \<Rightarrow> ('a \<times> score) list \<Rightarrow> ('a \<times> score) list" where
  "place x [] = [x]"
| "place x (y # ys) = (if scores_before (snd y) (snd x) then y # place x ys else x # y # ys)"

fun worst_first :: "('a \<times> score) list \<Rightarrow> ('a \<times> score) list" where
  "worst_first [] = []"
| "worst_first (x # xs) = place x (worst_first xs)"

section \<open>Clearing out\<close>

definition asset_idle_days :: u32 where "asset_idle_days = 90"
definition asset_floor_per_mille :: u32 where "asset_floor_per_mille = 1000"

datatype (plugins only: code size) asset_disposal = KeepAsset | WarnOf string | RetireAsset string

fun disposal_because :: "asset_disposal \<Rightarrow> string" where
  "disposal_because KeepAsset = ''it is used often enough for what it costs''"
| "disposal_because (WarnOf because) = because"
| "disposal_because (RetireAsset because) = because"

definition dispose :: "asset_use \<Rightarrow> score \<Rightarrow> bool \<Rightarrow> asset_disposal" where
  "dispose usage sc warned_already =
     (let idle = (au_idle_days usage \<ge> asset_idle_days);
          thin = (sc_per_mille sc < asset_floor_per_mille)
      in if \<not> idle \<and> \<not> thin then KeepAsset
         else
           let days = dec_of (unat (au_idle_days usage)); times = dec_of (unat (au_uses usage));
               because =
                 (if idle \<and> thin then
                    ''nothing has used it for '' @ days @ '' days, and it was reached for '' @ times @
                    '' times for the room it takes''
                  else if idle then ''nothing has used it for '' @ days @ '' days''
                  else ''it was reached for '' @ times @
                    '' times for the room it takes in every prompt that offers it'')
           in if warned_already then RetireAsset because else WarnOf because)"

definition sweep_assets :: "('a \<times> asset_use \<times> score \<times> bool) list \<Rightarrow> ('a \<times> asset_disposal) list" where
  "sweep_assets assets = map (\<lambda>(subject, usage, sc, warned). (subject, dispose usage sc warned)) assets"

section \<open>What a score says\<close>

lemma scaled_exact: "unat (saturating_mul (saturating_mul (ucast (n :: u32) :: u64) 1000) 1000) = unat n * 1000000"
proof -
  have "unat n * 1000 \<le> 18446744073709551615" "unat n * 1000 * 1000 \<le> 18446744073709551615"
    using unat_less_32 [of n] by linarith+
  then show ?thesis by (simp add: unat_saturating_mul unat_ucast_up min_absorb1)
qed

text \<open>Uses for a thousand resident bytes, in thousandths, as far as 32 bits hold it.\<close>

lemma score_resident:
  assumes "bytes_get (au_resident u) \<noteq> 0"
  shows "unat (sc_per_mille (score_asset u)) =
         min (unat (au_uses u) * 1000000 div unat (bytes_get (au_resident u))) u32_max"
proof -
  define ratio where "ratio = saturating_mul (saturating_mul (ucast (au_uses u) :: u64) 1000) 1000 div bytes_get (au_resident u)"
  have r: "unat ratio = unat (au_uses u) * 1000000 div unat (bytes_get (au_resident u))"
    unfolding ratio_def by (simp add: unat_div scaled_exact)
  have s: "sc_per_mille (score_asset u) = (if ratio \<le> 4294967295 then ucast ratio else - 1)"
    using assms by (simp add: score_asset_def Let_def ratio_def)
  show ?thesis
  proof (cases "ratio \<le> 4294967295")
    case True
    then have "unat ratio \<le> 4294967295" by (simp add: word_le_nat_alt)
    then show ?thesis
      using s True by (simp add: r [symmetric] u32_max_def unsigned_ucast_eq take_bit_nat_eq_self)
  next
    case False
    then have "4294967295 < unat ratio" by (simp add: word_le_nat_alt)
    then show ?thesis
      using s False by (simp add: r [symmetric] u32_max_def unsigned_minus_1_eq_mask mask_eq_exp_minus_1)
  qed
qed

text \<open>
  An asset that occupies nothing is scored on another scale: it falls below the same asset with one
  resident byte, and one use of it is what a thousand bytes need to be worth their room.
\<close>

lemma nothing_resident_scores_lower:
  "score_asset \<lparr>au_uses = 5, au_resident = ByteLen 0, au_billed = b, au_idle_days = i\<rparr> =
     \<lparr>sc_per_mille = 5000, sc_idle_days = i\<rparr>"
  "score_asset \<lparr>au_uses = 5, au_resident = ByteLen 1, au_billed = b, au_idle_days = i\<rparr> =
     \<lparr>sc_per_mille = 5000000, sc_idle_days = i\<rparr>"
  by (simp_all add: score_asset_def Let_def saturating_mul_def)

section \<open>What the list shows\<close>

lemma scores_before_order: "\<not> scores_before x x" "scores_before x y \<Longrightarrow> scores_before y z \<Longrightarrow> scores_before x z"
  "\<not> scores_before y x \<Longrightarrow> \<not> scores_before z y \<Longrightarrow> \<not> scores_before z x"
  by (auto simp: scores_before_def)

lemma place_perm: "set (place x ys) = insert x (set ys)" "length (place x ys) = Suc (length ys)"
  by (induction ys) auto

lemma place_sorted:
  "sorted_wrt (\<lambda>a b. \<not> scores_before (snd b) (snd a)) ys \<Longrightarrow> sorted_wrt (\<lambda>a b. \<not> scores_before (snd b) (snd a)) (place x ys)"
proof (induction ys)
  case (Cons y ys)
  show ?case
  proof (cases "scores_before (snd y) (snd x)")
    case True
    then have "\<not> scores_before (snd x) (snd y)" using scores_before_order by blast
    with Cons True show ?thesis by (simp add: place_perm)
  next
    case False
    have "\<not> scores_before (snd z) (snd x)" if "z \<in> set ys" for z
      using that Cons.prems scores_before_order(3) [OF False, of "snd z"] by simp
    with Cons False show ?thesis by simp
  qed
qed simp

lemma worst_first_sorted: "sorted_wrt (\<lambda>a b. \<not> scores_before (snd b) (snd a)) (worst_first xs)"
  by (induction xs) (simp_all add: place_sorted)

lemma place_filter_other: "snd x \<noteq> s \<Longrightarrow> filter (\<lambda>y. snd y = s) (place x ys) = filter (\<lambda>y. snd y = s) ys"
  by (induction ys) auto

lemma place_filter_same:
  "sorted_wrt (\<lambda>a b. \<not> scores_before (snd b) (snd a)) ys \<Longrightarrow> snd x = s \<Longrightarrow>
   filter (\<lambda>y. snd y = s) (place x ys) = x # filter (\<lambda>y. snd y = s) ys"
  by (induction ys) (auto simp: scores_before_order(1))

text \<open>Assets of one standing keep the caller's order.\<close>

lemma worst_first_stable: "filter (\<lambda>y. snd y = s) (worst_first xs) = filter (\<lambda>y. snd y = s) xs"
proof (induction xs)
  case (Cons x xs)
  show ?case
    by (cases "snd x = s") (simp_all add: Cons place_filter_other place_filter_same worst_first_sorted)
qed simp

lemma filter_count: "length (filter (\<lambda>y. y = x) ys) = length (filter (\<lambda>y. y = x) (filter (\<lambda>y. snd y = snd x) ys))"
  by (induction ys) auto

lemma worst_first_counts: "length (filter (\<lambda>y. y = x) (worst_first xs)) = length (filter (\<lambda>y. y = x) xs)"
  using filter_count [of x] worst_first_stable by metis

text \<open>Nothing stops being offered in the cycle that first noticed it.\<close>

lemma retired_was_warned: "dispose u s warned = RetireAsset why \<Longrightarrow> warned"
  by (auto simp: dispose_def Let_def split: if_splits)

lemma kept_iff: "dispose u s warned = KeepAsset \<longleftrightarrow> unat (au_idle_days u) < 90 \<and> 1000 \<le> unat (sc_per_mille s)"
  by (auto simp: dispose_def Let_def asset_idle_days_def asset_floor_per_mille_def word_le_nat_alt word_less_nat_alt not_le not_less)
end
