(* ===== verification/Watchdogs.thy ===== *)
theory Watchdogs
  imports Verdicts Json_Objects
begin

text \<open>
  What happens when a run repeats itself or its provider fails, \<open>src/crates/runtime/src/watchdog.rs\<close>:
  a correction first, freezing only when correction failed.
\<close>

definition watchdog_provider_retries :: u32 where
  "watchdog_provider_retries = 2"

record watchdog =
  wd_corrections :: u32
  wd_provider_failures :: u32

datatype (plugins only: code size) freeze_reason = FreezeStall | ProviderExhausted

datatype (plugins only: code size) dog_disposal =
    Proceed
  | CorrectiveSteer string
  | FreezeRun freeze_reason

fun freeze_str :: "freeze_reason \<Rightarrow> string" where
  "freeze_str FreezeStall = ''stall''"
| "freeze_str ProviderExhausted = ''provider_exhausted''"

definition watchdog_new :: watchdog where
  "watchdog_new = \<lparr>wd_corrections = 0, wd_provider_failures = 0\<rparr>"

fun on_stall :: "stall_verdict \<Rightarrow> watchdog \<Rightarrow> dog_disposal \<times> watchdog" where
  "on_stall StallOk w = (Proceed, w)"
| "on_stall (Stall repeats) w =
     (if wd_corrections w = 0
      then (CorrectiveSteer (''You have repeated the same call '' @ dec_of (unat repeats) @
              '' times in a row. Change the approach or report why the goal cannot be met.''),
            w\<lparr>wd_corrections := 1\<rparr>)
      else (FreezeRun FreezeStall, w))"

definition on_provider_failure :: "watchdog \<Rightarrow> dog_disposal \<times> watchdog" where
  "on_provider_failure w =
     (let w = w\<lparr>wd_provider_failures := saturating_add (wd_provider_failures w) 1\<rparr>
      in if wd_provider_failures w \<le> watchdog_provider_retries then (Proceed, w)
         else (FreezeRun ProviderExhausted, w))"

definition fired_payload :: "watchdog \<Rightarrow> dog_disposal \<Rightarrow> (ax_error, payload) result" where
  "fired_payload w disposal =
     (case disposal of
        Proceed \<Rightarrow> Inl (failure InvalidArgs ''encode watchdog_fired'' ''Proceed does not fire'')
      | _ \<Rightarrow>
          payload_new (obj
            ((case disposal of
                CorrectiveSteer steer \<Rightarrow> [(''action'', jstr ''steer''), (''text'', jstr steer)]
              | FreezeRun reason \<Rightarrow> [(''action'', jstr ''freeze''), (''reason'', jstr (freeze_str reason))]
              | Proceed \<Rightarrow> []) @
             [(''corrections'', jnat (unat (wd_corrections w))),
              (''provider_failures'', jnat (unat (wd_provider_failures w)))])))"

section \<open>Graded disposal\<close>

text \<open>What a run hears from its watchdog over its turns.\<close>

datatype (plugins only: code size) dog_event = Judged stall_verdict | ProviderFailed

fun dog_step :: "dog_event \<Rightarrow> watchdog \<Rightarrow> dog_disposal \<times> watchdog" where
  "dog_step (Judged v) w = on_stall v w"
| "dog_step ProviderFailed w = on_provider_failure w"

fun dog_hears :: "dog_event list \<Rightarrow> watchdog \<Rightarrow> dog_disposal list" where
  "dog_hears [] w = []"
| "dog_hears (e # es) w = (case dog_step e w of (d, w') \<Rightarrow> d # dog_hears es w')"

definition stalls :: "dog_event list \<Rightarrow> nat" where
  "stalls es = length (filter (\<lambda>e. case e of Judged (Stall _) \<Rightarrow> True | _ \<Rightarrow> False) es)"

definition failures :: "dog_event list \<Rightarrow> nat" where
  "failures es = length (filter (\<lambda>e. e = ProviderFailed) es)"

text \<open>The answer to one event, from how many of its kind came before.\<close>

fun graded :: "nat \<Rightarrow> nat \<Rightarrow> dog_event \<Rightarrow> dog_disposal \<Rightarrow> bool" where
  "graded s f (Judged StallOk) d = (d = Proceed)"
| "graded s f (Judged (Stall n)) d = (if s = 0 then \<exists>words. d = CorrectiveSteer words else d = FreezeRun FreezeStall)"
| "graded s f ProviderFailed d = (d = (if f < 2 then Proceed else FreezeRun ProviderExhausted))"

definition dog_knows :: "nat \<Rightarrow> nat \<Rightarrow> watchdog \<Rightarrow> bool" where
  "dog_knows s f w \<longleftrightarrow> (wd_corrections w = 0 \<longleftrightarrow> s = 0) \<and> unat (wd_provider_failures w) = min f u32_max"

lemma dog_step_graded:
  assumes "dog_knows s f w"
  shows "graded s f e (fst (dog_step e w)) \<and>
    dog_knows (s + stalls [e]) (f + failures [e]) (snd (dog_step e w))"
proof (cases e)
  case (Judged v)
  then show ?thesis
    using assms by (cases v) (auto simp: dog_knows_def stalls_def failures_def)
next
  case ProviderFailed
  define n where "n = saturating_add (wd_provider_failures w) 1"
  have n: "unat n = min (f + 1) u32_max"
    using assms by (simp add: n_def dog_knows_def unat_saturating_add u32_max_def)
  then have "n \<le> watchdog_provider_retries \<longleftrightarrow> f < 2"
    by (auto simp: word_le_nat_alt watchdog_provider_retries_def u32_max_def)
  then show ?thesis
    using ProviderFailed assms n
    by (simp add: dog_knows_def stalls_def failures_def on_provider_failure_def Let_def n_def [symmetric])
qed

lemma dog_hears_graded:
  "dog_knows s f w \<Longrightarrow> i < length es \<Longrightarrow>
   graded (s + stalls (take i es)) (f + failures (take i es)) (es ! i) (dog_hears es w ! i)"
proof (induction es arbitrary: s f w i)
  case (Cons e es)
  obtain d w' where st: "dog_step e w = (d, w')" by (cases "dog_step e w")
  note step = dog_step_graded [OF Cons.prems(1), of e, unfolded st fst_conv snd_conv]
  show ?case
  proof (cases i)
    case 0
    then show ?thesis using step st by (simp add: stalls_def failures_def)
  next
    case (Suc j)
    have "graded (s + stalls [e] + stalls (take j es)) (f + failures [e] + failures (take j es)) (es ! j) (dog_hears es w' ! j)"
      using Cons.IH [of "s + stalls [e]" "f + failures [e]" w' j] step Cons.prems(2) Suc by simp
    moreover have "s + stalls [e] + stalls (take j es) = s + stalls (take i (e # es))"
      "f + failures [e] + failures (take j es) = f + failures (take i (e # es))"
      using Suc by (simp_all add: stalls_def failures_def)
    ultimately show ?thesis using Suc st by (simp only: nth_Cons_Suc dog_hears.simps prod.case)
  qed
qed simp

definition fired_fields :: "watchdog \<Rightarrow> dog_disposal \<Rightarrow> (string \<times> json) list" where
  "fired_fields w d =
     (case d of
        CorrectiveSteer steer \<Rightarrow> [(''action'', jstr ''steer''), (''text'', jstr steer)]
      | FreezeRun reason \<Rightarrow> [(''action'', jstr ''freeze''), (''reason'', jstr (freeze_str reason))]
      | Proceed \<Rightarrow> []) @
     [(''corrections'', jnat (unat (wd_corrections w))),
      (''provider_failures'', jnat (unat (wd_provider_failures w)))]"

lemma fired_iff: "is_ok (fired_payload w d) \<longleftrightarrow> d \<noteq> Proceed"
proof (cases "d = Proceed")
  case False
  have "float_free (JObject (obj (fired_fields w d)))"
    by (rule obj_float_free) (auto simp: fired_fields_def split: dog_disposal.split)
  then obtain p where p: "payload_new (obj (fired_fields w d)) = Inr p"
    using payload_new_ok by blast
  have "fired_payload w d = payload_new (obj (fired_fields w d))"
    using False by (cases d) (blast | simp only: fired_payload_def fired_fields_def dog_disposal.case)+
  with p have "is_ok (fired_payload w d)" by (simp only: is_ok_simps)
  with False show ?thesis by simp
qed (simp add: fired_payload_def is_ok_def)
end
