(* ===== verification/Endpoint_Books.thy ===== *)
theory Endpoint_Books
  imports Price_Sheets Secrets Json_Objects
begin

text \<open>
  The book of attached endpoints and chosen models, \<open>src/crates/gateway/src/router.rs\<close>, rebuilt
  from the event stream, with the test for this machine of \<open>native.rs\<close>. How serde reads a dialect
  back from JSON is the parameter \<open>rd\<close>.
\<close>

section \<open>Endpoints\<close>

datatype (plugins only: code size) dialect_kind = AnthropicDialect | OpenAiDialect

definition dialect_str :: "dialect_kind \<Rightarrow> string" where
  "dialect_str d = (case d of AnthropicDialect \<Rightarrow> ''anthropic'' | OpenAiDialect \<Rightarrow> ''open_ai'')"

datatype (plugins only: code size) model_tag = MainTag | DigestTag

instantiation model_tag :: linorder
begin

definition less_eq_model_tag :: "model_tag \<Rightarrow> model_tag \<Rightarrow> bool" where
  "less_eq_model_tag a b \<longleftrightarrow> a = MainTag \<or> b = DigestTag"

definition less_model_tag :: "model_tag \<Rightarrow> model_tag \<Rightarrow> bool" where
  "less_model_tag a b \<longleftrightarrow> a = MainTag \<and> b = DigestTag"

instance
proof
  fix x y z :: model_tag
  show "x < y \<longleftrightarrow> x \<le> y \<and> \<not> y \<le> x" "x \<le> x" "x \<le> y \<or> y \<le> x"
    by (cases x; cases y; simp add: less_eq_model_tag_def less_model_tag_def)+
  show "x \<le> y \<Longrightarrow> y \<le> z \<Longrightarrow> x \<le> z" "x \<le> y \<Longrightarrow> y \<le> x \<Longrightarrow> x = y"
    by (cases x; cases y; cases z; simp add: less_eq_model_tag_def)+
qed

end

definition all_tags :: "model_tag list" where
  "all_tags = [MainTag, DigestTag]"

definition tag_str :: "model_tag \<Rightarrow> string" where
  "tag_str t = (case t of MainTag \<Rightarrow> ''main'' | DigestTag \<Rightarrow> ''digest'')"

datatype auth_spec = Bearer secret_ref | HeaderAuth string secret_ref | NoAuth

record attached_endpoint =
  ae_name :: string
  ae_base_url :: string
  ae_dialect :: dialect_kind
  ae_auth :: auth_spec
  ae_models :: "string list"

text \<open>Cutting at the first place a pattern stands; the second piece of a split at a pattern.\<close>

fun cut_at :: "string \<Rightarrow> string \<Rightarrow> (string \<times> string) option" where
  "cut_at p [] = None"
| "cut_at p (c # s) =
     (if starts_with p (c # s) then Some ([], drop (length p) (c # s))
      else map_option (\<lambda>(a, b). (c # a, b)) (cut_at p s))"

definition second_piece :: "string \<Rightarrow> string \<Rightarrow> string option" where
  "second_piece p s =
     (case cut_at p s of
        None \<Rightarrow> None
      | Some (_, rest) \<Rightarrow> Some (case cut_at p rest of None \<Rightarrow> rest | Some (a, _) \<Rightarrow> a))"

definition is_loopback :: "string \<Rightarrow> bool" where
  "is_loopback url =
     (case second_piece ''://'' url of
        None \<Rightarrow> False
      | Some rest \<Rightarrow>
          (let host_port = takeWhile (\<lambda>c. c \<noteq> CHR ''/'') rest;
               host = (case strip_prefix ''['' host_port of
                         Some h \<Rightarrow> takeWhile (\<lambda>c. c \<noteq> CHR '']'') h
                       | None \<Rightarrow> takeWhile (\<lambda>c. c \<noteq> CHR '':'') host_port)
           in host \<in> set [''localhost'', ''127.0.0.1'', ''::1'']))"

definition is_local :: "attached_endpoint \<Rightarrow> bool" where
  "is_local e = is_loopback (ae_base_url e)"

definition auth_reference :: "auth_spec \<Rightarrow> secret_ref option" where
  "auth_reference a = (case a of Bearer r \<Rightarrow> Some r | HeaderAuth _ r \<Rightarrow> Some r | NoAuth \<Rightarrow> None)"

definition has_credential :: "attached_endpoint \<Rightarrow> bool" where
  "has_credential e = (auth_reference (ae_auth e) \<noteq> None)"

definition chat_path :: "dialect_kind \<Rightarrow> string" where
  "chat_path d = (case d of AnthropicDialect \<Rightarrow> ''messages'' | _ \<Rightarrow> ''chat/completions'')"

definition join_url :: "string \<Rightarrow> string \<Rightarrow> string" where
  "join_url base p = rev (dropWhile (\<lambda>c. c = CHR ''/'') (rev base)) @ ''/'' @ p"

definition chat_url :: "attached_endpoint \<Rightarrow> string" where
  "chat_url e = join_url (ae_base_url e) (chat_path (ae_dialect e))"

definition models_url :: "attached_endpoint \<Rightarrow> string" where
  "models_url e = join_url (ae_base_url e) ''models''"

section \<open>Payloads\<close>

definition attached_fields :: "attached_endpoint \<Rightarrow> (string \<times> json) list" where
  "attached_fields e =
     [(''name'', jstr (ae_name e)), (''base_url'', jstr (ae_base_url e)),
      (''dialect'', jstr (dialect_str (ae_dialect e)))] @
     (case auth_reference (ae_auth e) of
        None \<Rightarrow> []
      | Some r \<Rightarrow> (''auth'', jstr (secret_ref_str r)) #
          (case ae_auth e of HeaderAuth name _ \<Rightarrow> [(''auth_header'', jstr name)] | _ \<Rightarrow> [])) @
     [(''models'', JArray (map jstr (ae_models e)))]"

definition attached_payload :: "attached_endpoint \<Rightarrow> (ax_error, payload) result" where
  "attached_payload e = payload_new (obj (attached_fields e))"

definition selected_fields :: "model_tag \<Rightarrow> string \<Rightarrow> model_entry \<Rightarrow> (string \<times> json) list" where
  "selected_fields tag endpoint e =
     [(''tag'', jstr (tag_str tag)), (''endpoint'', jstr endpoint), (''model'', jstr (me_id e)),
      (''context_tokens'', jnat (unat (me_context_tokens e))),
      (''max_output_tokens'', jnat (unat (me_max_output_tokens e))),
      (''input_price'', jnat (unat (usd_get (me_input_price e)))),
      (''output_price'', jnat (unat (usd_get (me_output_price e)))),
      (''cache_read_price'', jnat (unat (usd_get (me_cache_read_price e)))),
      (''cache_write_price'', jnat (unat (usd_get (me_cache_write_price e))))]"

definition selected_payload :: "model_tag \<Rightarrow> string \<Rightarrow> model_entry \<Rightarrow> (ax_error, payload) result" where
  "selected_payload tag endpoint e = payload_new (obj (selected_fields tag endpoint e))"

definition book_invalid :: "string \<Rightarrow> ax_error" where
  "book_invalid subj =
     with_recovery ''replay with the build that wrote this record'' (failure WireMismatch ''read an endpoint record'' subj)"

definition field_of :: "payload \<Rightarrow> string \<Rightarrow> json option" where
  "field_of p key = bt_get (payload_fields p) key"

definition book_text :: "payload \<Rightarrow> string \<Rightarrow> (ax_error, string) result" where
  "book_text p key =
     (case Option.bind (field_of p key) as_string of
        None \<Rightarrow> Inl (book_invalid (key @ '' is missing or not a string''))
      | Some s \<Rightarrow> Inr s)"

definition book_count :: "payload \<Rightarrow> string \<Rightarrow> (ax_error, u64) result" where
  "book_count p key =
     (case Option.bind (field_of p key) as_u64 of
        None \<Rightarrow> Inl (book_invalid (key @ '' is missing or not a count''))
      | Some n \<Rightarrow> Inr n)"

fun model_ids :: "json list \<Rightarrow> (ax_error, string list) result" where
  "model_ids [] = Inr []"
| "model_ids (v # vs) =
     (case as_string v of
        None \<Rightarrow> Inl (book_invalid ''a model id is not a string'')
      | Some s \<Rightarrow> bind_r (model_ids vs) (\<lambda>ids. Inr (s # ids)))"

type_synonym dialect_reader = "json \<Rightarrow> (string, dialect_kind) result"

definition read_auth :: "payload \<Rightarrow> (ax_error, auth_spec) result" where
  "read_auth p =
     (case Option.bind (field_of p ''auth'') as_string of
        None \<Rightarrow> Inr NoAuth
      | Some raw \<Rightarrow>
          bind_r (secret_ref_parse raw) (\<lambda>reference.
            case Option.bind (field_of p ''auth_header'') as_string of
              Some header \<Rightarrow> Inr (HeaderAuth header reference)
            | None \<Rightarrow> Inr (Bearer reference)))"

definition read_attached :: "dialect_reader \<Rightarrow> payload \<Rightarrow> (ax_error, attached_endpoint) result" where
  "read_attached rd p =
     (case field_of p ''dialect'' of
        None \<Rightarrow> Inl (book_invalid ''dialect is missing'')
      | Some v \<Rightarrow>
          (case rd v of
             Inl err \<Rightarrow> Inl (book_invalid (''dialect: '' @ err))
           | Inr dialect \<Rightarrow>
               bind_r (read_auth p) (\<lambda>auth.
               bind_r (case Option.bind (field_of p ''models'') as_array of
                         None \<Rightarrow> Inl (book_invalid ''models is missing or not an array'')
                       | Some vs \<Rightarrow> model_ids vs) (\<lambda>models.
               bind_r (book_text p ''name'') (\<lambda>name.
               bind_r (book_text p ''base_url'') (\<lambda>url.
                 Inr \<lparr>ae_name = name, ae_base_url = url, ae_dialect = dialect, ae_auth = auth, ae_models = models\<rparr>))))))"

record model_choice =
  mc_endpoint :: string
  mc_entry :: model_entry

definition read_choice :: "payload \<Rightarrow> (ax_error, model_tag \<times> model_choice) result" where
  "read_choice p =
     bind_r (book_text p ''tag'') (\<lambda>raw.
     case List.find (\<lambda>t. tag_str t = raw) all_tags of
       None \<Rightarrow> Inl (book_invalid (raw @ '' is not a tag this build knows''))
     | Some tag \<Rightarrow>
         bind_r (book_text p ''model'') (\<lambda>model.
         bind_r (book_count p ''context_tokens'') (\<lambda>context_tokens.
         bind_r (book_count p ''max_output_tokens'') (\<lambda>max_output.
         bind_r (book_count p ''input_price'') (\<lambda>input_price.
         bind_r (book_count p ''output_price'') (\<lambda>output_price.
         bind_r (book_count p ''cache_read_price'') (\<lambda>cache_read.
         bind_r (book_count p ''cache_write_price'') (\<lambda>cache_write.
         bind_r (book_text p ''endpoint'') (\<lambda>endpoint.
           Inr (tag, \<lparr>mc_endpoint = endpoint,
                      mc_entry = \<lparr>me_id = model, me_context_tokens = context_tokens,
                        me_max_output_tokens = max_output, me_input_price = UsdMicros input_price,
                        me_output_price = UsdMicros output_price, me_cache_read_price = UsdMicros cache_read,
                        me_cache_write_price = UsdMicros cache_write\<rparr>\<rparr>))))))))))"

section \<open>The book\<close>

record endpoint_book =
  eb_endpoints :: "(string, attached_endpoint) btree"
  eb_chosen :: "(model_tag, model_choice) btree"

definition book_new :: endpoint_book where
  "book_new = \<lparr>eb_endpoints = [], eb_chosen = []\<rparr>"

definition apply_payload :: "dialect_reader \<Rightarrow> event_kind \<Rightarrow> payload \<Rightarrow> endpoint_book \<Rightarrow> (ax_error, endpoint_book) result" where
  "apply_payload rd kind p b =
     (case kind of
        event_kind.EndpointAttached \<Rightarrow>
          bind_r (read_attached rd p) (\<lambda>e. Inr (b\<lparr>eb_endpoints := bt_insert (ae_name e) e (eb_endpoints b)\<rparr>))
      | event_kind.EndpointLost \<Rightarrow>
          bind_r (book_text p ''name'') (\<lambda>name.
            Inr (b\<lparr>eb_endpoints := bt_remove name (eb_endpoints b),
                   eb_chosen := filter (\<lambda>(_, choice). mc_endpoint choice \<noteq> name) (eb_chosen b)\<rparr>))
      | event_kind.ModelSelected \<Rightarrow>
          bind_r (read_choice p) (\<lambda>(tag, choice). Inr (b\<lparr>eb_chosen := bt_insert tag choice (eb_chosen b)\<rparr>))
      | _ \<Rightarrow> Inr b)"

fun book_of :: "dialect_reader \<Rightarrow> (event_kind \<times> payload) list \<Rightarrow> endpoint_book \<Rightarrow> (ax_error, endpoint_book) result" where
  "book_of rd [] b = Inr b"
| "book_of rd ((kind, p) # rest) b = bind_r (apply_payload rd kind p b) (book_of rd rest)"

definition select_model :: "endpoint_book \<Rightarrow> model_tag \<Rightarrow> building_policy \<Rightarrow> (ax_error, attached_endpoint \<times> model_entry) result" where
  "select_model b tag policy =
     (case bt_get (eb_chosen b) tag of
        None \<Rightarrow>
          Inl (with_recovery ''attach a provider on the settings page and pick a model for this tag''
                 (failure ConfigInvalid (''choose the '' @ tag_str tag @ '' model'') ''no model is chosen for this tag''))
      | Some choice \<Rightarrow>
          (case bt_get (eb_endpoints b) (mc_endpoint choice) of
             None \<Rightarrow>
               Inl (with_recovery ''pick a model from an attached endpoint''
                      (failure ConfigInvalid (''choose the '' @ tag_str tag @ '' model'')
                         (''the endpoint '' @ mc_endpoint choice @ '' is no longer attached'')))
           | Some e \<Rightarrow>
               if confidential policy \<and> \<not> is_local e
               then Inl (with_recovery ''attach a loopback inference server and pick a model from it''
                      (failure GateDenied (''choose the '' @ tag_str tag @ '' model'')
                         (''this building is confidential and '' @ ae_base_url e @ '' is not on this machine'')))
               else Inr (e, mc_entry choice)))"

definition book_is_empty :: "endpoint_book \<Rightarrow> bool" where
  "book_is_empty b \<longleftrightarrow> eb_endpoints b = [] \<and> eb_chosen b = []"

section \<open>What a record says and what is read from it\<close>

definition reads_dialects :: "dialect_reader \<Rightarrow> bool" where
  "reads_dialects rd \<longleftrightarrow> (\<forall>d. rd (jstr (dialect_str d)) = Inr d)"

definition auth_ok :: "auth_spec \<Rightarrow> bool" where
  "auth_ok a \<longleftrightarrow> (case auth_reference a of None \<Rightarrow> True | Some r \<Rightarrow> secret_ref_ok r)"

lemma model_ids_jstr: "model_ids (map jstr ids) = Inr ids"
  by (induction ids) simp_all

lemma tag_of_str: "List.find (\<lambda>t. tag_str t = tag_str tag) all_tags = Some tag"
  by (cases tag) (simp_all add: all_tags_def tag_str_def)

lemma attached_reads_back:
  assumes "reads_dialects rd" "auth_ok (ae_auth e)" "attached_payload e = Inr p"
  shows "read_attached rd p = Inr e"
proof -
  have p: "payload_fields p = obj (attached_fields e)"
    using assms(3) unfolding attached_payload_def payload_new_ok by simp
  have auth: "read_auth p = Inr (ae_auth e)"
    using assms(2) by (cases "ae_auth e")
      (simp_all add: read_auth_def field_of_def p obj_get attached_fields_def auth_reference_def auth_ok_def
        secret_ref_parse_iff [THEN iffD2])
  have fields: "field_of p ''dialect'' = Some (jstr (dialect_str (ae_dialect e)))"
      "field_of p ''models'' = Some (JArray (map jstr (ae_models e)))"
      "field_of p ''name'' = Some (jstr (ae_name e))" "field_of p ''base_url'' = Some (jstr (ae_base_url e))"
    by (cases "ae_auth e"; simp add: field_of_def p obj_get attached_fields_def auth_reference_def)+
  show ?thesis
    using assms(1) by (simp add: read_attached_def fields auth book_text_def model_ids_jstr reads_dialects_def)
qed

lemma choice_reads_back:
  assumes "selected_payload tag endpoint entry = Inr p"
  shows "read_choice p = Inr (tag, \<lparr>mc_endpoint = endpoint, mc_entry = entry\<rparr>)"
proof -
  have p: "payload_fields p = obj (selected_fields tag endpoint entry)"
    using assms unfolding selected_payload_def payload_new_ok by simp
  show ?thesis
    by (simp add: read_choice_def book_text_def book_count_def field_of_def p obj_get selected_fields_def tag_of_str)
qed

lemma payloads_form: "is_ok (attached_payload e)" "is_ok (selected_payload tag endpoint entry)"
proof -
  have "\<forall>kv \<in> set (attached_fields e). float_free (snd kv)"
    by (cases "ae_auth e") (simp_all add: attached_fields_def auth_reference_def)
  then show "is_ok (attached_payload e)"
    unfolding attached_payload_def is_ok_iff payload_new_ok using obj_float_free by blast
  have "\<forall>kv \<in> set (selected_fields tag endpoint entry). float_free (snd kv)"
    by (simp add: selected_fields_def)
  then show "is_ok (selected_payload tag endpoint entry)"
    unfolding selected_payload_def is_ok_iff payload_new_ok using obj_float_free by blast
qed

section \<open>What the person did, and what the book answers\<close>

datatype book_fact =
    FactAttached attached_endpoint
  | FactLost string
  | FactSelected model_tag string model_entry
  | FactOther

text \<open>
  The record a fact is written as; the writer of a lost endpoint is elsewhere, and all the book
  asks of its record is the name.
\<close>

fun written_as :: "book_fact \<Rightarrow> event_kind \<times> payload \<Rightarrow> bool" where
  "written_as (FactAttached e) (k, p) \<longleftrightarrow>
     k = event_kind.EndpointAttached \<and> attached_payload e = Inr p \<and> auth_ok (ae_auth e)"
| "written_as (FactLost name) (k, p) \<longleftrightarrow>
     k = event_kind.EndpointLost \<and> field_of p ''name'' = Some (jstr name)"
| "written_as (FactSelected tag name entry) (k, p) \<longleftrightarrow>
     k = event_kind.ModelSelected \<and> selected_payload tag name entry = Inr p"
| "written_as FactOther (k, p) \<longleftrightarrow>
     k \<notin> {event_kind.EndpointAttached, event_kind.EndpointLost, event_kind.ModelSelected}"

fun settles_name :: "string \<Rightarrow> book_fact \<Rightarrow> bool" where
  "settles_name name (FactAttached e) \<longleftrightarrow> ae_name e = name"
| "settles_name name (FactLost lost) \<longleftrightarrow> lost = name"
| "settles_name name _ \<longleftrightarrow> False"

fun settles_tag :: "model_tag \<Rightarrow> string \<Rightarrow> book_fact \<Rightarrow> bool" where
  "settles_tag tag name (FactSelected t _ _) \<longleftrightarrow> t = tag"
| "settles_tag tag name (FactLost lost) \<longleftrightarrow> lost = name"
| "settles_tag tag name _ \<longleftrightarrow> False"

text \<open>The book after some facts: its endpoints are those whose attachment stands, its choices those that stand.\<close>

definition book_holds :: "endpoint_book \<Rightarrow> book_fact list \<Rightarrow> bool" where
  "book_holds b facts \<longleftrightarrow>
     bt_ok (eb_endpoints b) \<and> bt_ok (eb_chosen b) \<and>
     (\<forall>name e. bt_get (eb_endpoints b) name = Some e \<longleftrightarrow>
        ae_name e = name \<and> stands (FactAttached e) (settles_name name) facts) \<and>
     (\<forall>tag choice. bt_get (eb_chosen b) tag = Some choice \<longleftrightarrow>
        stands (FactSelected tag (mc_endpoint choice) (mc_entry choice)) (settles_tag tag (mc_endpoint choice)) facts)"

lemma book_of_snoc: "book_of rd (rs @ [(k, p)]) b = bind_r (book_of rd rs b) (apply_payload rd k p)"
  by (induction rd rs b rule: book_of.induct) (auto simp: bind_r_def split: sum.split)

lemma book_of_append: "book_of rd (rs @ [r]) b = bind_r (book_of rd rs b) (apply_payload rd (fst r) (snd r))"
  using book_of_snoc by (cases r) simp

lemma bt_ok_filter: "bt_ok m \<Longrightarrow> bt_ok (filter q m)"
  unfolding bt_ok_def bt_keys_def using sorted_wrt_filter by (induction m) auto

lemma bt_get_filter:
  assumes "bt_ok m"
  shows "bt_get (filter (\<lambda>(_, v). q v) m) k = Some v \<longleftrightarrow> bt_get m k = Some v \<and> q v"
  using bt_get_mem [OF assms] bt_get_mem [OF bt_ok_filter [OF assms]] by (metis (no_types, lifting) case_prod_conv mem_Collect_eq set_filter)

lemma apply_holds:
  assumes rd: "reads_dialects rd" and fact: "written_as f (k, p)" and b: "book_holds b facts"
  shows "\<exists>c. apply_payload rd k p b = Inr c \<and> book_holds c (facts @ [f])"
proof (cases f)
  case (FactAttached e)
  then have "apply_payload rd k p b = Inr (b\<lparr>eb_endpoints := bt_insert (ae_name e) e (eb_endpoints b)\<rparr>)"
    using fact attached_reads_back [OF rd] by (auto simp: apply_payload_def)
  then show ?thesis
    using b by (auto simp: FactAttached book_holds_def bt_get_insert bt_ok_insert)
next
  case (FactLost name)
  let ?c = "b\<lparr>eb_endpoints := bt_remove name (eb_endpoints b),
    eb_chosen := filter (\<lambda>(_, choice). mc_endpoint choice \<noteq> name) (eb_chosen b)\<rparr>"
  have "apply_payload rd k p b = Inr ?c"
    using fact FactLost by (simp add: apply_payload_def book_text_def)
  moreover have "book_holds ?c (facts @ [f])"
    using b by (auto simp: FactLost book_holds_def bt_get_remove bt_ok_remove bt_get_filter bt_ok_filter)
  ultimately show ?thesis by blast
next
  case (FactSelected tag name entry)
  then have "apply_payload rd k p b =
      Inr (b\<lparr>eb_chosen := bt_insert tag \<lparr>mc_endpoint = name, mc_entry = entry\<rparr> (eb_chosen b)\<rparr>)"
    using fact choice_reads_back by (auto simp: apply_payload_def)
  then show ?thesis
    using b by (auto simp: FactSelected book_holds_def bt_get_insert bt_ok_insert)
next
  case FactOther
  then have "apply_payload rd k p b = Inr b"
    using fact by (simp add: apply_payload_def split: event_kind.split)
  then show ?thesis using b by (auto simp: FactOther book_holds_def)
qed

lemma book_rebuilds:
  assumes rd: "reads_dialects rd"
  shows "list_all2 written_as facts records \<Longrightarrow> \<exists>b. book_of rd records book_new = Inr b \<and> book_holds b facts"
proof (induction facts arbitrary: records rule: rev_induct)
  case Nil
  then show ?case by (simp add: book_holds_def book_new_def bt_get_def)
next
  case (snoc f facts)
  then obtain rs r where r: "records = rs @ [r]" "list_all2 written_as facts rs" "written_as f r"
    by (auto simp: list_all2_append1 list_all2_Cons1)
  then obtain b where "book_of rd rs book_new = Inr b" "book_holds b facts" using snoc.IH by blast
  with r show ?case
    using apply_holds [OF rd, of f "fst r" "snd r" b facts] by (simp add: book_of_append)
qed

lemma select_holds:
  assumes "book_holds b facts"
  shows "select_model b tag policy = Inr (e, entry) \<longleftrightarrow>
    stands (FactSelected tag (ae_name e) entry) (settles_tag tag (ae_name e)) facts \<and>
    stands (FactAttached e) (settles_name (ae_name e)) facts \<and>
    (confidential policy \<longrightarrow> is_local e)"
proof -
  have ends: "bt_get (eb_endpoints b) name = Some e \<longleftrightarrow>
      ae_name e = name \<and> stands (FactAttached e) (settles_name name) facts" for name
    using assms by (simp add: book_holds_def)
  have chosen: "bt_get (eb_chosen b) tag = Some \<lparr>mc_endpoint = ae_name e, mc_entry = entry\<rparr> \<longleftrightarrow>
      stands (FactSelected tag (ae_name e) entry) (settles_tag tag (ae_name e)) facts"
    using assms by (simp add: book_holds_def)
  have "select_model b tag policy = Inr (e, entry) \<longleftrightarrow>
      (\<exists>choice. bt_get (eb_chosen b) tag = Some choice \<and> mc_entry choice = entry \<and>
        bt_get (eb_endpoints b) (mc_endpoint choice) = Some e \<and> (confidential policy \<longrightarrow> is_local e))"
    by (auto simp: select_model_def split: option.splits)
  also have "\<dots> \<longleftrightarrow> bt_get (eb_chosen b) tag = Some \<lparr>mc_endpoint = ae_name e, mc_entry = entry\<rparr> \<and>
      bt_get (eb_endpoints b) (ae_name e) = Some e \<and> (confidential policy \<longrightarrow> is_local e)"
  proof -
    have "choice = \<lparr>mc_endpoint = ae_name e, mc_entry = entry\<rparr> \<and> bt_get (eb_endpoints b) (ae_name e) = Some e"
      if "mc_entry choice = entry" "bt_get (eb_endpoints b) (mc_endpoint choice) = Some e" for choice
      using that ends [of "mc_endpoint choice"] by simp
    then show ?thesis by fastforce
  qed
  finally show ?thesis using chosen ends by simp
qed

section \<open>This machine\<close>

text \<open>
  Where no user part stands before it, the host of a URL is what the test reads: up to the
  colon of a port, the slash of a path or the end.
\<close>

lemma cut_at_past: "CHR '':'' \<notin> set host \<Longrightarrow>
  cut_at ''://'' (host @ rest) = map_option (\<lambda>(a, b). (host @ a, b)) (cut_at ''://'' rest)"
proof (induction host)
  case (Cons c host)
  then have "\<not> starts_with ''://'' (c # host @ rest)" by (auto simp: starts_with_iff)
  then show ?case using Cons by (simp add: option.map_comp comp_def case_prod_beta)
qed (simp add: case_prod_beta option.map_id)

lemma cut_at_ends: "cut_at p s = Some (a, b) \<Longrightarrow> s = a @ p @ b"
proof (induction p s arbitrary: a rule: cut_at.induct)
  case (2 p c s)
  then show ?case by (auto simp: starts_with_def split: if_splits) (metis append_take_drop_id)
qed simp

lemma second_piece_host:
  assumes "CHR '':'' \<notin> set scheme" "CHR '':'' \<notin> set host"
  shows "\<exists>more. second_piece ''://'' (scheme @ ''://'' @ host @ rest) = Some (host @ more) \<and> (more = rest \<or> (\<exists>b. rest = more @ ''://'' @ b))"
proof -
  have start: "cut_at ''://'' (''://'' @ s) = Some ([], s)" for s by (simp add: starts_with_def)
  have "cut_at ''://'' (scheme @ ''://'' @ host @ rest) = Some (scheme, host @ rest)"
    unfolding cut_at_past [OF assms(1)] start by simp
  then show ?thesis
    using cut_at_ends [of "''://''" rest]
    by (auto simp: second_piece_def cut_at_past [OF assms(2)] split: option.split)
qed

lemma loopback_reads_host:
  assumes "CHR '':'' \<notin> set scheme" "host \<noteq> []" "set host \<inter> set '':/['' = {}"
    and "rest = [] \<or> hd rest \<in> set '':/''"
  shows "is_loopback (scheme @ ''://'' @ host @ rest) \<longleftrightarrow> host \<in> {''localhost'', ''127.0.0.1''}"
proof -
  obtain more where piece: "second_piece ''://'' (scheme @ ''://'' @ host @ rest) = Some (host @ more)"
    and more: "more = rest \<or> (\<exists>b. rest = more @ ''://'' @ b)"
    using second_piece_host [OF assms(1), of host rest] assms(3) by auto
  have ends: "more = [] \<or> hd more \<in> set '':/''" using more assms(4) by (cases more) auto
  have "takeWhile (\<lambda>c. c \<noteq> CHR ''/'') (host @ more) = host @ takeWhile (\<lambda>c. c \<noteq> CHR ''/'') more"
    using assms(3) by (subst takeWhile_append2) auto
  moreover have "takeWhile (\<lambda>c. c \<noteq> CHR '':'') (host @ takeWhile (\<lambda>c. c \<noteq> CHR ''/'') more) = host"
  proof -
    have "takeWhile (\<lambda>c. c \<noteq> CHR '':'') (takeWhile (\<lambda>c. c \<noteq> CHR ''/'') more) = []"
      using ends by (cases more) auto
    then show ?thesis using assms(3) by (subst takeWhile_append2) auto
  qed
  moreover have "strip_prefix ''['' (host @ xs) = None" for xs
    using assms(2,3) by (cases host) (auto simp: strip_prefix_None_iff starts_with_iff)
  moreover have "host \<noteq> ''::1''" using assms(3) by auto
  ultimately show ?thesis unfolding is_loopback_def piece by (simp add: Let_def)
qed

text \<open>
  With a user part before it, the test reads the user part for the host: an address whose user
  name is \<^verbatim>\<open>127.0.0.1\<close> counts as this machine, whatever machine stands after the at sign.
\<close>

lemma user_part_passes_for_host: "is_loopback (''http://127.0.0.1:x@'' @ host @ path)"
proof -
  have "is_loopback (''http'' @ ''://'' @ ''127.0.0.1'' @ ('':x@'' @ host @ path))"
    by (subst loopback_reads_host) simp_all
  then show ?thesis by simp
qed

text \<open>So a confidential building is given the machine after the at sign.\<close>

lemma confidential_leaves_the_machine:
  assumes "book_holds b facts" "ae_base_url e = ''http://127.0.0.1:x@'' @ host @ path"
    and "stands (FactSelected tag (ae_name e) entry) (settles_tag tag (ae_name e)) facts"
    and "stands (FactAttached e) (settles_name (ae_name e)) facts"
  shows "select_model b tag \<lparr>confidential = True\<rparr> = Inr (e, entry)"
  using assms user_part_passes_for_host by (simp add: select_holds is_local_def)

end
