(* ===== verification/Dialects.thy ===== *)
theory Dialects
  imports Chats Endpoint_Books
begin

text \<open>
  The provider wires: what both dialects read JSON with (\<open>src/crates/gateway/src/mismatch.rs\<close>), the
  Anthropic wire (\<open>anthropic.rs\<close>), the OpenAI wire (\<open>openai.rs\<close>) and the choice between them
  (\<open>dialect.rs\<close>).
\<close>

section \<open>Reading a provider's JSON\<close>

text \<open>
  The text of serde's own
  refusals is the parameter \<open>said\<close>, parsing a JSON text the parameter \<open>jread\<close>, printing one
  the parameter \<open>jprint\<close>.
\<close>

type_synonym serde_refusal = "json \<Rightarrow> string"
type_synonym json_reader = "string \<Rightarrow> (string, json) result"
type_synonym json_printer = "json \<Rightarrow> string"

definition mismatch :: "string \<Rightarrow> string \<Rightarrow> ax_error" where
  "mismatch path detail =
     with_recovery
       (''the provider answered in a shape this dialect does not know; check that the '' @
        ''endpoint's dialect matches the provider and that its base url is the one its '' @
        ''documentation prints'')
       (failure WireMismatch ''translate wire'' (path @ '': '' @ detail))"

definition stream_cut :: "string \<Rightarrow> ax_error" where
  "stream_cut detail =
     mark_retriable (with_recovery ''dispatch again; the reply that arrived was not a whole one''
       (failure Provider ''read a streamed answer'' detail))"

definition require :: "json \<Rightarrow> string \<Rightarrow> string \<Rightarrow> (ax_error, json) result" where
  "require wire path key =
     (case json_get key wire of None \<Rightarrow> Inl (mismatch (path @ ''.'' @ key) ''missing'') | Some v \<Rightarrow> Inr v)"

definition wire_str :: "json \<Rightarrow> string \<Rightarrow> (ax_error, string) result" where
  "wire_str v path = (case as_string v of None \<Rightarrow> Inl (mismatch path ''expected string'') | Some s \<Rightarrow> Inr s)"

definition wire_u64 :: "json \<Rightarrow> string \<Rightarrow> (ax_error, u64) result" where
  "wire_u64 v path = (case as_u64 v of None \<Rightarrow> Inl (mismatch path ''expected unsigned integer'') | Some n \<Rightarrow> Inr n)"

definition tokens_or_zero :: "json \<Rightarrow> string \<Rightarrow> string \<Rightarrow> (ax_error, tokens) result" where
  "tokens_or_zero usage key path =
     (case json_get key usage of
        None \<Rightarrow> Inr (Tokens 0)
      | Some JNull \<Rightarrow> Inr (Tokens 0)
      | Some v \<Rightarrow> bind_r (wire_u64 v (path @ ''.'' @ key)) (\<lambda>n. Inr (Tokens n)))"

definition payload_from :: "serde_refusal \<Rightarrow> json \<Rightarrow> string \<Rightarrow> (ax_error, payload) result" where
  "payload_from said v path =
     (if value_has_float v then Inl (mismatch path ''float payloads are banned city-wide'')
      else case v of JObject m \<Rightarrow> Inr (Payload m) | _ \<Rightarrow> Inl (mismatch path (said v)))"

text \<open>Collecting results in order, up to the first error.\<close>

fun collect_r :: "('e, 'a) result list \<Rightarrow> ('e, 'a list) result" where
  "collect_r [] = Inr []"
| "collect_r (r # rs) = bind_r r (\<lambda>x. bind_r (collect_r rs) (\<lambda>xs. Inr (x # xs)))"

lemma collect_Inr [simp]: "collect_r (map (\<lambda>x. Inr (f x)) xs) = Inr (map f xs)"
  by (induction xs) simp_all

lemma require_obj [simp]:
  "require (JObject (obj kvs)) path key =
     (case map_of (rev kvs) key of None \<Rightarrow> Inl (mismatch (path @ ''.'' @ key) ''missing'') | Some v \<Rightarrow> Inr v)"
  by (simp add: require_def)

lemma wire_str_jstr [simp]: "wire_str (jstr s) path = Inr s"
  by (simp add: wire_str_def)

lemma tokens_read [simp]:
  "json_get key usage = Some (JNumber (PosInt n)) \<Longrightarrow> tokens_or_zero usage key path = Inr (Tokens n)"
  by (simp add: tokens_or_zero_def wire_u64_def as_u64_def)

lemma payload_reads_back [simp]: "payload_ok p \<Longrightarrow> payload_from said (payload_json p) path = Inr p"
  by (cases p) (simp add: payload_from_def payload_json_def payload_ok_def has_float_iff)

text \<open>Indexes below a count, each once, in order.\<close>

lemma index_range:
  assumes "n \<le> u64_max" "sorted_wrt (<) ks" "set ks = (\<lambda>i. of_nat i :: u64) ` {..<n}"
  shows "ks = map of_nat [0..<n]"
proof (rule strict_sorted_equal)
  have mono: "(of_nat i :: u64) < of_nat j" if "i < j" "j < n" for i j
    using that assms(1) unat_len [of i] unat_len [of j] by (simp add: word_less_nat_alt)
  show "sorted_wrt (<) (map of_nat [0..<n] :: u64 list)"
    using mono by (simp add: sorted_wrt_map sorted_wrt_iff_nth_less)
qed (use assms in \<open>auto simp: atLeast0LessThan\<close>)

text \<open>Results read at their places.\<close>

lemma collect_enumerate:
  "\<forall>i < length us. f (n + i) (vs ! i) = Inr (us ! i) \<Longrightarrow> length vs = length us \<Longrightarrow>
   collect_r (map (\<lambda>(i, v). f i v) (enumerate n vs)) = Inr us"
proof (induction us arbitrary: n vs)
  case (Cons u us)
  then obtain v ws where vs: "vs = v # ws" "length ws = length us" by (cases vs) auto
  have "f n v = Inr u" using Cons.prems(1) vs by fastforce
  moreover have "f (Suc n + i) (ws ! i) = Inr (us ! i)" if "i < length us" for i
    using Cons.prems(1)[rule_format, of "Suc i"] that vs by simp
  ultimately show ?case using Cons.IH [where n = "Suc n" and vs = ws] vs by simp
qed simp

chapter \<open>The Anthropic wire\<close>

text \<open>
  The Anthropic Messages wire, \<open>src/crates/gateway/src/anthropic.rs\<close>: requests and answers, and
  the assembling of an answer from the frames of a stream.
\<close>

section \<open>Blocks\<close>

definition role_str :: "role \<Rightarrow> string" where
  "role_str r = (case r of User \<Rightarrow> ''user'' | Assistant \<Rightarrow> ''assistant'')"

definition block_wire :: "content_block \<Rightarrow> json" where
  "block_wire b = JObject (obj (case b of
       TextBlock t \<Rightarrow> [(''type'', jstr ''text''), (''text'', jstr t)]
     | Thinking t s \<Rightarrow> [(''type'', jstr ''thinking''), (''thinking'', jstr t), (''signature'', jstr s)]
     | RedactedThinking d \<Rightarrow> [(''type'', jstr ''redacted_thinking''), (''data'', jstr d)]
     | ToolUse i n p \<Rightarrow>
         [(''type'', jstr ''tool_use''), (''id'', jstr i), (''name'', jstr (tool_str n)), (''input'', payload_json p)]
     | ToolResultBlock i c e \<Rightarrow>
         [(''type'', jstr ''tool_result''), (''tool_use_id'', jstr i), (''content'', jstr c), (''is_error'', JBool e)]))"

definition block_from :: "serde_refusal \<Rightarrow> json \<Rightarrow> string \<Rightarrow> (ax_error, content_block) result" where
  "block_from said v path =
     bind_r (bind_r (require v path ''type'') (\<lambda>k. wire_str k (path @ ''.type''))) (\<lambda>kind.
     let field = (\<lambda>key. bind_r (require v path key) (\<lambda>x. wire_str x (path @ ''.'' @ key))) in
     if kind = ''text'' then bind_r (field ''text'') (\<lambda>t. Inr (TextBlock t))
     else if kind = ''thinking'' then
       bind_r (field ''thinking'') (\<lambda>t. bind_r (field ''signature'') (\<lambda>s. Inr (Thinking t s)))
     else if kind = ''redacted_thinking'' then bind_r (field ''data'') (\<lambda>d. Inr (RedactedThinking d))
     else if kind = ''tool_use'' then
       bind_r (field ''name'') (\<lambda>raw.
       bind_r (case tool_name_parse raw of
                 Inl _ \<Rightarrow> Inl (mismatch (path @ ''.name'') ''not a tool name'')
               | Inr n \<Rightarrow> Inr n) (\<lambda>name.
       bind_r (field ''id'') (\<lambda>i.
       bind_r (bind_r (require v path ''input'') (\<lambda>x. payload_from said x (path @ ''.input''))) (\<lambda>p.
         Inr (ToolUse i name p)))))
     else if kind = ''tool_result'' then
       bind_r (field ''tool_use_id'') (\<lambda>i.
       bind_r (field ''content'') (\<lambda>c.
         Inr (ToolResultBlock i c (unwrap_or False (Option.bind (json_get ''is_error'' v) as_bool)))))
     else Inl (mismatch (path @ ''.type'') kind))"

section \<open>Requests\<close>

definition system_wire :: "system_block \<Rightarrow> json" where
  "system_wire b = JObject (obj (
     [(''type'', jstr ''text''), (''text'', jstr (sys_text b))] @
     (if sys_cache b then [(''cache_control'', JObject (obj [(''type'', jstr ''ephemeral'')]))] else [])))"

definition message_wire :: "chat_message \<Rightarrow> json" where
  "message_wire m = JObject (obj
     [(''role'', jstr (role_str (msg_role m))), (''content'', JArray (map block_wire (msg_content m)))])"

definition effort_fields :: "effort option \<Rightarrow> (string \<times> json) list" where
  "effort_fields e = (case e of
       None \<Rightarrow> []
     | Some NoEffort \<Rightarrow> [(''thinking'', JObject (obj [(''type'', jstr ''disabled'')]))]
     | Some LowEffort \<Rightarrow> [(''effort'', jstr ''low'')]
     | Some MediumEffort \<Rightarrow> [(''effort'', jstr ''medium'')]
     | Some HighEffort \<Rightarrow> [(''effort'', jstr ''high'')]
     | Some XHighEffort \<Rightarrow> [(''effort'', jstr ''xhigh'')]
     | Some MaxEffort \<Rightarrow> [(''effort'', jstr ''max'')])"

definition tool_wire :: "tool_def \<Rightarrow> json" where
  "tool_wire t = JObject (obj
     [(''name'', jstr (tool_str (def_name t))), (''description'', jstr (def_description t)),
      (''input_schema'', payload_json (def_input_schema t))])"

definition anthropic_request :: "chat_request \<Rightarrow> json" where
  "anthropic_request req = JObject (obj (
     [(''model'', jstr (chat_model req)), (''max_tokens'', JNumber (PosInt (chat_max_tokens req)))] @
     (if chat_system req \<noteq> [] then [(''system'', JArray (map system_wire (chat_system req)))] else []) @
     [(''messages'', JArray (map message_wire (chat_messages req)))] @
     effort_fields (chat_effort req) @
     (if chat_tools req \<noteq> [] then [(''tools'', JArray (map tool_wire (chat_tools req)))] else [])))"

section \<open>Answers\<close>

definition stop_from :: "string \<Rightarrow> string \<Rightarrow> (ax_error, stop_reason) result" where
  "stop_from raw path =
     (if raw = ''end_turn'' then Inr EndTurn
      else if raw = ''tool_use'' then Inr ToolUseStop
      else if raw = ''max_tokens'' then Inr MaxTokens
      else Inl (mismatch path raw))"

definition anthropic_usage :: "json \<Rightarrow> (ax_error, model_usage) result" where
  "anthropic_usage u =
     bind_r (tokens_or_zero u ''input_tokens'' ''response.usage'') (\<lambda>i.
     bind_r (tokens_or_zero u ''output_tokens'' ''response.usage'') (\<lambda>out.
     bind_r (tokens_or_zero u ''cache_read_input_tokens'' ''response.usage'') (\<lambda>r.
     bind_r (tokens_or_zero u ''cache_creation_input_tokens'' ''response.usage'') (\<lambda>w.
       Inr \<lparr>input_tokens = i, output_tokens = out, cache_read_tokens = r, cache_write_tokens = w\<rparr>))))"

definition content_path :: "nat \<Rightarrow> string" where
  "content_path i = ''response.content['' @ dec_of i @ '']''"

definition anthropic_response_from :: "serde_refusal \<Rightarrow> json \<Rightarrow> (ax_error, chat_response) result" where
  "anthropic_response_from said wire =
     bind_r (require wire ''response'' ''content'') (\<lambda>v.
     bind_r (case as_array v of None \<Rightarrow> Inl (mismatch ''response.content'' ''expected array'') | Some items \<Rightarrow> Inr items) (\<lambda>items.
     bind_r (collect_r (map (\<lambda>(i, item). block_from said item (content_path i)) (enumerate 0 items))) (\<lambda>content.
     bind_r (require wire ''response'' ''stop_reason'') (\<lambda>s.
     bind_r (wire_str s ''response.stop_reason'') (\<lambda>raw.
     bind_r (stop_from raw ''response.stop_reason'') (\<lambda>stop.
     bind_r (require wire ''response'' ''usage'') (\<lambda>u.
     bind_r (anthropic_usage u) (\<lambda>usage.
       Inr \<lparr>resp_content = content, resp_stop = stop, resp_usage = usage\<rparr>))))))))"

definition anthropic_usage_wire :: "model_usage \<Rightarrow> json" where
  "anthropic_usage_wire u = JObject (obj
     [(''input_tokens'', JNumber (PosInt (tokens_get (input_tokens u)))),
      (''output_tokens'', JNumber (PosInt (tokens_get (output_tokens u)))),
      (''cache_read_input_tokens'', JNumber (PosInt (tokens_get (cache_read_tokens u)))),
      (''cache_creation_input_tokens'', JNumber (PosInt (tokens_get (cache_write_tokens u))))])"

definition anthropic_response_wire :: "chat_response \<Rightarrow> json" where
  "anthropic_response_wire resp = JObject (obj
     [(''content'', JArray (map block_wire (resp_content resp))),
      (''stop_reason'', jstr (stop_str (resp_stop resp))),
      (''usage'', anthropic_usage_wire (resp_usage resp))])"

section \<open>Streams\<close>

definition anthropic_increment :: "(string \<times> json) list \<Rightarrow> string option" where
  "anthropic_increment m =
     Option.bind (bt_get m ''delta'') (\<lambda>delta.
     case delta of
       JObject d \<Rightarrow>
         Option.bind (Option.bind (bt_get d ''type'') as_string) (\<lambda>kind.
           if kind = ''text_delta'' then Option.bind (bt_get d ''text'') as_string else None)
     | _ \<Rightarrow> None)"

record settling =
  st_blocks :: "(u64, json) btree"
  st_text :: "(u64, string) btree"
  st_json :: "(u64, string) btree"
  st_usage :: json
  st_stop :: "string option"

definition settling_new :: settling where
  "settling_new = \<lparr>st_blocks = [], st_text = [], st_json = [], st_usage = JObject [], st_stop = None\<rparr>"

definition push_entry :: "u64 \<Rightarrow> string option \<Rightarrow> (u64, string) btree \<Rightarrow> (u64, string) btree" where
  "push_entry k said m = (case said of None \<Rightarrow> m | Some s \<Rightarrow> bt_insert k (unwrap_or [] (bt_get m k) @ s) m)"

definition anthropic_frame :: "json \<Rightarrow> settling \<Rightarrow> settling" where
  "anthropic_frame frame st =
     (case frame of
        JObject m \<Rightarrow>
          (let k = unwrap_or 0 (Option.bind (bt_get m ''index'') as_u64) in
           case Option.bind (bt_get m ''type'') as_string of
             None \<Rightarrow> st
           | Some kind \<Rightarrow>
               if kind = ''message_start'' then
                 (case Option.bind (bt_get m ''message'') (json_get ''usage'') of
                    None \<Rightarrow> st | Some held \<Rightarrow> st\<lparr>st_usage := held\<rparr>)
               else if kind = ''content_block_start'' then
                 (case bt_get m ''content_block'' of
                    None \<Rightarrow> st | Some b \<Rightarrow> st\<lparr>st_blocks := bt_insert k b (st_blocks st)\<rparr>)
               else if kind = ''content_block_delta'' then
                 (case bt_get m ''delta'' of
                    Some (JObject d) \<Rightarrow>
                      st\<lparr>st_text :=
                           push_entry k (Option.bind (bt_get d ''thinking'') as_string)
                             (push_entry k (Option.bind (bt_get d ''text'') as_string) (st_text st)),
                         st_json := push_entry k (Option.bind (bt_get d ''partial_json'') as_string) (st_json st)\<rparr>
                  | _ \<Rightarrow> st)
               else if kind = ''message_delta'' then
                 (let st = (case Option.bind (bt_get m ''delta'') (json_get ''stop_reason'') of
                              None \<Rightarrow> st | Some held \<Rightarrow> st\<lparr>st_stop := as_string held\<rparr>)
                  in case (bt_get m ''usage'', st_usage st) of
                       (Some (JObject held), JObject counted) \<Rightarrow>
                         st\<lparr>st_usage := JObject (fold (\<lambda>(name, v). bt_insert name v) held counted)\<rparr>
                     | _ \<Rightarrow> st)
               else st)
      | _ \<Rightarrow> st)"

definition fill_block :: "json_reader \<Rightarrow> settling \<Rightarrow> u64 \<times> json \<Rightarrow> json" where
  "fill_block jread st e =
     (case snd e of
        JObject m \<Rightarrow>
          (let m1 = (case bt_get (st_text st) (fst e) of
                       None \<Rightarrow> m
                     | Some said \<Rightarrow> bt_insert (if bt_get m ''thinking'' \<noteq> None then ''thinking'' else ''text'') (jstr said) m);
               m2 = (case bt_get (st_json st) (fst e) of
                       None \<Rightarrow> m1
                     | Some said \<Rightarrow> bt_insert ''input'' (case jread said of Inr v \<Rightarrow> v | Inl _ \<Rightarrow> JObject []) m1)
           in JObject m2)
      | b \<Rightarrow> b)"

definition anthropic_settled :: "json_reader \<Rightarrow> json list \<Rightarrow> (ax_error, json) result" where
  "anthropic_settled jread frames =
     (let st = fold anthropic_frame frames settling_new in
      case st_stop st of
        None \<Rightarrow> Inl (stream_cut ''the stream ended without the frame that says why the model stopped'')
      | Some stop \<Rightarrow>
          Inr (JObject (obj [(''content'', JArray (map (fill_block jread st) (st_blocks st))),
                             (''stop_reason'', jstr stop), (''usage'', st_usage st)])))"

section \<open>Answers read back\<close>

lemma block_reads_back: "block_ok b \<Longrightarrow> block_from said (block_wire b) path = Inr b"
  by (cases b) (simp_all add: block_from_def block_wire_def tool_name.parse_spell)

lemma stop_reads_back: "stop_from (stop_str s) path = Inr s"
  by (cases s) (simp_all add: stop_from_def stop_str_def)

lemma usage_reads_back: "anthropic_usage (anthropic_usage_wire u) = Inr u"
  by (simp add: anthropic_usage_def anthropic_usage_wire_def)

lemma collect_blocks:
  "\<forall>i < length bs. block_from said (vs ! i) (content_path (n + i)) = Inr (bs ! i) \<Longrightarrow> length vs = length bs \<Longrightarrow>
   collect_r (map (\<lambda>(i, item). block_from said item (content_path i)) (enumerate n vs)) = Inr bs"
  by (rule collect_enumerate)

lemma anthropic_reads_back:
  assumes "list_all block_ok (resp_content resp)"
  shows "anthropic_response_from said (anthropic_response_wire resp) = Inr resp"
proof -
  have "collect_r (map (\<lambda>(i, item). block_from said item (content_path i))
      (enumerate 0 (map block_wire (resp_content resp)))) = Inr (resp_content resp)"
    using assms by (intro collect_blocks) (simp_all add: block_reads_back list_all_length)
  then show ?thesis
    by (simp add: anthropic_response_from_def anthropic_response_wire_def stop_reads_back usage_reads_back)
qed

section \<open>How a provider streams an answer\<close>

text \<open>
  The documented shape of a stream: each block opens under its index, grows by deltas and closes;
  the frames of different blocks may come between one another.
\<close>

datatype block_delta = TextDelta string | JsonDelta string | ThinkingDelta string | SignatureDelta string

datatype block_frame = Opens u64 content_block | Grows u64 block_delta | Closes u64

fun delta_json :: "block_delta \<Rightarrow> json" where
  "delta_json (TextDelta s) = JObject (obj [(''type'', jstr ''text_delta''), (''text'', jstr s)])"
| "delta_json (JsonDelta s) = JObject (obj [(''type'', jstr ''input_json_delta''), (''partial_json'', jstr s)])"
| "delta_json (ThinkingDelta s) = JObject (obj [(''type'', jstr ''thinking_delta''), (''thinking'', jstr s)])"
| "delta_json (SignatureDelta s) = JObject (obj [(''type'', jstr ''signature_delta''), (''signature'', jstr s)])"

fun frame_json :: "block_frame \<Rightarrow> json" where
  "frame_json (Opens k b) = JObject (obj
     [(''type'', jstr ''content_block_start''), (''index'', JNumber (PosInt k)), (''content_block'', block_wire b)])"
| "frame_json (Grows k d) = JObject (obj
     [(''type'', jstr ''content_block_delta''), (''index'', JNumber (PosInt k)), (''delta'', delta_json d)])"
| "frame_json (Closes k) = JObject (obj [(''type'', jstr ''content_block_stop''), (''index'', JNumber (PosInt k))])"

fun frame_index :: "block_frame \<Rightarrow> u64" where
  "frame_index (Opens k _) = k"
| "frame_index (Grows k _) = k"
| "frame_index (Closes k) = k"

definition begin_json :: "model_usage \<Rightarrow> json" where
  "begin_json u = JObject (obj
     [(''type'', jstr ''message_start''), (''message'', JObject (obj [(''usage'', anthropic_usage_wire u)]))])"

definition end_json :: "stop_reason \<Rightarrow> tokens \<Rightarrow> json" where
  "end_json stop out = JObject (obj
     [(''type'', jstr ''message_delta''), (''delta'', JObject (obj [(''stop_reason'', jstr (stop_str stop))])),
      (''usage'', JObject (obj [(''output_tokens'', JNumber (PosInt (tokens_get out)))]))])"

text \<open>The frames that speak one block: opened empty, its text or its input in pieces.\<close>

fun speaks :: "json_reader \<Rightarrow> u64 \<Rightarrow> content_block \<Rightarrow> block_frame list \<Rightarrow> bool" where
  "speaks jread k (TextBlock t) fs \<longleftrightarrow>
     (\<exists>pieces. fs = Opens k (TextBlock []) # map (Grows k \<circ> TextDelta) pieces @ [Closes k] \<and> concat pieces = t)"
| "speaks jread k (Thinking t s) fs \<longleftrightarrow>
     (\<exists>pieces. fs = Opens k (Thinking [] []) # map (Grows k \<circ> ThinkingDelta) pieces @ [Grows k (SignatureDelta s), Closes k] \<and>
        concat pieces = t)"
| "speaks jread k (RedactedThinking d) fs \<longleftrightarrow> fs = [Opens k (RedactedThinking d), Closes k]"
| "speaks jread k (ToolUse i n p) fs \<longleftrightarrow>
     (\<exists>pieces. fs = Opens k (ToolUse i n (Payload [])) # map (Grows k \<circ> JsonDelta) pieces @ [Closes k] \<and>
        (if concat pieces = [] then \<not> is_ok (jread []) \<and> p = Payload [] else jread (concat pieces) = Inr (payload_json p)))"
| "speaks jread k (ToolResultBlock i c e) fs \<longleftrightarrow> False"

definition streams :: "json_reader \<Rightarrow> chat_response \<Rightarrow> block_frame list \<Rightarrow> bool" where
  "streams jread resp body \<longleftrightarrow>
     length (resp_content resp) \<le> u64_max \<and>
     (\<forall>i < length (resp_content resp).
        speaks jread (of_nat i) (resp_content resp ! i) (filter (\<lambda>f. frame_index f = of_nat i) body)) \<and>
     (\<forall>f \<in> set body. unat (frame_index f) < length (resp_content resp))"

definition stream_of :: "chat_response \<Rightarrow> tokens \<Rightarrow> block_frame list \<Rightarrow> json list" where
  "stream_of resp early body =
     begin_json ((resp_usage resp)\<lparr>output_tokens := early\<rparr>) # map frame_json body @
     [end_json (resp_stop resp) (output_tokens (resp_usage resp))]"

section \<open>What the assembling keeps of each block\<close>

text \<open>The three entries under one index change by the frames of that index only.\<close>

type_synonym block_state = "json option \<times> string option \<times> string option"

definition state_at :: "settling \<Rightarrow> u64 \<Rightarrow> block_state" where
  "state_at st k = (bt_get (st_blocks st) k, bt_get (st_text st) k, bt_get (st_json st) k)"

fun frame_at :: "block_frame \<Rightarrow> block_state \<Rightarrow> block_state" where
  "frame_at (Opens k b) (_, t, j) = (Some (block_wire b), t, j)"
| "frame_at (Grows k (TextDelta s)) (b, t, j) = (b, Some (unwrap_or [] t @ s), j)"
| "frame_at (Grows k (ThinkingDelta s)) (b, t, j) = (b, Some (unwrap_or [] t @ s), j)"
| "frame_at (Grows k (JsonDelta s)) (b, t, j) = (b, t, Some (unwrap_or [] j @ s))"
| "frame_at (Grows k (SignatureDelta s)) (b, t, j) = (b, t, j)"
| "frame_at (Closes k) (b, t, j) = (b, t, j)"

lemma push_entry_get [simp]:
  "bt_get (push_entry k said m) k' =
     (if k' = k \<and> said \<noteq> None then Some (unwrap_or [] (bt_get m k) @ the said) else bt_get m k')"
  by (cases said) (simp_all add: push_entry_def bt_get_insert)

lemma push_entry_None [simp]: "push_entry k None m = m"
  by (simp add: push_entry_def)

lemma frame_keeps:
  "st_usage (anthropic_frame (frame_json f) st) = st_usage st"
  "st_stop (anthropic_frame (frame_json f) st) = st_stop st"
  "bt_ok (st_blocks st) \<Longrightarrow> bt_ok (st_blocks (anthropic_frame (frame_json f) st))"
  by (cases f rule: frame_json.cases; simp add: anthropic_frame_def obj_get as_u64_def bt_ok_insert split: json.split)+

lemma frame_state:
  "state_at (anthropic_frame (frame_json f) st) k =
     (if frame_index f = k then frame_at f (state_at st k) else state_at st k)"
proof (cases f)
  case (Opens i b)
  then show ?thesis by (simp add: anthropic_frame_def obj_get as_u64_def state_at_def bt_get_insert)
next
  case (Grows i d)
  then show ?thesis by (cases d) (simp_all add: anthropic_frame_def obj_get as_u64_def state_at_def)
next
  case (Closes i)
  then show ?thesis by (simp add: anthropic_frame_def obj_get as_u64_def state_at_def)
qed

lemma body_keeps:
  "st_usage (fold anthropic_frame (map frame_json body) st) = st_usage st"
  "st_stop (fold anthropic_frame (map frame_json body) st) = st_stop st"
  "bt_ok (st_blocks st) \<Longrightarrow> bt_ok (st_blocks (fold anthropic_frame (map frame_json body) st))"
  by (induction body arbitrary: st) (simp_all add: frame_keeps)

lemma body_state:
  "state_at (fold anthropic_frame (map frame_json body) st) k =
     fold frame_at (filter (\<lambda>f. frame_index f = k) body) (state_at st k)"
  by (induction body arbitrary: st) (simp_all add: frame_state)

lemma text_pieces:
  "fold frame_at (map (Grows k \<circ> TextDelta) ps) (b, t, j) = (b, if ps = [] then t else Some (unwrap_or [] t @ concat ps), j)"
  by (induction ps arbitrary: t) simp_all

lemma thinking_pieces:
  "fold frame_at (map (Grows k \<circ> ThinkingDelta) ps) (b, t, j) = (b, if ps = [] then t else Some (unwrap_or [] t @ concat ps), j)"
  by (induction ps arbitrary: t) simp_all

lemma json_pieces:
  "fold frame_at (map (Grows k \<circ> JsonDelta) ps) (b, t, j) = (b, t, if ps = [] then j else Some (unwrap_or [] j @ concat ps))"
  by (induction ps arbitrary: j) simp_all

text \<open>What comes out of a stream in place of a block: a thinking block without its signature.\<close>

fun as_streamed :: "content_block \<Rightarrow> content_block" where
  "as_streamed (Thinking t _) = Thinking t []"
| "as_streamed b = b"

lemma json_get_insert: "json_get k (JObject (bt_insert a v m)) = (if k = a then Some v else bt_get m k)"
  by (simp add: json_get_def bt_get_insert)

lemma block_settles:
  assumes "speaks jread k b fs" "block_ok b"
  shows "\<exists>v t j. fold frame_at fs (None, None, None) = (Some v, t, j) \<and>
    (\<forall>st. state_at st k = (Some v, t, j) \<longrightarrow> block_from said (fill_block jread st (k, v)) path = Inr (as_streamed b))"
  using assms
proof (cases b)
  case (TextBlock x)
  then show ?thesis using assms
    by (auto simp: text_pieces state_at_def fill_block_def block_wire_def obj_get block_from_def require_def
        json_get_def bt_get_insert Let_def)
next
  case (Thinking x s)
  then show ?thesis using assms
    by (auto simp: thinking_pieces state_at_def fill_block_def block_wire_def obj_get block_from_def require_def
        json_get_def bt_get_insert Let_def)
next
  case (RedactedThinking x)
  then show ?thesis using assms
    by (auto simp: state_at_def fill_block_def block_wire_def obj_get block_from_def require_def
        json_get_def bt_get_insert Let_def)
next
  case (ToolUse i n p)
  then obtain pieces where fs: "fs = Opens k (ToolUse i n (Payload [])) # map (Grows k \<circ> JsonDelta) pieces @ [Closes k]"
    and pieces: "if concat pieces = [] then \<not> is_ok (jread []) \<and> p = Payload [] else jread (concat pieces) = Inr (payload_json p)"
    using assms(1) by auto
  have input: "(case jread (concat pieces) of Inl x \<Rightarrow> JObject [] | Inr v \<Rightarrow> v) = payload_json p"
    using pieces by (cases "jread (concat pieces)") (auto simp: payload_json_def simp del: concat_eq_Nil_conv split: if_splits)
  have none: "p = Payload []" if "pieces = []" using pieces that by simp
  show ?thesis using assms(2) none
    by (auto simp: ToolUse fs input json_pieces state_at_def fill_block_def block_wire_def obj_get block_from_def require_def
        json_get_def bt_get_insert Let_def tool_name.parse_spell)
next
  case (ToolResultBlock i c e)
  then show ?thesis using assms by simp
qed

lemma body_blocks:
  assumes body: "streams jread resp body" and ok: "list_all block_ok (resp_content resp)"
    and st: "st_blocks st = []" "st_text st = []" "st_json st = []"
    and out: "out = fold anthropic_frame (map frame_json body) st"
  shows "map fst (st_blocks out) = map of_nat [0..<length (resp_content resp)]"
    "i < length (resp_content resp) \<Longrightarrow>
      block_from said (fill_block jread out (st_blocks out ! i)) path = Inr (as_streamed (resp_content resp ! i))"
proof -
  let ?n = "length (resp_content resp)"
  have n: "?n \<le> u64_max" using body by (simp add: streams_def)
  have at: "state_at out k = fold frame_at (filter (\<lambda>f. frame_index f = k) body) (None, None, None)" for k
    unfolding out body_state by (simp add: state_at_def st bt_get_def)
  have block: "\<exists>v t j. state_at out (of_nat i) = (Some v, t, j) \<and>
      (\<forall>st. state_at st (of_nat i) = (Some v, t, j) \<longrightarrow>
        block_from said (fill_block jread st (of_nat i, v)) path = Inr (as_streamed (resp_content resp ! i)))"
    if "i < ?n" for i
    unfolding at using body ok that by (intro block_settles) (simp_all add: streams_def list_all_length)
  have sorted: "bt_ok (st_blocks out)" unfolding out by (rule body_keeps) (simp add: st)
  have "set (bt_keys (st_blocks out)) = (\<lambda>i. of_nat i :: u64) ` {..<?n}"
  proof (intro set_eqI iffI)
    fix k assume "k \<in> set (bt_keys (st_blocks out))"
    then have "fst (state_at out k) \<noteq> None" by (auto simp: bt_keys_dom state_at_def)
    then have "filter (\<lambda>f. frame_index f = k) body \<noteq> []" unfolding at by auto
    then obtain f where "f \<in> set body" "frame_index f = k" by (auto simp: filter_empty_conv)
    then have "unat k < ?n" using body by (auto simp: streams_def)
    then show "k \<in> (\<lambda>i. of_nat i :: u64) ` {..<?n}" by (intro image_eqI [of _ _ "unat k"]) simp_all
  next
    fix k assume "k \<in> (\<lambda>i. of_nat i :: u64) ` {..<?n}"
    then obtain i where "i < ?n" "k = of_nat i" by auto
    then show "k \<in> set (bt_keys (st_blocks out))" using block [of i] by (auto simp: bt_keys_dom state_at_def)
  qed
  then show keys: "map fst (st_blocks out) = map of_nat [0..<?n]"
    using index_range [OF n] sorted by (simp add: bt_ok_def bt_keys_def)
  assume i: "i < ?n"
  have len: "length (st_blocks out) = ?n" using keys by (metis length_map diff_zero length_upt)
  then have fst: "fst (st_blocks out ! i) = of_nat i" using keys i by (metis nth_map_upt add_0 diff_zero nth_map)
  obtain v t j where v: "state_at out (of_nat i) = (Some v, t, j)"
      "block_from said (fill_block jread out (of_nat i, v)) path = Inr (as_streamed (resp_content resp ! i))"
    using block [OF i] by blast
  have "bt_get (st_blocks out) (of_nat i) = Some (snd (st_blocks out ! i))"
    using bt_get_mem [OF sorted] fst i len by (metis nth_mem prod.collapse)
  then have "st_blocks out ! i = (of_nat i, v)" using v(1) fst by (simp add: state_at_def prod_eq_iff)
  then show "block_from said (fill_block jread out (st_blocks out ! i)) path = Inr (as_streamed (resp_content resp ! i))"
    using v(2) by simp
qed

lemma fill_same [simp]: "fill_block jread (out\<lparr>st_stop := a, st_usage := b\<rparr>) = fill_block jread out"
  by (rule ext) (simp add: fill_block_def split: json.split)

text \<open>Between its first and its last frame a stream comes to the blocks its body left.\<close>

definition after_body :: "model_usage \<Rightarrow> block_frame list \<Rightarrow> settling" where
  "after_body u body = fold anthropic_frame (map frame_json body) (settling_new\<lparr>st_usage := anthropic_usage_wire u\<rparr>)"

lemma settled_body:
  "bind_r (anthropic_settled jread (begin_json u # map frame_json body @ [end_json stop out])) (anthropic_response_from said) =
   bind_r (collect_r (map (\<lambda>(i, item). block_from said item (content_path i))
       (enumerate 0 (map (fill_block jread (after_body u body)) (st_blocks (after_body u body))))))
     (\<lambda>content. Inr \<lparr>resp_content = content, resp_stop = stop, resp_usage = u\<lparr>output_tokens := out\<rparr>\<rparr>)"
proof -
  define counted where "counted = obj
     [(''input_tokens'', JNumber (PosInt (tokens_get (input_tokens u)))),
      (''output_tokens'', JNumber (PosInt (tokens_get (output_tokens u)))),
      (''cache_read_input_tokens'', JNumber (PosInt (tokens_get (cache_read_tokens u)))),
      (''cache_creation_input_tokens'', JNumber (PosInt (tokens_get (cache_write_tokens u))))]"
  have begins: "anthropic_frame (begin_json u) settling_new = settling_new\<lparr>st_usage := anthropic_usage_wire u\<rparr>"
    by (simp add: anthropic_frame_def begin_json_def obj_get)
  have usage: "st_usage (after_body u body) = JObject counted"
    unfolding after_body_def body_keeps by (simp add: anthropic_usage_wire_def counted_def)
  have ends: "anthropic_frame (end_json stop out) (after_body u body) =
      (after_body u body)\<lparr>st_stop := Some (stop_str stop),
          st_usage := JObject (bt_insert ''output_tokens'' (JNumber (PosInt (tokens_get out))) counted)\<rparr>"
    by (simp add: anthropic_frame_def end_json_def obj_get usage) (simp add: obj_def)
  have counts: "anthropic_usage (JObject (bt_insert ''output_tokens'' (JNumber (PosInt (tokens_get out))) counted)) =
      Inr (u\<lparr>output_tokens := out\<rparr>)"
    by (simp add: anthropic_usage_def json_get_insert counted_def obj_get)
  show ?thesis
    by (simp add: anthropic_settled_def begins ends Let_def anthropic_response_from_def
        counts stop_reads_back flip: after_body_def)
qed

lemma streamed_answer:
  assumes body: "streams jread resp body" and ok: "list_all block_ok (resp_content resp)"
  shows "bind_r (anthropic_settled jread (stream_of resp early body)) (anthropic_response_from said) =
    Inr (resp\<lparr>resp_content := map as_streamed (resp_content resp)\<rparr>)"
proof -
  let ?u = "(resp_usage resp)\<lparr>output_tokens := early\<rparr>"
  note blocks = body_blocks [OF body ok _ _ _ after_body_def [of ?u body]]
  have st: "st_blocks (settling_new\<lparr>st_usage := x\<rparr>) = []" "st_text (settling_new\<lparr>st_usage := x\<rparr>) = []"
    "st_json (settling_new\<lparr>st_usage := x\<rparr>) = []" for x by (simp_all add: settling_new_def)
  have len: "length (st_blocks (after_body ?u body)) = length (resp_content resp)"
    using blocks(1) [OF st] by (metis length_map diff_zero length_upt)
  have "collect_r (map (\<lambda>(i, item). block_from said item (content_path i))
      (enumerate 0 (map (fill_block jread (after_body ?u body)) (st_blocks (after_body ?u body))))) =
      Inr (map as_streamed (resp_content resp))"
    using blocks(2) [OF st] len by (intro collect_blocks) simp_all
  then show ?thesis by (simp add: stream_of_def settled_body)
qed

text \<open>Without thinking a streamed answer is the blocking one; with it, the signature is gone.\<close>

lemma streamed_signature_lost:
  assumes "streams jread resp body" "list_all block_ok (resp_content resp)"
    and "Thinking t s \<in> set (resp_content resp)" "s \<noteq> []"
  shows "bind_r (anthropic_settled jread (stream_of resp early body)) (anthropic_response_from said) \<noteq>
    anthropic_response_from said (anthropic_response_wire resp)"
proof -
  have "map as_streamed (resp_content resp) \<noteq> resp_content resp"
    using assms(3,4) by (metis as_streamed.simps(1) content_block.inject(2) list.set_map map_eq_conv map_ident)
  then have "resp\<lparr>resp_content := map as_streamed (resp_content resp)\<rparr> \<noteq> resp"
    by (metis (no_types, lifting) chat_response.ext_inject chat_response.surjective chat_response.update_convs(1))
  then show ?thesis using streamed_answer [OF assms(1,2)] anthropic_reads_back [OF assms(2)] by simp
qed

text \<open>A tool's input that was cut off, so that it is no JSON, becomes a call with no arguments.\<close>

lemma cut_input_calls_with_nothing:
  assumes "\<not> is_ok (jread s)" "tool_name_ok n"
  shows "bind_r (anthropic_settled jread
      (begin_json u # map frame_json [Opens 0 (ToolUse i n (Payload [])), Grows 0 (JsonDelta s)] @ [end_json MaxTokens out]))
      (anthropic_response_from said) =
    Inr \<lparr>resp_content = [ToolUse i n (Payload [])], resp_stop = MaxTokens, resp_usage = u\<lparr>output_tokens := out\<rparr>\<rparr>"
proof -
  obtain e where e: "jread s = Inl e" using assms(1) by (cases "jread s") auto
  let ?st = "after_body u [Opens 0 (ToolUse i n (Payload [])), Grows 0 (JsonDelta s)]"
  let ?b = "block_wire (ToolUse i n (Payload []))"
  have blocks: "st_blocks ?st = [(0, ?b)]"
    by (simp add: after_body_def anthropic_frame_def obj_get settling_new_def as_u64_def)
  have at: "state_at ?st 0 = (Some ?b, None, Some s)"
    unfolding after_body_def body_state by (simp add: state_at_def settling_new_def bt_get_def)
  have "block_from said (fill_block jread ?st (0, ?b)) path = Inr (ToolUse i n (Payload []))" for path
    using assms(2) at
    by (simp add: fill_block_def e state_at_def block_wire_def block_from_def require_def payload_from_def
        json_get_def bt_get_insert obj_get tool_name.parse_spell Let_def)
  then show ?thesis unfolding settled_body blocks by simp
qed

chapter \<open>The OpenAI wire\<close>

text \<open>
  The OpenAI Chat Completions wire, \<open>src/crates/gateway/src/openai.rs\<close>: requests and answers
  with the losses the translation takes, and the assembling of an answer from the chunks of a stream.
\<close>

section \<open>Requests\<close>

definition effort_field :: "effort \<Rightarrow> string" where
  "effort_field e = (case e of NoEffort \<Rightarrow> ''none'' | LowEffort \<Rightarrow> ''low'' | MediumEffort \<Rightarrow> ''medium''
     | HighEffort \<Rightarrow> ''high'' | XHighEffort \<Rightarrow> ''xhigh'' | MaxEffort \<Rightarrow> ''max'')"

fun join_texts :: "content_block list \<Rightarrow> string \<Rightarrow> string" where
  "join_texts [] out = out"
| "join_texts (TextBlock t # bs) out = join_texts bs (out @ (if out \<noteq> [] then [lf, lf] else []) @ t)"
| "join_texts (_ # bs) out = join_texts bs out"

definition joined_text :: "content_block list \<Rightarrow> string" where
  "joined_text content = join_texts content []"

definition call_wire :: "string \<Rightarrow> string \<Rightarrow> string \<Rightarrow> json" where
  "call_wire i name arguments = JObject (obj
     [(''id'', jstr i), (''type'', jstr ''function''),
      (''function'', JObject (obj [(''name'', jstr name), (''arguments'', jstr arguments)]))])"

fun calls_wire :: "json_printer \<Rightarrow> content_block list \<Rightarrow> json list" where
  "calls_wire jprint [] = []"
| "calls_wire jprint (ToolUse i n p # bs) = call_wire i (tool_str n) (jprint (payload_json p)) # calls_wire jprint bs"
| "calls_wire jprint (_ # bs) = calls_wire jprint bs"

fun results_wire :: "content_block list \<Rightarrow> json list" where
  "results_wire [] = []"
| "results_wire (ToolResultBlock i c _ # bs) =
     JObject (obj [(''role'', jstr ''tool''), (''tool_call_id'', jstr i), (''content'', jstr c)]) # results_wire bs"
| "results_wire (_ # bs) = results_wire bs"

definition text_or_null :: "string \<Rightarrow> json" where
  "text_or_null t = (if t = [] then JNull else jstr t)"

definition assistant_wire :: "json_printer \<Rightarrow> content_block list \<Rightarrow> json" where
  "assistant_wire jprint content = JObject (obj (
     [(''role'', jstr ''assistant''), (''content'', text_or_null (joined_text content))] @
     (let calls = calls_wire jprint content in if calls \<noteq> [] then [(''tool_calls'', JArray calls)] else [])))"

definition openai_message :: "json_printer \<Rightarrow> chat_message \<Rightarrow> json list" where
  "openai_message jprint m =
     (case msg_role m of
        User \<Rightarrow>
          results_wire (msg_content m) @
          (let t = joined_text (msg_content m) in
           if t \<noteq> [] then [JObject (obj [(''role'', jstr ''user''), (''content'', jstr t)])] else [])
      | Assistant \<Rightarrow> [assistant_wire jprint (msg_content m)])"

definition openai_tool :: "tool_def \<Rightarrow> json" where
  "openai_tool t = JObject (obj
     [(''type'', jstr ''function''),
      (''function'', JObject (obj
         [(''name'', jstr (tool_str (def_name t))), (''description'', jstr (def_description t)),
          (''parameters'', payload_json (def_input_schema t))]))])"

definition openai_request :: "json_printer \<Rightarrow> chat_request \<Rightarrow> json" where
  "openai_request jprint req = JObject (obj (
     [(''model'', jstr (chat_model req)), (''max_tokens'', JNumber (PosInt (chat_max_tokens req))),
      (''messages'', JArray (
        (if chat_system req \<noteq> []
         then [JObject (obj [(''role'', jstr ''system''), (''content'', jstr (join_with [lf, lf] (map sys_text (chat_system req))))])]
         else []) @
        concat (map (openai_message jprint) (chat_messages req))))] @
     (case chat_effort req of
        None \<Rightarrow> []
      | Some e \<Rightarrow> [(''reasoning'', JObject (obj [(''effort'', jstr (effort_field e))]))]) @
     (if chat_tools req \<noteq> [] then [(''tools'', JArray (map openai_tool (chat_tools req)))] else [])))"

section \<open>Answers\<close>

definition empty_answer :: ax_error where
  "empty_answer =
     mark_retriable (with_recovery
       (''lower this model's max output tokens - a ceiling above what the model allows is '' @
        ''answered this way rather than refused - then dispatch again'')
       (failure Provider ''read the provider's answer''
         ''the provider accepted the request and returned no answer at all''))"

definition call_from :: "serde_refusal \<Rightarrow> json_reader \<Rightarrow> nat \<Rightarrow> json \<Rightarrow> (ax_error, content_block) result" where
  "call_from said jread i call =
     (let path = ''response.choices[0].message.tool_calls['' @ dec_of i @ '']'' in
      bind_r (require call path ''function'') (\<lambda>function.
      bind_r (require function path ''name'') (\<lambda>v.
      bind_r (wire_str v (path @ ''.name'')) (\<lambda>raw.
      bind_r (case tool_name_parse raw of
                Inl _ \<Rightarrow> Inl (mismatch (path @ ''.name'') ''not a tool name'')
              | Inr n \<Rightarrow> Inr n) (\<lambda>name.
      bind_r (require function path ''arguments'') (\<lambda>v.
      bind_r (wire_str v (path @ ''.arguments'')) (\<lambda>arguments.
      bind_r (case jread arguments of
                Inl err \<Rightarrow> Inl (mismatch (path @ ''.arguments'') err)
              | Inr parsed \<Rightarrow> Inr parsed) (\<lambda>parsed.
      bind_r (require call path ''id'') (\<lambda>v.
      bind_r (wire_str v (path @ ''.id'')) (\<lambda>i.
      bind_r (payload_from said parsed (path @ ''.arguments'')) (\<lambda>p.
        Inr (ToolUse i name p))))))))))))"

definition finish_from :: "string \<Rightarrow> (ax_error, stop_reason) result" where
  "finish_from raw =
     (if raw = ''stop'' then Inr EndTurn
      else if raw = ''tool_calls'' then Inr ToolUseStop
      else if raw = ''length'' then Inr MaxTokens
      else Inl (mismatch ''response.choices[0].finish_reason'' raw))"

definition openai_usage :: "json \<Rightarrow> (ax_error, model_usage) result" where
  "openai_usage u =
     bind_r (case json_get ''prompt_tokens_details'' u of
               None \<Rightarrow> Inr (Tokens 0)
             | Some details \<Rightarrow> tokens_or_zero details ''cached_tokens'' ''response.usage.prompt_tokens_details'') (\<lambda>cached.
     bind_r (tokens_or_zero u ''prompt_tokens'' ''response.usage'') (\<lambda>i.
     bind_r (tokens_or_zero u ''completion_tokens'' ''response.usage'') (\<lambda>out.
       Inr \<lparr>input_tokens = i, output_tokens = out, cache_read_tokens = cached, cache_write_tokens = Tokens 0\<rparr>)))"

definition text_from :: "json \<Rightarrow> content_block list" where
  "text_from message =
     (case Option.bind (json_get ''content'' message) as_string of
        Some t \<Rightarrow> if t \<noteq> [] then [TextBlock t] else []
      | None \<Rightarrow> [])"

definition openai_response_from :: "serde_refusal \<Rightarrow> json_reader \<Rightarrow> json \<Rightarrow> (ax_error, chat_response) result" where
  "openai_response_from said jread wire =
     bind_r (require wire ''response'' ''choices'') (\<lambda>offered.
     if offered = JNull then Inl empty_answer
     else
       bind_r (case as_array offered of None \<Rightarrow> Inl (mismatch ''response.choices'' ''expected array'') | Some cs \<Rightarrow> Inr cs) (\<lambda>choices.
       bind_r (case choices of [] \<Rightarrow> Inl (mismatch ''response.choices'' ''empty'') | c # _ \<Rightarrow> Inr c) (\<lambda>first_choice.
       bind_r (require first_choice ''response.choices[0]'' ''message'') (\<lambda>message.
       bind_r (case Option.bind (json_get ''tool_calls'' message) as_array of
                 None \<Rightarrow> Inr []
               | Some calls \<Rightarrow> collect_r (map (\<lambda>(i, call). call_from said jread i call) (enumerate 0 calls))) (\<lambda>calls.
       bind_r (require first_choice ''response.choices[0]'' ''finish_reason'') (\<lambda>f.
       bind_r (wire_str f ''response.choices[0].finish_reason'') (\<lambda>raw.
       bind_r (finish_from raw) (\<lambda>stop.
       bind_r (require wire ''response'' ''usage'') (\<lambda>u.
       bind_r (openai_usage u) (\<lambda>usage.
         Inr \<lparr>resp_content = text_from message @ calls, resp_stop = stop, resp_usage = usage\<rparr>))))))))))"

definition finish_str :: "stop_reason \<Rightarrow> string" where
  "finish_str s = (case s of EndTurn \<Rightarrow> ''stop'' | ToolUseStop \<Rightarrow> ''tool_calls'' | MaxTokens \<Rightarrow> ''length'')"

definition openai_usage_wire :: "model_usage \<Rightarrow> json" where
  "openai_usage_wire u = JObject (obj
     [(''prompt_tokens'', JNumber (PosInt (tokens_get (input_tokens u)))),
      (''completion_tokens'', JNumber (PosInt (tokens_get (output_tokens u)))),
      (''prompt_tokens_details'', JObject (obj [(''cached_tokens'', JNumber (PosInt (tokens_get (cache_read_tokens u))))]))])"

definition openai_response_wire :: "json_printer \<Rightarrow> chat_response \<Rightarrow> json" where
  "openai_response_wire jprint resp = JObject (obj
     [(''choices'', JArray [JObject (obj
         [(''message'', assistant_wire jprint (resp_content resp)), (''finish_reason'', jstr (finish_str (resp_stop resp)))])]),
      (''usage'', openai_usage_wire (resp_usage resp))])"

section \<open>Streams\<close>

definition first_choice_of :: "(string \<times> json) list \<Rightarrow> (string \<times> json) list option" where
  "first_choice_of m =
     (case Option.bind (bt_get m ''choices'') as_array of
        Some (JObject c # _) \<Rightarrow> Some c
      | _ \<Rightarrow> None)"

definition object_at :: "(string \<times> json) list \<Rightarrow> string \<Rightarrow> (string \<times> json) list option" where
  "object_at m key = (case bt_get m key of Some (JObject d) \<Rightarrow> Some d | _ \<Rightarrow> None)"

definition openai_increment :: "(string \<times> json) list \<Rightarrow> string option" where
  "openai_increment m =
     Option.bind (first_choice_of m) (\<lambda>c.
     Option.bind (object_at c ''delta'') (\<lambda>d.
     Option.bind (bt_get d ''content'') as_string))"

type_synonym gathered_call = "string \<times> string \<times> string"

record gathering =
  ga_said :: string
  ga_calls :: "(u64, gathered_call) btree"
  ga_finish :: "string option"
  ga_usage :: "json option"

definition gathering_new :: gathering where
  "gathering_new = \<lparr>ga_said = [], ga_calls = [], ga_finish = None, ga_usage = None\<rparr>"

definition keep_string :: "json option \<Rightarrow> string \<Rightarrow> string" where
  "keep_string v old = unwrap_or old (Option.bind v as_string)"

definition gather_call :: "json \<Rightarrow> (u64, gathered_call) btree \<Rightarrow> (u64, gathered_call) btree" where
  "gather_call call calls =
     (case call of
        JObject one \<Rightarrow>
          (let k = unwrap_or 0 (Option.bind (bt_get one ''index'') as_u64);
               (i, name, arguments) = unwrap_or ([], [], []) (bt_get calls k);
               i = keep_string (bt_get one ''id'') i
           in case object_at one ''function'' of
                None \<Rightarrow> bt_insert k (i, name, arguments) calls
              | Some f \<Rightarrow>
                  bt_insert k (i, keep_string (bt_get f ''name'') name,
                    arguments @ keep_string (bt_get f ''arguments'') []) calls)
      | _ \<Rightarrow> calls)"

definition openai_chunk :: "json \<Rightarrow> gathering \<Rightarrow> gathering" where
  "openai_chunk frame st =
     (case frame of
        JObject m \<Rightarrow>
          (let st = (case bt_get m ''usage'' of
                       None \<Rightarrow> st
                     | Some held \<Rightarrow> if held = JNull then st else st\<lparr>ga_usage := Some held\<rparr>)
           in case first_choice_of m of
                None \<Rightarrow> st
              | Some c \<Rightarrow>
                  (let st = (case Option.bind (bt_get c ''finish_reason'') as_string of
                               None \<Rightarrow> st | Some f \<Rightarrow> st\<lparr>ga_finish := Some f\<rparr>)
                   in case object_at c ''delta'' of
                        None \<Rightarrow> st
                      | Some d \<Rightarrow>
                          st\<lparr>ga_said := ga_said st @ keep_string (bt_get d ''content'') [],
                             ga_calls := fold gather_call
                               (unwrap_or [] (Option.bind (bt_get d ''tool_calls'') as_array)) (ga_calls st)\<rparr>))
      | _ \<Rightarrow> st)"

definition openai_settled :: "json list \<Rightarrow> (ax_error, json) result" where
  "openai_settled frames =
     (let st = fold openai_chunk frames gathering_new in
      case ga_finish st of
        None \<Rightarrow> Inl (stream_cut ''the stream ended without the chunk that says why the model stopped'')
      | Some finish \<Rightarrow>
          Inr (JObject (obj
            [(''choices'', JArray [JObject (obj
                [(''message'', JObject (obj (
                    [(''role'', jstr ''assistant''), (''content'', jstr (ga_said st))] @
                    (if ga_calls st \<noteq> []
                     then [(''tool_calls'', JArray (map (\<lambda>(_, i, name, arguments). call_wire i name arguments) (ga_calls st)))]
                     else [])))),
                 (''finish_reason'', jstr finish)])]),
             (''usage'', unwrap_or (JObject []) (ga_usage st))])))"

section \<open>Answers read back\<close>

fun is_tool_use :: "content_block \<Rightarrow> bool" where
  "is_tool_use (ToolUse _ _ _) \<longleftrightarrow> True"
| "is_tool_use _ \<longleftrightarrow> False"

text \<open>What this wire can say of some content: its texts as one, then its calls.\<close>

definition openai_form :: "content_block list \<Rightarrow> content_block list" where
  "openai_form content =
     (if joined_text content \<noteq> [] then [TextBlock (joined_text content)] else []) @ filter is_tool_use content"

definition openai_kept :: "chat_response \<Rightarrow> chat_response" where
  "openai_kept resp = resp\<lparr>resp_content := openai_form (resp_content resp),
     resp_usage := (resp_usage resp)\<lparr>cache_write_tokens := Tokens 0\<rparr>\<rparr>"

definition inputs_read_back :: "json_reader \<Rightarrow> json_printer \<Rightarrow> content_block list \<Rightarrow> bool" where
  "inputs_read_back jread jprint content \<longleftrightarrow>
     (\<forall>i n p. ToolUse i n p \<in> set content \<longrightarrow> jread (jprint (payload_json p)) = Inr (payload_json p))"

lemma call_reads_back:
  assumes "tool_name_ok n" "payload_ok p" "jread a = Inr (payload_json p)"
  shows "call_from said jread k (call_wire i (tool_str n) a) = Inr (ToolUse i n p)"
  using assms by (simp add: call_from_def call_wire_def Let_def tool_name.parse_spell)

lemma calls_read_back:
  "list_all block_ok content \<Longrightarrow> inputs_read_back jread jprint content \<Longrightarrow>
   collect_r (map (\<lambda>(i, call). call_from said jread i call) (enumerate k (calls_wire jprint content))) =
     Inr (filter is_tool_use content)"
proof (induction content arbitrary: k)
  case (Cons b content)
  then have rest: "inputs_read_back jread jprint content" by (auto simp: inputs_read_back_def)
  show ?case
  proof (cases b)
    case (ToolUse i n p)
    then have "call_from said jread k (call_wire i (tool_str n) (jprint (payload_json p))) = Inr (ToolUse i n p)"
      using Cons.prems by (intro call_reads_back) (simp_all add: inputs_read_back_def)
    then show ?thesis using Cons ToolUse rest by simp
  qed (use Cons rest in simp_all)
qed simp

lemma no_calls_wire: "calls_wire jprint content = [] \<longleftrightarrow> filter is_tool_use content = []"
  by (induction content rule: calls_wire.induct) simp_all

lemma finish_reads_back: "finish_from (finish_str s) = Inr s"
  by (cases s) (simp_all add: finish_from_def finish_str_def)

lemma openai_usage_reads_back: "openai_usage (openai_usage_wire u) = Inr (u\<lparr>cache_write_tokens := Tokens 0\<rparr>)"
  by (simp add: openai_usage_def openai_usage_wire_def)

lemma openai_reads_back:
  assumes "list_all block_ok (resp_content resp)" "inputs_read_back jread jprint (resp_content resp)"
  shows "openai_response_from said jread (openai_response_wire jprint resp) = Inr (openai_kept resp)"
proof -
  let ?m = "assistant_wire jprint (resp_content resp)"
  have null: "as_string JNull = None" by (simp add: as_string_def)
  have "text_from ?m = (if joined_text (resp_content resp) \<noteq> [] then [TextBlock (joined_text (resp_content resp))] else [])"
    using null by (simp add: text_from_def assistant_wire_def text_or_null_def Let_def)
  moreover have "(case Option.bind (json_get ''tool_calls'' ?m) as_array of None \<Rightarrow> Inr []
      | Some calls \<Rightarrow> collect_r (map (\<lambda>(i, call). call_from said jread i call) (enumerate 0 calls))) =
      Inr (filter is_tool_use (resp_content resp))"
    using calls_read_back [OF assms, of said 0] no_calls_wire [of jprint "resp_content resp"]
    by (simp add: assistant_wire_def Let_def)
  ultimately show ?thesis
    by (simp add: openai_response_from_def openai_response_wire_def finish_reads_back openai_usage_reads_back
        openai_kept_def openai_form_def)
qed

section \<open>How a provider streams an answer\<close>

text \<open>
  The documented shape of a stream: a text grows, a call opens under its index and its arguments
  grow; then a chunk says why the model stopped, and one that was asked for counts the tokens.
\<close>

datatype chunk = Says string | CallOpens u64 string tool_name | CallGrows u64 string

definition choice_json :: "json \<Rightarrow> json \<Rightarrow> json" where
  "choice_json delta finish = JObject (obj
     [(''choices'', JArray [JObject (obj [(''index'', jnat 0), (''delta'', delta), (''finish_reason'', finish)])]),
      (''usage'', JNull)])"

fun chunk_json :: "chunk \<Rightarrow> json" where
  "chunk_json (Says s) = choice_json (JObject (obj [(''content'', jstr s)])) JNull"
| "chunk_json (CallOpens k i n) = choice_json (JObject (obj [(''tool_calls'', JArray [JObject (obj
     [(''index'', JNumber (PosInt k)), (''id'', jstr i), (''type'', jstr ''function''),
      (''function'', JObject (obj [(''name'', jstr (tool_str n)), (''arguments'', jstr [])]))])])])) JNull"
| "chunk_json (CallGrows k s) = choice_json (JObject (obj [(''tool_calls'', JArray [JObject (obj
     [(''index'', JNumber (PosInt k)), (''function'', JObject (obj [(''arguments'', jstr s)]))])])])) JNull"

definition finish_json :: "stop_reason \<Rightarrow> json" where
  "finish_json stop = choice_json (JObject []) (jstr (finish_str stop))"

definition count_json :: "model_usage \<Rightarrow> json" where
  "count_json u = JObject (obj [(''choices'', JArray []), (''usage'', openai_usage_wire u)])"

fun said_in :: "chunk \<Rightarrow> string" where
  "said_in (Says s) = s"
| "said_in _ = []"

fun call_index :: "chunk \<Rightarrow> u64 option" where
  "call_index (Says _) = None"
| "call_index (CallOpens k _ _) = Some k"
| "call_index (CallGrows k _) = Some k"

definition chunks_speak :: "json_reader \<Rightarrow> content_block list \<Rightarrow> chunk list \<Rightarrow> bool" where
  "chunks_speak jread content body \<longleftrightarrow>
     (let uses = filter is_tool_use content in
      length uses \<le> u64_max \<and>
      concat (map said_in body) = joined_text content \<and>
      (\<forall>j < length uses. \<exists>i n p pieces.
         uses ! j = ToolUse i n p \<and> jread (concat pieces) = Inr (payload_json p) \<and>
         filter (\<lambda>c. call_index c = Some (of_nat j)) body = CallOpens (of_nat j) i n # map (CallGrows (of_nat j)) pieces) \<and>
      (\<forall>c \<in> set body. \<forall>k. call_index c = Some k \<longrightarrow> unat k < length uses))"

section \<open>What the gathering keeps of each call\<close>

fun call_gathered :: "chunk \<Rightarrow> gathered_call option \<Rightarrow> gathered_call option" where
  "call_gathered (Says s) parts = parts"
| "call_gathered (CallOpens k i n) parts =
     (let (_, _, a) = unwrap_or ([], [], []) parts in Some (i, tool_str n, a))"
| "call_gathered (CallGrows k s) parts =
     (let (i, n, a) = unwrap_or ([], [], []) parts in Some (i, n, a @ s))"

lemma keep_string_simps [simp]:
  "keep_string None old = old" "keep_string (Some (jstr s)) old = s" "keep_string (Some JNull) old = old"
  by (simp_all add: keep_string_def as_string_def jstr_def)

lemma chunk_step:
  "ga_usage (openai_chunk (chunk_json c) st) = ga_usage st"
  "ga_finish (openai_chunk (chunk_json c) st) = ga_finish st"
  "ga_said (openai_chunk (chunk_json c) st) = ga_said st @ said_in c"
  "bt_ok (ga_calls st) \<Longrightarrow> bt_ok (ga_calls (openai_chunk (chunk_json c) st))"
  "bt_get (ga_calls (openai_chunk (chunk_json c) st)) k =
     (if call_index c = Some k then call_gathered c (bt_get (ga_calls st) k) else bt_get (ga_calls st) k)"
proof -
  have null: "as_string JNull = None" by (simp add: as_string_def)
  have num: "as_u64 (JNumber (PosInt n)) = Some n" for n by (simp add: as_u64_def)
  note defs = openai_chunk_def choice_json_def obj_get first_choice_of_def object_at_def gather_call_def Let_def null num
    bt_get_insert bt_ok_insert
  show "ga_usage (openai_chunk (chunk_json c) st) = ga_usage st"
    "ga_finish (openai_chunk (chunk_json c) st) = ga_finish st"
    "ga_said (openai_chunk (chunk_json c) st) = ga_said st @ said_in c"
    "bt_ok (ga_calls st) \<Longrightarrow> bt_ok (ga_calls (openai_chunk (chunk_json c) st))"
    by (cases c; simp add: defs split: prod.split)+
  show "bt_get (ga_calls (openai_chunk (chunk_json c) st)) k =
     (if call_index c = Some k then call_gathered c (bt_get (ga_calls st) k) else bt_get (ga_calls st) k)"
    by (cases c) (auto simp: defs split: prod.split)
qed

lemma chunks_kept:
  "ga_usage (fold openai_chunk (map chunk_json body) st) = ga_usage st"
  "ga_finish (fold openai_chunk (map chunk_json body) st) = ga_finish st"
  "ga_said (fold openai_chunk (map chunk_json body) st) = ga_said st @ concat (map said_in body)"
  "bt_ok (ga_calls st) \<Longrightarrow> bt_ok (ga_calls (fold openai_chunk (map chunk_json body) st))"
  "bt_get (ga_calls (fold openai_chunk (map chunk_json body) st)) k =
     fold call_gathered (filter (\<lambda>c. call_index c = Some k) body) (bt_get (ga_calls st) k)"
  by (induction body arbitrary: st) (simp_all add: chunk_step)

lemma call_pieces:
  "fold call_gathered (map (CallGrows k) ps) (Some (i, n, a)) = Some (i, n, a @ concat ps)"
  by (induction ps arbitrary: a) simp_all

definition gathered :: "chunk list \<Rightarrow> gathering" where
  "gathered body = fold openai_chunk (map chunk_json body) gathering_new"

lemma gathered_fields:
  "ga_usage (gathered body) = None" "ga_finish (gathered body) = None"
  "ga_said (gathered body) = concat (map said_in body)" "bt_ok (ga_calls (gathered body))"
  "bt_get (ga_calls (gathered body)) k = fold call_gathered (filter (\<lambda>c. call_index c = Some k) body) None"
proof -
  have new: "ga_usage gathering_new = None" "ga_finish gathering_new = None" "ga_said gathering_new = []"
    "bt_ok (ga_calls gathering_new)" "bt_get (ga_calls gathering_new) k = None"
    by (simp_all add: gathering_new_def bt_get_def)
  show "ga_usage (gathered body) = None" "ga_finish (gathered body) = None"
    "ga_said (gathered body) = concat (map said_in body)" "bt_ok (ga_calls (gathered body))"
    "bt_get (ga_calls (gathered body)) k = fold call_gathered (filter (\<lambda>c. call_index c = Some k) body) None"
    unfolding gathered_def using new chunks_kept(4) by (simp_all only: chunks_kept) simp_all
qed

lemma gathered_calls:
  assumes body: "chunks_speak jread content body" and ok: "list_all block_ok content"
  defines "uses \<equiv> filter is_tool_use content"
  shows "map fst (ga_calls (gathered body)) = map of_nat [0..<length uses]"
    "j < length uses \<Longrightarrow>
      (case ga_calls (gathered body) ! j of (_, i, name, arguments) \<Rightarrow> call_from said jread m (call_wire i name arguments)) =
        Inr (uses ! j)"
proof -
  let ?calls = "ga_calls (gathered body)"
  have n: "length uses \<le> u64_max" using body by (simp add: chunks_speak_def uses_def Let_def)
  have call: "\<exists>i n p a. uses ! j = ToolUse i n p \<and> jread a = Inr (payload_json p) \<and>
      bt_get ?calls (of_nat j) = Some (i, tool_str n, a)" if j: "j < length uses" for j
  proof -
    have "\<forall>j < length uses. \<exists>i n p pieces.
         uses ! j = ToolUse i n p \<and> jread (concat pieces) = Inr (payload_json p) \<and>
         filter (\<lambda>c. call_index c = Some (of_nat j)) body = CallOpens (of_nat j) i n # map (CallGrows (of_nat j)) pieces"
      using body unfolding chunks_speak_def uses_def Let_def by (elim conjE)
    then obtain i n p pieces where "uses ! j = ToolUse i n p" "jread (concat pieces) = Inr (payload_json p)"
      "filter (\<lambda>c. call_index c = Some (of_nat j)) body = CallOpens (of_nat j) i n # map (CallGrows (of_nat j)) pieces"
      using j by blast
    then show ?thesis by (auto simp: gathered_fields(5) call_pieces)
  qed
  have "set (bt_keys ?calls) = (\<lambda>j. of_nat j :: u64) ` {..<length uses}"
  proof (intro set_eqI iffI)
    fix k assume "k \<in> set (bt_keys ?calls)"
    then have "bt_get ?calls k \<noteq> None" by (auto simp: bt_keys_dom)
    then have "filter (\<lambda>c. call_index c = Some k) body \<noteq> []" unfolding gathered_fields(5) by auto
    then obtain c where "c \<in> set body" "call_index c = Some k" by (auto simp: filter_empty_conv)
    then have "unat k < length uses" using body by (auto simp: chunks_speak_def uses_def Let_def)
    then show "k \<in> (\<lambda>j. of_nat j :: u64) ` {..<length uses}" by (intro image_eqI [of _ _ "unat k"]) simp_all
  next
    fix k assume "k \<in> (\<lambda>j. of_nat j :: u64) ` {..<length uses}"
    then obtain j where "j < length uses" "k = of_nat j" by auto
    then show "k \<in> set (bt_keys ?calls)" using call [of j] by (auto simp: bt_keys_dom)
  qed
  then show keys: "map fst ?calls = map of_nat [0..<length uses]"
    using index_range [OF n] gathered_fields(4) [of body] by (simp add: bt_ok_def bt_keys_def)
  assume j: "j < length uses"
  have len: "length ?calls = length uses" using keys by (metis length_map diff_zero length_upt)
  then have fst: "fst (?calls ! j) = of_nat j" using keys j by (metis nth_map_upt add_0 diff_zero nth_map)
  obtain i n p a where c: "uses ! j = ToolUse i n p" "jread a = Inr (payload_json p)"
      "bt_get ?calls (of_nat j) = Some (i, tool_str n, a)"
    using call [OF j] by blast
  have "bt_get ?calls (of_nat j) = Some (snd (?calls ! j))"
    using bt_get_mem [OF gathered_fields(4)] fst j len by (metis nth_mem prod.collapse)
  then have "?calls ! j = (of_nat j, i, tool_str n, a)" using c(3) fst by (simp add: prod_eq_iff)
  moreover have "block_ok (ToolUse i n p)"
  proof -
    have "ToolUse i n p \<in> set uses" using j c(1) by (metis nth_mem)
    then show ?thesis using ok by (auto simp: uses_def list_all_iff)
  qed
  ultimately show "(case ?calls ! j of (_, i, name, arguments) \<Rightarrow> call_from said jread m (call_wire i name arguments)) = Inr (uses ! j)"
    using call_reads_back [of n p jread a said m i] c by simp
qed

text \<open>A stream that counts its tokens comes to the answer the blocking call would have given.\<close>

lemma openai_settled_counts:
  "openai_settled (map chunk_json body @ [finish_json stop] @ counts) =
     (let st = fold openai_chunk counts ((gathered body)\<lparr>ga_finish := Some (finish_str stop)\<rparr>) in
      case ga_finish st of
        None \<Rightarrow> Inl (stream_cut ''the stream ended without the chunk that says why the model stopped'')
      | Some finish \<Rightarrow>
          Inr (JObject (obj
            [(''choices'', JArray [JObject (obj
                [(''message'', JObject (obj (
                    [(''role'', jstr ''assistant''), (''content'', jstr (ga_said st))] @
                    (if ga_calls st \<noteq> []
                     then [(''tool_calls'', JArray (map (\<lambda>(_, i, name, arguments). call_wire i name arguments) (ga_calls st)))]
                     else [])))),
                 (''finish_reason'', jstr finish)])]),
             (''usage'', unwrap_or (JObject []) (ga_usage st))])))"
proof -
  have "openai_chunk (finish_json stop) st = st\<lparr>ga_finish := Some (finish_str stop)\<rparr>" for st
    by (simp add: openai_chunk_def finish_json_def choice_json_def obj_get first_choice_of_def object_at_def bt_get_def [of "[]"])
  then show ?thesis by (simp add: openai_settled_def flip: gathered_def)
qed

lemma openai_streamed:
  assumes body: "chunks_speak jread content body" and ok: "list_all block_ok content"
    and counts: "counts = [] \<and> usage = JObject [] \<or> counts = [count_json u] \<and> usage = openai_usage_wire u"
  shows "bind_r (openai_settled (map chunk_json body @ [finish_json stop] @ counts)) (openai_response_from said jread) =
    bind_r (openai_usage usage) (\<lambda>u. Inr \<lparr>resp_content = openai_form content, resp_stop = stop, resp_usage = u\<rparr>)"
proof -
  let ?calls = "ga_calls (gathered body)"
  let ?wired = "map (\<lambda>(_, i, name, arguments). call_wire i name arguments) ?calls"
  let ?uses = "filter is_tool_use content"
  define st where "st = fold openai_chunk counts ((gathered body)\<lparr>ga_finish := Some (finish_str stop)\<rparr>)"
  have not_null: "openai_usage_wire u \<noteq> JNull" by (simp add: openai_usage_wire_def)
  have st: "ga_said st = joined_text content" "ga_calls st = ?calls" "ga_finish st = Some (finish_str stop)"
    "unwrap_or (JObject []) (ga_usage st) = usage"
    using counts body gathered_fields(1,3) [of body] not_null
    by (auto simp: st_def openai_chunk_def count_json_def obj_get first_choice_of_def chunks_speak_def Let_def)
  have len: "length ?calls = length ?uses"
    using gathered_calls(1) [OF body ok] by (metis length_map diff_zero length_upt)
  have "collect_r (map (\<lambda>(i, call). call_from said jread i call) (enumerate 0 ?wired)) = Inr ?uses"
    using gathered_calls(2) [OF body ok] len by (intro collect_enumerate) (auto simp: case_prod_beta)
  moreover have "?calls = [] \<longleftrightarrow> ?uses = []" using len by (metis length_0_conv)
  ultimately show ?thesis
    unfolding openai_settled_counts st_def [symmetric] Let_def
    by (cases "?uses = []") (simp_all add: st openai_response_from_def finish_reads_back text_from_def openai_form_def)
qed

text \<open>
  A stream that never counts its tokens is taken for one that used none, while an answer that
  does not count them is refused.
\<close>

lemma uncounted_stream_costs_nothing:
  assumes "chunks_speak jread content body" "list_all block_ok content"
  shows "bind_r (openai_settled (map chunk_json body @ [finish_json stop])) (openai_response_from said jread) =
    Inr \<lparr>resp_content = openai_form content, resp_stop = stop,
      resp_usage = \<lparr>input_tokens = Tokens 0, output_tokens = Tokens 0, cache_read_tokens = Tokens 0, cache_write_tokens = Tokens 0\<rparr>\<rparr>"
proof -
  have "openai_usage (JObject []) =
      Inr \<lparr>input_tokens = Tokens 0, output_tokens = Tokens 0, cache_read_tokens = Tokens 0, cache_write_tokens = Tokens 0\<rparr>"
    by (simp add: openai_usage_def json_get_def bt_get_def tokens_or_zero_def)
  then show ?thesis
    using openai_streamed [OF assms, of "[]" "JObject []" undefined stop said] by simp
qed

lemma uncounted_answer_refused:
  "openai_response_from said jread (JObject (obj
     [(''choices'', JArray [JObject (obj
        [(''message'', JObject []), (''finish_reason'', jstr (finish_str stop))])])])) =
   Inl (mismatch ''response.usage'' ''missing'')"
  by (simp add: openai_response_from_def json_get_def bt_get_def finish_reads_back)

chapter \<open>Which dialect answers\<close>

text \<open>
  Which dialect answers, \<open>src/crates/gateway/src/dialect.rs\<close>: five entrances over a closed set of two.
\<close>

definition request_wire :: "json_printer \<Rightarrow> dialect_kind \<Rightarrow> chat_request \<Rightarrow> json" where
  "request_wire jprint kind req =
     (case kind of AnthropicDialect \<Rightarrow> anthropic_request req | OpenAiDialect \<Rightarrow> openai_request jprint req)"

definition increment_of :: "dialect_kind \<Rightarrow> json \<Rightarrow> string option" where
  "increment_of kind frame =
     (case frame of
        JObject m \<Rightarrow>
          (case (case kind of AnthropicDialect \<Rightarrow> anthropic_increment m | OpenAiDialect \<Rightarrow> openai_increment m) of
             Some t \<Rightarrow> if t \<noteq> [] then Some t else None
           | None \<Rightarrow> None)
      | _ \<Rightarrow> None)"

definition settled_from_stream :: "json_reader \<Rightarrow> dialect_kind \<Rightarrow> json list \<Rightarrow> (ax_error, json) result" where
  "settled_from_stream jread kind frames =
     (case kind of AnthropicDialect \<Rightarrow> anthropic_settled jread frames | OpenAiDialect \<Rightarrow> openai_settled frames)"

definition response_from_wire :: "serde_refusal \<Rightarrow> json_reader \<Rightarrow> dialect_kind \<Rightarrow> json \<Rightarrow> (ax_error, chat_response) result" where
  "response_from_wire said jread kind wire =
     (case kind of
        AnthropicDialect \<Rightarrow> anthropic_response_from said wire
      | OpenAiDialect \<Rightarrow> openai_response_from said jread wire)"

definition response_wire :: "json_printer \<Rightarrow> dialect_kind \<Rightarrow> chat_response \<Rightarrow> json" where
  "response_wire jprint kind resp =
     (case kind of
        AnthropicDialect \<Rightarrow> anthropic_response_wire resp
      | OpenAiDialect \<Rightarrow> openai_response_wire jprint resp)"

section \<open>What a dialect keeps of an answer\<close>

definition dialect_keeps :: "dialect_kind \<Rightarrow> chat_response \<Rightarrow> chat_response" where
  "dialect_keeps kind resp = (case kind of AnthropicDialect \<Rightarrow> resp | OpenAiDialect \<Rightarrow> openai_kept resp)"

text \<open>The frames by which a provider of a dialect streams an answer.\<close>

inductive streamed_as :: "json_reader \<Rightarrow> dialect_kind \<Rightarrow> chat_response \<Rightarrow> json list \<Rightarrow> bool" for jread where
  as_anthropic: "streams jread resp body \<Longrightarrow> streamed_as jread AnthropicDialect resp (stream_of resp early body)"
| as_openai: "chunks_speak jread (resp_content resp) body \<Longrightarrow>
    streamed_as jread OpenAiDialect resp (map chunk_json body @ [finish_json (resp_stop resp), count_json (resp_usage resp)])"

lemma dialect_reads_back:
  assumes "list_all block_ok (resp_content resp)" "inputs_read_back jread jprint (resp_content resp)"
  shows "response_from_wire said jread kind (response_wire jprint kind resp) = Inr (dialect_keeps kind resp)"
  using anthropic_reads_back openai_reads_back assms
  by (cases kind) (simp_all add: response_from_wire_def response_wire_def dialect_keeps_def)

lemma openai_drops_thinking: "openai_form (map as_streamed content) = openai_form content"
proof -
  have "join_texts (map as_streamed bs) out = join_texts bs out" for bs out
    by (induction bs out rule: join_texts.induct) simp_all
  moreover have "filter is_tool_use (map as_streamed bs) = filter is_tool_use bs" for bs
  proof (induction bs)
    case (Cons b bs)
    then show ?case by (cases b) simp_all
  qed simp
  ultimately show ?thesis by (simp add: openai_form_def joined_text_def)
qed

lemma dialect_streams:
  assumes "streamed_as jread kind resp frames" "list_all block_ok (resp_content resp)"
  shows "bind_r (settled_from_stream jread kind frames) (response_from_wire said jread kind) =
    Inr (dialect_keeps kind (resp\<lparr>resp_content := map as_streamed (resp_content resp)\<rparr>))"
  using assms(1)
proof cases
  case (as_anthropic body early)
  then show ?thesis
    using streamed_answer [OF _ assms(2), of jread body early said]
    by (simp add: settled_from_stream_def response_from_wire_def [abs_def] dialect_keeps_def)
next
  case (as_openai body)
  have "bind_r (openai_settled (map chunk_json body @ [finish_json (resp_stop resp)] @ [count_json (resp_usage resp)]))
      (openai_response_from said jread) = Inr (openai_kept resp)"
    by (subst openai_streamed [OF as_openai(3) assms(2)]) (auto simp: openai_usage_reads_back openai_kept_def)
  then show ?thesis
    using as_openai
    by (simp add: settled_from_stream_def response_from_wire_def [abs_def] dialect_keeps_def openai_kept_def openai_drops_thinking)
qed

text \<open>
  So a stream comes to the answer of the blocking call exactly when it lost no signature; the
  OpenAI wire has none to lose.
\<close>

lemma dialect_streams_iff:
  assumes "streamed_as jread kind resp frames" "list_all block_ok (resp_content resp)"
  shows "bind_r (settled_from_stream jread kind frames) (response_from_wire said jread kind) = Inr (dialect_keeps kind resp) \<longleftrightarrow>
    kind = OpenAiDialect \<or> (\<forall>t s. Thinking t s \<in> set (resp_content resp) \<longrightarrow> s = [])"
proof (cases kind)
  case AnthropicDialect
  have "map as_streamed bs = bs \<longleftrightarrow> (\<forall>t s. Thinking t s \<in> set bs \<longrightarrow> s = [])" for bs
  proof (induction bs)
    case (Cons b bs)
    then show ?case by (cases b) auto
  qed simp
  moreover have "resp\<lparr>resp_content := c\<rparr> = resp \<longleftrightarrow> c = resp_content resp" for c
    by (cases resp) auto
  ultimately show ?thesis
    using AnthropicDialect dialect_streams [OF assms] by (simp add: dialect_keeps_def)
next
  case OpenAiDialect
  then show ?thesis
    using dialect_streams [OF assms] by (simp add: dialect_keeps_def openai_kept_def openai_drops_thinking)
qed

text \<open>Increments carry prose only.\<close>

lemma increments_are_prose:
  "increment_of AnthropicDialect (frame_json f) = Some t \<longleftrightarrow> (\<exists>k. f = Grows k (TextDelta t)) \<and> t \<noteq> []"
  "increment_of OpenAiDialect (chunk_json c) = Some t \<longleftrightarrow> c = Says t \<and> t \<noteq> []"
proof -
  show "increment_of AnthropicDialect (frame_json f) = Some t \<longleftrightarrow> (\<exists>k. f = Grows k (TextDelta t)) \<and> t \<noteq> []"
  proof (cases f)
    case (Grows k d)
    then show ?thesis by (cases d) (auto simp: increment_of_def anthropic_increment_def obj_get)
  qed (auto simp: increment_of_def anthropic_increment_def obj_get)
  show "increment_of OpenAiDialect (chunk_json c) = Some t \<longleftrightarrow> c = Says t \<and> t \<noteq> []"
    by (cases c) (auto simp: increment_of_def openai_increment_def first_choice_of_def object_at_def choice_json_def obj_get)
qed

end
