(* ===== verification/Workshops.thy ===== *)
theory Workshops
  imports Inboxes Budgets "HOL-Library.Multiset"
begin

text \<open>
  One creation split into nodes and the order they run in, \<open>src/crates/collab/src/workshop.rs\<close>:
  contracts, the graph they make and Kahn's algorithm over it.
\<close>

section \<open>Contracts\<close>

datatype work_node = WorkNode (work_str: string)

instantiation work_node :: linorder
begin

definition less_eq_work_node :: "work_node \<Rightarrow> work_node \<Rightarrow> bool" where
  "less_eq_work_node a b \<longleftrightarrow> work_str a \<le> work_str b"

definition less_work_node :: "work_node \<Rightarrow> work_node \<Rightarrow> bool" where
  "less_work_node a b \<longleftrightarrow> work_str a < work_str b"

instance
  by intro_classes (auto simp: less_eq_work_node_def less_work_node_def work_node.expand)

end

definition work_node_parse :: "(string \<Rightarrow> string) \<Rightarrow> string \<Rightarrow> (ax_error, work_node) result" where
  "work_node_parse debug raw =
     (if raw = [] \<or> has_whitespace raw
      then Inl (with_recovery ''use a non-empty id with no whitespace'' (failure InvalidArgs ''read a node id'' (debug raw)))
      else Inr (WorkNode raw))"

text \<open>A \<open>BTreeSet\<close> of nodes is an ascending list.\<close>

record node_contract =
  nc_id :: work_node
  nc_goal :: string
  nc_depends_on :: "work_node list"
  nc_reads :: "(locator \<times> version) list"
  nc_write_domain :: address
  nc_owner :: string
  nc_done_check :: string
  nc_budget :: budget_cap
  nc_stop :: string

definition contract_new :: "node_contract \<Rightarrow> (ax_error, node_contract) result" where
  "contract_new c =
     (case List.find (\<lambda>(field, v). trim v = [])
             [(''goal'', nc_goal c), (''owner'', nc_owner c), (''done_check'', nc_done_check c), (''stop'', nc_stop c)] of
        Some (field, _) \<Rightarrow>
          Inl (with_recovery
                 (''state it; a node whose stop condition or done check is unwritten is one '' @
                  ''somebody has to guess at, and they will guess differently'')
                 (failure InvalidArgs ''build a node contract'' (work_str (nc_id c) @ '': '' @ field @ '' is empty'')))
      | None \<Rightarrow> Inr c)"

definition job_text :: "node_contract \<Rightarrow> string" where
  "job_text c =
     ''## Task'' @ [lf, lf] @ nc_goal c @ [lf, lf] @ ''## Goal'' @ [lf, lf] @ nc_goal c @ [lf, lf] @
     ''## Done check'' @ [lf, lf] @ nc_done_check c @ [lf, lf] @ ''## Stop'' @ [lf, lf] @ nc_stop c @ [lf] @
     (if nc_reads c \<noteq> [] then
        [lf] @ ''## Reads'' @ [lf, lf] @
        concat (map (\<lambda>(l, v). ''- '' @ locator_str l @ '' @ v'' @ dec_of (unat (version_value v)) @ [lf]) (nc_reads c))
      else []) @
     [lf] @ ''## Write domain'' @ [lf, lf] @ ''- '' @ addr_str (nc_write_domain c) @ [lf]"

section \<open>The graph\<close>

type_synonym workshop = "(work_node, node_contract) btree"

definition workshop_error :: "ax_code \<Rightarrow> string \<Rightarrow> string \<Rightarrow> ax_error" where
  "workshop_error c subj way = with_recovery way (failure c ''build a workshop'' subj)"

fun enter_contracts :: "node_contract list \<Rightarrow> workshop \<Rightarrow> (ax_error, workshop) result" where
  "enter_contracts [] nodes = Inr nodes"
| "enter_contracts (c # cs) nodes =
     (if bt_get nodes (nc_id c) \<noteq> None
      then Inl (workshop_error InvalidArgs (work_str (nc_id c)) ''two contracts claim one node id; rename one'')
      else enter_contracts cs (bt_insert (nc_id c) c nodes))"

definition missing_need :: "workshop \<Rightarrow> (node_contract \<times> work_node) option" where
  "missing_need nodes =
     List.find (\<lambda>(c, need). bt_get nodes need = None)
       (concat (map (\<lambda>c. map (\<lambda>need. (c, need)) (nc_depends_on c)) (bt_values nodes)))"

definition depends_on :: "workshop \<Rightarrow> work_node \<Rightarrow> work_node \<Rightarrow> bool" where
  "depends_on nodes candidate need =
     (case bt_get nodes candidate of None \<Rightarrow> False | Some c \<Rightarrow> need \<in> set (nc_depends_on c))"

text \<open>One entry of what remains, after a node has been put out: its count, and whether that freed it.\<close>

definition lower_count :: "workshop \<Rightarrow> work_node \<Rightarrow> work_node \<times> nat \<Rightarrow> work_node \<times> nat" where
  "lower_count nodes i e = (if depends_on nodes (fst e) i then (fst e, snd e - 1) else e)"

definition freed_by :: "workshop \<Rightarrow> work_node \<Rightarrow> (work_node, nat) btree \<Rightarrow> work_node list" where
  "freed_by nodes i remaining =
     map fst (filter (\<lambda>e. depends_on nodes (fst e) i \<and> snd (lower_count nodes i e) = 0) remaining)"

text \<open>Each round puts out one node; as many rounds as there are nodes empty the queue.\<close>

fun order_loop :: "nat \<Rightarrow> workshop \<Rightarrow> (work_node, nat) btree \<Rightarrow> work_node list \<Rightarrow> work_node list \<Rightarrow> work_node list" where
  "order_loop 0 nodes remaining queue out = out"
| "order_loop (Suc n) nodes remaining [] out = out"
| "order_loop (Suc n) nodes remaining (i # queue) out =
     (let remaining = bt_remove i remaining
      in order_loop n nodes (map (lower_count nodes i) remaining) (queue @ freed_by nodes i remaining) (out @ [i]))"

definition work_order :: "workshop \<Rightarrow> work_node list" where
  "work_order nodes =
     (let remaining = map (\<lambda>(i, c). (i, length (nc_depends_on c))) nodes;
          queue = map fst (filter (\<lambda>e. snd e = 0) remaining)
      in order_loop (length nodes) nodes remaining queue [])"

definition workshop_new :: "node_contract list \<Rightarrow> (ax_error, workshop) result" where
  "workshop_new contracts =
     bind_r (enter_contracts contracts []) (\<lambda>nodes.
       case missing_need nodes of
         Some (c, need) \<Rightarrow>
           Inl (workshop_error InvalidArgs
                  (work_str (nc_id c) @ '' depends on '' @ work_str need @ '', which is not in the graph'')
                  ''add that node, or drop the dependency'')
       | None \<Rightarrow>
           (let order = work_order nodes in
            if length order \<noteq> length nodes
            then Inl (workshop_error ax_code.GoalConflict
                   (join_with '', '' (map work_str (filter (\<lambda>i. i \<notin> set order) (bt_keys nodes))))
                   ''these nodes wait on each other; break the cycle by deciding which one goes first'')
            else Inr nodes))"

definition workshop_ready :: "workshop \<Rightarrow> work_node list \<Rightarrow> work_node list" where
  "workshop_ready nodes finished =
     map nc_id (filter (\<lambda>c. list_all (\<lambda>need. need \<in> set finished) (nc_depends_on c))
                  (filter (\<lambda>c. nc_id c \<notin> set finished) (bt_values nodes)))"

section \<open>What the algorithm keeps\<close>

definition deps_of :: "workshop \<Rightarrow> work_node \<Rightarrow> work_node set" where
  "deps_of nodes i = (case bt_get nodes i of None \<Rightarrow> {} | Some c \<Rightarrow> set (nc_depends_on c))"

definition workshop_ok :: "workshop \<Rightarrow> bool" where
  "workshop_ok nodes \<longleftrightarrow> bt_ok nodes \<and> (\<forall>(i, c) \<in> set nodes. nc_id c = i \<and> distinct (nc_depends_on c))"

lemma depends_on_iff: "depends_on nodes i d \<longleftrightarrow> d \<in> deps_of nodes i"
  by (simp add: depends_on_def deps_of_def split: option.split)

lemma finite_deps [simp]: "finite (deps_of nodes i)"
  by (simp add: deps_of_def split: option.split)

text \<open>What remains after some nodes are out, and which of it is free.\<close>

definition rest_of :: "workshop \<Rightarrow> work_node list \<Rightarrow> (work_node, nat) btree" where
  "rest_of nodes out = map (\<lambda>e. (fst e, card (deps_of nodes (fst e) - set out))) (filter (\<lambda>e. fst e \<notin> set out) nodes)"

definition free_after :: "workshop \<Rightarrow> work_node list \<Rightarrow> work_node set" where
  "free_after nodes out = {i \<in> set (bt_keys nodes). i \<notin> set out \<and> deps_of nodes i \<subseteq> set out}"

definition needs_first :: "workshop \<Rightarrow> work_node list \<Rightarrow> bool" where
  "needs_first nodes out \<longleftrightarrow> (\<forall>k < length out. deps_of nodes (out ! k) \<subseteq> set (take k out))"

definition kahn_inv :: "workshop \<Rightarrow> work_node list \<Rightarrow> work_node list \<Rightarrow> bool" where
  "kahn_inv nodes queue out \<longleftrightarrow>
     distinct queue \<and> set queue = free_after nodes out \<and>
     distinct out \<and> set out \<subseteq> set (bt_keys nodes) \<and> needs_first nodes out"

lemma bt_remove_filter: "distinct (map fst m) \<Longrightarrow> bt_remove k m = filter (\<lambda>e. fst e \<noteq> k) m"
proof (induction k m rule: bt_remove.induct)
  case (2 k a b m)
  have "filter (\<lambda>e. fst e \<noteq> k) m = m" if "k = a"
    using 2(2) that by (auto simp: filter_id_conv)
  then show ?case using 2 by auto
qed simp

lemma rest_keys: "map fst (rest_of nodes out) = filter (\<lambda>i. i \<notin> set out) (bt_keys nodes)"
  by (simp add: rest_of_def bt_keys_def comp_def filter_map)

lemma rest_removed:
  assumes "bt_ok nodes"
  shows "bt_remove i (rest_of nodes out) =
    map (\<lambda>e. (fst e, card (deps_of nodes (fst e) - set out))) (filter (\<lambda>e. fst e \<notin> set (out @ [i])) nodes)"
proof -
  have "distinct (map fst (rest_of nodes out))"
    unfolding rest_keys using bt.keys_distinct [OF assms] by simp
  then show ?thesis
    by (simp add: bt_remove_filter) (simp add: rest_of_def filter_map comp_def conj_commute)
qed

lemma lowered_card:
  "i \<notin> set out \<Longrightarrow>
   lower_count nodes i (j, card (deps_of nodes j - set out)) = (j, card (deps_of nodes j - set (out @ [i])))"
proof -
  assume i: "i \<notin> set out"
  have "deps_of nodes j - set (out @ [i]) = (deps_of nodes j - set out) - {i}" by auto
  then show ?thesis using i by (simp add: lower_count_def depends_on_iff card_Diff_singleton_if)
qed

lemma rest_step:
  "bt_ok nodes \<Longrightarrow> i \<notin> set out \<Longrightarrow>
   map (lower_count nodes i) (bt_remove i (rest_of nodes out)) = rest_of nodes (out @ [i])"
  by (simp only: rest_removed) (simp add: rest_of_def lowered_card [simplified])

lemma freed_set:
  assumes "bt_ok nodes" "i \<notin> set out"
  shows "set (freed_by nodes i (bt_remove i (rest_of nodes out))) =
    {j \<in> set (bt_keys nodes). j \<notin> set (out @ [i]) \<and> i \<in> deps_of nodes j \<and> deps_of nodes j \<subseteq> set (out @ [i])}"
proof -
  have "set (freed_by nodes i (bt_remove i (rest_of nodes out))) =
    {j \<in> set (bt_keys nodes). j \<notin> set (out @ [i]) \<and> i \<in> deps_of nodes j \<and> card (deps_of nodes j - set (out @ [i])) = 0}"
    unfolding freed_by_def rest_removed [OF assms(1)]
    by (auto simp: bt_keys_def depends_on_iff lowered_card [OF assms(2), simplified] image_iff) (metis fst_conv)
  then show ?thesis by (auto simp: card_eq_0_iff)
qed

lemma freed_distinct: "bt_ok nodes \<Longrightarrow> distinct (freed_by nodes i (bt_remove i (rest_of nodes out)))"
  unfolding freed_by_def rest_removed
  using bt.keys_distinct [of nodes]
  by (intro distinct_map_filter) (simp add: bt_keys_def comp_def distinct_map_filter)

lemma kahn_step:
  assumes ok: "bt_ok nodes" and inv: "kahn_inv nodes (i # queue) out"
  shows "kahn_inv nodes (queue @ freed_by nodes i (bt_remove i (rest_of nodes out))) (out @ [i])" (is "kahn_inv _ (_ @ ?f) _")
proof -
  have q: "distinct queue" "i \<notin> set queue" "insert i (set queue) = free_after nodes out"
    and o: "distinct out" "set out \<subseteq> set (bt_keys nodes)" "needs_first nodes out"
    using inv by (auto simp: kahn_inv_def)
  have i: "i \<in> set (bt_keys nodes)" "i \<notin> set out" "deps_of nodes i \<subseteq> set out"
    using q(3) unfolding free_after_def by blast+
  have queue: "set queue = free_after nodes out - {i}" using q(2,3) by blast
  have f: "set ?f = {j \<in> set (bt_keys nodes). j \<notin> set (out @ [i]) \<and> i \<in> deps_of nodes j \<and> deps_of nodes j \<subseteq> set (out @ [i])}"
    by (rule freed_set [OF ok i(2)])
  have "set queue \<inter> set ?f = {}"
    unfolding queue f free_after_def using i(2) by blast
  moreover have "set queue \<union> set ?f = free_after nodes (out @ [i])"
    unfolding queue f free_after_def by auto
  moreover have "needs_first nodes (out @ [i])"
    using o(3) i(3) by (simp add: needs_first_def nth_append less_Suc_eq)
  ultimately show ?thesis
    using q(1) o(1,2) i(1,2) freed_distinct [OF ok] by (simp add: kahn_inv_def)
qed

lemma kahn_loop:
  assumes ok: "bt_ok nodes"
  shows "kahn_inv nodes queue out \<Longrightarrow> length nodes \<le> n + length out \<Longrightarrow>
    kahn_inv nodes [] (order_loop n nodes (rest_of nodes out) queue out)"
proof (induction n arbitrary: queue out)
  case 0
  have keys: "card (set (bt_keys nodes)) = length nodes"
    using distinct_card [OF bt.keys_distinct [OF ok]] by (simp add: bt_keys_def)
  have sub: "set out \<subseteq> set (bt_keys nodes)" and card: "card (set out) = length out"
    using 0(1) distinct_card [of out] by (auto simp: kahn_inv_def)
  have "length out = length nodes"
    using card_mono [OF _ sub] 0(2) by (simp add: keys card)
  then have out: "set out = set (bt_keys nodes)"
    using sub by (intro card_subset_eq) (simp_all add: keys card)
  then have "free_after nodes out = {}" by (auto simp: free_after_def)
  then have "queue = []" using 0 by (simp add: kahn_inv_def)
  with 0 show ?case by simp
next
  case (Suc n)
  show ?case
  proof (cases queue)
    case Nil
    with Suc.prems show ?thesis by simp
  next
    case (Cons i rest)
    then have "i \<notin> set out" using Suc.prems(1) by (auto simp: kahn_inv_def free_after_def)
    with Suc.IH [OF kahn_step [OF ok]] Suc.prems Cons show ?thesis
      by (simp add: Let_def rest_step [OF ok])
  qed
qed

lemma start_rest:
  assumes "workshop_ok nodes"
  shows "map (\<lambda>(i, c). (i, length (nc_depends_on c))) nodes = rest_of nodes []"
  using assms distinct_card
  by (fastforce simp: rest_of_def workshop_ok_def deps_of_def bt_get_mem split: option.split)

lemma start_queue:
  assumes "workshop_ok nodes"
  shows "kahn_inv nodes (map fst (filter (\<lambda>e. snd e = 0) (rest_of nodes []))) []"
proof -
  have "distinct (map fst (rest_of nodes []))"
    using bt.keys_distinct [of nodes] assms by (simp add: rest_keys workshop_ok_def)
  moreover have "set (map fst (filter (\<lambda>e. snd e = 0) (rest_of nodes []))) = free_after nodes []"
    by (force simp: rest_of_def free_after_def bt_keys_def card_eq_0_iff)
  ultimately show ?thesis
    by (simp add: kahn_inv_def needs_first_def distinct_map_filter)
qed

lemma order_kept: "workshop_ok nodes \<Longrightarrow> kahn_inv nodes [] (work_order nodes)"
  unfolding work_order_def Let_def start_rest
  by (rule kahn_loop [OF _ start_queue]) (simp_all add: workshop_ok_def)

definition waits_on :: "workshop \<Rightarrow> (work_node \<times> work_node) set" where
  "waits_on nodes = {(i, d). d \<in> deps_of nodes i}"

lemma deps_of_key: "d \<in> deps_of nodes i \<Longrightarrow> i \<in> set (bt_keys nodes)"
  by (auto simp: deps_of_def bt_keys_dom split: option.splits)

lemma finite_waits: "finite (waits_on nodes)"
proof -
  have "waits_on nodes = Sigma (set (bt_keys nodes)) (deps_of nodes)"
    by (auto simp: waits_on_def dest: deps_of_key)
  then show ?thesis by simp
qed

text \<open>What is out and has its needs before it holds no circle; what is stuck does.\<close>

lemma needs_first_acyclic:
  assumes "needs_first nodes out" "set out = set (bt_keys nodes)"
  shows "acyclic (waits_on nodes)"
proof -
  let ?pos = "\<lambda>i. length (takeWhile (\<lambda>x. x \<noteq> i) out)"
  have "?pos d < ?pos i" if "d \<in> deps_of nodes i" for i d
  proof -
    have "i \<in> set out" using that assms(2) deps_of_key by blast
    then obtain ys zs where out: "out = ys @ i # zs" "i \<notin> set ys" by (meson split_list_first)
    have "deps_of nodes i \<subseteq> set ys"
      using assms(1)[unfolded needs_first_def, rule_format, of "length ys"] out by simp
    then have d: "d \<in> set ys" using that by blast
    then have "length (takeWhile (\<lambda>x. x \<noteq> d) ys) < length ys"
      by (induction ys) auto
    moreover have "takeWhile (\<lambda>x. x \<noteq> i) out = ys"
      unfolding out(1) using out(2) by (subst takeWhile_append2) auto
    ultimately show ?thesis using d by (simp add: out(1) takeWhile_append1 [of d])
  qed
  then show ?thesis by (intro acyclicI_order [where f = ?pos]) (auto simp: waits_on_def)
qed

lemma acyclic_all_out:
  assumes inv: "kahn_inv nodes [] out" and closed: "\<And>i. deps_of nodes i \<subseteq> set (bt_keys nodes)"
    and ac: "acyclic (waits_on nodes)"
  shows "set out = set (bt_keys nodes)"
proof (rule ccontr)
  assume "set out \<noteq> set (bt_keys nodes)"
  then obtain j where "j \<in> set (bt_keys nodes) - set out" using inv by (auto simp: kahn_inv_def)
  then obtain i where i: "i \<in> set (bt_keys nodes) - set out"
      and least: "\<And>d. (d, i) \<in> (waits_on nodes)\<inverse> \<Longrightarrow> d \<notin> set (bt_keys nodes) - set out"
    using wfE_min [OF finite_acyclic_wf_converse [OF finite_waits ac]] by metis
  then have "i \<in> free_after nodes out"
    using closed [of i] by (auto simp: free_after_def waits_on_def)
  then show False using inv by (simp add: kahn_inv_def)
qed

section \<open>Which graphs become workshops\<close>

lemma enter_iff:
  "enter_contracts cs nodes = Inr w \<longleftrightarrow>
     distinct (map nc_id cs) \<and> (\<forall>c \<in> set cs. bt_get nodes (nc_id c) = None) \<and>
     w = fold (\<lambda>c. bt_insert (nc_id c) c) cs nodes"
proof (induction cs arbitrary: nodes)
  case (Cons c cs)
  have "(\<forall>a \<in> set cs. bt_get (bt_insert (nc_id c) c nodes) (nc_id a) = None) \<longleftrightarrow>
      nc_id c \<notin> nc_id ` set cs \<and> (\<forall>a \<in> set cs. bt_get nodes (nc_id a) = None)"
    by (auto simp: bt_get_insert image_iff split: if_splits)
  then show ?case by (simp add: Cons) blast
qed auto

lemma workshop_values: "workshop_ok w \<Longrightarrow> c \<in> set (bt_values w) \<longleftrightarrow> (\<exists>i. bt_get w i = Some c)"
  by (simp add: workshop_ok_def bt_values_in)

lemma workshop_id: "workshop_ok w \<Longrightarrow> bt_get w i = Some c \<Longrightarrow> nc_id c = i"
  using bt_get_mem [of w i c] unfolding workshop_ok_def by blast

lemma contracts_get:
  "distinct (map nc_id cs) \<Longrightarrow> \<forall>c \<in> set cs. bt_get nodes (nc_id c) = None \<Longrightarrow>
   bt_get (fold (\<lambda>c. bt_insert (nc_id c) c) cs nodes) i = Some c \<longleftrightarrow>
     (c \<in> set cs \<and> nc_id c = i) \<or> bt_get nodes i = Some c"
proof (induction cs arbitrary: nodes)
  case (Cons a cs)
  have "\<forall>c \<in> set cs. bt_get (bt_insert (nc_id a) a nodes) (nc_id c) = None"
    using Cons.prems by (auto simp: bt_get_insert image_iff)
  then have "bt_get (fold (\<lambda>c. bt_insert (nc_id c) c) cs (bt_insert (nc_id a) a nodes)) i = Some c \<longleftrightarrow>
      (c \<in> set cs \<and> nc_id c = i) \<or> ((bt_get nodes)(nc_id a \<mapsto> a)) i = Some c"
    using Cons by (simp add: bt_get_insert)
  then show ?case using Cons.prems by auto
qed simp

lemma entered_sorted: "bt_ok nodes \<Longrightarrow> bt_ok (fold (\<lambda>c. bt_insert (nc_id c) c) cs nodes)"
  by (induction cs arbitrary: nodes) (simp_all add: bt_ok_insert)

lemma entered:
  assumes "enter_contracts cs [] = Inr w" "\<And>c. c \<in> set cs \<Longrightarrow> distinct (nc_depends_on c)"
  shows "workshop_ok w" "bt_get w i = Some c \<longleftrightarrow> c \<in> set cs \<and> nc_id c = i"
    "set (bt_keys w) = nc_id ` set cs" "waits_on w = {(nc_id c, d) | c d. c \<in> set cs \<and> d \<in> set (nc_depends_on c)}"
proof -
  have get: "bt_get w i = Some c \<longleftrightarrow> c \<in> set cs \<and> nc_id c = i" for i c
    using assms(1) contracts_get [of cs "[]"] by (simp add: enter_iff bt_get_def)
  then show "bt_get w i = Some c \<longleftrightarrow> c \<in> set cs \<and> nc_id c = i" .
  have "bt_ok w" using assms(1) entered_sorted [of "[]" cs] by (simp add: enter_iff)
  then show "workshop_ok w" using get assms(2) by (auto simp: workshop_ok_def bt_get_mem)
  show "set (bt_keys w) = nc_id ` set cs" using get by (fastforce simp: bt_keys_dom)
  have "d \<in> deps_of w i \<longleftrightarrow> (\<exists>c. bt_get w i = Some c \<and> d \<in> set (nc_depends_on c))" for i d
    by (simp add: deps_of_def split: option.split)
  then show "waits_on w = {(nc_id c, d) | c d. c \<in> set cs \<and> d \<in> set (nc_depends_on c)}"
    by (auto simp: waits_on_def get)
qed

lemma missing_iff:
  assumes "workshop_ok w"
  shows "missing_need w = None \<longleftrightarrow> (\<forall>i. deps_of w i \<subseteq> set (bt_keys w))"
proof -
  have "missing_need w = None \<longleftrightarrow> (\<forall>c \<in> set (bt_values w). set (nc_depends_on c) \<subseteq> set (bt_keys w))"
    by (auto simp: missing_need_def find_None_iff bt_get_None_iff)
  also have "\<dots> \<longleftrightarrow> (\<forall>i c. bt_get w i = Some c \<longrightarrow> set (nc_depends_on c) \<subseteq> set (bt_keys w))"
    using workshop_values [OF assms] by blast
  also have "\<dots> \<longleftrightarrow> (\<forall>i. deps_of w i \<subseteq> set (bt_keys w))"
    by (simp add: deps_of_def split: option.split)
  finally show ?thesis .
qed

lemma order_covers:
  assumes "workshop_ok w"
  shows "length (work_order w) = length w \<longleftrightarrow> set (work_order w) = set (bt_keys w)"
proof -
  have out: "distinct (work_order w)" "set (work_order w) \<subseteq> set (bt_keys w)"
    using order_kept [OF assms] by (simp_all add: kahn_inv_def)
  have keys: "card (set (bt_keys w)) = length w"
    using bt.keys_distinct [of w] assms distinct_card by (fastforce simp: workshop_ok_def bt_keys_def)
  show ?thesis
    using card_subset_eq [OF _ out(2)] distinct_card [OF out(1)] keys by auto
qed

lemma workshop_new_iff:
  assumes "\<And>c. c \<in> set cs \<Longrightarrow> distinct (nc_depends_on c)"
  shows "workshop_new cs = Inr w \<longleftrightarrow>
    enter_contracts cs [] = Inr w \<and> (\<forall>i. deps_of w i \<subseteq> set (bt_keys w)) \<and> acyclic (waits_on w)"
proof (cases "enter_contracts cs []")
  case (Inl e)
  then show ?thesis by (simp add: workshop_new_def)
next
  case (Inr v)
  note ok = entered(1) [OF Inr assms]
  have "set (work_order v) = set (bt_keys v) \<longleftrightarrow> acyclic (waits_on v)" if "\<forall>i. deps_of v i \<subseteq> set (bt_keys v)"
    using acyclic_all_out [OF order_kept [OF ok]] needs_first_acyclic that order_kept [OF ok]
    by (auto simp: kahn_inv_def)
  then show ?thesis
    using Inr missing_iff [OF ok] order_covers [OF ok]
    by (auto simp: workshop_new_def Let_def split: option.split)
qed

text \<open>Short of everything, something may start.\<close>

lemma some_ready:
  assumes ok: "workshop_ok w" and ac: "acyclic (waits_on w)" and closed: "\<And>i. deps_of w i \<subseteq> set (bt_keys w)"
    and short: "\<not> set (bt_keys w) \<subseteq> set finished"
  shows "workshop_ready w finished \<noteq> []"
proof -
  obtain j where "j \<in> set (bt_keys w) - set finished" using short by blast
  then obtain i where i: "i \<in> set (bt_keys w) - set finished"
      and least: "\<And>d. (d, i) \<in> (waits_on w)\<inverse> \<Longrightarrow> d \<notin> set (bt_keys w) - set finished"
    using wfE_min [OF finite_acyclic_wf_converse [OF finite_waits ac]] by metis
  then obtain c where c: "bt_get w i = Some c" by (auto simp: bt_keys_dom)
  then have "set (nc_depends_on c) \<subseteq> set finished"
    using least closed [of i] by (auto simp: waits_on_def deps_of_def)
  moreover have "c \<in> set (bt_values w)" "nc_id c = i"
    using c workshop_values [OF ok] workshop_id [OF ok] by blast+
  ultimately show ?thesis
    using i by (auto simp: workshop_ready_def filter_empty_conv list_all_iff)
qed

lemma workshop_accepts_iff:
  assumes "\<And>c. c \<in> set cs \<Longrightarrow> distinct (nc_depends_on c)"
  shows "(\<exists>w. workshop_new cs = Inr w) \<longleftrightarrow>
    distinct (map nc_id cs) \<and> (\<forall>c \<in> set cs. set (nc_depends_on c) \<subseteq> nc_id ` set cs) \<and>
    acyclic {(nc_id c, d) | c d. c \<in> set cs \<and> d \<in> set (nc_depends_on c)}"
proof -
  have "(\<forall>i. deps_of w i \<subseteq> set (bt_keys w)) \<longleftrightarrow> (\<forall>c \<in> set cs. set (nc_depends_on c) \<subseteq> nc_id ` set cs)"
    if "enter_contracts cs [] = Inr w" for w
    using entered(2) [OF that assms] entered(3) [OF that assms]
    by (simp add: deps_of_def split: option.split) blast
  then have "workshop_new cs = Inr w \<longleftrightarrow> enter_contracts cs [] = Inr w \<and>
      (\<forall>c \<in> set cs. set (nc_depends_on c) \<subseteq> nc_id ` set cs) \<and>
      acyclic {(nc_id c, d) | c d. c \<in> set cs \<and> d \<in> set (nc_depends_on c)}" for w
    using entered(4) [OF _ assms] by (metis (no_types, lifting) workshop_new_iff [OF assms])
  then have "(\<exists>w. workshop_new cs = Inr w) \<longleftrightarrow> (\<exists>w. enter_contracts cs [] = Inr w) \<and>
      (\<forall>c \<in> set cs. set (nc_depends_on c) \<subseteq> nc_id ` set cs) \<and>
      acyclic {(nc_id c, d) | c d. c \<in> set cs \<and> d \<in> set (nc_depends_on c)}"
    by blast
  also have "(\<exists>w. enter_contracts cs [] = Inr w) \<longleftrightarrow> distinct (map nc_id cs)"
    by (simp add: enter_iff bt_get_def)
  finally show ?thesis .
qed

lemma workshop_finishes:
  assumes "\<And>c. c \<in> set cs \<Longrightarrow> distinct (nc_depends_on c)" "workshop_new cs = Inr w"
  shows "mset (work_order w) = mset (map nc_id cs)" "needs_first w (work_order w)"
    "\<not> nc_id ` set cs \<subseteq> set finished \<Longrightarrow> workshop_ready w finished \<noteq> []"
proof -
  have e: "enter_contracts cs [] = Inr w" and closed: "\<And>i. deps_of w i \<subseteq> set (bt_keys w)" and ac: "acyclic (waits_on w)"
    using assms by (simp_all add: workshop_new_iff)
  note ok = entered(1) [OF e assms(1)]
  have inv: "kahn_inv w [] (work_order w)" by (rule order_kept [OF ok])
  have "set (work_order w) = set (map nc_id cs)"
    using acyclic_all_out [OF inv closed ac] entered(3) [OF e assms(1)] by simp
  moreover have "distinct (map nc_id cs)" using e by (simp add: enter_iff)
  ultimately show "mset (work_order w) = mset (map nc_id cs)"
    using inv by (meson kahn_inv_def set_eq_iff_mset_eq_distinct)
  show "needs_first w (work_order w)" using inv by (simp add: kahn_inv_def)
  show "workshop_ready w finished \<noteq> []" if "\<not> nc_id ` set cs \<subseteq> set finished"
    using some_ready [OF ok ac closed] that entered(3) [OF e assms(1)] by simp
qed

text \<open>
  The queue is first in, first out, so a node that comes free waits behind later ids that were free
  before it: with \<open>a\<close> and \<open>z\<close> free from the start and \<open>b\<close> waiting on \<open>a\<close>, \<open>z\<close> runs before \<open>b\<close>.
\<close>

lemma ties_go_to_the_queue:
  "work_order
     [(WorkNode ''a'', c\<lparr>nc_depends_on := []\<rparr>), (WorkNode ''b'', c\<lparr>nc_depends_on := [WorkNode ''a'']\<rparr>),
      (WorkNode ''z'', c\<lparr>nc_depends_on := []\<rparr>)] =
   [WorkNode ''a'', WorkNode ''z'', WorkNode ''b'']"
  by (simp add: work_order_def Let_def freed_by_def lower_count_def depends_on_def bt_get_def eval_nat_numeral)

end
