(* ===== verification/Fan_Ins.thy ===== *)
theory Fan_Ins
  imports Workshops Locators
begin

text \<open>
  Where branches come back together: claims, artifacts and the judged join
  (\<open>src/crates/collab/src/fanin.rs\<close>), requests to merge (\<open>pr.rs\<close>), what a run is told about work it
  handed down (\<open>handback.rs\<close>), and the reading of that signal into a room's join
  (\<open>src/crates/sprawling/src/assembly/folds.rs\<close>).
\<close>

section \<open>Claims and artifacts\<close>

definition witness_len :: nat where
  "witness_len = 8"

record work_claim =
  wc_node :: work_node
  wc_at :: locator
  wc_digest :: b3_hash
  wc_by :: string

record work_artifact =
  wa_claim :: work_claim
  wa_verified_by :: string

definition claim_verified :: "work_claim \<Rightarrow> bool \<Rightarrow> string \<Rightarrow> (ax_error, work_artifact) result" where
  "claim_verified c done_check_passed verifier =
     (if verifier = wc_by c
      then Inl (with_recovery
             (''have another resident run the done check; a producer's own verdict on its '' @
              ''own work is not verification'')
             (failure EvidenceMissing ''verify a node result'' (work_str (wc_node c) @ '' verified by its own producer'')))
      else if \<not> done_check_passed
      then Inl (with_recovery
             ''fix the result until the node's own done check passes, then verify''
             (failure EvidenceMissing ''verify a node result'' (work_str (wc_node c) @ '': the done check did not pass'')))
      else Inr \<lparr>wa_claim = c, wa_verified_by = verifier\<rparr>)"

definition artifact_witness :: "work_artifact \<Rightarrow> string" where
  "artifact_witness a = take witness_len (b3_str (wc_digest (wa_claim a)))"

section \<open>The join\<close>

type_synonym fan_in = "(work_node, work_artifact) btree"

definition join_accept :: "work_artifact \<Rightarrow> fan_in \<Rightarrow> fan_in" where
  "join_accept a j = bt_insert (wc_node (wa_claim a)) a j"

record private_question =
  pq_node :: work_node
  pq_prompt :: string

definition join_question :: "fan_in \<Rightarrow> (ax_error, private_question) result" where
  "join_question j =
     (case j of
        [] \<Rightarrow> Inl (with_recovery ''verify at least one node's result before judging the join''
               (failure EvidenceMissing ''pose the fan-in question'' ''no artifacts''))
      | (node, a) # _ \<Rightarrow>
          Inr \<lparr>pq_node = node,
               pq_prompt = ''before judging: give the first '' @ dec_of witness_len @
                 '' characters of the content digest of node '' @ work_str node @ '''s artifact at '' @
                 locator_str (wc_at (wa_claim a))\<rparr>)"

definition join_decide :: "string \<Rightarrow> fan_in \<Rightarrow> (ax_error, work_node list) result" where
  "join_decide answer j =
     bind_r (join_question j) (\<lambda>q.
       let expected = (case bt_get j (pq_node q) of None \<Rightarrow> [] | Some a \<Rightarrow> artifact_witness a) in
       if to_ascii_lowercase (trim answer) \<noteq> expected
       then Inl (with_recovery ''open the artifact and read it; the question is answerable only from its content''
              (failure EvidenceMissing ''judge a fan-in'' (''the answer for node '' @ work_str (pq_node q) @ '' does not match'')))
       else Inr (bt_keys j))"

section \<open>Requests to merge\<close>

record 's pull_request =
  pr_node :: work_node
  pr_implementer :: string
  pr_branch :: string
  pr_state :: 's

record verified_state =
  vs_by :: string

record merged_state =
  ms_by :: string
  ms_commit :: string

definition pr_open :: "work_node \<Rightarrow> string \<Rightarrow> string \<Rightarrow> (ax_error, unit pull_request) result" where
  "pr_open node implementer branch =
     (if trim implementer = []
      then Inl (with_recovery ''name the implementer; this flow exists to keep them out of their own review''
             (failure InvalidArgs ''open a pull request'' (work_str node)))
      else Inr \<lparr>pr_node = node, pr_implementer = implementer, pr_branch = branch, pr_state = ()\<rparr>)"

definition pr_verified :: "work_artifact \<Rightarrow> unit pull_request \<Rightarrow> (ax_error, verified_state pull_request) result" where
  "pr_verified a pr =
     (if wc_node (wa_claim a) \<noteq> pr_node pr
      then Inl (with_recovery ''verify the node this request is for''
             (failure EvidenceMissing ''verify a pull request''
               (''the artifact is for node '' @ work_str (wc_node (wa_claim a)) @ '', the request is for '' @ work_str (pr_node pr))))
      else if wa_verified_by a = pr_implementer pr
      then Inl (with_recovery ''have a test resident run the done check''
             (failure EvidenceMissing ''verify a pull request'' (pr_implementer pr @ '' verified their own work'')))
      else Inr \<lparr>pr_node = pr_node pr, pr_implementer = pr_implementer pr, pr_branch = pr_branch pr,
               pr_state = \<lparr>vs_by = wa_verified_by a\<rparr>\<rparr>)"

definition pr_merged :: "string \<Rightarrow> verified_state pull_request \<Rightarrow> merged_state pull_request" where
  "pr_merged commit pr =
     \<lparr>pr_node = pr_node pr, pr_implementer = pr_implementer pr, pr_branch = pr_branch pr,
      pr_state = \<lparr>ms_by = vs_by (pr_state pr), ms_commit = commit\<rparr>\<rparr>"

definition pr_record :: "'s pull_request \<Rightarrow> (string \<times> json) list" where
  "pr_record pr =
     [(''node'', jstr (work_str (pr_node pr))), (''implementer'', jstr (pr_implementer pr)), (''branch'', jstr (pr_branch pr))]"

definition rejected_payload :: "unit pull_request \<Rightarrow> string \<Rightarrow> string \<Rightarrow> (ax_error, payload) result" where
  "rejected_payload pr by_whom why = payload_new (obj (pr_record pr @ [(''by'', jstr by_whom), (''why'', jstr why)]))"

definition opened_payload :: "unit pull_request \<Rightarrow> (ax_error, payload) result" where
  "opened_payload pr = payload_new (obj (pr_record pr))"

definition merged_payload :: "merged_state pull_request \<Rightarrow> (ax_error, payload) result" where
  "merged_payload pr = payload_new (obj (pr_record pr @
     [(''verified_by'', jstr (ms_by (pr_state pr))), (''commit'', jstr (ms_commit (pr_state pr)))]))"

section \<open>Handing work back\<close>

datatype handback = HandFinished work_artifact | HandStopped work_claim string

definition handback_of :: "work_claim \<Rightarrow> bool \<Rightarrow> string \<Rightarrow> handback" where
  "handback_of c done_check_passed verifier =
     (case claim_verified c done_check_passed verifier of
        Inr a \<Rightarrow> HandFinished a
      | Inl e \<Rightarrow> HandStopped c (show_error e))"

definition handback_claim :: "handback \<Rightarrow> work_claim" where
  "handback_claim h = (case h of HandFinished a \<Rightarrow> wa_claim a | HandStopped c _ \<Rightarrow> c)"

definition handback_fields :: "handback \<Rightarrow> (string \<times> json) list" where
  "handback_fields h =
     [(''handback'', jstr (case h of HandFinished _ \<Rightarrow> ''finished'' | HandStopped _ _ \<Rightarrow> ''stopped'')),
      (''room'', jstr (work_str (wc_node (handback_claim h))))] @
     (case h of
        HandFinished a \<Rightarrow>
          [(''at'', jstr (locator_str (wc_at (wa_claim a)))), (''verified_by'', jstr (wa_verified_by a)),
           (''text'', jstr (wc_by (wa_claim a) @ '' finished the work you handed down; its account is pinned at '' @
              locator_str (wc_at (wa_claim a))))]
      | HandStopped c because \<Rightarrow>
          [(''at'', jstr (locator_str (wc_at c))), (''because'', jstr because),
           (''text'', jstr (wc_by c @ '' did not finish the work you handed down: '' @ because))])"

definition handback_signal :: "handback \<Rightarrow> signal_id \<Rightarrow> address \<Rightarrow> time_ms \<Rightarrow> (ax_error, signal) result" where
  "handback_signal h i to t =
     bind_r (payload_new (obj (handback_fields h))) (\<lambda>data.
       signal_new i Thread (wc_by (handback_claim h)) to (Version 1) data t)"

text \<open>The reading of a handback signal into an artifact; what does not read is no artifact.\<close>

definition artifact_of_signal :: "(string \<Rightarrow> string) \<Rightarrow> signal \<Rightarrow> work_artifact option" where
  "artifact_of_signal debug s =
     (let body = payload_fields (sg_payload s) in
      if Option.bind (bt_get body ''handback'') as_string \<noteq> Some ''finished'' then None
      else
        (case Option.bind (bt_get body ''room'') as_string of
           None \<Rightarrow> None
         | Some room \<Rightarrow>
        (case work_node_parse debug room of
           Inl _ \<Rightarrow> None
         | Inr node \<Rightarrow>
        (case Option.bind (bt_get body ''at'') as_string of
           None \<Rightarrow> None
         | Some raw \<Rightarrow>
        (case locator_parse raw of
           Inr (Cas hash r) \<Rightarrow>
             (case Option.bind (bt_get body ''verified_by'') as_string of
                None \<Rightarrow> None
              | Some verified_by \<Rightarrow>
                  (case claim_verified \<lparr>wc_node = node, wc_at = Cas hash r, wc_digest = hash, wc_by = sg_from s\<rparr>
                          True verified_by of
                     Inr a \<Rightarrow> Some a
                   | Inl _ \<Rightarrow> None))
         | _ \<Rightarrow> None)))))"

text \<open>The joins of every room: kept live as signals are delivered, and folded from a history.\<close>

definition join_signal :: "(string \<Rightarrow> string) \<Rightarrow> signal \<Rightarrow> (address, fan_in) btree \<Rightarrow> (address, fan_in) btree" where
  "join_signal debug s joins =
     (case artifact_of_signal debug s of
        None \<Rightarrow> joins
      | Some a \<Rightarrow> bt_insert (sg_room s) (join_accept a (unwrap_or [] (bt_get joins (sg_room s)))) joins)"

fun read_signals :: "(string \<Rightarrow> string) \<Rightarrow> payload list \<Rightarrow> (ax_error, signal list) result" where
  "read_signals debug [] = Inr []"
| "read_signals debug (p # ps) = bind_r (from_payload debug p) (\<lambda>s. bind_r (read_signals debug ps) (\<lambda>ss. Inr (s # ss)))"

definition settle_joins :: "(string \<Rightarrow> string) \<Rightarrow> payload list \<Rightarrow> (ax_error, (address, fan_in) btree) result" where
  "settle_joins debug records =
     bind_r (read_signals debug records) (\<lambda>ss. Inr (fold (join_signal debug) ss []))"

section \<open>The question gives its answer away\<close>

lemma hex_plain: "c \<in> set (write_hex bs) \<Longrightarrow> solid c \<and> ascii_lower c = c"
  using write_hex_chars [of c bs] by (auto simp: nibble_def solid_def ascii_lower_def Let_def split: if_splits)

lemma witness_plain: "to_ascii_lowercase (trim (artifact_witness a)) = artifact_witness a"
proof -
  have plain: "solid c \<and> ascii_lower c = c" if "c \<in> set (artifact_witness a)" for c
    using that hex_plain in_set_takeD unfolding artifact_witness_def b3_str_def by metis
  have "trim (artifact_witness a) = artifact_witness a"
  proof (cases "artifact_witness a = []")
    case False
    then show ?thesis using plain hd_in_set last_in_set by (intro trim_solid) auto
  qed simp
  then show ?thesis using plain by (simp add: to_ascii_lowercase_def map_idI)
qed

lemma decide_iff:
  "join_decide answer j = Inr nodes \<longleftrightarrow>
     j \<noteq> [] \<and> to_ascii_lowercase (trim answer) = artifact_witness (snd (hd j)) \<and> nodes = bt_keys j"
proof (cases j)
  case Nil
  then show ?thesis by (simp add: join_decide_def join_question_def)
next
  case (Cons e rest)
  then show ?thesis by (cases e) (auto simp: join_decide_def join_question_def Let_def bt_get_def)
qed

text \<open>
  The city pins every account it hands back in the content-addressed store, so the place the
  question names is the digest it asks for: the answer stands in the question.
\<close>

lemma question_holds_answer:
  assumes "j = (node, a) # rest" "wc_at (wa_claim a) = Cas (wc_digest (wa_claim a)) r"
  shows "\<exists>q before after. join_question j = Inr q \<and>
    pq_prompt q = before @ ''cas:b3-'' @ artifact_witness a @ after \<and>
    join_decide (artifact_witness a) j = Inr (bt_keys j)"
proof -
  let ?hex = "b3_str (wc_digest (wa_claim a))"
  have "?hex = artifact_witness a @ drop witness_len ?hex" by (simp add: artifact_witness_def)
  then have at: "locator_str (wc_at (wa_claim a)) = ''cas:b3-'' @ artifact_witness a @ drop witness_len ?hex @ write_range r"
    using assms(2) by (metis append.assoc locator_str.simps(1))
  obtain q asks where q: "join_question j = Inr q" "pq_prompt q = asks @ locator_str (wc_at (wa_claim a))"
  proof
    show "join_question j = Inr (case join_question j of Inr q \<Rightarrow> q)" using assms(1) by (simp add: join_question_def)
    show "pq_prompt (case join_question j of Inr q \<Rightarrow> q) =
      (''before judging: give the first '' @ dec_of witness_len @
       '' characters of the content digest of node '' @ work_str node @ CHR 0x27 # ''s artifact at '') @
       locator_str (wc_at (wa_claim a))"
      using assms(1) by (simp add: join_question_def)
  qed
  have "join_decide (artifact_witness a) j = Inr (bt_keys j)"
    using assms(1) witness_plain by (simp add: decide_iff)
  then show ?thesis
    using q at by (intro exI [of _ q] exI [of _ asks] exI [of _ "drop witness_len ?hex @ write_range r"]) simp
qed

section \<open>What comes back is what was handed down\<close>

definition claim_ok :: "work_claim \<Rightarrow> bool" where
  "claim_ok c \<longleftrightarrow> wc_at c = Cas (wc_digest c) None \<and> length (hash_bytes (wc_digest c)) = 32 \<and>
     work_str (wc_node c) \<noteq> [] \<and> \<not> has_whitespace (work_str (wc_node c))"

text \<open>A room is told of some work: its claim, whether the check passed, and the signal.\<close>

definition tells_room :: "string \<Rightarrow> address \<times> work_claim \<times> bool \<Rightarrow> signal \<Rightarrow> bool" where
  "tells_room verifier w s \<longleftrightarrow>
     (case w of (room, c, passed) \<Rightarrow>
        claim_ok c \<and> signal_ok s \<and> (\<exists>i t. handback_signal (handback_of c passed verifier) i room t = Inr s))"

lemma claim_verified_iff:
  "claim_verified c passed verifier = Inr a \<longleftrightarrow>
     verifier \<noteq> wc_by c \<and> passed \<and> a = \<lparr>wa_claim = c, wa_verified_by = verifier\<rparr>"
  by (auto simp: claim_verified_def)

lemma told_signal:
  assumes "tells_room verifier (room, c, passed) s"
  shows "sg_room s = room" "sg_from s = wc_by c"
    "payload_fields (sg_payload s) = obj (handback_fields (handback_of c passed verifier))"
proof -
  have by_claim: "handback_claim (handback_of c passed verifier) = c"
    by (auto simp: handback_of_def handback_claim_def claim_verified_iff split: sum.split)
  obtain i t where "handback_signal (handback_of c passed verifier) i room t = Inr s"
    using assms by (auto simp: tells_room_def)
  then obtain data where "payload_new (obj (handback_fields (handback_of c passed verifier))) = Inr data"
    and "signal_new i Thread (wc_by c) room (Version 1) data t = Inr s"
    by (auto simp: handback_signal_def bind_r_Inr_iff by_claim)
  then show "sg_room s = room" "sg_from s = wc_by c"
    "payload_fields (sg_payload s) = obj (handback_fields (handback_of c passed verifier))"
    unfolding payload_new_ok by (auto simp: signal_new_def split: if_splits)
qed

lemma told_artifact:
  assumes "tells_room verifier (room, c, passed) s"
  shows "artifact_of_signal debug s =
    (if passed \<and> verifier \<noteq> wc_by c then Some \<lparr>wa_claim = c, wa_verified_by = verifier\<rparr> else None)"
proof -
  have ok: "claim_ok c" using assms by (simp add: tells_room_def)
  note told = told_signal [OF assms]
  show ?thesis
  proof (cases "passed \<and> verifier \<noteq> wc_by c")
    case True
    then have h: "handback_of c passed verifier = HandFinished \<lparr>wa_claim = c, wa_verified_by = verifier\<rparr>"
      by (simp add: handback_of_def claim_verified_def)
    have body: "payload_fields (sg_payload s) = obj (handback_fields (HandFinished \<lparr>wa_claim = c, wa_verified_by = verifier\<rparr>))"
      using told(3) unfolding h .
    have "locator_parse (locator_str (wc_at c)) = Inr (Cas (wc_digest c) None)"
      using ok locator.parse_spell [of "wc_at c"] by (simp add: claim_ok_def)
    moreover have "work_node_parse debug (work_str (wc_node c)) = Inr (wc_node c)"
      using ok by (simp add: work_node_parse_def claim_ok_def)
    moreover have "\<lparr>wc_node = wc_node c, wc_at = Cas (wc_digest c) None, wc_digest = wc_digest c, wc_by = wc_by c\<rparr> = c"
      using ok by (simp add: claim_ok_def)
    ultimately show ?thesis
      using True by (simp add: artifact_of_signal_def told(2) body handback_fields_def handback_claim_def obj_get Let_def
          claim_verified_def)
  next
    case False
    then obtain e where h: "handback_of c passed verifier = HandStopped c e"
      using claim_verified_iff [of c passed verifier]
      by (cases "claim_verified c passed verifier") (auto simp: handback_of_def)
    have "payload_fields (sg_payload s) = obj (handback_fields (HandStopped c e))" using told(3) unfolding h .
    then show ?thesis
      using False by (simp add: artifact_of_signal_def handback_fields_def obj_get Let_def)
  qed
qed

definition room_holds :: "(address, fan_in) btree \<Rightarrow> address \<Rightarrow> work_node \<Rightarrow> work_artifact option" where
  "room_holds joins room node = Option.bind (bt_get joins room) (\<lambda>j. bt_get j node)"

lemma join_signal_holds:
  "room_holds (join_signal debug s joins) room node =
     (case artifact_of_signal debug s of
        Some a \<Rightarrow> if room = sg_room s \<and> node = wc_node (wa_claim a) then Some a else room_holds joins room node
      | None \<Rightarrow> room_holds joins room node)"
  by (cases "bt_get joins (sg_room s)")
    (auto simp: join_signal_def room_holds_def bt_get_insert join_accept_def bt_get_def [of "[]"] simp del: bt_insert.simps
      split: option.split)

text \<open>A room's join holds, for each node, the last work on it that passed under another's eye.\<close>

definition settles_node :: "string \<Rightarrow> address \<Rightarrow> work_node \<Rightarrow> address \<times> work_claim \<times> bool \<Rightarrow> bool" where
  "settles_node verifier room node w =
     (case w of (r, c, passed) \<Rightarrow> r = room \<and> wc_node c = node \<and> passed \<and> verifier \<noteq> wc_by c)"

lemma joins_hold_last:
  assumes "list_all2 (tells_room verifier) works signals"
  shows "room_holds (fold (join_signal debug) signals []) room node = Some a \<longleftrightarrow>
    wa_verified_by a = verifier \<and> settles_node verifier room node (room, wa_claim a, True) \<and>
    stands (room, wa_claim a, True) (settles_node verifier room node) works"
  using assms
proof (induction works arbitrary: signals rule: rev_induct)
  case Nil
  then show ?case by (simp add: room_holds_def bt_get_def)
next
  case (snoc w works)
  then obtain ss s where s: "signals = ss @ [s]" "list_all2 (tells_room verifier) works ss" "tells_room verifier w s"
    by (auto simp: list_all2_append1 list_all2_Cons1)
  obtain r c passed where w: "w = (r, c, passed)" by (cases w)
  have told: "tells_room verifier (r, c, passed) s" using s(3) w by simp
  show ?case
    using snoc.IH [OF s(2)]
    by (cases a)
      (auto simp: s(1) join_signal_holds told_artifact [OF told] told_signal(1) [OF told] w settles_node_def)
qed

text \<open>A restart reads the same joins out of the records.\<close>

lemma settle_reads_back:
  "list_all2 (\<lambda>s p. signal_ok s \<and> enqueued_payload s = Inr p) signals records \<Longrightarrow>
   settle_joins debug records = Inr (fold (join_signal debug) signals [])"
proof -
  assume "list_all2 (\<lambda>s p. signal_ok s \<and> enqueued_payload s = Inr p) signals records"
  then have "read_signals debug records = Inr signals"
  proof (induction rule: list_all2_induct)
    case (Cons s ss p ps)
    then have "from_payload debug p = Inr s" using enqueued_reads_back [of s debug] by auto
    with Cons show ?case by simp
  qed simp
  then show ?thesis by (simp add: settle_joins_def)
qed

text \<open>A merged request was verified by somebody who neither asked for it nor did the work.\<close>

lemma merged_was_verified:
  assumes "pr_open node implementer branch = Inr pr" "claim_verified c passed verifier = Inr a" "pr_verified a pr = Inr v"
  shows "vs_by (pr_state v) = verifier" "verifier \<noteq> implementer" "verifier \<noteq> wc_by c" "wc_node c = node" "passed"
    "ms_by (pr_state (pr_merged commit v)) = verifier"
  using assms by (auto simp: pr_open_def pr_verified_def claim_verified_iff pr_merged_def split: if_splits)

lemma handed_work_reads_back:
  assumes "list_all2 (tells_room verifier) works signals" "list_all2 (\<lambda>s p. enqueued_payload s = Inr p) signals records"
  shows "settle_joins debug records = Inr (fold (join_signal debug) signals [])"
proof (rule settle_reads_back)
  have "signal_ok s" if "tells_room verifier w s" for w s using that by (cases w) (simp add: tells_room_def)
  then show "list_all2 (\<lambda>s p. signal_ok s \<and> enqueued_payload s = Inr p) signals records"
    using assms unfolding list_all2_conv_all_nth by metis
qed

text \<open>
  A session may be named by a phrase, so a room's address may hold a space; it is then no node,
  and the work done in it cannot be handed back.
\<close>

lemma spaced_room_is_no_node:
  "is_ok (session_parse ''my task'')" "is_ok (address_parse ''lab/my task'')"
  "\<not> is_ok (work_node_parse debug ''lab/my task'')"
proof -
  show "is_ok (session_parse ''my task'')" "is_ok (address_parse ''lab/my task'')" by code_simp+
  have "has_whitespace ''lab/my task''" by code_simp
  then show "\<not> is_ok (work_node_parse debug ''lab/my task'')" by (simp add: work_node_parse_def)
qed

end
