(* ===== verification/Report_Samples.thy ===== *)
theory Report_Samples
  imports Inboxes Draft_Desks Schedules Packages Price_Sheets Triages Assets Watchdogs Dialects Fan_Ins
begin

text \<open>A signal, a delivery of it, and an author whose room moves while drafts are held.\<close>

definition demo_mention :: signal where
  "demo_mention = \<lparr>sg_id = SignalId ''s1'', sg_kind = Mention, sg_from = ''a'', sg_room = Address ''lab'',
     sg_room_version = Version 1, sg_payload = payload_empty, sg_at = 5\<rparr>"

lemma demo_mention_ok: "signal_ok demo_mention"
proof -
  have "\<not> has_whitespace ''s1''" by code_simp
  then show ?thesis
    by (simp add: signal_ok_def demo_mention_def signal_id_ok_def address_ok_def segs_def seg_ok_def backslash_def
        payload_empty_def u64_max_def)
qed

lemma demo_inbox_room: "0 < ids_left (line_queue (inbox_new 4 2) l)"
  by (cases l) (simp_all add: inbox_new_def line_queue_def ids_left_def queue_new_def u64_max_def)

definition demo_draft_of :: "u64 \<Rightarrow> draft" where
  "demo_draft_of v = \<lparr>draft_author = ''a'', draft_room = Address ''lab'', draft_seen = Version v, draft_body = payload_empty\<rparr>"

text \<open>The third hold in a row goes to a person, and its author forces the draft in the same turn.\<close>

lemma escalation_is_bypassed:
  "let d = demo_draft_of 1; ops = [Submitted d (Version 2) 7, Answered d SendAsIs (Version 2) 7];
       (s, st) = submit d (Version 2) 7 (desk_after ops) in
   s = SubEscalated 3 \<and> fst (resolve d ForceInformed (Version 2) 7 st) = ResDelivered"
  by code_simp

text \<open>A schedule of one job, and a store with an environment beside it.\<close>

definition sweep_row :: job_row where
  "sweep_row = \<lparr>job_name = ''sweep'', job_addr = ''lab'', job_task = ''sweep'', job_goal = ''swept'',
     job_every = Some ''15m'', job_daily = None, job_weekly = None\<rparr>"

definition sweep_entry :: job_entry where
  "sweep_entry = \<lparr>entry_name = ''sweep'', entry_addr = Address ''lab'', entry_task = ''sweep'', entry_goal = ''swept'',
     entry_cadence = EveryMinutes 15\<rparr>"

lemma sweep_parses: "schedule_parse (\<lambda>_. Inr [sweep_row]) (\<lambda>s. s) [] = Inr [sweep_entry]"
proof -
  have "trim ''15'' = ''15''" by code_simp
  then have p: "parse_u64 (trim ''15'') = Some 15"
    by (simp add: parse_u64_def parse_unsigned_def strip_prefix_def is_digit_def dec_val_def digit_val_def u64_max_def)
  have m: "strip_suffix ''m'' ''15m'' = Some ''15''" by code_simp
  have "read_every (\<lambda>s. s) ''15m'' = Inr (EveryMinutes 15)"
    unfolding read_every_def m option.case bind_r_simps prod.case p by (simp add: saturating_mul_def)
  moreover have "address_parse ''lab'' = Inr (Address ''lab'')" by code_simp
  ultimately show ?thesis
    by (simp add: schedule_parse_def sweep_row_def sweep_entry_def read_cadence_def)
qed

definition demo_hasher :: hasher where
  "demo_hasher b = B3Hash (replicate 32 0)"

definition demo_disk :: disk where
  "demo_disk = \<lparr>files = [], dirs = [], op = 0, plan = \<lparr>cut_at_op = None, cut_on_write = None, torn = NoTear\<rparr>\<rparr>"

definition demo_env :: env_dir where
  "demo_env = \<lparr>env_files = Map.empty, env_script = []\<rparr>"

definition demo_site :: offload_site where
  "demo_site = \<lparr>site_cas = \<lparr>cas_dir = []\<rparr>, site_environment = []\<rparr>"

lemma demo_disk_ok: "holds_view demo_hasher [] Map.empty (files demo_disk)" "quiet (plan demo_disk)"
  by (simp_all add: demo_disk_def holds_view_def cas_sound_def cas_view_def bt_get_def quiet_def fun_eq_iff)

lemma demo_offload:
  obtains r d env where
    "offload demo_hasher (replicate 300 CHR ''y'') 200 \<lparr>site_cas = \<lparr>cas_dir = []\<rparr>, site_environment = []\<rparr> (demo_disk, demo_env) = (Inr r, (d, env))"
proof -
  let ?l = "Cas (demo_hasher (replicate 300 CHR ''y'')) None"
  have l: "length (rest_file_name ?l) \<le> 25"
    using length_filter_le [of alphanumeric "rev (take 16 (rev (locator_str ?l)))"]
    by (simp add: rest_file_name_def)
  have "length (dec_of 300) = 3" by code_simp
  then have "length (hint_line 300 (join_path [] (rest_file_name ?l)) ?l) \<le> 200"
    using l by (simp add: hint_line_def join_path_def display_def b3_str_def length_write_hex demo_hasher_def write_range_def)
  then have "\<exists>r d' env'. offload demo_hasher (replicate 300 CHR ''y'') 200
      \<lparr>site_cas = \<lparr>cas_dir = []\<rparr>, site_environment = []\<rparr> (demo_disk, demo_env) = (Inr r, (d', env')) \<and> quiet (plan d')"
    by (intro offload_runs [OF demo_disk_ok, where n = 300]) (simp_all add: demo_env_def demo_hasher_def)
  then show thesis using that by blast
qed

text \<open>An answer of one text, streamed in two pieces over each wire; an endpoint on this machine.\<close>

definition hello_response :: chat_response where
  "hello_response = \<lparr>resp_content = [TextBlock ''hello''], resp_stop = EndTurn,
     resp_usage = \<lparr>input_tokens = Tokens 3, output_tokens = Tokens 1, cache_read_tokens = Tokens 0, cache_write_tokens = Tokens 0\<rparr>\<rparr>"

definition hello_frames :: "json list" where
  "hello_frames = stream_of hello_response (Tokens 0)
     [Opens 0 (TextBlock []), Grows 0 (TextDelta ''hel''), Grows 0 (TextDelta ''lo''), Closes 0]"

lemma hello_streams: "streamed_as jread AnthropicDialect hello_response hello_frames"
proof -
  have "streams jread hello_response [Opens 0 (TextBlock []), Grows 0 (TextDelta ''hel''), Grows 0 (TextDelta ''lo''), Closes 0]"
    unfolding streams_def
    by (auto simp: hello_response_def u64_max_def intro: exI [of _ "[''hel'', ''lo'']"])
  then show ?thesis unfolding hello_frames_def by (rule as_anthropic)
qed

definition home_endpoint :: attached_endpoint where
  "home_endpoint = \<lparr>ae_name = ''home'', ae_base_url = ''http://127.0.0.1:11434/v1'', ae_dialect = OpenAiDialect,
     ae_auth = NoAuth, ae_models = [''m'']\<rparr>"

definition home_entry :: model_entry where
  "home_entry = \<lparr>me_id = ''m'', me_context_tokens = 8192, me_max_output_tokens = 1024, me_input_price = UsdMicros 0,
     me_output_price = UsdMicros 0, me_cache_read_price = UsdMicros 0, me_cache_write_price = UsdMicros 0\<rparr>"

definition home_facts :: "book_fact list" where
  "home_facts = [FactAttached home_endpoint, FactOther, FactSelected MainTag ''home'' home_entry]"

definition home_records :: "(event_kind \<times> payload) list" where
  "home_records =
     [(event_kind.EndpointAttached, Payload (obj (attached_fields home_endpoint))),
      (event_kind.RunStarted, Payload []),
      (event_kind.ModelSelected, Payload (obj (selected_fields MainTag ''home'' home_entry)))]"

definition demo_dialects :: dialect_reader where
  "demo_dialects v = (if v = jstr ''anthropic'' then Inr AnthropicDialect
     else if v = jstr ''open_ai'' then Inr OpenAiDialect else Inl ''unknown variant'')"

lemma demo_dialects_read: "reads_dialects demo_dialects"
proof -
  have "demo_dialects (jstr (dialect_str d)) = Inr d" for d
    by (cases d) (simp_all add: demo_dialects_def dialect_str_def jstr_def)
  then show ?thesis by (simp add: reads_dialects_def)
qed

lemma home_written: "list_all2 written_as home_facts home_records"
proof -
  have "attached_payload home_endpoint = Inr (Payload (obj (attached_fields home_endpoint)))"
    using payloads_form(1) [of home_endpoint] unfolding is_ok_iff attached_payload_def payload_new_ok by auto
  moreover have "selected_payload MainTag ''home'' home_entry = Inr (Payload (obj (selected_fields MainTag ''home'' home_entry)))"
    using payloads_form(2) [of MainTag "''home''" home_entry] unfolding is_ok_iff selected_payload_def payload_new_ok by auto
  ultimately show ?thesis
    by (simp add: home_facts_def home_records_def auth_ok_def auth_reference_def home_endpoint_def [THEN arg_cong, of ae_auth])
qed

lemma home_stands:
  "stands (FactSelected MainTag (ae_name home_endpoint) home_entry) (settles_tag MainTag (ae_name home_endpoint)) home_facts"
  "stands (FactAttached home_endpoint) (settles_name (ae_name home_endpoint)) home_facts"
  "is_local home_endpoint"
proof -
  have name: "ae_name home_endpoint = ''home''" by (simp add: home_endpoint_def)
  show "stands (FactSelected MainTag (ae_name home_endpoint) home_entry) (settles_tag MainTag (ae_name home_endpoint)) home_facts"
    unfolding stands_def name home_facts_def by (intro exI [of _ "[FactAttached home_endpoint, FactOther]"] exI [of _ "[]"]) simp
  show "stands (FactAttached home_endpoint) (settles_name (ae_name home_endpoint)) home_facts"
    unfolding stands_def name home_facts_def
    by (intro exI [of _ "[]"] exI [of _ "[FactOther, FactSelected MainTag ''home'' home_entry]"]) simp
  show "is_local home_endpoint"
    using loopback_reads_host [of "''http''" "''127.0.0.1''" "'':11434/v1''"] by (simp add: is_local_def home_endpoint_def)
qed

definition circle_contract :: "string \<Rightarrow> string \<Rightarrow> node_contract" where
  "circle_contract i need = \<lparr>nc_id = WorkNode i, nc_goal = ''g'', nc_depends_on = [WorkNode need], nc_reads = [],
     nc_write_domain = Address ''lab'', nc_owner = ''o'', nc_done_check = ''d'',
     nc_budget = \<lparr>cap_usd = UsdMicros 0, cap_tokens = Tokens 0\<rparr>, nc_stop = ''s''\<rparr>"

text \<open>Work done in one room and handed back to the room that asked.\<close>

definition room_claim :: work_claim where
  "room_claim = \<lparr>wc_node = WorkNode ''lab/room1'', wc_at = Cas (B3Hash (replicate 32 0)) None,
     wc_digest = B3Hash (replicate 32 0), wc_by = ''ann''\<rparr>"

lemma room_told: "\<exists>s p. tells_room ''city'' (Address ''lab'', room_claim, True) s \<and> enqueued_payload s = Inr p"
proof -
  let ?h = "handback_of room_claim True ''city''"
  let ?data = "Payload (obj (handback_fields ?h))"
  let ?s = "\<lparr>sg_id = SignalId ''h1'', sg_kind = Thread, sg_from = ''ann'', sg_room = Address ''lab'',
    sg_room_version = Version 1, sg_payload = ?data, sg_at = 0\<rparr>"
  have h: "?h = HandFinished \<lparr>wa_claim = room_claim, wa_verified_by = ''city''\<rparr>"
    unfolding handback_of_def claim_verified_def by (simp add: room_claim_def)
  have "\<forall>kv \<in> set (handback_fields ?h). float_free (snd kv)" unfolding h by (simp add: handback_fields_def)
  then have free: "float_free (JObject (obj (handback_fields ?h)))" by (rule obj_float_free)
  have "signal_new (SignalId ''h1'') Thread ''ann'' (Address ''lab'') (Version 1) ?data 0 = Inr ?s"
    by (simp add: signal_new_def)
  moreover have "payload_new (obj (handback_fields ?h)) = Inr ?data" using free by (simp only: payload_new_ok)
  moreover have "wc_by (handback_claim ?h) = ''ann''" unfolding h by (simp add: handback_claim_def room_claim_def)
  ultimately have "handback_signal ?h (SignalId ''h1'') (Address ''lab'') 0 = Inr ?s"
    by (simp add: handback_signal_def)
  moreover have "has_whitespace ''lab/room1'' = False" "has_whitespace ''h1'' = False" by code_simp+
  moreover have "address_ok (Address ''lab'')"
  proof -
    have "address_parse ''lab'' = Inr (Address ''lab'')" by code_simp
    then show ?thesis by (rule address.parse_valid)
  qed
  ultimately have told: "tells_room ''city'' (Address ''lab'', room_claim, True) ?s"
    using free by (auto simp: tells_room_def claim_ok_def room_claim_def signal_ok_def signal_id_ok_def)
  then have "signal_ok ?s" by (simp add: tells_room_def)
  then show ?thesis using told enqueued_reads_back [of ?s] by blast
qed

end
